(* ===== verification/Prelude.thy ===== *)
theory Prelude
  imports Main "HOL-Library.Word"
begin

text \<open>
  Shared vocabulary of the development: the machine integer types of the C++ sources, byte
  strings, the collections of rewrite rules the component theories fill, and lemmas on words and
  lists that more than one component uses.  Unsigned C++ integers are words of their width
  (arithmetic wraps as in C++); signed integers are \<open>int\<close>s, with the guards that keep them in
  range written out where the code has them.
\<close>

unbundle bit_operations_syntax

type_synonym u8 = "8 word"
type_synonym u16 = "16 word"
type_synonym u32 = "32 word"
type_synonym u64 = "64 word"

type_synonym bytes = "u8 list"

named_theorems value_simps \<open>numeric values of the multi-limb and byte-wise representations\<close>
named_theorems length_simps \<open>lengths of the results of the model's operations\<close>

section \<open>Words\<close>

lemma unat_bound: "unat (x :: 'a::len word) < 2 ^ LENGTH('a)"
  by (rule unsigned_less)

lemma unat_bound_u8: "unat (x :: u8) < 256"
  using unat_bound [of x] by simp

lemma unat_bound_u32: "unat (x :: u32) < 2 ^ 32"
  using unat_bound [of x] by simp

lemma unat_bound_u64: "unat (x :: u64) < 2 ^ 64"
  using unat_bound [of x] by simp

lemma unat_of_nat_u32: "n < 2 ^ 32 \<Longrightarrow> unat (of_nat n :: u32) = n"
  by (simp add: unsigned_of_nat take_bit_nat_eq_self)

lemma unat_ucast: "unat (ucast (x :: 'a::len word) :: 'b::len word) = unat x mod 2 ^ LENGTH('b)"
  by (simp add: unsigned_ucast_eq take_bit_eq_mod)

lemma ucast_ucast_small:
  fixes n :: "'a::len word"
  shows "unat n < 2 ^ LENGTH('b::len) \<Longrightarrow> ucast (ucast n :: 'b word) = n"
  using unat_bound [of n] by (intro word_unat_eq_iff [THEN iffD2]) (simp add: unat_ucast)

lemma unat_ucast_u32_u64 [value_simps]: "unat (ucast (x :: u32) :: u64) = unat x"
  using unat_bound_u32 [of x] by (simp add: unat_ucast)

lemma unat_low32 [value_simps]: "unat (ucast ((x :: u64) AND 0xffffffff) :: u32) = unat x mod 2 ^ 32"
proof -
  have "(0xffffffff :: u64) = mask 32" by (simp add: mask_eq_exp_minus_1)
  then have *: "x AND 0xffffffff = take_bit 32 x" by (simp only: take_bit_eq_mask)
  have "unat (take_bit 32 x) = unat x mod 2 ^ 32"
    by (rule trans [OF unsigned_take_bit_eq take_bit_eq_mod])
  then show ?thesis by (simp only: unat_ucast *) simp
qed

lemma unat_drop_bit [value_simps]: "unat (drop_bit n (x :: 'a::len word)) = unat x div 2 ^ n"
  by (rule trans [OF unat_drop_bit_eq drop_bit_eq_div])

lemma unat_push_bit: "unat (push_bit n (x :: 'a::len word)) = unat x * 2 ^ n mod 2 ^ LENGTH('a)"
  by (rule trans [OF unsigned_push_bit_eq]) (simp only: take_bit_eq_mod push_bit_eq_mult)

lemma unat_plus_no_overflow:
  fixes x y :: "'a::len word"
  shows "unat x + unat y < 2 ^ LENGTH('a) \<Longrightarrow> unat (x + y) = unat x + unat y"
  by (simp add: unat_word_ariths)

lemma unat_mult_no_overflow:
  fixes x y :: "'a::len word"
  shows "unat x * unat y < 2 ^ LENGTH('a) \<Longrightarrow> unat (x * y) = unat x * unat y"
  by (simp add: unat_word_ariths)

lemma unat_not: "unat (NOT (x :: 'a::len word)) = 2 ^ LENGTH('a) - 1 - unat x"
proof -
  have "unat (NOT x) = unat (- 1 - x)" by (simp add: not_eq_complement minus_diff_commute [of x])
  also have "\<dots> = unat (- 1 :: 'a word) - unat x" by (rule unat_sub) simp
  finally show ?thesis by (simp add: unsigned_minus_1_eq_mask mask_eq_exp_minus_1)
qed

lemma unat_u32_max: "unat (- 1 :: u32) = 2 ^ 32 - 1"
  by (simp add: unsigned_minus_1_eq_mask mask_eq_exp_minus_1)

lemma and_push_bit_1: "(x :: 'a::len word) AND push_bit n 1 = 0 \<longleftrightarrow> \<not> bit x n"
  by (simp add: and_exp_eq_0_iff_not_bit)

lemma bit_unat: "bit (unat (x :: 'a::len word)) n \<longleftrightarrow> bit x n"
  by (auto simp: bit_unsigned_iff dest: bit_imp_le_length)

section \<open>Positional arithmetic\<close>

lemma mod_limb_step: "N mod B + B * ((N div B + X) mod M) = (N + B * X) mod (B * M)" for N :: nat
proof (cases "B = 0")
  case False
  have "(N + B * X) mod (B * M) = B * ((N + B * X) div B mod M) + (N + B * X) mod B"
    by (rule mod_mult2_eq)
  with False show ?thesis by (simp add: add.commute)
qed simp

lemma mod_limb_low: "p < B \<Longrightarrow> p + B * (y mod M) = (p + B * y) mod (B * M)" for p :: nat
  using mod_limb_step [of p B y M] by simp

end
