(* ===== verification/Serialize.thy ===== *)
theory Serialize
  imports Prelude
begin

text \<open>
  The byte-level serialization of \<open>serialize.h\<close>: little-endian integers, compact sizes,
  variable-length integers, byte vectors and vectors of serializable elements.  A stream being
  written is the list of bytes appended; a stream being read is the list of bytes left, and a read
  returns the value and what is left, or the exception the C++ throws.  The locale \<open>codec\<close> is the
  contract every serializable type has with its users: what is written is read back, whatever
  follows it in the stream.
\<close>

datatype ser_error =
    EndOfData
  | NonCanonicalCompactSize
  | SizeTooLarge
  | VarIntTooLarge
  | UnknownTransactionOptionalData
  | TooManyUndoRecords

type_synonym 'a parser = "bytes \<Rightarrow> ser_error + ('a \<times> bytes)"

definition pbind :: "'a parser \<Rightarrow> ('a \<Rightarrow> 'b parser) \<Rightarrow> 'b parser" where
  "pbind p f s = (case p s of Inl e \<Rightarrow> Inl e | Inr (a, s') \<Rightarrow> f a s')"

definition preturn :: "'a \<Rightarrow> 'a parser" where
  "preturn a s = Inr (a, s)"

definition pfail :: "ser_error \<Rightarrow> 'a parser" where
  "pfail e s = Inl e"

text \<open>\<open>s.read(dst, n)\<close>: exactly \<open>n\<close> bytes, or the end-of-data exception.\<close>

definition read_bytes :: "nat \<Rightarrow> bytes parser" where
  "read_bytes n s = (if length s < n then Inl EndOfData else Inr (take n s, drop n s))"

section \<open>Little-endian integers\<close>

definition le_write :: "nat \<Rightarrow> 'a::len word \<Rightarrow> bytes" where
  "le_write n x = map (\<lambda>i. ucast (drop_bit (8 * i) x)) [0..<n]"

fun le_read :: "bytes \<Rightarrow> 'a::len word" where
  "le_read [] = 0"
| "le_read (b # bs) = ucast b OR push_bit 8 (le_read bs)"

definition WriteLE16 :: "u16 \<Rightarrow> bytes" where "WriteLE16 x = le_write 2 x"
definition WriteLE32 :: "u32 \<Rightarrow> bytes" where "WriteLE32 x = le_write 4 x"
definition WriteLE64 :: "u64 \<Rightarrow> bytes" where "WriteLE64 x = le_write 8 x"
definition ReadLE16 :: "bytes \<Rightarrow> u16" where "ReadLE16 p = le_read (take 2 p)"
definition ReadLE32 :: "bytes \<Rightarrow> u32" where "ReadLE32 p = le_read (take 4 p)"
definition ReadLE64 :: "bytes \<Rightarrow> u64" where "ReadLE64 p = le_read (take 8 p)"

definition ser_writedata8 :: "u8 \<Rightarrow> bytes" where "ser_writedata8 obj = [obj]"
definition ser_writedata16 :: "u16 \<Rightarrow> bytes" where "ser_writedata16 obj = le_write 2 obj"
definition ser_writedata32 :: "u32 \<Rightarrow> bytes" where "ser_writedata32 obj = le_write 4 obj"
definition ser_writedata64 :: "u64 \<Rightarrow> bytes" where "ser_writedata64 obj = le_write 8 obj"

definition ser_readdata8 :: "u8 parser" where
  "ser_readdata8 = pbind (read_bytes 1) (\<lambda>b. preturn (le_read b))"

definition ser_readdata16 :: "u16 parser" where
  "ser_readdata16 = pbind (read_bytes 2) (\<lambda>b. preturn (le_read b))"

definition ser_readdata32 :: "u32 parser" where
  "ser_readdata32 = pbind (read_bytes 4) (\<lambda>b. preturn (le_read b))"

definition ser_readdata64 :: "u64 parser" where
  "ser_readdata64 = pbind (read_bytes 8) (\<lambda>b. preturn (le_read b))"

section \<open>Compact sizes\<close>

definition MAX_SIZE :: nat where
  "MAX_SIZE = 0x02000000"

definition GetSizeOfCompactSize :: "u64 \<Rightarrow> nat" where
  "GetSizeOfCompactSize nSize =
     (if nSize < 253 then 1
      else if nSize \<le> 0xffff then 1 + 2
      else if nSize \<le> 0xffffffff then 1 + 4
      else 1 + 8)"

definition WriteCompactSize :: "u64 \<Rightarrow> bytes" where
  "WriteCompactSize nSize =
     (if nSize < 253 then ser_writedata8 (ucast nSize)
      else if nSize \<le> 0xffff then ser_writedata8 253 @ ser_writedata16 (ucast nSize)
      else if nSize \<le> 0xffffffff then ser_writedata8 254 @ ser_writedata32 (ucast nSize)
      else ser_writedata8 255 @ ser_writedata64 nSize)"

definition check_max_size :: "u64 \<Rightarrow> u64 parser" where
  "check_max_size n = (if unat n > MAX_SIZE then pfail SizeTooLarge else preturn n)"

definition ReadCompactSize :: "u64 parser" where
  "ReadCompactSize = pbind ser_readdata8 (\<lambda>chSize.
     if chSize < 253 then check_max_size (ucast chSize)
     else if chSize = 253 then pbind ser_readdata16 (\<lambda>n.
       if (ucast n :: u64) < 253 then pfail NonCanonicalCompactSize else check_max_size (ucast n))
     else if chSize = 254 then pbind ser_readdata32 (\<lambda>n.
       if (ucast n :: u64) < 0x10000 then pfail NonCanonicalCompactSize else check_max_size (ucast n))
     else pbind ser_readdata64 (\<lambda>n.
       if n < 0x100000000 then pfail NonCanonicalCompactSize else check_max_size n))"

section \<open>Variable-length integers\<close>

lemma varint_shrinks: "n > (0x7f :: 'a::len word) \<Longrightarrow> unat (drop_bit 7 n - 1) < unat n"
proof -
  assume n: "n > 0x7f"
  have "unat n \<noteq> 0" using n by (auto simp: unat_eq_0)
  have "LENGTH('a) > 7"
  proof (rule ccontr)
    assume "\<not> LENGTH('a) > 7"
    then have "(mask 7 :: 'a word) = - 1"
      by (intro bit_eqI) (auto simp: bit_simps)
    moreover have "(0x7f :: 'a word) = mask 7" by (simp add: mask_eq_exp_minus_1)
    ultimately have "(0x7f :: 'a word) = - 1" by simp
    with n show False by simp
  qed
  then have "unat (0x7f :: 'a word) = 0x7f"
  proof -
    have "(2 :: nat) ^ 7 < 2 ^ LENGTH('a)" using \<open>LENGTH('a) > 7\<close> by (rule power_strict_increasing) simp
    then show ?thesis by (subst unat_numeral) (simp add: take_bit_nat_eq_self)
  qed
  then have "unat n > 127" using n by (simp add: word_less_nat_alt)
  then have "unat (drop_bit 7 n) \<ge> 1" by (simp only: unat_drop_bit) (simp add: div_greater_zero_iff Suc_le_eq)
  then have "unat (drop_bit 7 n - 1) = unat (drop_bit 7 n) - 1"
    by (subst unat_sub) (simp_all add: word_le_nat_alt)
  also have "\<dots> < unat n" using \<open>unat n > 127\<close> by (simp only: unat_drop_bit) simp
  finally show ?thesis .
qed

text \<open>
  \<open>WriteVarInt\<close> fills \<open>tmp\<close> from the least significant digit and writes it backwards: the
  accumulator is the output so far, and \<open>first\<close> is \<open>len = 0\<close>.
\<close>

function WriteVarInt_loop :: "bool \<Rightarrow> 'a::len word \<Rightarrow> bytes \<Rightarrow> bytes" where
  "WriteVarInt_loop first n acc =
     (let acc' = ((ucast n AND 0x7f) OR (if first then 0 else 0x80)) # acc
      in if n \<le> 0x7f then acc' else WriteVarInt_loop False (drop_bit 7 n - 1) acc')"
  by pat_completeness auto

termination
  by (relation "measure (\<lambda>(first, n, acc). unat n)") (simp_all add: varint_shrinks not_le)

declare WriteVarInt_loop.simps [simp del]

definition WriteVarInt :: "'a::len word \<Rightarrow> bytes" where
  "WriteVarInt n = WriteVarInt_loop True n []"

function GetSizeOfVarInt :: "'a::len word \<Rightarrow> nat" where
  "GetSizeOfVarInt n = (if n \<le> 0x7f then 1 else 1 + GetSizeOfVarInt (drop_bit 7 n - 1))"
  by pat_completeness auto
termination
  by (relation "measure unat") (simp_all add: varint_shrinks not_le)

declare GetSizeOfVarInt.simps [simp del]

fun ReadVarInt_loop :: "'a::len word \<Rightarrow> 'a word parser" where
  "ReadVarInt_loop n [] = Inl EndOfData"
| "ReadVarInt_loop n (chData # s) =
     (if n > drop_bit 7 (- 1) then Inl VarIntTooLarge
      else let n' = push_bit 7 n OR ucast (chData AND 0x7f)
           in if chData AND 0x80 \<noteq> 0
              then (if n' = - 1 then Inl VarIntTooLarge else ReadVarInt_loop (n' + 1) s)
              else Inr (n', s))"

definition ReadVarInt :: "'a::len word parser" where
  "ReadVarInt = ReadVarInt_loop 0"

section \<open>Byte vectors and vectors of elements\<close>

text \<open>\<open>std::vector<unsigned char>\<close> and \<open>prevector\<close>: the bytes are read in blocks of at most 5000000.\<close>

definition ser_byte_vector :: "bytes \<Rightarrow> bytes" where
  "ser_byte_vector v = WriteCompactSize (of_nat (length v)) @ v"

function read_blocks :: "nat \<Rightarrow> bytes parser" where
  "read_blocks n s =
     (if n = 0 then Inr ([], s)
      else let blk = min n 5000000
           in case read_bytes blk s of Inl e \<Rightarrow> Inl e
              | Inr (b, s') \<Rightarrow>
                  (case read_blocks (n - blk) s' of Inl e \<Rightarrow> Inl e
                   | Inr (bs, s'') \<Rightarrow> Inr (b @ bs, s'')))"
  by pat_completeness auto
termination
  by (relation "measure fst") auto

declare read_blocks.simps [simp del]

definition unser_byte_vector :: "bytes parser" where
  "unser_byte_vector = pbind ReadCompactSize (\<lambda>nSize. read_blocks (unat nSize))"

definition ser_vector :: "('a \<Rightarrow> bytes) \<Rightarrow> 'a list \<Rightarrow> bytes" where
  "ser_vector ser v = WriteCompactSize (of_nat (length v)) @ concat (map ser v)"

fun read_many :: "'a parser \<Rightarrow> nat \<Rightarrow> 'a list parser" where
  "read_many p 0 s = Inr ([], s)"
| "read_many p (Suc n) s =
     (case p s of Inl e \<Rightarrow> Inl e
      | Inr (x, s') \<Rightarrow>
          (case read_many p n s' of Inl e \<Rightarrow> Inl e | Inr (xs, s'') \<Rightarrow> Inr (x # xs, s'')))"

definition unser_vector :: "'a parser \<Rightarrow> 'a list parser" where
  "unser_vector p = pbind ReadCompactSize (\<lambda>nSize. read_many p (unat nSize))"

section \<open>The codec contract\<close>

locale codec =
  fixes ser :: "'a \<Rightarrow> bytes"
    and unser :: "'a parser"
    and valid :: "'a \<Rightarrow> bool"
  assumes unser_ser: "valid x \<Longrightarrow> unser (ser x @ rest) = Inr (x, rest)"
begin

lemma roundtrip: "valid x \<Longrightarrow> unser (ser x) = Inr (x, [])"
  using unser_ser [of x "[]"] by simp

lemma prefix_free: "valid x \<Longrightarrow> valid y \<Longrightarrow> ser x @ r = ser y @ s \<Longrightarrow> x = y \<and> r = s"
  by (metis unser_ser Inr_inject prod.inject)

lemma ser_inj: "valid x \<Longrightarrow> valid y \<Longrightarrow> ser x = ser y \<Longrightarrow> x = y"
  using prefix_free [of x y "[]" "[]"] by simp

lemma read_many_ser:
  "\<forall>x \<in> set xs. valid x \<Longrightarrow> read_many unser (length xs) (concat (map ser xs) @ rest) = Inr (xs, rest)"
  by (induction xs) (simp_all add: unser_ser)

end

section \<open>Integers and sizes are codecs\<close>

lemma length_le_write [length_simps]: "length (le_write n x) = n"
  by (simp add: le_write_def)

lemma bit_le_read:
  "bit (le_read bs :: 'a::len word) i \<longleftrightarrow>
   i < LENGTH('a) \<and> i < 8 * length bs \<and> bit (bs ! (i div 8)) (i mod 8)"
proof (induction bs arbitrary: i)
  case (Cons b bs)
  show ?case
  proof (cases "i < 8")
    case True
    then show ?thesis by (auto simp: bit_or_iff bit_push_bit_iff bit_ucast_iff dest: bit_imp_le_length)
  next
    case False
    then obtain m where m: "i = 8 + m" using le_Suc_ex not_less by blast
    have "\<not> bit b i" using False by (auto dest: bit_imp_le_length)
    moreover have "(8 + m) div 8 = Suc (m div 8)" by presburger
    ultimately show ?thesis using Cons.IH [of m] m
      by (auto simp: bit_or_iff bit_push_bit_iff bit_ucast_iff)
  qed
qed simp

lemma le_read_write: "LENGTH('a) \<le> 8 * n \<Longrightarrow> le_read (le_write n (x :: 'a::len word)) = x"
  by (rule bit_eqI)
    (auto simp: bit_le_read le_write_def bit_ucast_iff bit_drop_bit_eq less_mult_imp_div_less mult.commute
      dest: bit_imp_le_length)

lemma read_bytes_append [simp]: "length a = n \<Longrightarrow> read_bytes n (a @ rest) = Inr (a, rest)"
  by (simp add: read_bytes_def)

interpretation u8_codec: codec ser_writedata8 ser_readdata8 "\<lambda>_. True"
proof
  fix x :: u8 and rest
  have "le_read [x] = x" using le_read_write [of 1 x] by (simp add: le_write_def)
  then show "ser_readdata8 (ser_writedata8 x @ rest) = Inr (x, rest)"
    by (simp add: ser_readdata8_def ser_writedata8_def pbind_def preturn_def read_bytes_def)
qed

interpretation u16_codec: codec ser_writedata16 ser_readdata16 "\<lambda>_. True"
  by unfold_locales
    (simp add: ser_readdata16_def ser_writedata16_def pbind_def preturn_def length_simps le_read_write)

interpretation u32_codec: codec ser_writedata32 ser_readdata32 "\<lambda>_. True"
  by unfold_locales
    (simp add: ser_readdata32_def ser_writedata32_def pbind_def preturn_def length_simps le_read_write)

interpretation u64_codec: codec ser_writedata64 ser_readdata64 "\<lambda>_. True"
  by unfold_locales
    (simp add: ser_readdata64_def ser_writedata64_def pbind_def preturn_def length_simps le_read_write)

lemma pbind_simps [simp]:
  "p s = Inl e \<Longrightarrow> pbind p f s = Inl e"
  "p s = Inr (a, s') \<Longrightarrow> pbind p f s = f a s'"
  by (simp_all add: pbind_def)

text \<open>Compact sizes up to \<open>MAX_SIZE\<close> are read back; above it the reader refuses them.\<close>

interpretation compact_codec: codec WriteCompactSize ReadCompactSize "\<lambda>n. unat n \<le> MAX_SIZE"
proof
  fix n :: u64 and rest
  assume n: "unat n \<le> MAX_SIZE"
  consider "n < 253" | "253 \<le> n" "n \<le> 0xffff" | "0xffff < n" "n \<le> 0xffffffff" | "0xffffffff < n"
    by fastforce
  then show "ReadCompactSize (WriteCompactSize n @ rest) = Inr (n, rest)"
  proof cases
    case 1
    then have "unat n < 253" by (simp add: word_less_nat_alt)
    then show ?thesis using n 1 ucast_ucast_small [where ?'b = 8, of n] u8_codec.unser_ser
      by (simp add: ReadCompactSize_def WriteCompactSize_def check_max_size_def preturn_def
          word_less_nat_alt unat_ucast)
  next
    case 2
    then have "unat n < 2 ^ 16" by (simp add: word_le_nat_alt)
    then show ?thesis using n 2 ucast_ucast_small [where ?'b = 16, of n] u8_codec.unser_ser u16_codec.unser_ser
      by (simp add: ReadCompactSize_def WriteCompactSize_def check_max_size_def preturn_def
          word_less_nat_alt word_le_nat_alt)
  next
    case 3
    then have "unat n < 2 ^ 32" by (simp add: word_le_nat_alt)
    then show ?thesis using n 3 ucast_ucast_small [where ?'b = 32, of n] u8_codec.unser_ser u32_codec.unser_ser
      by (simp add: ReadCompactSize_def WriteCompactSize_def check_max_size_def preturn_def
          word_less_nat_alt word_le_nat_alt)
  next
    case 4
    then show ?thesis using n by (simp add: MAX_SIZE_def word_less_nat_alt)
  qed
qed

lemma length_WriteCompactSize [length_simps]:
  "length (WriteCompactSize n) = GetSizeOfCompactSize n"
  by (simp add: WriteCompactSize_def GetSizeOfCompactSize_def ser_writedata8_def ser_writedata16_def
      ser_writedata32_def ser_writedata64_def length_simps)

lemma le_write_read: "length bs = n \<Longrightarrow> 8 * n \<le> LENGTH('a) \<Longrightarrow> le_write n (le_read bs :: 'a::len word) = bs"
proof (rule nth_equalityI)
  fix i
  assume len: "length bs = n" "8 * n \<le> LENGTH('a)" and "i < length (le_write n (le_read bs :: 'a word))"
  then have i: "i < n" by (simp add: length_simps)
  show "le_write n (le_read bs :: 'a word) ! i = bs ! i"
  proof (rule bit_word_eqI)
    fix m :: nat
    assume m: "m < LENGTH(8)"
    then have "(8 * i + m) div 8 = i" "(8 * i + m) mod 8 = m" "8 * i + m < 8 * n" using i by auto
    then show "bit (le_write n (le_read bs :: 'a word) ! i) m = bit (bs ! i) m"
      using len i m by (simp add: le_write_def bit_ucast_iff bit_drop_bit_eq bit_le_read)
  qed
qed (simp add: length_simps)

lemma pbind_Inr:
  "pbind p f s = Inr (b, t) \<longleftrightarrow> (\<exists>a s'. p s = Inr (a, s') \<and> f a s' = Inr (b, t))"
  by (auto simp: pbind_def split: sum.splits prod.splits)

lemma read_bytes_Inr: "read_bytes n s = Inr (b, t) \<longleftrightarrow> s = b @ t \<and> length b = n"
  by (auto simp: read_bytes_def)

lemma ser_readdata8_Inr: "ser_readdata8 s = Inr (x, t) \<longleftrightarrow> s = ser_writedata8 x @ t"
proof
  assume "ser_readdata8 s = Inr (x, t)"
  then obtain b where "s = b @ t" "length b = 1" "x = le_read b"
    by (auto simp: ser_readdata8_def pbind_Inr read_bytes_Inr preturn_def)
  then show "s = ser_writedata8 x @ t"
    using le_write_read [where ?'a = 8, of b 1] by (simp add: ser_writedata8_def le_write_def)
qed (simp add: u8_codec.unser_ser)

lemma ser_readdata16_Inr: "ser_readdata16 s = Inr (x, t) \<longleftrightarrow> s = ser_writedata16 x @ t"
  using u16_codec.unser_ser
  by (auto simp: ser_readdata16_def pbind_Inr read_bytes_Inr preturn_def ser_writedata16_def
      le_write_read length_simps le_read_write)

lemma ser_readdata32_Inr: "ser_readdata32 s = Inr (x, t) \<longleftrightarrow> s = ser_writedata32 x @ t"
  using u32_codec.unser_ser
  by (auto simp: ser_readdata32_def pbind_Inr read_bytes_Inr preturn_def ser_writedata32_def
      le_write_read length_simps le_read_write)

lemma ser_readdata64_Inr: "ser_readdata64 s = Inr (x, t) \<longleftrightarrow> s = ser_writedata64 x @ t"
  using u64_codec.unser_ser
  by (auto simp: ser_readdata64_def pbind_Inr read_bytes_Inr preturn_def ser_writedata64_def
      le_write_read length_simps le_read_write)

lemmas ser_read_Inr = ser_readdata8_Inr ser_readdata16_Inr ser_readdata32_Inr ser_readdata64_Inr

text \<open>The reader accepts the canonical encoding of a size only.\<close>

lemma ReadCompactSize_canonical:
  assumes "ReadCompactSize s = Inr (n, rest)"
  shows "unat n \<le> MAX_SIZE \<and> s = WriteCompactSize n @ rest"
proof -
  have small: "unat n \<le> MAX_SIZE"
    using assms by (auto simp: ReadCompactSize_def pbind_Inr check_max_size_def preturn_def pfail_def
        split: if_splits)
  obtain c t where s: "s = ser_writedata8 c @ t" and r: "(if c < 253 then check_max_size (ucast c)
     else if c = 253 then pbind ser_readdata16 (\<lambda>n.
       if (ucast n :: u64) < 253 then pfail NonCanonicalCompactSize else check_max_size (ucast n))
     else if c = 254 then pbind ser_readdata32 (\<lambda>n.
       if (ucast n :: u64) < 0x10000 then pfail NonCanonicalCompactSize else check_max_size (ucast n))
     else pbind ser_readdata64 (\<lambda>n.
       if n < 0x100000000 then pfail NonCanonicalCompactSize else check_max_size n)) t = Inr (n, rest)"
    using assms by (auto simp: ReadCompactSize_def pbind_Inr ser_read_Inr)
  consider "c < 253" | "c = 253" | "c = 254" | "c = 255"
  proof -
    have "unat c < 256" by (rule unat_bound_u8)
    then have "unat c < 253 \<or> unat c = 253 \<or> unat c = 254 \<or> unat c = 255" by linarith
    then show ?thesis using that by (auto simp: word_less_nat_alt word_unat_eq_iff)
  qed
  then have "s = WriteCompactSize n @ rest"
  proof cases
    case 1
    then have "n = ucast c" "t = rest" using r by (auto simp: check_max_size_def preturn_def pfail_def split: if_splits)
    moreover have "ucast c < (253 :: u64)" using 1 unat_bound_u8 [of c] by (simp add: word_less_nat_alt unat_ucast)
    moreover have "ucast (ucast c :: u64) = c" using unat_bound_u8 [of c] by (intro ucast_ucast_small) simp
    ultimately show ?thesis using s by (simp add: WriteCompactSize_def)
  next
    case 2
    then obtain x where "t = ser_writedata16 x @ rest" "n = ucast x" "\<not> n < 253"
      using r by (auto simp: check_max_size_def preturn_def pfail_def pbind_Inr ser_read_Inr split: if_splits)
    moreover have "ucast x \<le> (0xffff :: u64)" using unat_bound [of x] by (simp add: word_le_nat_alt unat_ucast)
    moreover have "ucast (ucast x :: u64) = x" using unat_bound [of x] by (intro ucast_ucast_small) simp
    ultimately show ?thesis using s 2 by (simp add: WriteCompactSize_def)
  next
    case 3
    then obtain x where "t = ser_writedata32 x @ rest" "n = ucast x" "\<not> n < 0x10000"
      using r by (auto simp: check_max_size_def preturn_def pfail_def pbind_Inr ser_read_Inr split: if_splits)
    moreover have "ucast x \<le> (0xffffffff :: u64)" using unat_bound [of x] by (simp add: word_le_nat_alt unat_ucast)
    moreover have "ucast (ucast x :: u64) = x" using unat_bound [of x] by (intro ucast_ucast_small) simp
    moreover have "\<not> n < 253" "\<not> n \<le> 0xffff" using \<open>\<not> n < 0x10000\<close> by (auto simp: word_less_nat_alt word_le_nat_alt)
    ultimately show ?thesis using s 3 by (simp add: WriteCompactSize_def)
  next
    case 4
    then have "\<not> n < 0x100000000"
      using r by (auto simp: check_max_size_def preturn_def pfail_def pbind_Inr ser_read_Inr split: if_splits)
    then have False using small by (simp add: MAX_SIZE_def word_less_nat_alt)
    then show ?thesis ..
  qed
  with small show ?thesis ..
qed

section \<open>Variable-length integers are a codec\<close>

lemma drop_bit_7_le: "n \<le> (m :: 'a::len word) \<Longrightarrow> drop_bit 7 n \<le> drop_bit 7 m"
  by (simp only: word_le_nat_alt unat_drop_bit) (rule div_le_mono)

lemma less_imp_not_max: "unat x < unat (y :: 'a::len word) \<Longrightarrow> x \<noteq> (- 1 :: 'a word)"
proof
  assume "unat x < unat y" "x = - 1"
  then have "\<not> y \<le> (- 1 :: 'a word)" by (simp only: word_le_nat_alt not_le)
  then show False by simp
qed

lemma le_7f_high: "n \<le> (0x7f :: 'a::len word) \<Longrightarrow> 7 \<le> i \<Longrightarrow> \<not> bit n i"
proof -
  assume n: "n \<le> (0x7f :: 'a word)" and i: "7 \<le> i"
  have "unat (0x7f :: 'a word) \<le> 0x7f" by (simp only: unat_numeral) (rule mod_less_eq_dividend)
  moreover have "unat n \<le> unat (0x7f :: 'a word)" using n by (simp only: word_le_nat_alt)
  ultimately have "unat n \<le> 0x7f" by (rule order_trans [rotated])
  then have "unat n < 2 ^ 7" by simp
  also have "(2 :: nat) ^ 7 \<le> 2 ^ i" using i by (rule power_increasing) simp
  finally have "\<not> bit (unat n) i" by (simp add: bit_iff_odd)
  then show ?thesis by (simp add: bit_unat)
qed

text \<open>The digit groups, most significant first; all but the last carry the continuation bit.\<close>

lemma WriteVarInt_loop_acc: "WriteVarInt_loop first n acc = WriteVarInt_loop first n [] @ acc"
proof (induction "unat n" arbitrary: first n acc rule: less_induct)
  case less
  show ?case
  proof (cases "n \<le> 0x7f")
    case True
    then show ?thesis by (simp add: WriteVarInt_loop.simps [of first n])
  next
    case False
    then have lt: "unat (drop_bit 7 n - 1) < unat n" by (simp only: varint_shrinks not_le)
    let ?b = "(ucast n AND 0x7f) OR (if first then 0 else 0x80) :: u8"
    have "WriteVarInt_loop first n c = WriteVarInt_loop False (drop_bit 7 n - 1) [] @ ?b # c" for c
      using False less [OF lt, of False "?b # c"] by (subst WriteVarInt_loop.simps) (simp only: Let_def if_False)
    then show ?thesis by simp
  qed
qed

lemma WriteVarInt_loop_unfold:
  "WriteVarInt_loop first n [] =
   (if n \<le> 0x7f then [] else WriteVarInt_loop False (drop_bit 7 n - 1) []) @
   [(ucast n AND 0x7f) OR (if first then 0 else 0x80)]"
  by (subst WriteVarInt_loop.simps) (subst WriteVarInt_loop_acc, simp add: Let_def)

lemma varint_digit [simp]:
  "((x AND 0x7f) OR 0x80) AND 0x7f = (x :: u8) AND 0x7f"
  "((x AND 0x7f) OR 0x80) AND 0x80 = 0x80"
  "(x AND 0x7f) AND 0x80 = 0"
  by (simp_all add: bit.conj_disj_distrib2 and.assoc)

lemma varint_regroup: "push_bit 7 (drop_bit 7 n) OR ucast ((ucast n AND 0x7f) AND 0x7f :: u8) = (n :: 'a::len word)"
proof -
  have m: "(0x7f :: u8) = mask 7" by (simp add: mask_eq_exp_minus_1)
  show ?thesis unfolding m
  proof (rule bit_eqI)
    fix i
    show "bit (push_bit 7 (drop_bit 7 n) OR ucast ((ucast n AND mask 7) AND mask 7 :: u8)) i = bit n i"
      by (cases "7 \<le> i")
        (auto simp: bit_or_iff bit_push_bit_iff bit_drop_bit_eq bit_ucast_iff bit_and_iff bit_mask_iff
          dest: bit_imp_le_length)
  qed
qed

lemma varint_low: "n \<le> 0x7f \<Longrightarrow> ucast ((ucast n AND 0x7f) AND 0x7f :: u8) = (n :: 'a::len word)"
proof -
  assume n: "n \<le> 0x7f"
  have "drop_bit 7 n = 0"
    using le_7f_high [OF n] by (intro bit_eqI) (simp add: bit_drop_bit_eq)
  then show ?thesis using varint_regroup [of n] by simp
qed

lemma varint_shift_le: "\<not> drop_bit 7 n > (drop_bit 7 (- 1) :: 'a::len word)"
  by (simp only: not_less) (rule drop_bit_7_le, simp)

text \<open>A continued number is read as the accumulator \<open>n + 1\<close> of the next digit.\<close>

lemma ReadVarInt_loop_continue:
  "m \<noteq> - 1 \<Longrightarrow> ReadVarInt_loop 0 (WriteVarInt_loop False m [] @ rest) = ReadVarInt_loop (m + 1) rest"
  for m :: "'a::len word"
proof (induction "unat m" arbitrary: m rest rule: less_induct)
  case less
  let ?b = "(ucast m AND 0x7f) OR 0x80 :: u8"
  show ?case
  proof (cases "m \<le> 0x7f")
    case True
    then show ?thesis using less.prems varint_low [OF True]
      by (subst WriteVarInt_loop_unfold) (simp add: Let_def)
  next
    case False
    let ?m = "drop_bit 7 m - 1"
    have lt: "unat ?m < unat m" using False by (simp only: varint_shrinks not_le)
    then have "?m \<noteq> - 1" by (rule less_imp_not_max)
    then have "ReadVarInt_loop 0 (WriteVarInt_loop False ?m [] @ ?b # rest) = ReadVarInt_loop (drop_bit 7 m) (?b # rest)"
      using less.hyps [OF lt, of "?b # rest"] by (simp only: diff_add_cancel simp_thms)
    then show ?thesis using False less.prems varint_regroup [of m] varint_shift_le [of m]
      by (subst WriteVarInt_loop_unfold) (simp add: Let_def)
  qed
qed

interpretation varint_codec: codec WriteVarInt ReadVarInt "\<lambda>_. True"
proof
  fix n :: "'a::len word" and rest
  let ?b = "ucast n AND 0x7f :: u8"
  show "ReadVarInt (WriteVarInt n @ rest) = Inr (n, rest)"
  proof (cases "n \<le> 0x7f")
    case True
    then show ?thesis using varint_low [OF True]
      unfolding ReadVarInt_def WriteVarInt_def
      by (subst WriteVarInt_loop_unfold) (simp add: Let_def)
  next
    case False
    let ?m = "drop_bit 7 n - 1"
    have lt: "unat ?m < unat n" using False by (simp only: varint_shrinks not_le)
    then have "?m \<noteq> - 1" by (rule less_imp_not_max)
    then have "ReadVarInt_loop 0 (WriteVarInt_loop False ?m [] @ ?b # rest) = ReadVarInt_loop (drop_bit 7 n) (?b # rest)"
      using ReadVarInt_loop_continue [of ?m "?b # rest"] by (simp only: diff_add_cancel simp_thms)
    then show ?thesis using False varint_regroup [of n] varint_shift_le [of n]
      unfolding ReadVarInt_def WriteVarInt_def
      by (subst WriteVarInt_loop_unfold) (simp add: Let_def)
  qed
qed

lemma length_WriteVarInt: "length (WriteVarInt n) = GetSizeOfVarInt n"
proof -
  have "length (WriteVarInt_loop first n []) = GetSizeOfVarInt n" for first n
  proof (induction n arbitrary: first rule: GetSizeOfVarInt.induct)
    case (1 n)
    then show ?case
      by (subst WriteVarInt_loop_unfold, subst GetSizeOfVarInt.simps) (cases "n \<le> 0x7f"; simp)
  qed
  then show ?thesis by (simp add: WriteVarInt_def)
qed

section \<open>Vectors are codecs\<close>

lemma read_blocks_read_bytes: "read_blocks n s = read_bytes n s"
proof (induction n s rule: read_blocks.induct)
  case (1 n s)
  show ?case
  proof (cases "n = 0")
    case False
    let ?blk = "min n 5000000"
    show ?thesis
    proof (cases "length s < ?blk")
      case True
      then show ?thesis using False by (subst read_blocks.simps) (simp add: read_bytes_def Let_def)
    next
      case enough: False
      then have r: "read_bytes ?blk s = Inr (take ?blk s, drop ?blk s)" by (simp add: read_bytes_def)
      have IH: "read_blocks (n - ?blk) (drop ?blk s) = read_bytes (n - ?blk) (drop ?blk s)"
        using "1.IH" [OF False refl r] by simp
      have "take n s = take ?blk s @ take (n - ?blk) (drop ?blk s)"
        by (metis le_add_diff_inverse min.cobounded1 take_add)
      moreover have "drop n s = drop (n - ?blk) (drop ?blk s)"
        by (simp add: min_def)
      moreover have "length (drop ?blk s) < n - ?blk \<longleftrightarrow> length s < n" using enough by auto
      ultimately show ?thesis using False enough
        by (subst read_blocks.simps) (simp only: Let_def r IH if_False sum.case prod.case, simp add: read_bytes_def)
    qed
  qed (simp add: read_blocks.simps read_bytes_def)
qed

lemma unat_of_nat_size: "n \<le> MAX_SIZE \<Longrightarrow> unat (of_nat n :: u64) = n"
  by (simp add: MAX_SIZE_def unat_of_nat)

interpretation byte_vector_codec: codec ser_byte_vector unser_byte_vector "\<lambda>v. length v \<le> MAX_SIZE"
  by unfold_locales
    (simp add: ser_byte_vector_def unser_byte_vector_def compact_codec.unser_ser unat_of_nat_size
      read_blocks_read_bytes)

context codec
begin

lemma vector_codec:
  "codec (ser_vector ser) (unser_vector unser) (\<lambda>xs. length xs \<le> MAX_SIZE \<and> (\<forall>x \<in> set xs. valid x))"
  by unfold_locales
    (simp add: ser_vector_def unser_vector_def compact_codec.unser_ser unat_of_nat_size read_many_ser)

end

text \<open>\<open>CScriptWitness::stack\<close>: a vector of byte vectors.\<close>

interpretation witness_codec: codec "ser_vector ser_byte_vector" "unser_vector unser_byte_vector"
    "\<lambda>xs. length xs \<le> MAX_SIZE \<and> (\<forall>x \<in> set xs. length x \<le> MAX_SIZE)"
  by (rule byte_vector_codec.vector_codec)

end
