(* ===== verification/Transaction.thy ===== *)
theory Transaction
  imports Serialize
begin

text \<open>
  The data of the block chain: outpoints, inputs, outputs, transactions, block headers and blocks
  (\<open>primitives/transaction.h\<close>, \<open>primitives/transaction.cpp\<close>, \<open>primitives/block.h\<close>), their
  serialization with and without witness data, their hashes, weights and monetary totals.
  A \<open>uint256\<close> is the list of its 32 bytes.  The hash function \<open>CHash256\<close> (double SHA3-256) is an
  argument \<open>H\<close> of everything that hashes.  Amounts are \<open>int\<close>; \<open>MoneyRange\<close> is the code's own guard
  against their overflow.
\<close>

type_synonym uint256 = bytes
type_synonym CAmount = int
type_synonym CScript = bytes
type_synonym hasher = "bytes \<Rightarrow> uint256"

definition uint256_null :: uint256 where
  "uint256_null = replicate 32 0"

definition uint256_IsNull :: "uint256 \<Rightarrow> bool" where
  "uint256_IsNull h = list_all (\<lambda>b. b = 0) h"

section \<open>Amounts\<close>

definition COIN :: CAmount where "COIN = 100000000"
definition CENT :: CAmount where "CENT = 1000000"
definition MAX_MONEY :: CAmount where "MAX_MONEY = 10000000 * COIN"
definition GENESIS_MONEY :: CAmount where "GENESIS_MONEY = 8000000 * COIN"
definition INITIAL_SUBSIDY :: CAmount where "INITIAL_SUBSIDY = 5 * COIN"

definition MoneyRange :: "CAmount \<Rightarrow> bool" where
  "MoneyRange nValue \<longleftrightarrow> nValue \<ge> 0 \<and> nValue \<le> MAX_MONEY"

section \<open>Data\<close>

record COutPoint =
  op_hash :: uint256
  op_n :: u32

record CTxIn =
  prevout :: COutPoint
  scriptSig :: CScript
  nSequence :: u32
  scriptWitness :: "bytes list"

record CTxOut =
  nValue :: CAmount
  scriptPubKey :: CScript

record CTransaction =
  vin :: "CTxIn list"
  vout :: "CTxOut list"
  tx_nVersion :: int
  tx_nLockTime :: u32

record CBlockHeader =
  blk_nVersion :: int
  hashPrevBlock :: uint256
  hashMerkleRoot :: uint256
  blk_nTime :: u32
  blk_nBits :: u32
  nNonce :: uint256
  nSolution :: bytes

record CBlock = CBlockHeader +
  vtx :: "CTransaction list"

definition SEQUENCE_FINAL :: u32 where "SEQUENCE_FINAL = 0xffffffff"
definition SEQUENCE_LOCKTIME_DISABLE_FLAG :: u32 where "SEQUENCE_LOCKTIME_DISABLE_FLAG = push_bit 31 1"
definition SEQUENCE_LOCKTIME_TYPE_FLAG :: u32 where "SEQUENCE_LOCKTIME_TYPE_FLAG = push_bit 22 1"
definition SEQUENCE_LOCKTIME_MASK :: u32 where "SEQUENCE_LOCKTIME_MASK = 0x0000ffff"
definition SEQUENCE_LOCKTIME_GRANULARITY :: nat where "SEQUENCE_LOCKTIME_GRANULARITY = 9"

definition COutPoint_null :: COutPoint where
  "COutPoint_null = \<lparr>op_hash = uint256_null, op_n = - 1\<rparr>"

definition COutPoint_IsNull :: "COutPoint \<Rightarrow> bool" where
  "COutPoint_IsNull p \<longleftrightarrow> uint256_IsNull (op_hash p) \<and> op_n p = - 1"

text \<open>\<open>memcmp\<close> on equally long blobs, and the order of outpoints built on it.\<close>

fun bytes_compare :: "bytes \<Rightarrow> bytes \<Rightarrow> int" where
  "bytes_compare (x # xs) (y # ys) = (if x < y then - 1 else if x > y then 1 else bytes_compare xs ys)"
| "bytes_compare _ _ = 0"

definition COutPoint_less :: "COutPoint \<Rightarrow> COutPoint \<Rightarrow> bool" where
  "COutPoint_less a b =
     (let cmp = bytes_compare (op_hash a) (op_hash b)
      in cmp < 0 \<or> (cmp = 0 \<and> op_n a < op_n b))"

definition CTxOut_SetNull :: CTxOut where
  "CTxOut_SetNull = \<lparr>nValue = - 1, scriptPubKey = []\<rparr>"

definition CTxOut_IsNull :: "CTxOut \<Rightarrow> bool" where
  "CTxOut_IsNull o' \<longleftrightarrow> nValue o' = - 1"

definition tx_IsNull :: "CTransaction \<Rightarrow> bool" where
  "tx_IsNull tx \<longleftrightarrow> vin tx = [] \<and> vout tx = []"

definition IsCoinBase :: "CTransaction \<Rightarrow> bool" where
  "IsCoinBase tx \<longleftrightarrow> length (vin tx) = 1 \<and> COutPoint_IsNull (prevout (vin tx ! 0))"

fun HasWitness_vin :: "CTxIn list \<Rightarrow> bool" where
  "HasWitness_vin [] = False"
| "HasWitness_vin (txin # ins) = (if scriptWitness txin \<noteq> [] then True else HasWitness_vin ins)"

definition HasWitness :: "CTransaction \<Rightarrow> bool" where
  "HasWitness tx = HasWitness_vin (vin tx)"

text \<open>\<open>GetValueOut\<close> throws when a value or the running total leaves the money range.\<close>

datatype value_error = ValueOutOfRange

fun GetValueOut_loop :: "CAmount \<Rightarrow> CTxOut list \<Rightarrow> value_error + CAmount" where
  "GetValueOut_loop nValueOut [] = Inr nValueOut"
| "GetValueOut_loop nValueOut (tx_out # outs) =
     (let nValueOut' = nValueOut + nValue tx_out
      in if \<not> MoneyRange (nValue tx_out) \<or> \<not> MoneyRange nValueOut' then Inl ValueOutOfRange
         else GetValueOut_loop nValueOut' outs)"

definition GetValueOut :: "CTransaction \<Rightarrow> value_error + CAmount" where
  "GetValueOut tx = GetValueOut_loop 0 (vout tx)"

section \<open>Serialization\<close>

definition ser_int32 :: "int \<Rightarrow> bytes" where
  "ser_int32 i = ser_writedata32 (word_of_int i)"

definition unser_int32 :: "int parser" where
  "unser_int32 = pbind ser_readdata32 (\<lambda>w. preturn (sint w))"

definition ser_int64 :: "int \<Rightarrow> bytes" where
  "ser_int64 i = ser_writedata64 (word_of_int i)"

definition unser_int64 :: "int parser" where
  "unser_int64 = pbind ser_readdata64 (\<lambda>w. preturn (sint w))"

definition ser_uint256 :: "uint256 \<Rightarrow> bytes" where
  "ser_uint256 h = h"

definition unser_uint256 :: "uint256 parser" where
  "unser_uint256 = read_bytes 32"

definition ser_COutPoint :: "COutPoint \<Rightarrow> bytes" where
  "ser_COutPoint p = ser_uint256 (op_hash p) @ ser_writedata32 (op_n p)"

definition unser_COutPoint :: "COutPoint parser" where
  "unser_COutPoint = pbind unser_uint256 (\<lambda>h. pbind ser_readdata32 (\<lambda>i.
     preturn \<lparr>op_hash = h, op_n = i\<rparr>))"

definition ser_CTxIn :: "CTxIn \<Rightarrow> bytes" where
  "ser_CTxIn i = ser_COutPoint (prevout i) @ ser_byte_vector (scriptSig i) @ ser_writedata32 (nSequence i)"

definition unser_CTxIn :: "CTxIn parser" where
  "unser_CTxIn = pbind unser_COutPoint (\<lambda>p. pbind unser_byte_vector (\<lambda>s. pbind ser_readdata32 (\<lambda>q.
     preturn \<lparr>prevout = p, scriptSig = s, nSequence = q, scriptWitness = []\<rparr>)))"

definition ser_CTxOut :: "CTxOut \<Rightarrow> bytes" where
  "ser_CTxOut o' = ser_int64 (nValue o') @ ser_byte_vector (scriptPubKey o')"

definition unser_CTxOut :: "CTxOut parser" where
  "unser_CTxOut = pbind unser_int64 (\<lambda>v. pbind unser_byte_vector (\<lambda>s.
     preturn \<lparr>nValue = v, scriptPubKey = s\<rparr>))"

text \<open>\<open>SerializeTransaction\<close>; \<open>fAllowWitness\<close> is the absence of \<open>SERIALIZE_TRANSACTION_NO_WITNESS\<close>.\<close>

definition SerializeTransaction :: "bool \<Rightarrow> CTransaction \<Rightarrow> bytes" where
  "SerializeTransaction fAllowWitness tx =
     (let flags = (if fAllowWitness \<and> HasWitness tx then 1 else 0 :: u8)
      in ser_int32 (tx_nVersion tx) @
         (if flags \<noteq> 0 then ser_vector ser_CTxIn [] @ ser_writedata8 flags else []) @
         ser_vector ser_CTxIn (vin tx) @
         ser_vector ser_CTxOut (vout tx) @
         (if flags AND 1 \<noteq> 0
          then concat (map (\<lambda>i. ser_vector ser_byte_vector (scriptWitness i)) (vin tx)) else []) @
         ser_writedata32 (tx_nLockTime tx))"

fun unser_witnesses :: "CTxIn list \<Rightarrow> CTxIn list parser" where
  "unser_witnesses [] = preturn []"
| "unser_witnesses (i # ins) =
     pbind (unser_vector unser_byte_vector) (\<lambda>w. pbind (unser_witnesses ins) (\<lambda>is.
       preturn (i\<lparr>scriptWitness := w\<rparr> # is)))"

definition UnserializeTransaction_body :: "bool \<Rightarrow> (CTxIn list \<times> CTxOut list \<times> u8) parser" where
  "UnserializeTransaction_body fAllowWitness =
     pbind (unser_vector unser_CTxIn) (\<lambda>ins.
       if ins = [] \<and> fAllowWitness
       then pbind ser_readdata8 (\<lambda>flags.
              if flags \<noteq> 0
              then pbind (unser_vector unser_CTxIn) (\<lambda>ins'.
                     pbind (unser_vector unser_CTxOut) (\<lambda>outs. preturn (ins', outs, flags)))
              else preturn ([], [], flags))
       else pbind (unser_vector unser_CTxOut) (\<lambda>outs. preturn (ins, outs, 0)))"

definition UnserializeTransaction :: "bool \<Rightarrow> CTransaction parser" where
  "UnserializeTransaction fAllowWitness =
     pbind unser_int32 (\<lambda>ver.
       pbind (UnserializeTransaction_body fAllowWitness) (\<lambda>(ins, outs, flags).
         pbind (if flags AND 1 \<noteq> 0 \<and> fAllowWitness
                then pbind (unser_witnesses ins) (\<lambda>is. preturn (is, flags XOR 1))
                else preturn (ins, flags)) (\<lambda>(ins', flags').
           if flags' \<noteq> 0 then pfail UnknownTransactionOptionalData
           else pbind ser_readdata32 (\<lambda>lock.
             preturn \<lparr>vin = ins', vout = outs, tx_nVersion = ver, tx_nLockTime = lock\<rparr>))))"

definition ser_CBlockHeader :: "'a CBlockHeader_scheme \<Rightarrow> bytes" where
  "ser_CBlockHeader b =
     ser_int32 (blk_nVersion b) @ ser_uint256 (hashPrevBlock b) @ ser_uint256 (hashMerkleRoot b) @
     ser_writedata32 (blk_nTime b) @ ser_writedata32 (blk_nBits b) @ ser_uint256 (nNonce b) @
     ser_byte_vector (nSolution b)"

definition unser_CBlockHeader :: "CBlockHeader parser" where
  "unser_CBlockHeader =
     pbind unser_int32 (\<lambda>v. pbind unser_uint256 (\<lambda>p. pbind unser_uint256 (\<lambda>m.
     pbind ser_readdata32 (\<lambda>t. pbind ser_readdata32 (\<lambda>b. pbind unser_uint256 (\<lambda>nn.
     pbind unser_byte_vector (\<lambda>sol.
       preturn \<lparr>blk_nVersion = v, hashPrevBlock = p, hashMerkleRoot = m, blk_nTime = t,
                blk_nBits = b, nNonce = nn, nSolution = sol\<rparr>)))))))"

definition ser_CBlock :: "bool \<Rightarrow> CBlock \<Rightarrow> bytes" where
  "ser_CBlock fAllowWitness b =
     ser_CBlockHeader b @ ser_vector (SerializeTransaction fAllowWitness) (vtx b)"

definition unser_CBlock :: "bool \<Rightarrow> CBlock parser" where
  "unser_CBlock fAllowWitness =
     pbind unser_CBlockHeader (\<lambda>h. pbind (unser_vector (UnserializeTransaction fAllowWitness)) (\<lambda>txs.
       preturn (CBlockHeader.extend h \<lparr>vtx = txs\<rparr>)))"

definition CBlockHeader_SetNull :: CBlockHeader where
  "CBlockHeader_SetNull =
     \<lparr>blk_nVersion = 0, hashPrevBlock = uint256_null, hashMerkleRoot = uint256_null, blk_nTime = 0,
      blk_nBits = 0, nNonce = uint256_null, nSolution = []\<rparr>"

definition CBlockHeader_IsNull :: "'a CBlockHeader_scheme \<Rightarrow> bool" where
  "CBlockHeader_IsNull b \<longleftrightarrow> blk_nBits b = 0"

definition GetBlockHeader :: "CBlock \<Rightarrow> CBlockHeader" where
  "GetBlockHeader b =
     \<lparr>blk_nVersion = blk_nVersion b, hashPrevBlock = hashPrevBlock b,
      hashMerkleRoot = hashMerkleRoot b, blk_nTime = blk_nTime b, blk_nBits = blk_nBits b,
      nNonce = nNonce b, nSolution = nSolution b\<rparr>"

text \<open>\<open>CEquihashInput\<close>: the header without nonce and solution.\<close>

definition ser_CEquihashInput :: "'a CBlockHeader_scheme \<Rightarrow> bytes" where
  "ser_CEquihashInput b =
     ser_int32 (blk_nVersion b) @ ser_uint256 (hashPrevBlock b) @ ser_uint256 (hashMerkleRoot b) @
     ser_writedata32 (blk_nTime b) @ ser_writedata32 (blk_nBits b)"

section \<open>Hashes and weights\<close>

definition tx_GetHash :: "hasher \<Rightarrow> CTransaction \<Rightarrow> uint256" where
  "tx_GetHash H tx = H (SerializeTransaction False tx)"

definition GetWitnessHash :: "hasher \<Rightarrow> CTransaction \<Rightarrow> uint256" where
  "GetWitnessHash H tx = (if \<not> HasWitness tx then tx_GetHash H tx else H (SerializeTransaction True tx))"

definition header_GetHash :: "hasher \<Rightarrow> 'a CBlockHeader_scheme \<Rightarrow> uint256" where
  "header_GetHash H b = H (ser_CBlockHeader b)"

definition WITNESS_SCALE_FACTOR :: nat where "WITNESS_SCALE_FACTOR = 4"
definition MAX_BLOCK_WEIGHT :: nat where "MAX_BLOCK_WEIGHT = 32000000"
definition MAX_BLOCK_SIGOPS_COST :: int where "MAX_BLOCK_SIGOPS_COST = 80000"
definition COINBASE_MATURITY :: int where "COINBASE_MATURITY = 100"

definition GetTotalSize :: "CTransaction \<Rightarrow> nat" where
  "GetTotalSize tx = length (SerializeTransaction True tx)"

definition GetTransactionWeight :: "CTransaction \<Rightarrow> nat" where
  "GetTransactionWeight tx =
     length (SerializeTransaction False tx) * (WITNESS_SCALE_FACTOR - 1) +
     length (SerializeTransaction True tx)"

definition GetBlockWeight :: "CBlock \<Rightarrow> nat" where
  "GetBlockWeight b =
     length (ser_CBlock False b) * (WITNESS_SCALE_FACTOR - 1) + length (ser_CBlock True b)"

section \<open>The codecs of the data\<close>

definition valid_int :: "nat \<Rightarrow> int \<Rightarrow> bool" where
  "valid_int w i \<longleftrightarrow> - (2 ^ (w - 1)) \<le> i \<and> i < 2 ^ (w - 1)"

definition valid_COutPoint :: "COutPoint \<Rightarrow> bool" where
  "valid_COutPoint p \<longleftrightarrow> length (op_hash p) = 32"

definition valid_CTxIn :: "CTxIn \<Rightarrow> bool" where
  "valid_CTxIn i \<longleftrightarrow> valid_COutPoint (prevout i) \<and> length (scriptSig i) \<le> MAX_SIZE"

definition valid_witness :: "CTxIn \<Rightarrow> bool" where
  "valid_witness i \<longleftrightarrow>
     length (scriptWitness i) \<le> MAX_SIZE \<and> (\<forall>w \<in> set (scriptWitness i). length w \<le> MAX_SIZE)"

definition valid_CTxOut :: "CTxOut \<Rightarrow> bool" where
  "valid_CTxOut o' \<longleftrightarrow> valid_int 64 (nValue o') \<and> length (scriptPubKey o') \<le> MAX_SIZE"

definition valid_CTransaction :: "CTransaction \<Rightarrow> bool" where
  "valid_CTransaction tx \<longleftrightarrow>
     vin tx \<noteq> [] \<and> length (vin tx) \<le> MAX_SIZE \<and> length (vout tx) \<le> MAX_SIZE \<and>
     (\<forall>i \<in> set (vin tx). valid_CTxIn i \<and> valid_witness i) \<and> (\<forall>o' \<in> set (vout tx). valid_CTxOut o') \<and>
     valid_int 32 (tx_nVersion tx)"

definition strip_in :: "CTxIn \<Rightarrow> CTxIn" where
  "strip_in i = i\<lparr>scriptWitness := []\<rparr>"

definition strip_witness :: "CTransaction \<Rightarrow> CTransaction" where
  "strip_witness tx = tx\<lparr>vin := map strip_in (vin tx)\<rparr>"

lemma sint_of_int: "valid_int LENGTH('a) i \<Longrightarrow> sint (word_of_int i :: 'a::len word) = i"
proof -
  assume v: "valid_int LENGTH('a) i"
  have e: "(2 :: int) ^ LENGTH('a) = 2 * 2 ^ (LENGTH('a) - 1)"
    by (metis len_gt_0 power_eq_if not_gr_zero)
  have "(i + 2 ^ (LENGTH('a) - 1)) mod 2 ^ LENGTH('a) = i + 2 ^ (LENGTH('a) - 1)"
    using v unfolding e valid_int_def by (intro mod_pos_pos_trivial) auto
  then show ?thesis by (simp add: int_word_sint)
qed

interpretation int32_codec: codec ser_int32 unser_int32 "valid_int 32"
  using sint_of_int [where ?'a = 32]
  by unfold_locales (simp add: ser_int32_def unser_int32_def u32_codec.unser_ser preturn_def)

interpretation int64_codec: codec ser_int64 unser_int64 "valid_int 64"
  using sint_of_int [where ?'a = 64]
  by unfold_locales (simp add: ser_int64_def unser_int64_def u64_codec.unser_ser preturn_def)

interpretation uint256_codec: codec ser_uint256 unser_uint256 "\<lambda>h. length h = 32"
  by unfold_locales (simp add: ser_uint256_def unser_uint256_def)

lemmas codec_simps =
  u8_codec.unser_ser u16_codec.unser_ser u32_codec.unser_ser u64_codec.unser_ser
  int32_codec.unser_ser int64_codec.unser_ser uint256_codec.unser_ser
  byte_vector_codec.unser_ser witness_codec.unser_ser preturn_def

interpretation outpoint_codec: codec ser_COutPoint unser_COutPoint valid_COutPoint
  by unfold_locales (simp add: ser_COutPoint_def unser_COutPoint_def valid_COutPoint_def codec_simps)

interpretation txin_codec: codec ser_CTxIn unser_CTxIn "\<lambda>i. valid_CTxIn i \<and> scriptWitness i = []"
  by unfold_locales
    (simp add: ser_CTxIn_def unser_CTxIn_def valid_CTxIn_def outpoint_codec.unser_ser codec_simps)

interpretation txout_codec: codec ser_CTxOut unser_CTxOut valid_CTxOut
  by unfold_locales (simp add: ser_CTxOut_def unser_CTxOut_def valid_CTxOut_def codec_simps)

interpretation txins_codec: codec "ser_vector ser_CTxIn" "unser_vector unser_CTxIn"
    "\<lambda>is. length is \<le> MAX_SIZE \<and> (\<forall>i \<in> set is. valid_CTxIn i \<and> scriptWitness i = [])"
  by (rule txin_codec.vector_codec)

interpretation txouts_codec: codec "ser_vector ser_CTxOut" "unser_vector unser_CTxOut"
    "\<lambda>os. length os \<le> MAX_SIZE \<and> (\<forall>o' \<in> set os. valid_CTxOut o')"
  by (rule txout_codec.vector_codec)

lemma ser_strip_in [simp]: "ser_CTxIn (strip_in i) = ser_CTxIn i"
  by (simp add: ser_CTxIn_def strip_in_def)

lemma ser_vector_strip [simp]: "ser_vector ser_CTxIn (map strip_in is) = ser_vector ser_CTxIn is"
  by (simp add: ser_vector_def comp_def)

lemma HasWitness_vin_iff: "HasWitness_vin is \<longleftrightarrow> (\<exists>i \<in> set is. scriptWitness i \<noteq> [])"
  by (induction "is") auto

lemma strip_no_witness: "\<not> HasWitness_vin is \<Longrightarrow> map strip_in is = is"
  by (induction "is") (auto simp: strip_in_def split: if_splits)

lemma HasWitness_strip [simp]: "\<not> HasWitness (strip_witness tx)"
  by (simp add: HasWitness_def strip_witness_def HasWitness_vin_iff strip_in_def)

lemma SerializeTransaction_strip: "SerializeTransaction False tx = SerializeTransaction b (strip_witness tx)"
  by (simp add: SerializeTransaction_def Let_def) (simp add: strip_witness_def)

lemma unser_witnesses_ser:
  "\<forall>i \<in> set is. valid_witness i \<Longrightarrow>
   unser_witnesses (map strip_in is) (concat (map (\<lambda>i. ser_vector ser_byte_vector (scriptWitness i)) is) @ rest)
     = Inr (is, rest)"
proof (induction "is")
  case (Cons i "is")
  then show ?case
    by (simp add: codec_simps valid_witness_def) (simp add: strip_in_def)
qed (simp add: preturn_def)

lemma txins_strip_unser:
  "length is \<le> MAX_SIZE \<Longrightarrow> \<forall>i \<in> set is. valid_CTxIn i \<Longrightarrow>
   unser_vector unser_CTxIn (ser_vector ser_CTxIn is @ rest) = Inr (map strip_in is, rest)"
  using txins_codec.unser_ser [of "map strip_in is" rest] by (auto simp: valid_CTxIn_def strip_in_def)

lemma body_unser_plain:
  assumes "valid_CTransaction tx"
  shows "UnserializeTransaction_body b (ser_vector ser_CTxIn (vin tx) @ ser_vector ser_CTxOut (vout tx) @ rest)
    = Inr ((map strip_in (vin tx), vout tx, 0), rest)"
  using assms
  by (simp add: UnserializeTransaction_body_def valid_CTransaction_def txins_strip_unser
      txouts_codec.unser_ser codec_simps)

lemma body_unser_witness:
  assumes "valid_CTransaction tx"
  shows "UnserializeTransaction_body True (ser_vector ser_CTxIn [] @ ser_writedata8 1 @
      ser_vector ser_CTxIn (vin tx) @ ser_vector ser_CTxOut (vout tx) @ rest)
    = Inr ((map strip_in (vin tx), vout tx, 1), rest)"
  using assms txins_codec.unser_ser [of "[]"]
  by (simp add: UnserializeTransaction_body_def valid_CTransaction_def txins_strip_unser
      txouts_codec.unser_ser codec_simps)

lemma Unserialize_Serialize_no_witness:
  assumes "valid_CTransaction tx"
  shows "UnserializeTransaction b (SerializeTransaction False tx @ rest) = Inr (strip_witness tx, rest)"
proof -
  have "valid_int 32 (tx_nVersion tx)" using assms by (simp add: valid_CTransaction_def)
  then show ?thesis
    using body_unser_plain [OF assms]
    by (simp add: UnserializeTransaction_def SerializeTransaction_def strip_witness_def codec_simps)
qed

lemma Unserialize_Serialize_witness:
  assumes "valid_CTransaction tx" "HasWitness tx"
  shows "UnserializeTransaction True (SerializeTransaction True tx @ rest) = Inr (tx, rest)"
proof -
  have v: "valid_int 32 (tx_nVersion tx)" "\<forall>i \<in> set (vin tx). valid_witness i"
    using assms(1) by (simp_all add: valid_CTransaction_def)
  then show ?thesis
    using body_unser_witness [OF assms(1)] assms(2)
    by (simp add: UnserializeTransaction_def SerializeTransaction_def codec_simps unser_witnesses_ser)
qed

lemma Unserialize_Serialize:
  assumes "valid_CTransaction tx"
  shows "UnserializeTransaction True (SerializeTransaction True tx @ rest) = Inr (tx, rest)"
proof (cases "HasWitness tx")
  case False
  then have "strip_witness tx = tx" by (simp add: strip_witness_def HasWitness_def strip_no_witness)
  moreover from this have "SerializeTransaction True tx = SerializeTransaction False tx"
    using SerializeTransaction_strip [of tx True] by simp
  ultimately show ?thesis using Unserialize_Serialize_no_witness [OF assms] by simp
qed (rule Unserialize_Serialize_witness [OF assms])

interpretation tx_codec: codec "SerializeTransaction True" "UnserializeTransaction True" valid_CTransaction
  by unfold_locales (rule Unserialize_Serialize)

interpretation txs_codec: codec "ser_vector (SerializeTransaction True)"
    "unser_vector (UnserializeTransaction True)"
    "\<lambda>txs. length txs \<le> MAX_SIZE \<and> (\<forall>tx \<in> set txs. valid_CTransaction tx)"
  by (rule tx_codec.vector_codec)

definition valid_CBlockHeader :: "'a CBlockHeader_scheme \<Rightarrow> bool" where
  "valid_CBlockHeader b \<longleftrightarrow>
     valid_int 32 (blk_nVersion b) \<and> length (hashPrevBlock b) = 32 \<and> length (hashMerkleRoot b) = 32 \<and>
     length (nNonce b) = 32 \<and> length (nSolution b) \<le> MAX_SIZE"

definition valid_CBlock :: "CBlock \<Rightarrow> bool" where
  "valid_CBlock b \<longleftrightarrow>
     valid_CBlockHeader b \<and> length (vtx b) \<le> MAX_SIZE \<and> (\<forall>tx \<in> set (vtx b). valid_CTransaction tx)"

lemma unser_header:
  "valid_CBlockHeader b \<Longrightarrow> unser_CBlockHeader (ser_CBlockHeader b @ rest) = Inr (CBlockHeader.truncate b, rest)"
  by (simp add: valid_CBlockHeader_def unser_CBlockHeader_def ser_CBlockHeader_def codec_simps
      CBlockHeader.defs)

interpretation header_codec: codec ser_CBlockHeader unser_CBlockHeader valid_CBlockHeader
  by unfold_locales (simp add: unser_header CBlockHeader.defs)

interpretation block_codec: codec "ser_CBlock True" "unser_CBlock True" valid_CBlock
  by unfold_locales
    (simp add: unser_CBlock_def ser_CBlock_def valid_CBlock_def unser_header txs_codec.unser_ser
      preturn_def CBlockHeader.defs)

section \<open>Sizes and weights\<close>

lemma length_witness_extra:
  "length (SerializeTransaction True tx) = length (SerializeTransaction False tx) +
   (if HasWitness tx then 2 + length (concat (map (\<lambda>i. ser_vector ser_byte_vector (scriptWitness i)) (vin tx))) else 0)"
  by (simp add: SerializeTransaction_def Let_def ser_vector_def length_simps ser_writedata8_def
      GetSizeOfCompactSize_def)

section \<open>Monetary totals\<close>

lemma GetValueOut_loop_Inr:
  "GetValueOut_loop a outs = Inr v \<Longrightarrow>
   v = a + sum_list (map nValue outs) \<and> (\<forall>o' \<in> set outs. MoneyRange (nValue o')) \<and>
   (outs \<noteq> [] \<longrightarrow> MoneyRange v)"
proof (induction outs arbitrary: a)
  case (Cons o' outs)
  then have r: "MoneyRange (nValue o')" "MoneyRange (a + nValue o')" "GetValueOut_loop (a + nValue o') outs = Inr v"
    by (auto simp: Let_def split: if_splits)
  show ?case using Cons.IH [OF r(3)] r by (cases outs) auto
qed simp

lemma GetValueOut_loop_ok:
  "\<forall>o' \<in> set outs. 0 \<le> nValue o' \<Longrightarrow> 0 \<le> a \<Longrightarrow> a + sum_list (map nValue outs) \<le> MAX_MONEY \<Longrightarrow>
   GetValueOut_loop a outs = Inr (a + sum_list (map nValue outs))"
proof (induction outs arbitrary: a)
  case (Cons o' outs)
  have "0 \<le> sum_list (map nValue outs)" using Cons.prems(1) by (intro sum_list_nonneg) auto
  then show ?case using Cons.prems Cons.IH [of "a + nValue o'"]
    by (simp add: Let_def MoneyRange_def add.assoc)
qed simp

end
