(* ===== verification/Script.thy ===== *)
theory Script
  imports Opcodes Transaction "HOL-Library.Monad_Syntax"
begin

text \<open>
  Scripts (\<open>script/script.h\<close>, \<open>script/script.cpp\<close>): the numbers of the script language, reading and
  pushing, deletion of a pattern, signature-operation counts and the recognised output forms.  A
  script is its bytes; an iterator into it is the suffix that starts there.  An operation on an
  opcode whose assertion fails returns \<open>None\<close>.
\<close>

section \<open>Numbers\<close>

text \<open>\<open>CScriptNum\<close> is its \<open>int64_t\<close> value; its constructor from bytes throws.\<close>

datatype scriptnum_error = NumOverflow | NonMinimalNum

definition nDefaultMaxNumSize :: nat where "nDefaultMaxNumSize = 4"

fun bytes_le :: "bytes \<Rightarrow> int" where
  "bytes_le [] = 0"
| "bytes_le (b # bs) = uint b OR push_bit 8 (bytes_le bs)"

definition set_vch :: "bytes \<Rightarrow> int" where
  "set_vch vch =
     (if vch = [] then 0
      else let result = bytes_le vch
           in if last vch AND 0x80 \<noteq> 0
              then - (result AND NOT (push_bit (8 * (length vch - 1)) 0x80))
              else result)"

definition CScriptNum :: "bytes \<Rightarrow> bool \<Rightarrow> nat \<Rightarrow> scriptnum_error + int" where
  "CScriptNum vch fRequireMinimal nMaxNumSize =
     (if length vch > nMaxNumSize then Inl NumOverflow
      else if fRequireMinimal \<and> length vch > 0 \<and> last vch AND 0x7f = 0 \<and>
              (length vch \<le> 1 \<or> (vch ! (length vch - 2)) AND 0x80 = 0)
      then Inl NonMinimalNum
      else Inr (set_vch vch))"

definition getint :: "int \<Rightarrow> int" where
  "getint m_value = (if m_value > 2 ^ 31 - 1 then 2 ^ 31 - 1
                     else if m_value < - (2 ^ 31) then - (2 ^ 31) else m_value)"

function abs_bytes :: "nat \<Rightarrow> bytes" where
  "abs_bytes absvalue = (if absvalue = 0 then [] else of_nat (absvalue mod 256) # abs_bytes (absvalue div 256))"
  by pat_completeness auto
termination
  by (relation "measure id") auto

declare abs_bytes.simps [simp del]

definition scriptnum_serialize :: "int \<Rightarrow> bytes" where
  "scriptnum_serialize value =
     (if value = 0 then []
      else let neg = (value < 0); result = abs_bytes (nat \<bar>value\<bar>)
           in if last result AND 0x80 \<noteq> 0 then result @ [if neg then 0x80 else 0]
              else if neg then butlast result @ [last result OR 0x80]
              else result)"

section \<open>Pushing\<close>

definition push_opcode :: "CScript \<Rightarrow> opcodetype \<Rightarrow> CScript" where
  "push_opcode s opcode = s @ [opcode]"

definition push_vector :: "CScript \<Rightarrow> bytes \<Rightarrow> CScript" where
  "push_vector s b =
     s @ (if length b < 0x4c then [of_nat (length b)]
          else if length b \<le> 0xff then [OP_PUSHDATA1, of_nat (length b)]
          else if length b \<le> 0xffff then OP_PUSHDATA2 # WriteLE16 (of_nat (length b))
          else OP_PUSHDATA4 # WriteLE32 (of_nat (length b))) @ b"

definition push_scriptnum :: "CScript \<Rightarrow> int \<Rightarrow> CScript" where
  "push_scriptnum s b = push_vector s (scriptnum_serialize b)"

definition push_int64 :: "CScript \<Rightarrow> int \<Rightarrow> CScript" where
  "push_int64 s n =
     (if n = - 1 \<or> (n \<ge> 1 \<and> n \<le> 16) then s @ [word_of_int (n + (uint OP_1 - 1))]
      else if n = 0 then s @ [OP_0]
      else push_vector s (scriptnum_serialize n))"

section \<open>Reading\<close>

text \<open>\<open>GetOp2\<close>: the opcode and its immediate operand, or \<open>None\<close> for \<open>false\<close>, and where the iterator
  is left (on failure, past what has been read).\<close>

definition operand2 :: "opcodetype \<Rightarrow> nat \<Rightarrow> bytes \<Rightarrow> (opcodetype \<times> bytes) option \<times> bytes" where
  "operand2 opcode nSize pc =
     (if length pc < nSize then (None, pc) else (Some (opcode, take nSize pc), drop nSize pc))"

fun GetOp2 :: "bytes \<Rightarrow> (opcodetype \<times> bytes) option \<times> bytes" where
  "GetOp2 [] = (None, [])"
| "GetOp2 (opcode # pc) =
     (if opcode \<le> OP_PUSHDATA4
      then (if opcode < OP_PUSHDATA1 then operand2 opcode (unat opcode) pc
            else if opcode = OP_PUSHDATA1
            then (if length pc < 1 then (None, pc) else operand2 opcode (unat (hd pc)) (tl pc))
            else if opcode = OP_PUSHDATA2
            then (if length pc < 2 then (None, pc) else operand2 opcode (unat (ReadLE16 pc)) (drop 2 pc))
            else (if length pc < 4 then (None, pc) else operand2 opcode (unat (ReadLE32 pc)) (drop 4 pc)))
      else (Some (opcode, []), pc))"

text \<open>\<open>GetOp\<close>, for the callers that stop when it fails.\<close>

definition GetOp :: "bytes \<Rightarrow> (opcodetype \<times> bytes \<times> bytes) option" where
  "GetOp pc = (case GetOp2 pc of (None, _) \<Rightarrow> None | (Some (opcode, d), rest) \<Rightarrow> Some (opcode, d, rest))"

definition read_operand :: "opcodetype \<Rightarrow> nat \<Rightarrow> bytes \<Rightarrow> (opcodetype \<times> bytes \<times> bytes) option" where
  "read_operand opcode nSize pc =
     (if length pc < nSize then None else Some (opcode, take nSize pc, drop nSize pc))"

lemma GetOp_simps [simp]:
  "GetOp [] = None"
  "GetOp (opcode # pc) =
     (if opcode \<le> OP_PUSHDATA4
      then (if opcode < OP_PUSHDATA1 then read_operand opcode (unat opcode) pc
            else if opcode = OP_PUSHDATA1
            then (if length pc < 1 then None else read_operand opcode (unat (hd pc)) (tl pc))
            else if opcode = OP_PUSHDATA2
            then (if length pc < 2 then None else read_operand opcode (unat (ReadLE16 pc)) (drop 2 pc))
            else (if length pc < 4 then None else read_operand opcode (unat (ReadLE32 pc)) (drop 4 pc)))
      else Some (opcode, [], pc))"
  by (simp_all add: GetOp_def operand2_def read_operand_def)

lemma GetOp_shorter: "GetOp pc = Some (opcode, d, rest) \<Longrightarrow> length rest < length pc"
  by (cases pc) (auto simp: read_operand_def split: if_splits)

lemma GetOp_fst: "GetOp (b # pc) = Some (opcode, d, rest) \<Longrightarrow> opcode = b"
  by (auto simp: read_operand_def split: if_splits)

definition DecodeOP_N :: "opcodetype \<Rightarrow> int option" where
  "DecodeOP_N opcode =
     (if opcode = OP_0 then Some 0
      else if \<not> (opcode \<ge> OP_1 \<and> opcode \<le> OP_16) then None
      else Some (uint opcode - (uint OP_1 - 1)))"

definition EncodeOP_N :: "int \<Rightarrow> opcodetype option" where
  "EncodeOP_N n =
     (if \<not> (n \<ge> 0 \<and> n \<le> 16) then None
      else if n = 0 then Some OP_0
      else Some (word_of_int (uint OP_1 + n - 1)))"

section \<open>Deleting a pattern\<close>

text \<open>The occurrences of \<open>b\<close> that start at \<open>pc\<close>, one after the other; \<open>b\<close> is not empty.\<close>

function skip_pattern :: "bytes \<Rightarrow> bytes \<Rightarrow> nat \<times> bytes" where
  "skip_pattern b pc =
     (if b \<noteq> [] \<and> length pc \<ge> length b \<and> take (length b) pc = b
      then (let (n, pc') = skip_pattern b (drop (length b) pc) in (n + 1, pc'))
      else (0, pc))"
  by pat_completeness auto
termination
  by (relation "measure (\<lambda>(b, pc). length pc)") (auto intro!: diff_less less_le_trans [of 0 "length b" "length pc" for b pc :: bytes])

declare skip_pattern.simps [simp del]

lemma skip_pattern_length: "length (snd (skip_pattern b pc)) \<le> length pc"
  by (induction b pc rule: skip_pattern.induct) (subst skip_pattern.simps, auto simp: case_prod_beta Let_def)

text \<open>One round copies what lies between \<open>pc2\<close> and \<open>pc\<close>, skips the pattern, and moves on by one
  operation; \<open>pc2\<close> is where copying resumes.\<close>

function FindAndDelete_loop :: "bytes \<Rightarrow> bytes \<Rightarrow> bytes \<Rightarrow> bytes \<Rightarrow> nat \<Rightarrow> bytes \<times> bytes \<times> nat" where
  "FindAndDelete_loop b result pc2 pc nFound =
     (let result' = result @ take (length pc2 - length pc) pc2;
          (n, pc') = skip_pattern b pc
      in case GetOp pc' of
           None \<Rightarrow> (result', pc', nFound + n)
         | Some (opcode, d, rest) \<Rightarrow> FindAndDelete_loop b result' pc' rest (nFound + n))"
  by pat_completeness auto
termination
  by (relation "measure (\<lambda>(b, result, pc2, pc, nFound). length pc)")
    (auto dest!: GetOp_shorter intro: less_le_trans simp: skip_pattern_length [THEN order_trans [rotated]]
      dest: arg_cong [where f = snd],
     metis less_le_trans skip_pattern_length snd_conv)

declare FindAndDelete_loop.simps [simp del]

definition FindAndDelete :: "CScript \<Rightarrow> CScript \<Rightarrow> nat \<times> CScript" where
  "FindAndDelete script b =
     (if b = [] then (0, script)
      else let (result, pc2, nFound) = FindAndDelete_loop b [] script script 0
           in if nFound > 0 then (nFound, result @ pc2) else (nFound, script))"

section \<open>Walking over the operations\<close>

function script_Find :: "opcodetype \<Rightarrow> bytes \<Rightarrow> nat" where
  "script_Find op pc =
     (case GetOp pc of None \<Rightarrow> 0
      | Some (opcode, d, rest) \<Rightarrow> (if opcode = op then 1 else 0) + script_Find op rest)"
  by pat_completeness auto
termination
  by (relation "measure (\<lambda>(op, pc). length pc)") (auto dest: GetOp_shorter)

declare script_Find.simps [simp del]

function GetSigOpCount_loop :: "bool \<Rightarrow> nat \<Rightarrow> opcodetype \<Rightarrow> bytes \<Rightarrow> nat option" where
  "GetSigOpCount_loop fAccurate n lastOpcode pc =
     (case GetOp pc of None \<Rightarrow> Some n
      | Some (opcode, d, rest) \<Rightarrow>
          if opcode = OP_CHECKSIG \<or> opcode = OP_CHECKSIGVERIFY
          then GetSigOpCount_loop fAccurate (n + 1) opcode rest
          else if opcode = OP_CHECKMULTISIG \<or> opcode = OP_CHECKMULTISIGVERIFY
          then (if fAccurate \<and> lastOpcode \<ge> OP_1 \<and> lastOpcode \<le> OP_16
                then (case DecodeOP_N lastOpcode of None \<Rightarrow> None
                      | Some k \<Rightarrow> GetSigOpCount_loop fAccurate (n + nat k) opcode rest)
                else GetSigOpCount_loop fAccurate (n + MAX_PUBKEYS_PER_MULTISIG) opcode rest)
          else GetSigOpCount_loop fAccurate n opcode rest)"
  by pat_completeness auto
termination
  by (relation "measure (\<lambda>(fAccurate, n, lastOpcode, pc). length pc)") (auto dest: GetOp_shorter)

declare GetSigOpCount_loop.simps [simp del]

definition GetSigOpCount :: "bool \<Rightarrow> CScript \<Rightarrow> nat option" where
  "GetSigOpCount fAccurate script = GetSigOpCount_loop fAccurate 0 OP_INVALIDOPCODE script"

definition IsPayToScriptHash :: "CScript \<Rightarrow> bool" where
  "IsPayToScriptHash s \<longleftrightarrow> length s = 23 \<and> s ! 0 = OP_HASH160 \<and> s ! 1 = 0x14 \<and> s ! 22 = OP_EQUAL"

definition IsPayToWitnessScriptHash :: "CScript \<Rightarrow> bool" where
  "IsPayToWitnessScriptHash s \<longleftrightarrow> length s = 34 \<and> s ! 0 = OP_0 \<and> s ! 1 = 0x20"

definition IsWitnessProgram :: "CScript \<Rightarrow> (int \<times> bytes) option option" where
  "IsWitnessProgram s =
     (if length s < 4 \<or> length s > 42 then Some None
      else if s ! 0 \<noteq> OP_0 \<and> (s ! 0 < OP_1 \<or> s ! 0 > OP_16) then Some None
      else if unat (s ! 1) + 2 = length s
      then (case DecodeOP_N (s ! 0) of None \<Rightarrow> None | Some version \<Rightarrow> Some (Some (version, drop 2 s)))
      else Some None)"

text \<open>The last item the scriptSig pushes; \<open>None\<close> is the early \<open>return 0\<close>.\<close>

function last_push :: "bytes \<Rightarrow> bytes \<Rightarrow> bytes option" where
  "last_push vData pc =
     (if pc = [] then Some vData
      else case GetOp pc of None \<Rightarrow> None
           | Some (opcode, d, rest) \<Rightarrow> if opcode > OP_16 then None else last_push d rest)"
  by pat_completeness auto
termination
  by (relation "measure (\<lambda>(vData, pc). length pc)") (auto dest: GetOp_shorter)

declare last_push.simps [simp del]

definition GetSigOpCount_p2sh :: "CScript \<Rightarrow> CScript \<Rightarrow> nat option" where
  "GetSigOpCount_p2sh script inScript =
     (if \<not> IsPayToScriptHash script then GetSigOpCount True script
      else case last_push [] inScript of None \<Rightarrow> Some 0
           | Some vData \<Rightarrow> GetSigOpCount True vData)"

function IsPushOnly :: "bytes \<Rightarrow> bool" where
  "IsPushOnly pc =
     (if pc = [] then True
      else case GetOp pc of None \<Rightarrow> False
           | Some (opcode, d, rest) \<Rightarrow> if opcode > OP_16 then False else IsPushOnly rest)"
  by pat_completeness auto
termination
  by (relation "measure length") (auto dest: GetOp_shorter)

declare IsPushOnly.simps [simp del]

function HasValidOps :: "bytes \<Rightarrow> bool" where
  "HasValidOps it =
     (if it = [] then True
      else case GetOp it of None \<Rightarrow> False
           | Some (opcode, item, rest) \<Rightarrow>
               if opcode > MAX_OPCODE \<or> length item > MAX_SCRIPT_ELEMENT_SIZE then False else HasValidOps rest)"
  by pat_completeness auto
termination
  by (relation "measure length") (auto dest: GetOp_shorter)

declare HasValidOps.simps [simp del]

definition IsUnspendable :: "CScript \<Rightarrow> bool" where
  "IsUnspendable s \<longleftrightarrow> (length s > 0 \<and> s ! 0 = OP_RETURN) \<or> length s > MAX_SCRIPT_SIZE"

section \<open>Numbers read back\<close>

lemma bytes_le_nonneg: "0 \<le> bytes_le bs"
  by (induction bs) simp_all

lemma int_or_disjoint: "0 \<le> m \<Longrightarrow> m < 2 ^ k \<Longrightarrow> m OR push_bit k n = m + n * 2 ^ k" for m n :: int
proof -
  assume m: "0 \<le> m" "m < 2 ^ k"
  then have "take_bit k m = m" by (simp add: take_bit_int_eq_self)
  then have "\<not> bit m i" if "k \<le> i" for i
    using that by (metis bit_take_bit_iff linorder_not_le)
  then have "m + push_bit k n = m OR push_bit k n"
    by (intro disjunctive_add) (auto simp: bit_push_bit_iff not_le)
  then show ?thesis by (simp add: push_bit_eq_mult)
qed

lemma bytes_le_Cons: "bytes_le (b # bs) = uint b + 256 * bytes_le bs"
  using int_or_disjoint [of "uint b" 8 "bytes_le bs"] unsigned_less [of b, where ?'a = int] by simp

lemma bytes_le_append: "bytes_le (as @ bs) = bytes_le as + 256 ^ length as * bytes_le bs"
  by (induction as) (simp_all add: bytes_le_Cons algebra_simps del: bytes_le.simps(2))

lemma bytes_le_bound: "bytes_le bs < 256 ^ length bs"
proof (induction bs)
  case (Cons b bs)
  have "uint b < 256" using unsigned_less [of b, where ?'a = int] by simp
  then have "uint b + 256 * bytes_le bs < 256 * (bytes_le bs + 1)" by simp
  also have "\<dots> \<le> 256 * 256 ^ length bs" using Cons by (intro mult_left_mono) simp_all
  finally show ?case by (simp add: bytes_le_Cons del: bytes_le.simps(2))
qed simp

lemma bytes_le_abs_bytes: "bytes_le (abs_bytes n) = int n"
proof (induction n rule: abs_bytes.induct)
  case (1 n)
  show ?case
  proof (cases "n = 0")
    case False
    have "uint (of_nat (n mod 256) :: u8) = int (n mod 256)"
      by (simp add: unsigned_of_nat take_bit_nat_def uint_nat of_nat_mod)
    then have "bytes_le (abs_bytes n) = int (n mod 256) + 256 * int (n div 256)"
      using False 1 by (subst abs_bytes.simps) (simp add: bytes_le_Cons del: bytes_le.simps(2))
    also have "\<dots> = int (n mod 256 + 256 * (n div 256))" by (simp only: of_nat_add of_nat_mult of_nat_numeral)
    also have "\<dots> = int n" by (simp only: mod_mult_div_eq)
    finally show ?thesis .
  qed (simp add: abs_bytes.simps)
qed

lemma abs_bytes_nonempty: "n \<noteq> 0 \<Longrightarrow> abs_bytes n \<noteq> []"
  by (subst abs_bytes.simps) simp

lemma abs_bytes_last: "n \<noteq> 0 \<Longrightarrow> last (abs_bytes n) \<noteq> 0"
proof (induction n rule: abs_bytes.induct)
  case (1 n)
  show ?case
  proof (cases "n div 256 = 0")
    case True
    then have "n < 256" by (simp add: div_eq_0_iff)
    then have "unat (of_nat n :: u8) = n" by (simp add: unsigned_of_nat take_bit_nat_eq_self)
    then have "(of_nat n :: u8) \<noteq> 0" using 1(2) by (metis unsigned_0)
    then show ?thesis using 1(2) True \<open>n < 256\<close> by (subst abs_bytes.simps) (simp add: abs_bytes.simps)
  next
    case False
    then show ?thesis using 1 abs_bytes_nonempty [OF False] by (subst abs_bytes.simps) simp
  qed
qed

lemma clear_top_bit: "0 \<le> m \<Longrightarrow> m < 2 ^ k \<Longrightarrow> (m + 2 ^ k) AND NOT (2 ^ k) = m" for m :: int
proof -
  assume m: "0 \<le> m" "m < 2 ^ k"
  then have "take_bit k m = m" by (simp add: take_bit_int_eq_self)
  then have "\<not> bit m i" if "k \<le> i" for i
    using that by (metis bit_take_bit_iff linorder_not_le)
  moreover have "m + 2 ^ k = m OR push_bit k 1" using int_or_disjoint [OF m, of 1] by simp
  ultimately show ?thesis
    by (intro bit_eqI) (auto simp: bit_simps bit_exp_iff push_bit_eq_mult)
qed

lemma u8_high_bit: "(b :: u8) AND 0x80 \<noteq> 0 \<longleftrightarrow> 128 \<le> uint b"
proof -
  have e: "(0x80 :: u8) = push_bit 7 1" by simp
  have "b AND 0x80 \<noteq> 0 \<longleftrightarrow> bit (unat b) 7" by (simp only: e and_push_bit_1 not_not bit_unat)
  also have "\<dots> \<longleftrightarrow> odd (unat b div 2 ^ 7)" by (simp only: bit_iff_odd)
  also have "\<dots> \<longleftrightarrow> 128 \<le> unat b"
  proof -
    have "odd (n div 2 ^ 7) \<longleftrightarrow> 128 \<le> n" if "n < 256" for n :: nat
    proof (cases "128 \<le> n")
      case True
      have "n div 2 ^ 7 = 1" using that True by (simp add: div_nat_eqI [of 1 128])
      then show ?thesis using True by simp
    qed simp
    from this [OF unat_bound_u8] show ?thesis .
  qed
  also have "\<dots> \<longleftrightarrow> 128 \<le> uint b" using of_nat_le_iff [of 128 "unat b", where ?'a = int] by simp
  finally show ?thesis .
qed

lemma set_vch_snoc:
  assumes "xs = ys @ [b]"
  shows "set_vch xs = (if b AND 0x80 \<noteq> 0
    then - (bytes_le ys + 256 ^ length ys * (uint b - 128)) else bytes_le xs)"
proof -
  have b: "uint b < 256" "0 \<le> uint b" using unsigned_less [of b, where ?'a = int] by simp_all
  let ?m = "bytes_le ys + 256 ^ length ys * (uint b - 128)"
  have le: "bytes_le xs = bytes_le ys + 256 ^ length ys * uint b" by (simp add: assms bytes_le_append)
  show ?thesis
  proof (cases "b AND 0x80 \<noteq> 0")
    case True
    then have hi: "128 \<le> uint b" by (simp only: u8_high_bit)
    have p: "(256 :: int) ^ length ys * 128 = 2 ^ (8 * length ys + 7)" by (simp add: power_add power_mult)
    have m0: "0 \<le> ?m" using hi bytes_le_nonneg [of ys] by simp
    have "bytes_le ys < 256 ^ length ys" by (rule bytes_le_bound)
    moreover have "256 ^ length ys * (uint b - 128) \<le> 256 ^ length ys * 127" using b by (intro mult_left_mono) auto
    ultimately have "?m < 256 ^ length ys + 256 ^ length ys * 127" by (rule add_less_le_mono)
    then have m1: "?m < 2 ^ (8 * length ys + 7)" unfolding p [symmetric] by simp
    have "bytes_le xs = ?m + 2 ^ (8 * length ys + 7)"
      unfolding p [symmetric] le by (simp add: algebra_simps)
    moreover have "push_bit (8 * (length xs - 1)) 0x80 = (2 :: int) ^ (8 * length ys + 7)"
      using p by (simp add: assms push_bit_eq_mult power_mult)
    ultimately have "set_vch xs = - ?m"
      using True clear_top_bit [OF m0 m1] by (simp add: set_vch_def assms Let_def)
    then show ?thesis using True by simp
  qed (simp add: set_vch_def assms)
qed

text \<open>What the language writes for a number is read back as that number, and is accepted as its
  minimal encoding.\<close>

lemma set_vch_serialize: "set_vch (scriptnum_serialize v) = v"
proof (cases "v = 0")
  case False
  define n where "n = nat \<bar>v\<bar>"
  have n: "n \<noteq> 0" "int n = \<bar>v\<bar>" using False by (simp_all add: n_def)
  obtain ys b where r: "abs_bytes n = ys @ [b]" by (metis abs_bytes_nonempty [OF n(1)] rev_exhaust)
  have ser: "scriptnum_serialize v =
      (if b AND 0x80 \<noteq> 0 then (ys @ [b]) @ [if v < 0 then 0x80 else 0]
       else if v < 0 then ys @ [b OR 0x80] else ys @ [b])"
    using False by (simp only: scriptnum_serialize_def Let_def n_def [symmetric] r if_False last_snoc butlast_snoc)
  have val: "bytes_le (ys @ [b]) = \<bar>v\<bar>" using bytes_le_abs_bytes [of n] r n(2) by simp
  show ?thesis
  proof (cases "b AND 0x80 \<noteq> 0")
    case True
    then have "scriptnum_serialize v = (ys @ [b]) @ [if v < 0 then 0x80 else 0]"
      by (simp add: ser)
    then show ?thesis
      using val set_vch_snoc [of "(ys @ [b]) @ [0]" "ys @ [b]" 0] set_vch_snoc [of "(ys @ [b]) @ [0x80]" "ys @ [b]" "0x80"]
        bytes_le_append [of "ys @ [b]" "[0]"]
      by (simp split: if_splits)
  next
    case low: False
    show ?thesis
    proof (cases "v < 0")
      case True
      have hi: "uint (b OR 0x80) = uint b + 128"
      proof -
        have e: "(0x80 :: u8) = push_bit 7 1" by simp
        have "uint b < 2 ^ 7" using low u8_high_bit [of b] by simp
        then have "uint b OR push_bit 7 1 = uint b + 1 * 2 ^ 7" by (intro int_or_disjoint) simp_all
        moreover have "uint (b OR 0x80) = uint b OR 0x80" by (simp add: uint_or)
        ultimately show ?thesis by simp
      qed
      then have "(b OR 0x80) AND 0x80 \<noteq> 0" by (simp add: u8_high_bit)
      moreover have "scriptnum_serialize v = ys @ [b OR 0x80]"
        using low True by (simp add: ser)
      ultimately show ?thesis using val hi True
        by (simp add: set_vch_snoc [OF refl] bytes_le_append)
    next
      case nn: False
      then have "scriptnum_serialize v = ys @ [b]"
        using low by (simp add: ser)
      then show ?thesis using val low nn by (simp add: set_vch_snoc [OF refl])
    qed
  qed
qed (simp add: scriptnum_serialize_def set_vch_def)

lemma u8_low_bits: "b \<noteq> 0 \<Longrightarrow> (b :: u8) AND 0x80 = 0 \<Longrightarrow> (b OR 0x80) AND 0x7f \<noteq> 0 \<and> b AND 0x7f \<noteq> 0"
proof -
  assume b: "b \<noteq> 0" "b AND 0x80 = 0"
  have e: "(0x80 :: u8) = push_bit 7 1" "(0x7f :: u8) = mask 7" by (simp_all add: mask_eq_exp_minus_1)
  have "\<not> bit b 7" using b(2) by (simp only: e(1) and_push_bit_1 not_False_eq_True)
  moreover obtain n where n: "bit b n" using b(1) by (metis bit_eqI bit_0_eq bot_apply bot_bool_def)
  moreover have "n < 8" using bit_imp_le_length [OF n] by simp
  ultimately have "n < 7" by (cases "n = 7") auto
  then have "bit ((b OR 0x80) AND 0x7f) n" "bit (b AND 0x7f) n" using n by (simp_all add: e(2) bit_simps)
  then show ?thesis by (metis bit_0_eq bot_apply bot_bool_def)
qed

lemma CScriptNum_serialize:
  assumes "length (scriptnum_serialize v) \<le> nMaxNumSize"
  shows "CScriptNum (scriptnum_serialize v) fRequireMinimal nMaxNumSize = Inr v"
proof (cases "v = 0")
  case True
  then show ?thesis by (simp add: CScriptNum_def scriptnum_serialize_def set_vch_def)
next
  case False
  define n where "n = nat \<bar>v\<bar>"
  have n: "n \<noteq> 0" using False by (simp add: n_def)
  obtain ys b where r: "abs_bytes n = ys @ [b]" by (metis abs_bytes_nonempty [OF n] rev_exhaust)
  have ser: "scriptnum_serialize v =
      (if b AND 0x80 \<noteq> 0 then (ys @ [b]) @ [if v < 0 then 0x80 else 0]
       else if v < 0 then ys @ [b OR 0x80] else ys @ [b])"
    using False by (simp only: scriptnum_serialize_def Let_def n_def [symmetric] r if_False last_snoc butlast_snoc)
  have "b \<noteq> 0" using abs_bytes_last [OF n] r by simp
  then have "\<not> (length (scriptnum_serialize v) > 0 \<and> last (scriptnum_serialize v) AND 0x7f = 0 \<and>
      (length (scriptnum_serialize v) \<le> 1 \<or>
       (scriptnum_serialize v ! (length (scriptnum_serialize v) - 2)) AND 0x80 = 0))"
    using u8_low_bits [of b] by (auto simp: ser nth_append)
  then show ?thesis using assms by (simp add: CScriptNum_def set_vch_serialize)
qed

section \<open>Pushed data is read back\<close>

lemma read_operand_append: "read_operand opcode (length b) (b @ rest) = Some (opcode, b, rest)"
  by (simp add: read_operand_def)

lemma unat_of_nat_u8: "n < 256 \<Longrightarrow> unat (of_nat n :: u8) = n"
  by (simp add: unsigned_of_nat take_bit_nat_eq_self)

lemma GetOp_push_vector:
  assumes "length b < 2 ^ 32"
  shows "\<exists>opcode \<le> OP_PUSHDATA4. GetOp (push_vector [] b @ rest) = Some (opcode, b, rest)"
proof -
  consider (direct) "length b < 0x4c" | (one) "\<not> length b < 0x4c" "length b \<le> 0xff"
    | (two) "\<not> length b \<le> 0xff" "length b \<le> 0xffff" | (four) "\<not> length b \<le> 0xffff" by linarith
  then show ?thesis
  proof cases
    case direct
    then have "unat (of_nat (length b) :: u8) = length b" by (simp add: unat_of_nat_u8)
    moreover from this have "(of_nat (length b) :: u8) < OP_PUSHDATA1" "(of_nat (length b) :: u8) \<le> OP_PUSHDATA4"
      using direct by (simp_all add: word_less_nat_alt word_le_nat_alt)
    ultimately show ?thesis using direct
      by (intro exI [of _ "of_nat (length b) :: u8"]) (simp add: push_vector_def read_operand_append)
  next
    case one
    then have "unat (of_nat (length b) :: u8) = length b" by (simp add: unat_of_nat_u8)
    then show ?thesis using one
      by (intro exI [of _ OP_PUSHDATA1]) (simp add: push_vector_def read_operand_append)
  next
    case two
    then have "unat (ReadLE16 (WriteLE16 (of_nat (length b)) @ b @ rest)) = length b"
      by (simp add: ReadLE16_def WriteLE16_def length_simps le_read_write unsigned_of_nat take_bit_nat_eq_self)
    then show ?thesis using two
      by (intro exI [of _ OP_PUSHDATA2]) (simp add: push_vector_def read_operand_append WriteLE16_def length_simps)
  next
    case four
    then have "unat (ReadLE32 (WriteLE32 (of_nat (length b)) @ b @ rest)) = length b"
      using assms by (simp add: ReadLE32_def WriteLE32_def length_simps le_read_write unsigned_of_nat take_bit_nat_eq_self)
    then show ?thesis using four
      by (intro exI [of _ OP_PUSHDATA4]) (simp add: push_vector_def read_operand_append WriteLE32_def length_simps)
  qed
qed

text \<open>Small numbers pushed by an opcode are decoded by \<open>DecodeOP_N\<close>.\<close>

lemma DecodeOP_N_Encode: "0 \<le> n \<Longrightarrow> n \<le> 16 \<Longrightarrow> EncodeOP_N n \<bind> DecodeOP_N = Some n"
proof -
  assume n: "0 \<le> n" "n \<le> 16"
  then have "uint (word_of_int (0x51 + n - 1) :: u8) = 0x51 + n - 1"
    unfolding uint_word_of_int by (intro mod_pos_pos_trivial) simp_all
  then have u: "uint (word_of_int (0x51 + n - 1) :: u8) = 0x50 + n" by (simp only:)
  then have "(word_of_int (0x51 + n - 1) :: u8) \<noteq> 0" "n \<noteq> 0 \<Longrightarrow> 0x51 \<le> (word_of_int (0x51 + n - 1) :: u8)"
    "(word_of_int (0x51 + n - 1) :: u8) \<le> 0x60"
    unfolding word_le_def word_uint_eq_iff u using n by simp_all
  then show ?thesis using n u by (simp add: EncodeOP_N_def DecodeOP_N_def)
qed

section \<open>Deletion\<close>

lemma skip_pattern_count:
  "skip_pattern b pc = (n, pc') \<Longrightarrow> length pc' + n * length b = length pc"
proof (induction b pc arbitrary: n pc' rule: skip_pattern.induct)
  case (1 b pc)
  show ?case
  proof (cases "b \<noteq> [] \<and> length pc \<ge> length b \<and> take (length b) pc = b")
    case True
    obtain m q where mq: "skip_pattern b (drop (length b) pc) = (m, q)" by (metis surj_pair)
    then have "n = m + 1" "pc' = q" using 1(2) True by (auto simp: skip_pattern.simps [of b pc])
    then show ?thesis using 1(1) [OF True mq] True by auto
  next
    case False
    then show ?thesis using 1(2) by (auto simp: skip_pattern.simps [of b pc])
  qed
qed

lemma FindAndDelete_loop_count:
  "FindAndDelete_loop b result pc2 pc nFound = (r, p, n) \<Longrightarrow> length pc \<le> length pc2 \<Longrightarrow>
   length r + length p + n * length b = length result + length pc2 + nFound * length b"
proof (induction b result pc2 pc nFound rule: FindAndDelete_loop.induct)
  case (1 b result pc2 pc nFound)
  obtain m q where mq: "skip_pattern b pc = (m, q)" by (metis surj_pair)
  note cnt = skip_pattern_count [OF mq]
  show ?case
  proof (cases "GetOp q")
    case None
    then show ?thesis using 1(2,3) cnt mq
      by (subst (asm) FindAndDelete_loop.simps) (auto simp: Let_def algebra_simps)
  next
    case (Some t)
    obtain opcode d rest where t: "GetOp q = Some (opcode, d, rest)" using Some by (cases t) auto
    have "FindAndDelete_loop b (result @ take (length pc2 - length pc) pc2) q rest (nFound + m) = (r, p, n)"
      using 1(2) mq t by (subst (asm) FindAndDelete_loop.simps) (simp add: Let_def)
    then have "length r + length p + n * length b =
        length (result @ take (length pc2 - length pc) pc2) + length q + (nFound + m) * length b"
      using 1(1) [OF refl mq [symmetric] refl t refl refl] GetOp_shorter [OF t] by simp
    then show ?thesis using cnt 1(3) by (simp add: algebra_simps)
  qed
qed

text \<open>Each deletion removes exactly one copy of the pattern.\<close>

lemma FindAndDelete_length:
  "FindAndDelete s b = (n, s') \<Longrightarrow> length s' + n * length b = length s"
  using FindAndDelete_loop_count [of b "[]" s s 0]
  by (auto simp: FindAndDelete_def split: if_splits prod.splits)

section \<open>Counts and forms\<close>

lemma DecodeOP_N_range:
  assumes "opcode \<ge> OP_1" "opcode \<le> OP_16"
  obtains k where "DecodeOP_N opcode = Some k" "1 \<le> k" "k \<le> 16"
proof -
  have "opcode \<noteq> OP_0" using assms(1) by auto
  moreover have "0x51 \<le> uint opcode" "uint opcode \<le> 0x60" using assms by (simp_all add: word_le_def)
  ultimately show ?thesis using that [of "uint opcode - 0x50"] assms by (simp add: DecodeOP_N_def)
qed

text \<open>The count never fails an assertion, and every byte of the script adds at most twenty.\<close>

lemma GetSigOpCount_loop_bound:
  "\<exists>m. GetSigOpCount_loop fAccurate n lastOpcode pc = Some m \<and> n \<le> m \<and> m \<le> n + 20 * length pc"
proof (induction fAccurate n lastOpcode pc rule: GetSigOpCount_loop.induct)
  case (1 fAccurate n lastOpcode pc)
  show ?case
  proof (cases "GetOp pc")
    case None
    then show ?thesis by (subst GetSigOpCount_loop.simps) simp
  next
    case (Some t)
    obtain opcode d rest where t: "GetOp pc = Some (opcode, d, rest)" using Some by (cases t) auto
    have step: "\<exists>m. GetSigOpCount_loop fAccurate (n + k) opcode rest = Some m \<and> n \<le> m \<and> m \<le> n + 20 * length pc"
      if "\<exists>m. GetSigOpCount_loop fAccurate (n + k) opcode rest = Some m \<and> n + k \<le> m \<and> m \<le> n + k + 20 * length rest"
        "k \<le> 20" for k
      using that GetOp_shorter [OF t] by fastforce
    consider (sig) "opcode = OP_CHECKSIG \<or> opcode = OP_CHECKSIGVERIFY"
      | (multi) "\<not> (opcode = OP_CHECKSIG \<or> opcode = OP_CHECKSIGVERIFY)"
          "opcode = OP_CHECKMULTISIG \<or> opcode = OP_CHECKMULTISIGVERIFY"
      | (other) "\<not> (opcode = OP_CHECKSIG \<or> opcode = OP_CHECKSIGVERIFY)"
          "\<not> (opcode = OP_CHECKMULTISIG \<or> opcode = OP_CHECKMULTISIGVERIFY)" by blast
    then show ?thesis
    proof cases
      case sig
      then show ?thesis using step [OF 1(1) [OF t refl refl sig]] t
        by (subst GetSigOpCount_loop.simps) simp
    next
      case multi
      show ?thesis
      proof (cases "fAccurate \<and> lastOpcode \<ge> OP_1 \<and> lastOpcode \<le> OP_16")
        case True
        then obtain k where k: "DecodeOP_N lastOpcode = Some k" "k \<le> 16"
          using DecodeOP_N_range [of lastOpcode] by auto
        then show ?thesis using step [OF 1(2) [OF t refl refl multi True k(1)]] t multi True
          by (subst GetSigOpCount_loop.simps) (simp add: if_not_P)
      next
        case False
        then show ?thesis using step [OF 1(3) [OF t refl refl multi False]] t multi
          by (subst GetSigOpCount_loop.simps) (auto simp: MAX_PUBKEYS_PER_MULTISIG_def)
      qed
    next
      case other
      then show ?thesis using step [of 0] 1(4) [OF t refl refl other] t
        by (subst GetSigOpCount_loop.simps) simp
    qed
  qed
qed

text \<open>A witness program is a version opcode and one direct push of two to forty bytes.\<close>

lemma IsWitnessProgram_iff:
  "IsWitnessProgram s \<noteq> None"
  "IsWitnessProgram s = Some (Some (version, program)) \<longleftrightarrow>
   (\<exists>op. s = op # of_nat (length program) # program \<and> DecodeOP_N op = Some version \<and>
         2 \<le> length program \<and> length program \<le> 40)"
proof -
  have dec: "op \<noteq> OP_0 \<and> (op < OP_1 \<or> op > OP_16) \<longleftrightarrow> DecodeOP_N op = None" for op
    by (auto simp: DecodeOP_N_def not_le)
  show "IsWitnessProgram s \<noteq> None"
    by (auto simp: IsWitnessProgram_def dec split: option.splits)
  show "IsWitnessProgram s = Some (Some (version, program)) \<longleftrightarrow>
   (\<exists>op. s = op # of_nat (length program) # program \<and> DecodeOP_N op = Some version \<and>
         2 \<le> length program \<and> length program \<le> 40)" (is "?L \<longleftrightarrow> ?R")
  proof
    assume ?L
    then have L: "\<not> (length s < 4 \<or> length s > 42)" "unat (s ! 1) + 2 = length s"
      "DecodeOP_N (s ! 0) = Some version" "program = drop 2 s"
      by (auto simp: IsWitnessProgram_def dec split: option.splits if_splits)
    then obtain op l r where s: "s = op # l # r" by (cases s; cases "tl s") auto
    have "length r = unat l" using L(2) s by simp
    then have "of_nat (length r) = l" by simp
    then show ?R using L s by auto
  next
    assume ?R
    then show ?L by (auto simp: IsWitnessProgram_def dec unat_of_nat_u8)
  qed
qed

end
