(* ===== verification/Sig_Checker.thy ===== *)
theory Sig_Checker
  imports Script
begin

text \<open>
  Signature hashes and the signature checkers of the interpreter (\<open>SignatureHash\<close>,
  \<open>TransactionSignatureChecker\<close> and their helpers in \<open>script/interpreter.cpp\<close>, \<open>CPubKey\<close> of
  \<open>pubkey.h\<close>).  The hash \<open>CHash256\<close> is the argument \<open>H\<close>; the group computation of
  \<open>ed25519_verify\<close> is the argument \<open>ed\<close>, of the 64 signature bytes, the message and the key.  A
  result \<open>None\<close> stands for a failed assertion, a read past the end of a buffer, or a read of
  uninitialised memory.
\<close>

section \<open>Hash types and flags\<close>

definition SIGHASH_ALL :: int where "SIGHASH_ALL = 1"
definition SIGHASH_NONE :: int where "SIGHASH_NONE = 2"
definition SIGHASH_SINGLE :: int where "SIGHASH_SINGLE = 3"
definition SIGHASH_ANYONECANPAY :: int where "SIGHASH_ANYONECANPAY = 0x80"

definition SCRIPT_VERIFY_NONE :: u32 where "SCRIPT_VERIFY_NONE = 0"
definition SCRIPT_VERIFY_P2SH :: u32 where "SCRIPT_VERIFY_P2SH = push_bit 0 1"
definition SCRIPT_VERIFY_STRICTENC :: u32 where "SCRIPT_VERIFY_STRICTENC = push_bit 1 1"
definition SCRIPT_VERIFY_NULLDUMMY :: u32 where "SCRIPT_VERIFY_NULLDUMMY = push_bit 4 1"
definition SCRIPT_VERIFY_SIGPUSHONLY :: u32 where "SCRIPT_VERIFY_SIGPUSHONLY = push_bit 5 1"
definition SCRIPT_VERIFY_MINIMALDATA :: u32 where "SCRIPT_VERIFY_MINIMALDATA = push_bit 6 1"
definition SCRIPT_VERIFY_DISCOURAGE_UPGRADABLE_NOPS :: u32 where
  "SCRIPT_VERIFY_DISCOURAGE_UPGRADABLE_NOPS = push_bit 7 1"
definition SCRIPT_VERIFY_CLEANSTACK :: u32 where "SCRIPT_VERIFY_CLEANSTACK = push_bit 8 1"
definition SCRIPT_VERIFY_CHECKLOCKTIMEVERIFY :: u32 where "SCRIPT_VERIFY_CHECKLOCKTIMEVERIFY = push_bit 9 1"
definition SCRIPT_VERIFY_CHECKSEQUENCEVERIFY :: u32 where "SCRIPT_VERIFY_CHECKSEQUENCEVERIFY = push_bit 10 1"
definition SCRIPT_VERIFY_WITNESS :: u32 where "SCRIPT_VERIFY_WITNESS = push_bit 11 1"
definition SCRIPT_VERIFY_DISCOURAGE_UPGRADABLE_WITNESS_PROGRAM :: u32 where
  "SCRIPT_VERIFY_DISCOURAGE_UPGRADABLE_WITNESS_PROGRAM = push_bit 12 1"
definition SCRIPT_VERIFY_MINIMALIF :: u32 where "SCRIPT_VERIFY_MINIMALIF = push_bit 13 1"
definition SCRIPT_VERIFY_NULLFAIL :: u32 where "SCRIPT_VERIFY_NULLFAIL = push_bit 14 1"
definition SCRIPT_VERIFY_WITNESS_PUBKEYTYPE :: u32 where "SCRIPT_VERIFY_WITNESS_PUBKEYTYPE = push_bit 15 1"

datatype SigVersion = SIGVERSION_BASE | SIGVERSION_WITNESS_V0

section \<open>The digest of a transaction for a signature\<close>

text \<open>\<open>CTransactionSignatureSerializer\<close>: the script code without its code separators.\<close>

function count_codeseparators :: "bytes \<Rightarrow> nat" where
  "count_codeseparators it =
     (case GetOp it of None \<Rightarrow> 0
      | Some (opcode, d, rest) \<Rightarrow> (if opcode = OP_CODESEPARATOR then 1 else 0) + count_codeseparators rest)"
  by pat_completeness auto
termination
  by (relation "measure length") (auto dest: GetOp_shorter)

declare count_codeseparators.simps [simp del]

lemma GetOp2_shorter: "GetOp2 pc = (Some (opcode, d), rest) \<Longrightarrow> length rest < length pc"
  by (rule GetOp_shorter [of pc opcode d]) (simp add: GetOp_def)

function write_without_separators :: "bytes \<Rightarrow> bytes \<Rightarrow> bytes" where
  "write_without_separators itBegin it =
     (case GetOp2 it of
        (None, rest) \<Rightarrow> if itBegin \<noteq> [] then take (length itBegin - length rest) itBegin else []
      | (Some (opcode, d), rest) \<Rightarrow>
          if opcode = OP_CODESEPARATOR
          then take (length itBegin - length rest - 1) itBegin @ write_without_separators rest rest
          else write_without_separators itBegin rest)"
  by pat_completeness auto
termination
  by (relation "measure (\<lambda>(itBegin, it). length it)") (auto dest: GetOp2_shorter [OF sym])

declare write_without_separators.simps [simp del]

definition SerializeScriptCode :: "CScript \<Rightarrow> bytes" where
  "SerializeScriptCode scriptCode =
     WriteCompactSize (of_nat (length scriptCode - count_codeseparators scriptCode)) @
     write_without_separators scriptCode scriptCode"

definition fAnyoneCanPay :: "int \<Rightarrow> bool" where
  "fAnyoneCanPay nHashType \<longleftrightarrow> nHashType AND SIGHASH_ANYONECANPAY \<noteq> 0"

definition fHashSingle :: "int \<Rightarrow> bool" where
  "fHashSingle nHashType \<longleftrightarrow> nHashType AND 0x1f = SIGHASH_SINGLE"

definition fHashNone :: "int \<Rightarrow> bool" where
  "fHashNone nHashType \<longleftrightarrow> nHashType AND 0x1f = SIGHASH_NONE"

definition SerializeInput :: "CScript \<Rightarrow> CTransaction \<Rightarrow> nat \<Rightarrow> int \<Rightarrow> nat \<Rightarrow> bytes" where
  "SerializeInput scriptCode txTo nIn nHashType nInput0 =
     (let nInput = (if fAnyoneCanPay nHashType then nIn else nInput0)
      in ser_COutPoint (prevout (vin txTo ! nInput)) @
         (if nInput \<noteq> nIn then ser_byte_vector [] else SerializeScriptCode scriptCode) @
         (if nInput \<noteq> nIn \<and> (fHashSingle nHashType \<or> fHashNone nHashType) then ser_int32 0
          else ser_writedata32 (nSequence (vin txTo ! nInput))))"

definition SerializeOutput :: "CTransaction \<Rightarrow> nat \<Rightarrow> int \<Rightarrow> nat \<Rightarrow> bytes" where
  "SerializeOutput txTo nIn nHashType nOutput =
     (if fHashSingle nHashType \<and> nOutput \<noteq> nIn then ser_CTxOut CTxOut_SetNull
      else ser_CTxOut (vout txTo ! nOutput))"

definition SignatureSerializer :: "CScript \<Rightarrow> CTransaction \<Rightarrow> nat \<Rightarrow> int \<Rightarrow> bytes" where
  "SignatureSerializer scriptCode txTo nIn nHashType =
     (let nInputs = (if fAnyoneCanPay nHashType then 1 else length (vin txTo));
          nOutputs = (if fHashNone nHashType then 0
                      else if fHashSingle nHashType then nIn + 1 else length (vout txTo))
      in ser_int32 (tx_nVersion txTo) @
         WriteCompactSize (of_nat nInputs) @
         concat (map (SerializeInput scriptCode txTo nIn nHashType) [0..<nInputs]) @
         WriteCompactSize (of_nat nOutputs) @
         concat (map (SerializeOutput txTo nIn nHashType) [0..<nOutputs]) @
         ser_writedata32 (tx_nLockTime txTo))"

definition GetPrevoutHash :: "hasher \<Rightarrow> CTransaction \<Rightarrow> uint256" where
  "GetPrevoutHash H txTo = H (concat (map (\<lambda>txin. ser_COutPoint (prevout txin)) (vin txTo)))"

definition GetSequenceHash :: "hasher \<Rightarrow> CTransaction \<Rightarrow> uint256" where
  "GetSequenceHash H txTo = H (concat (map (\<lambda>txin. ser_writedata32 (nSequence txin)) (vin txTo)))"

definition GetOutputsHash :: "hasher \<Rightarrow> CTransaction \<Rightarrow> uint256" where
  "GetOutputsHash H txTo = H (concat (map ser_CTxOut (vout txTo)))"

record PrecomputedTransactionData =
  hashPrevouts :: uint256
  hashSequence :: uint256
  hashOutputs :: uint256
  ready :: bool

definition PrecomputedTransactionData_of :: "hasher \<Rightarrow> CTransaction \<Rightarrow> PrecomputedTransactionData" where
  "PrecomputedTransactionData_of H txTo =
     (if HasWitness txTo
      then \<lparr>hashPrevouts = GetPrevoutHash H txTo, hashSequence = GetSequenceHash H txTo,
            hashOutputs = GetOutputsHash H txTo, ready = True\<rparr>
      else \<lparr>hashPrevouts = uint256_null, hashSequence = uint256_null, hashOutputs = uint256_null,
            ready = False\<rparr>)"

definition SignatureHash ::
  "hasher \<Rightarrow> CScript \<Rightarrow> CTransaction \<Rightarrow> nat \<Rightarrow> int \<Rightarrow> CAmount \<Rightarrow> SigVersion \<Rightarrow>
   PrecomputedTransactionData option \<Rightarrow> uint256 option" where
  "SignatureHash H scriptCode txTo nIn nHashType amount sigversion cache =
     (if \<not> nIn < length (vin txTo) then None
      else if sigversion = SIGVERSION_WITNESS_V0
      then let
        cached = (case cache of None \<Rightarrow> None | Some c \<Rightarrow> if ready c then Some c else None);
        hPrevouts = (if \<not> fAnyoneCanPay nHashType
          then (case cached of Some c \<Rightarrow> hashPrevouts c | None \<Rightarrow> GetPrevoutHash H txTo) else uint256_null);
        hSequence = (if \<not> fAnyoneCanPay nHashType \<and> \<not> fHashSingle nHashType \<and> \<not> fHashNone nHashType
          then (case cached of Some c \<Rightarrow> hashSequence c | None \<Rightarrow> GetSequenceHash H txTo) else uint256_null);
        hOutputs = (if \<not> fHashSingle nHashType \<and> \<not> fHashNone nHashType
          then (case cached of Some c \<Rightarrow> hashOutputs c | None \<Rightarrow> GetOutputsHash H txTo)
          else if fHashSingle nHashType \<and> nIn < length (vout txTo) then H (ser_CTxOut (vout txTo ! nIn))
          else uint256_null);
        txin = vin txTo ! nIn
      in Some (H (ser_int32 (tx_nVersion txTo) @ ser_uint256 hPrevouts @ ser_uint256 hSequence @
           ser_COutPoint (prevout txin) @ ser_byte_vector scriptCode @ ser_int64 amount @
           ser_writedata32 (nSequence txin) @ ser_uint256 hOutputs @ ser_writedata32 (tx_nLockTime txTo) @
           ser_int32 nHashType))
      else if fHashSingle nHashType \<and> nIn \<ge> length (vout txTo) then Some (1 # replicate 31 0)
      else Some (H (SignatureSerializer scriptCode txTo nIn nHashType @ ser_int32 nHashType)))"

section \<open>Public keys\<close>

definition PUBLIC_KEY_SIZE :: nat where "PUBLIC_KEY_SIZE = 32"
definition SIGNATURE_SIZE :: nat where "SIGNATURE_SIZE = 64"

text \<open>\<open>CPubKey(vch)\<close>: the key bytes, or \<open>None\<close> when they are left uninitialised; \<open>IsValid\<close> tests the
  constant size.\<close>

definition CPubKey_Set :: "bytes \<Rightarrow> bytes option" where
  "CPubKey_Set vch = (if length vch = PUBLIC_KEY_SIZE then Some vch else None)"

definition CPubKey_IsValid :: "bytes option \<Rightarrow> bool" where
  "CPubKey_IsValid pubkey \<longleftrightarrow> PUBLIC_KEY_SIZE > 0"

text \<open>\<open>ed25519_verify\<close> reads 64 bytes through the pointer it is given, the last of them first.\<close>

type_synonym ed25519 = "bytes \<Rightarrow> bytes \<Rightarrow> bytes \<Rightarrow> bool"

definition ed25519_verify :: "ed25519 \<Rightarrow> bytes \<Rightarrow> bytes \<Rightarrow> bytes option \<Rightarrow> bool option" where
  "ed25519_verify ed signature message public_key =
     (if length signature < 64 then None
      else if signature ! 63 AND 224 \<noteq> 0 then Some False
      else case public_key of None \<Rightarrow> None
           | Some key \<Rightarrow> Some (ed (take 64 signature) message key))"

definition CPubKey_Verify :: "ed25519 \<Rightarrow> bytes option \<Rightarrow> uint256 \<Rightarrow> bytes \<Rightarrow> bool option" where
  "CPubKey_Verify ed pubkey hash vchSig =
     (if \<not> CPubKey_IsValid pubkey then Some False else ed25519_verify ed vchSig hash pubkey)"

section \<open>Checkers\<close>

text \<open>The virtual functions of \<open>BaseSignatureChecker\<close>, and the base class itself.\<close>

record checker =
  CheckSig :: "bytes \<Rightarrow> bytes \<Rightarrow> CScript \<Rightarrow> SigVersion \<Rightarrow> bool option"
  CheckLockTime :: "int \<Rightarrow> bool option"
  CheckSequence :: "int \<Rightarrow> bool option"

definition BaseSignatureChecker :: checker where
  "BaseSignatureChecker =
     \<lparr>CheckSig = (\<lambda>sig key code sv. Some False), CheckLockTime = (\<lambda>n. Some False),
      CheckSequence = (\<lambda>n. Some False)\<rparr>"

record TxContext =
  txTo :: CTransaction
  nIn :: nat
  tc_amount :: CAmount
  txdata :: "PrecomputedTransactionData option"

definition Tx_CheckSig :: "ed25519 \<Rightarrow> hasher \<Rightarrow> TxContext \<Rightarrow> bytes \<Rightarrow> bytes \<Rightarrow> CScript \<Rightarrow> SigVersion \<Rightarrow> bool option" where
  "Tx_CheckSig ed H c vchSigIn vchPubKey scriptCode sigversion =
     (let pubkey = CPubKey_Set vchPubKey
      in if \<not> CPubKey_IsValid pubkey then Some False
         else if vchSigIn = [] then Some False
         else let nHashType = uint (last vchSigIn); vchSig = butlast vchSigIn
              in do { sighash \<leftarrow> SignatureHash H scriptCode (txTo c) (nIn c) nHashType (tc_amount c) sigversion (txdata c);
                      ok \<leftarrow> CPubKey_Verify ed pubkey sighash vchSig;
                      Some (if \<not> ok then False else True) })"

definition Tx_CheckLockTime :: "TxContext \<Rightarrow> int \<Rightarrow> bool option" where
  "Tx_CheckLockTime c nLockTime =
     (let lock = uint (tx_nLockTime (txTo c))
      in if \<not> ((lock < LOCKTIME_THRESHOLD \<and> nLockTime < LOCKTIME_THRESHOLD) \<or>
               (lock \<ge> LOCKTIME_THRESHOLD \<and> nLockTime \<ge> LOCKTIME_THRESHOLD)) then Some False
         else if nLockTime > lock then Some False
         else if \<not> nIn c < length (vin (txTo c)) then None
         else if SEQUENCE_FINAL = nSequence (vin (txTo c) ! nIn c) then Some False
         else Some True)"

definition Tx_CheckSequence :: "TxContext \<Rightarrow> int \<Rightarrow> bool option" where
  "Tx_CheckSequence c nSeq =
     (if \<not> nIn c < length (vin (txTo c)) then None
      else let
        txToSequence = uint (nSequence (vin (txTo c) ! nIn c));
        nLockTimeMask = uint (SEQUENCE_LOCKTIME_TYPE_FLAG OR SEQUENCE_LOCKTIME_MASK);
        txToSequenceMasked = txToSequence AND nLockTimeMask;
        nSequenceMasked = nSeq AND nLockTimeMask;
        type_flag = uint SEQUENCE_LOCKTIME_TYPE_FLAG
      in if (word_of_int (tx_nVersion (txTo c)) :: u32) < 2 then Some False
         else if txToSequence AND uint SEQUENCE_LOCKTIME_DISABLE_FLAG \<noteq> 0 then Some False
         else if \<not> ((txToSequenceMasked < type_flag \<and> nSequenceMasked < type_flag) \<or>
                    (txToSequenceMasked \<ge> type_flag \<and> nSequenceMasked \<ge> type_flag)) then Some False
         else if nSequenceMasked > txToSequenceMasked then Some False
         else Some True)"

definition TransactionSignatureChecker :: "ed25519 \<Rightarrow> hasher \<Rightarrow> TxContext \<Rightarrow> checker" where
  "TransactionSignatureChecker ed H c =
     \<lparr>CheckSig = Tx_CheckSig ed H c, CheckLockTime = Tx_CheckLockTime c, CheckSequence = Tx_CheckSequence c\<rparr>"

section \<open>The contract of a checker\<close>

text \<open>What the interpreter needs of a checker to be defined: once set up as \<open>valid\<close> says, an answer on
  the signatures and keys in \<open>safe\<close>, an answer on every lock time and sequence number, and rejection
  of the empty signature.\<close>

locale checker_contract =
  fixes chk :: checker
    and valid :: bool
    and safe :: "bytes \<Rightarrow> bytes \<Rightarrow> bool"
  assumes sig_defined: "valid \<Longrightarrow> safe sig key \<Longrightarrow> CheckSig chk sig key code sv \<noteq> None"
    and lock_defined: "valid \<Longrightarrow> CheckLockTime chk n \<noteq> None"
    and seq_defined: "valid \<Longrightarrow> CheckSequence chk n \<noteq> None"
    and empty_sig: "CheckSig chk [] key code sv = Some False"

interpretation base_checker: checker_contract BaseSignatureChecker True "\<lambda>_ _. True"
  by unfold_locales (simp_all add: BaseSignatureChecker_def)

text \<open>For a transaction the safe signatures are those of at least 64 bytes and a hash type, and the safe
  keys those of 32 bytes; the input index must be one of the transaction's.\<close>

definition safe_sig :: "bytes \<Rightarrow> bytes \<Rightarrow> bool" where
  "safe_sig sig key \<longleftrightarrow> sig = [] \<or> (64 < length sig \<and> length key = PUBLIC_KEY_SIZE)"

lemma SignatureHash_defined: "n < length (vin tx) \<Longrightarrow> SignatureHash H code tx n ht am sv cache \<noteq> None"
  by (simp add: SignatureHash_def Let_def)

lemma Tx_CheckSig_defined:
  assumes "nIn c < length (vin (txTo c))" "safe_sig sig key"
  shows "Tx_CheckSig ed H c sig key code sv \<noteq> None"
  using assms(2) SignatureHash_defined [OF assms(1), of H code "uint (last sig)" "tc_amount c" sv "txdata c"]
  by (auto simp: Tx_CheckSig_def safe_sig_def CPubKey_Set_def CPubKey_Verify_def ed25519_verify_def Let_def)

interpretation tx_checker: checker_contract "TransactionSignatureChecker ed H c"
  "nIn c < length (vin (txTo c))" safe_sig for ed H c
  using Tx_CheckSig_defined
  by unfold_locales (auto simp: TransactionSignatureChecker_def Tx_CheckLockTime_def Tx_CheckSequence_def
      Tx_CheckSig_def CPubKey_IsValid_def PUBLIC_KEY_SIZE_def Let_def)

section \<open>Digests\<close>

text \<open>The cached hashes do not change a digest.\<close>

lemma SignatureHash_cache:
  "SignatureHash H code tx n ht am sv (Some (PrecomputedTransactionData_of H tx)) = SignatureHash H code tx n ht am sv None"
  by (simp add: SignatureHash_def PrecomputedTransactionData_of_def Let_def)

end
