(* ===== verification/Interpreter.thy ===== *)
theory Interpreter
  imports Sig_Checker
begin

text \<open>
  The script interpreter (\<open>EvalScript\<close> of \<open>script/interpreter.cpp\<close>).  The \<open>switch\<close> of the loop body is
  split into one function per group of cases.  A stack (\<open>std::vector\<close> of byte vectors, pushed and
  popped at its back) is the list of its elements with the back first, and so are the vector of
  conditions and the alternative stack; \<open>stacktop(-i)\<close> is therefore element \<open>i - 1\<close>.  A run ends with a
  state, with an error, or with \<open>Abort\<close> (a failed assertion or undefined behaviour of the checker); an
  exception is caught by the interpreter and becomes \<open>SCRIPT_ERR_UNKNOWN_ERROR\<close>.
\<close>

section \<open>Outcomes\<close>

datatype 'a exec = Ok 'a | Err ScriptError | Abort

fun ebind :: "'a exec \<Rightarrow> ('a \<Rightarrow> 'b exec) \<Rightarrow> 'b exec" where
  "ebind (Ok a) f = f a"
| "ebind (Err e) f = Err e"
| "ebind Abort f = Abort"

fun defined_or_abort :: "'a option \<Rightarrow> 'a exec" where
  "defined_or_abort None = Abort"
| "defined_or_abort (Some a) = Ok a"

section \<open>Environment and state\<close>

record hash_functions =
  hf_RIPEMD160 :: "bytes \<Rightarrow> bytes"
  hf_SHA1 :: "bytes \<Rightarrow> bytes"
  hf_SHA3_256 :: "bytes \<Rightarrow> bytes"
  hf_HASH160 :: "bytes \<Rightarrow> bytes"
  hf_HASH256 :: "bytes \<Rightarrow> bytes"

record eval_env =
  ev_flags :: u32
  ev_checker :: checker
  ev_sigversion :: SigVersion
  ev_hash :: hash_functions

record eval_state =
  stack :: "bytes list"
  altstack :: "bytes list"
  vfExec :: "bool list"
  pbegincodehash :: bytes
  nOpCount :: int

definition has_flag :: "eval_env \<Rightarrow> u32 \<Rightarrow> bool" where
  "has_flag env f \<longleftrightarrow> ev_flags env AND f \<noteq> 0"

definition fRequireMinimal :: "eval_env \<Rightarrow> bool" where
  "fRequireMinimal env \<longleftrightarrow> has_flag env SCRIPT_VERIFY_MINIMALDATA"

definition vchFalse :: bytes where "vchFalse = []"
definition vchTrue :: bytes where "vchTrue = [1]"

text \<open>\<open>stack.at\<close> throws on an index that is out of range, and \<open>popstack\<close> on an empty stack.\<close>

definition stacktop :: "bytes list \<Rightarrow> nat \<Rightarrow> bytes exec" where
  "stacktop st i = (if 0 < i \<and> i \<le> length st then Ok (st ! (i - 1)) else Err SCRIPT_ERR_UNKNOWN_ERROR)"

fun popstack :: "bytes list \<Rightarrow> bytes list exec" where
  "popstack [] = Err SCRIPT_ERR_UNKNOWN_ERROR"
| "popstack (x # st) = Ok st"

text \<open>A number taken from the stack; the exception of a malformed one is caught.\<close>

definition script_num :: "eval_env \<Rightarrow> bytes \<Rightarrow> nat \<Rightarrow> int exec" where
  "script_num env vch nMaxNumSize =
     (case CScriptNum vch (fRequireMinimal env) nMaxNumSize of
        Inl e \<Rightarrow> Err SCRIPT_ERR_UNKNOWN_ERROR | Inr n \<Rightarrow> Ok n)"

section \<open>Encodings\<close>

fun CastToBool :: "bytes \<Rightarrow> bool" where
  "CastToBool [] = False"
| "CastToBool (b # bs) = (if b \<noteq> 0 then (if bs = [] \<and> b = 0x80 then False else True) else CastToBool bs)"

definition IsCompressedOrUncompressedPubKey :: "bytes \<Rightarrow> bool" where
  "IsCompressedOrUncompressedPubKey vchPubKey = (if length vchPubKey \<noteq> PUBLIC_KEY_SIZE then False else True)"

definition IsCompressedPubKey :: "bytes \<Rightarrow> bool" where
  "IsCompressedPubKey vchPubKey = (if length vchPubKey \<noteq> PUBLIC_KEY_SIZE then False else True)"

definition IsDefinedHashtypeSignature :: "bytes \<Rightarrow> bool" where
  "IsDefinedHashtypeSignature vchSig =
     (if length vchSig = 0 then False
      else let nHashType = uint (last vchSig AND NOT 0x80)
           in if nHashType < SIGHASH_ALL \<or> nHashType > SIGHASH_SINGLE then False else True)"

definition CheckSignatureEncoding :: "eval_env \<Rightarrow> bytes \<Rightarrow> unit exec" where
  "CheckSignatureEncoding env vchSig =
     (if length vchSig = 0 then Ok ()
      else if has_flag env SCRIPT_VERIFY_STRICTENC \<and> \<not> IsDefinedHashtypeSignature vchSig
      then Err SCRIPT_ERR_SIG_HASHTYPE
      else Ok ())"

definition CheckPubKeyEncoding :: "eval_env \<Rightarrow> bytes \<Rightarrow> unit exec" where
  "CheckPubKeyEncoding env vchPubKey =
     (if has_flag env SCRIPT_VERIFY_STRICTENC \<and> \<not> IsCompressedOrUncompressedPubKey vchPubKey
      then Err SCRIPT_ERR_PUBKEYTYPE
      else if has_flag env SCRIPT_VERIFY_WITNESS_PUBKEYTYPE \<and> ev_sigversion env = SIGVERSION_WITNESS_V0 \<and>
              \<not> IsCompressedPubKey vchPubKey
      then Err SCRIPT_ERR_WITNESS_PUBKEYTYPE
      else Ok ())"

definition CheckMinimalPush :: "bytes \<Rightarrow> opcodetype \<Rightarrow> bool exec" where
  "CheckMinimalPush data opcode =
     (if \<not> opcode \<le> OP_PUSHDATA4 then Abort
      else if length data = 0 then Ok (opcode = OP_0)
      else if length data = 1 \<and> data ! 0 \<ge> 1 \<and> data ! 0 \<le> 16 then Ok False
      else if length data = 1 \<and> data ! 0 = 0x81 then Ok False
      else if length data \<le> 75 then Ok (unat opcode = length data)
      else if length data \<le> 255 then Ok (opcode = OP_PUSHDATA1)
      else if length data \<le> 65535 then Ok (opcode = OP_PUSHDATA2)
      else Ok True)"

section \<open>Pushing constants and control\<close>

definition op_small_int :: "opcodetype \<Rightarrow> eval_state \<Rightarrow> eval_state exec" where
  "op_small_int opcode s =
     Ok (s\<lparr>stack := scriptnum_serialize (uint opcode - (uint OP_1 - 1)) # stack s\<rparr>)"

definition op_checklocktimeverify :: "eval_env \<Rightarrow> eval_state \<Rightarrow> eval_state exec" where
  "op_checklocktimeverify env s =
     (if \<not> has_flag env SCRIPT_VERIFY_CHECKLOCKTIMEVERIFY then Ok s
      else if length (stack s) < 1 then Err SCRIPT_ERR_INVALID_STACK_OPERATION
      else ebind (stacktop (stack s) 1) (\<lambda>top.
        ebind (script_num env top 5) (\<lambda>nLockTime.
          if nLockTime < 0 then Err SCRIPT_ERR_NEGATIVE_LOCKTIME
          else ebind (defined_or_abort (CheckLockTime (ev_checker env) nLockTime)) (\<lambda>ok.
            if \<not> ok then Err SCRIPT_ERR_UNSATISFIED_LOCKTIME else Ok s))))"

definition op_checksequenceverify :: "eval_env \<Rightarrow> eval_state \<Rightarrow> eval_state exec" where
  "op_checksequenceverify env s =
     (if \<not> has_flag env SCRIPT_VERIFY_CHECKSEQUENCEVERIFY then Ok s
      else if length (stack s) < 1 then Err SCRIPT_ERR_INVALID_STACK_OPERATION
      else ebind (stacktop (stack s) 1) (\<lambda>top.
        ebind (script_num env top 5) (\<lambda>nSeq.
          if nSeq < 0 then Err SCRIPT_ERR_NEGATIVE_LOCKTIME
          else if nSeq AND uint SEQUENCE_LOCKTIME_DISABLE_FLAG \<noteq> 0 then Ok s
          else ebind (defined_or_abort (CheckSequence (ev_checker env) nSeq)) (\<lambda>ok.
            if \<not> ok then Err SCRIPT_ERR_UNSATISFIED_LOCKTIME else Ok s))))"

definition op_if :: "eval_env \<Rightarrow> bool \<Rightarrow> opcodetype \<Rightarrow> eval_state \<Rightarrow> eval_state exec" where
  "op_if env fExec opcode s =
     (if fExec
      then (if length (stack s) < 1 then Err SCRIPT_ERR_UNBALANCED_CONDITIONAL
            else ebind (stacktop (stack s) 1) (\<lambda>vch.
              if ev_sigversion env = SIGVERSION_WITNESS_V0 \<and> has_flag env SCRIPT_VERIFY_MINIMALIF \<and>
                 (length vch > 1 \<or> (length vch = 1 \<and> vch ! 0 \<noteq> 1))
              then Err SCRIPT_ERR_MINIMALIF
              else ebind (popstack (stack s)) (\<lambda>st.
                Ok (s\<lparr>stack := st,
                      vfExec := (if opcode = OP_NOTIF then \<not> CastToBool vch else CastToBool vch) # vfExec s\<rparr>))))
      else Ok (s\<lparr>vfExec := False # vfExec s\<rparr>))"

definition op_else :: "eval_state \<Rightarrow> eval_state exec" where
  "op_else s = (case vfExec s of [] \<Rightarrow> Err SCRIPT_ERR_UNBALANCED_CONDITIONAL
                | b # bs \<Rightarrow> Ok (s\<lparr>vfExec := (\<not> b) # bs\<rparr>))"

definition op_endif :: "eval_state \<Rightarrow> eval_state exec" where
  "op_endif s = (case vfExec s of [] \<Rightarrow> Err SCRIPT_ERR_UNBALANCED_CONDITIONAL
                 | b # bs \<Rightarrow> Ok (s\<lparr>vfExec := bs\<rparr>))"

definition op_verify :: "eval_state \<Rightarrow> eval_state exec" where
  "op_verify s =
     (if length (stack s) < 1 then Err SCRIPT_ERR_INVALID_STACK_OPERATION
      else ebind (stacktop (stack s) 1) (\<lambda>top.
        if CastToBool top then ebind (popstack (stack s)) (\<lambda>st. Ok (s\<lparr>stack := st\<rparr>))
        else Err SCRIPT_ERR_VERIFY))"

section \<open>Stack operations\<close>

definition set_stack :: "eval_state \<Rightarrow> bytes list \<Rightarrow> eval_state exec" where
  "set_stack s st = Ok (s\<lparr>stack := st\<rparr>)"

definition op_stack :: "opcodetype \<Rightarrow> eval_state \<Rightarrow> eval_state exec" where
  "op_stack opcode s =
     (if opcode = OP_TOALTSTACK then
        (case stack s of x # st \<Rightarrow> Ok (s\<lparr>stack := st, altstack := x # altstack s\<rparr>)
         | _ \<Rightarrow> Err SCRIPT_ERR_INVALID_STACK_OPERATION)
      else if opcode = OP_FROMALTSTACK then
        (case altstack s of x # al \<Rightarrow> Ok (s\<lparr>stack := x # stack s, altstack := al\<rparr>)
         | _ \<Rightarrow> Err SCRIPT_ERR_INVALID_ALTSTACK_OPERATION)
      else if opcode = OP_2DROP then
        (case stack s of x2 # x1 # st \<Rightarrow> set_stack s st | _ \<Rightarrow> Err SCRIPT_ERR_INVALID_STACK_OPERATION)
      else if opcode = OP_2DUP then
        (case stack s of x2 # x1 # st \<Rightarrow> set_stack s (x2 # x1 # x2 # x1 # st)
         | _ \<Rightarrow> Err SCRIPT_ERR_INVALID_STACK_OPERATION)
      else if opcode = OP_3DUP then
        (case stack s of x3 # x2 # x1 # st \<Rightarrow> set_stack s (x3 # x2 # x1 # x3 # x2 # x1 # st)
         | _ \<Rightarrow> Err SCRIPT_ERR_INVALID_STACK_OPERATION)
      else if opcode = OP_2OVER then
        (case stack s of x4 # x3 # x2 # x1 # st \<Rightarrow> set_stack s (x2 # x1 # x4 # x3 # x2 # x1 # st)
         | _ \<Rightarrow> Err SCRIPT_ERR_INVALID_STACK_OPERATION)
      else if opcode = OP_2ROT then
        (case stack s of x6 # x5 # x4 # x3 # x2 # x1 # st \<Rightarrow> set_stack s (x2 # x1 # x6 # x5 # x4 # x3 # st)
         | _ \<Rightarrow> Err SCRIPT_ERR_INVALID_STACK_OPERATION)
      else if opcode = OP_2SWAP then
        (case stack s of x4 # x3 # x2 # x1 # st \<Rightarrow> set_stack s (x2 # x1 # x4 # x3 # st)
         | _ \<Rightarrow> Err SCRIPT_ERR_INVALID_STACK_OPERATION)
      else if opcode = OP_IFDUP then
        (case stack s of x # st \<Rightarrow> set_stack s (if CastToBool x then x # x # st else x # st)
         | _ \<Rightarrow> Err SCRIPT_ERR_INVALID_STACK_OPERATION)
      else if opcode = OP_DEPTH then set_stack s (scriptnum_serialize (int (length (stack s))) # stack s)
      else if opcode = OP_DROP then
        (case stack s of x # st \<Rightarrow> set_stack s st | _ \<Rightarrow> Err SCRIPT_ERR_INVALID_STACK_OPERATION)
      else if opcode = OP_DUP then
        (case stack s of x # st \<Rightarrow> set_stack s (x # x # st) | _ \<Rightarrow> Err SCRIPT_ERR_INVALID_STACK_OPERATION)
      else if opcode = OP_NIP then
        (case stack s of x2 # x1 # st \<Rightarrow> set_stack s (x2 # st) | _ \<Rightarrow> Err SCRIPT_ERR_INVALID_STACK_OPERATION)
      else if opcode = OP_OVER then
        (case stack s of x2 # x1 # st \<Rightarrow> set_stack s (x1 # x2 # x1 # st)
         | _ \<Rightarrow> Err SCRIPT_ERR_INVALID_STACK_OPERATION)
      else if opcode = OP_ROT then
        (case stack s of x3 # x2 # x1 # st \<Rightarrow> set_stack s (x1 # x3 # x2 # st)
         | _ \<Rightarrow> Err SCRIPT_ERR_INVALID_STACK_OPERATION)
      else if opcode = OP_SWAP then
        (case stack s of x2 # x1 # st \<Rightarrow> set_stack s (x1 # x2 # st)
         | _ \<Rightarrow> Err SCRIPT_ERR_INVALID_STACK_OPERATION)
      else if opcode = OP_TUCK then
        (case stack s of x2 # x1 # st \<Rightarrow> set_stack s (x2 # x1 # x2 # st)
         | _ \<Rightarrow> Err SCRIPT_ERR_INVALID_STACK_OPERATION)
      else
        (case stack s of x # st \<Rightarrow> set_stack s (scriptnum_serialize (int (length x)) # x # st)
         | _ \<Rightarrow> Err SCRIPT_ERR_INVALID_STACK_OPERATION))"

definition op_pick_roll :: "eval_env \<Rightarrow> opcodetype \<Rightarrow> eval_state \<Rightarrow> eval_state exec" where
  "op_pick_roll env opcode s =
     (if length (stack s) < 2 then Err SCRIPT_ERR_INVALID_STACK_OPERATION
      else ebind (stacktop (stack s) 1) (\<lambda>top.
        ebind (script_num env top nDefaultMaxNumSize) (\<lambda>num.
          ebind (popstack (stack s)) (\<lambda>st.
            let n = getint num
            in if n < 0 \<or> n \<ge> int (length st) then Err SCRIPT_ERR_INVALID_STACK_OPERATION
               else ebind (stacktop st (nat n + 1)) (\<lambda>vch.
                 set_stack s (vch # (if opcode = OP_ROLL then take (nat n) st @ drop (nat n + 1) st else st)))))))"

section \<open>Comparisons and arithmetic\<close>

definition op_equal :: "opcodetype \<Rightarrow> eval_state \<Rightarrow> eval_state exec" where
  "op_equal opcode s =
     (case stack s of
        vch2 # vch1 # st \<Rightarrow>
          let fEqual = (vch1 = vch2)
          in if opcode = OP_EQUALVERIFY
             then (if fEqual then set_stack s st else Err SCRIPT_ERR_EQUALVERIFY)
             else set_stack s ((if fEqual then vchTrue else vchFalse) # st)
      | _ \<Rightarrow> Err SCRIPT_ERR_INVALID_STACK_OPERATION)"

text \<open>The assertions of \<open>CScriptNum\<close>'s compound and unary operators.\<close>

definition num_add_assign :: "int \<Rightarrow> int \<Rightarrow> int exec" where
  "num_add_assign m rhs =
     (if rhs = 0 \<or> (rhs > 0 \<and> m \<le> 2 ^ 63 - 1 - rhs) \<or> (rhs < 0 \<and> m \<ge> - (2 ^ 63) - rhs)
      then Ok (m + rhs) else Abort)"

definition num_sub_assign :: "int \<Rightarrow> int \<Rightarrow> int exec" where
  "num_sub_assign m rhs =
     (if rhs = 0 \<or> (rhs > 0 \<and> m \<ge> - (2 ^ 63) + rhs) \<or> (rhs < 0 \<and> m \<le> 2 ^ 63 - 1 + rhs)
      then Ok (m - rhs) else Abort)"

definition num_neg :: "int \<Rightarrow> int exec" where
  "num_neg m = (if m \<noteq> - (2 ^ 63) then Ok (- m) else Abort)"

definition unary_num :: "opcodetype \<Rightarrow> int \<Rightarrow> int exec" where
  "unary_num opcode bn =
     (if opcode = OP_1ADD then num_add_assign bn 1
      else if opcode = OP_1SUB then num_sub_assign bn 1
      else if opcode = OP_NEGATE then num_neg bn
      else if opcode = OP_ABS then (if bn < 0 then num_neg bn else Ok bn)
      else if opcode = OP_NOT then Ok (of_bool (bn = 0))
      else if opcode = OP_0NOTEQUAL then Ok (of_bool (bn \<noteq> 0))
      else Abort)"

definition op_unary :: "eval_env \<Rightarrow> opcodetype \<Rightarrow> eval_state \<Rightarrow> eval_state exec" where
  "op_unary env opcode s =
     (if length (stack s) < 1 then Err SCRIPT_ERR_INVALID_STACK_OPERATION
      else ebind (stacktop (stack s) 1) (\<lambda>top.
        ebind (script_num env top nDefaultMaxNumSize) (\<lambda>bn.
          ebind (unary_num opcode bn) (\<lambda>r.
            ebind (popstack (stack s)) (\<lambda>st. set_stack s (scriptnum_serialize r # st))))))"

definition binary_num :: "opcodetype \<Rightarrow> int \<Rightarrow> int \<Rightarrow> int exec" where
  "binary_num opcode bn1 bn2 =
     (if opcode = OP_ADD then Ok (bn1 + bn2)
      else if opcode = OP_SUB then Ok (bn1 - bn2)
      else if opcode = OP_BOOLAND then Ok (of_bool (bn1 \<noteq> 0 \<and> bn2 \<noteq> 0))
      else if opcode = OP_BOOLOR then Ok (of_bool (bn1 \<noteq> 0 \<or> bn2 \<noteq> 0))
      else if opcode = OP_NUMEQUAL then Ok (of_bool (bn1 = bn2))
      else if opcode = OP_NUMEQUALVERIFY then Ok (of_bool (bn1 = bn2))
      else if opcode = OP_NUMNOTEQUAL then Ok (of_bool (bn1 \<noteq> bn2))
      else if opcode = OP_LESSTHAN then Ok (of_bool (bn1 < bn2))
      else if opcode = OP_GREATERTHAN then Ok (of_bool (bn1 > bn2))
      else if opcode = OP_LESSTHANOREQUAL then Ok (of_bool (bn1 \<le> bn2))
      else if opcode = OP_GREATERTHANOREQUAL then Ok (of_bool (bn1 \<ge> bn2))
      else if opcode = OP_MIN then Ok (if bn1 < bn2 then bn1 else bn2)
      else if opcode = OP_MAX then Ok (if bn1 > bn2 then bn1 else bn2)
      else Abort)"

definition op_binary :: "eval_env \<Rightarrow> opcodetype \<Rightarrow> eval_state \<Rightarrow> eval_state exec" where
  "op_binary env opcode s =
     (if length (stack s) < 2 then Err SCRIPT_ERR_INVALID_STACK_OPERATION
      else ebind (stacktop (stack s) 2) (\<lambda>v1. ebind (script_num env v1 nDefaultMaxNumSize) (\<lambda>bn1.
        ebind (stacktop (stack s) 1) (\<lambda>v2. ebind (script_num env v2 nDefaultMaxNumSize) (\<lambda>bn2.
          ebind (binary_num opcode bn1 bn2) (\<lambda>bn.
            ebind (popstack (stack s)) (\<lambda>st1. ebind (popstack st1) (\<lambda>st.
              if opcode = OP_NUMEQUALVERIFY
              then (if CastToBool (scriptnum_serialize bn) then set_stack s st
                    else Err SCRIPT_ERR_NUMEQUALVERIFY)
              else set_stack s (scriptnum_serialize bn # st)))))))))"

definition op_within :: "eval_env \<Rightarrow> eval_state \<Rightarrow> eval_state exec" where
  "op_within env s =
     (case stack s of
        v3 # v2 # v1 # st \<Rightarrow>
          ebind (script_num env v1 nDefaultMaxNumSize) (\<lambda>bn1.
          ebind (script_num env v2 nDefaultMaxNumSize) (\<lambda>bn2.
          ebind (script_num env v3 nDefaultMaxNumSize) (\<lambda>bn3.
            set_stack s ((if bn2 \<le> bn1 \<and> bn1 < bn3 then vchTrue else vchFalse) # st))))
      | _ \<Rightarrow> Err SCRIPT_ERR_INVALID_STACK_OPERATION)"

section \<open>Cryptography\<close>

definition op_digest :: "eval_env \<Rightarrow> opcodetype \<Rightarrow> eval_state \<Rightarrow> eval_state exec" where
  "op_digest env opcode s =
     (case stack s of
        vch # st \<Rightarrow>
          let h = ev_hash env;
              vchHash = (if opcode = OP_RIPEMD160 then hf_RIPEMD160 h vch
                         else if opcode = OP_SHA1 then hf_SHA1 h vch
                         else if opcode = OP_SHA256 then hf_SHA3_256 h vch
                         else if opcode = OP_HASH160 then hf_HASH160 h vch
                         else hf_HASH256 h vch)
          in set_stack s (vchHash # st)
      | _ \<Rightarrow> Err SCRIPT_ERR_INVALID_STACK_OPERATION)"

text \<open>\<open>CScript(vchSig)\<close> is the script that pushes the signature.\<close>

definition drop_signature :: "eval_env \<Rightarrow> bytes \<Rightarrow> CScript \<Rightarrow> CScript" where
  "drop_signature env vchSig scriptCode =
     (if ev_sigversion env = SIGVERSION_BASE then snd (FindAndDelete scriptCode (push_vector [] vchSig))
      else scriptCode)"

definition op_checksig :: "eval_env \<Rightarrow> opcodetype \<Rightarrow> eval_state \<Rightarrow> eval_state exec" where
  "op_checksig env opcode s =
     (case stack s of
        vchPubKey # vchSig # st \<Rightarrow>
          let scriptCode = drop_signature env vchSig (pbegincodehash s)
          in ebind (CheckSignatureEncoding env vchSig) (\<lambda>_. ebind (CheckPubKeyEncoding env vchPubKey) (\<lambda>_.
             ebind (defined_or_abort (CheckSig (ev_checker env) vchSig vchPubKey scriptCode (ev_sigversion env)))
               (\<lambda>fSuccess.
                 if \<not> fSuccess \<and> has_flag env SCRIPT_VERIFY_NULLFAIL \<and> length vchSig \<noteq> 0
                 then Err SCRIPT_ERR_SIG_NULLFAIL
                 else if opcode = OP_CHECKSIGVERIFY
                 then (if fSuccess then set_stack s st else Err SCRIPT_ERR_CHECKSIGVERIFY)
                 else set_stack s ((if fSuccess then vchTrue else vchFalse) # st))))
      | _ \<Rightarrow> Err SCRIPT_ERR_INVALID_STACK_OPERATION)"

text \<open>The loop that drops the signatures \<open>k, k + 1, ...\<close> from the script code.\<close>

fun multisig_script_code :: "eval_env \<Rightarrow> bytes list \<Rightarrow> nat \<Rightarrow> nat \<Rightarrow> CScript \<Rightarrow> CScript exec" where
  "multisig_script_code env st isig 0 scriptCode = Ok scriptCode"
| "multisig_script_code env st isig (Suc n) scriptCode =
     ebind (stacktop st isig) (\<lambda>vchSig.
       multisig_script_code env st (isig + 1) n (drop_signature env vchSig scriptCode))"

text \<open>The loop over signatures and keys; its result is \<open>fSuccess\<close>.\<close>

function multisig_loop :: "eval_env \<Rightarrow> bytes list \<Rightarrow> CScript \<Rightarrow> int \<Rightarrow> int \<Rightarrow> nat \<Rightarrow> nat \<Rightarrow> bool exec" where
  "multisig_loop env st scriptCode nSigsCount nKeysCount isig ikey =
     (if nSigsCount > 0
      then ebind (stacktop st isig) (\<lambda>vchSig. ebind (stacktop st ikey) (\<lambda>vchPubKey.
        ebind (CheckSignatureEncoding env vchSig) (\<lambda>_. ebind (CheckPubKeyEncoding env vchPubKey) (\<lambda>_.
        ebind (defined_or_abort (CheckSig (ev_checker env) vchSig vchPubKey scriptCode (ev_sigversion env)))
          (\<lambda>fOk.
            if (if fOk then nSigsCount - 1 else nSigsCount) > nKeysCount - 1 then Ok False
            else multisig_loop env st scriptCode (if fOk then nSigsCount - 1 else nSigsCount) (nKeysCount - 1)
                   (if fOk then isig + 1 else isig) (ikey + 1))))))
      else Ok True)"
  by pat_completeness auto
termination
  by (relation "measure (\<lambda>(env, st, code, nSigsCount, nKeysCount, isig, ikey). nat nKeysCount)") (auto split: if_splits)

declare multisig_loop.simps [simp del]

text \<open>Popping the arguments: \<open>n\<close> are left, \<open>ikey2\<close> counts down to the signatures.\<close>

fun multisig_cleanup :: "eval_env \<Rightarrow> bool \<Rightarrow> nat \<Rightarrow> nat \<Rightarrow> bytes list \<Rightarrow> bytes list exec" where
  "multisig_cleanup env fSuccess 0 ikey2 st = Ok st"
| "multisig_cleanup env fSuccess (Suc n) ikey2 st =
     (if \<not> fSuccess \<and> has_flag env SCRIPT_VERIFY_NULLFAIL \<and> ikey2 = 0
      then ebind (stacktop st 1) (\<lambda>top.
             if length top \<noteq> 0 then Err SCRIPT_ERR_SIG_NULLFAIL
             else ebind (popstack st) (multisig_cleanup env fSuccess n 0))
      else ebind (popstack st) (multisig_cleanup env fSuccess n (ikey2 - 1)))"

definition multisig_finish :: "eval_env \<Rightarrow> opcodetype \<Rightarrow> bool \<Rightarrow> bytes list \<Rightarrow> eval_state \<Rightarrow> eval_state exec" where
  "multisig_finish env opcode fSuccess st s =
     (if length st < 1 then Err SCRIPT_ERR_INVALID_STACK_OPERATION
      else ebind (stacktop st 1) (\<lambda>top.
        if has_flag env SCRIPT_VERIFY_NULLDUMMY \<and> length top \<noteq> 0 then Err SCRIPT_ERR_SIG_NULLDUMMY
        else ebind (popstack st) (\<lambda>st'.
          if opcode = OP_CHECKMULTISIGVERIFY
          then (if fSuccess then set_stack s st' else Err SCRIPT_ERR_CHECKMULTISIGVERIFY)
          else set_stack s ((if fSuccess then vchTrue else vchFalse) # st'))))"

definition op_checkmultisig :: "eval_env \<Rightarrow> opcodetype \<Rightarrow> eval_state \<Rightarrow> eval_state exec" where
  "op_checkmultisig env opcode s =
     (let st = stack s
      in if length st < 1 then Err SCRIPT_ERR_INVALID_STACK_OPERATION
         else ebind (stacktop st 1) (\<lambda>vKeys. ebind (script_num env vKeys nDefaultMaxNumSize) (\<lambda>numKeys.
           let nKeysCount = getint numKeys
           in if nKeysCount < 0 \<or> nKeysCount > int MAX_PUBKEYS_PER_MULTISIG then Err SCRIPT_ERR_PUBKEY_COUNT
              else let s = s\<lparr>nOpCount := nOpCount s + nKeysCount\<rparr>
              in if nOpCount s > int MAX_OPS_PER_SCRIPT then Err SCRIPT_ERR_OP_COUNT
              else let ikey = 2; ikey2 = nat nKeysCount + 2; i = 2 + nat nKeysCount
              in if length st < i then Err SCRIPT_ERR_INVALID_STACK_OPERATION
              else ebind (stacktop st i) (\<lambda>vSigs. ebind (script_num env vSigs nDefaultMaxNumSize) (\<lambda>numSigs.
                let nSigsCount = getint numSigs
                in if nSigsCount < 0 \<or> nSigsCount > nKeysCount then Err SCRIPT_ERR_SIG_COUNT
                   else let isig = i + 1; i' = i + 1 + nat nSigsCount
                   in if length st < i' then Err SCRIPT_ERR_INVALID_STACK_OPERATION
                   else ebind (multisig_script_code env st isig (nat nSigsCount) (pbegincodehash s)) (\<lambda>scriptCode.
                     ebind (multisig_loop env st scriptCode nSigsCount nKeysCount isig ikey) (\<lambda>fSuccess.
                       ebind (multisig_cleanup env fSuccess (i' - 1) ikey2 st) (\<lambda>st'.
                         multisig_finish env opcode fSuccess st' s))))))))"

section \<open>The loop\<close>

definition disabled_opcode :: "opcodetype \<Rightarrow> bool" where
  "disabled_opcode opcode \<longleftrightarrow>
     opcode = OP_CAT \<or> opcode = OP_SUBSTR \<or> opcode = OP_LEFT \<or> opcode = OP_RIGHT \<or> opcode = OP_INVERT \<or>
     opcode = OP_AND \<or> opcode = OP_OR \<or> opcode = OP_XOR \<or> opcode = OP_2MUL \<or> opcode = OP_2DIV \<or>
     opcode = OP_MUL \<or> opcode = OP_DIV \<or> opcode = OP_MOD \<or> opcode = OP_LSHIFT \<or> opcode = OP_RSHIFT"

text \<open>The \<open>switch\<close>; \<open>rest\<close> is where the program counter stands after the instruction.\<close>

definition eval_switch :: "eval_env \<Rightarrow> bool \<Rightarrow> opcodetype \<Rightarrow> bytes \<Rightarrow> eval_state \<Rightarrow> eval_state exec" where
  "eval_switch env fExec opcode rest s =
     (if opcode = OP_1NEGATE \<or> (opcode \<ge> OP_1 \<and> opcode \<le> OP_16) then op_small_int opcode s
      else if opcode = OP_NOP then Ok s
      else if opcode = OP_CHECKLOCKTIMEVERIFY then op_checklocktimeverify env s
      else if opcode = OP_CHECKSEQUENCEVERIFY then op_checksequenceverify env s
      else if opcode = OP_NOP1 \<or> (opcode \<ge> OP_NOP4 \<and> opcode \<le> OP_NOP10)
      then (if has_flag env SCRIPT_VERIFY_DISCOURAGE_UPGRADABLE_NOPS
            then Err SCRIPT_ERR_DISCOURAGE_UPGRADABLE_NOPS else Ok s)
      else if opcode = OP_IF \<or> opcode = OP_NOTIF then op_if env fExec opcode s
      else if opcode = OP_ELSE then op_else s
      else if opcode = OP_ENDIF then op_endif s
      else if opcode = OP_VERIFY then op_verify s
      else if opcode = OP_RETURN then Err SCRIPT_ERR_OP_RETURN
      else if (opcode \<ge> OP_TOALTSTACK \<and> opcode \<le> OP_OVER) \<or> opcode = OP_ROT \<or> opcode = OP_SWAP \<or>
              opcode = OP_TUCK \<or> opcode = OP_SIZE
      then op_stack opcode s
      else if opcode = OP_PICK \<or> opcode = OP_ROLL then op_pick_roll env opcode s
      else if opcode = OP_EQUAL \<or> opcode = OP_EQUALVERIFY then op_equal opcode s
      else if opcode = OP_1ADD \<or> opcode = OP_1SUB \<or> opcode = OP_NEGATE \<or> opcode = OP_ABS \<or>
              opcode = OP_NOT \<or> opcode = OP_0NOTEQUAL
      then op_unary env opcode s
      else if opcode = OP_ADD \<or> opcode = OP_SUB \<or> (opcode \<ge> OP_BOOLAND \<and> opcode \<le> OP_MAX)
      then op_binary env opcode s
      else if opcode = OP_WITHIN then op_within env s
      else if opcode \<ge> OP_RIPEMD160 \<and> opcode \<le> OP_HASH256 then op_digest env opcode s
      else if opcode = OP_CODESEPARATOR then Ok (s\<lparr>pbegincodehash := rest\<rparr>)
      else if opcode = OP_CHECKSIG \<or> opcode = OP_CHECKSIGVERIFY then op_checksig env opcode s
      else if opcode = OP_CHECKMULTISIG \<or> opcode = OP_CHECKMULTISIGVERIFY then op_checkmultisig env opcode s
      else Err SCRIPT_ERR_BAD_OPCODE)"

text \<open>One instruction, from its opcode, operand and what follows it.\<close>

definition eval_instruction :: "eval_env \<Rightarrow> opcodetype \<Rightarrow> bytes \<Rightarrow> bytes \<Rightarrow> eval_state \<Rightarrow> eval_state exec" where
  "eval_instruction env opcode vchPushValue rest s =
     (let fExec = list_all (\<lambda>b. b) (vfExec s);
          s1 = (if opcode > OP_16 then s\<lparr>nOpCount := nOpCount s + 1\<rparr> else s)
      in if length vchPushValue > MAX_SCRIPT_ELEMENT_SIZE then Err SCRIPT_ERR_PUSH_SIZE
         else if opcode > OP_16 \<and> nOpCount s1 > int MAX_OPS_PER_SCRIPT then Err SCRIPT_ERR_OP_COUNT
         else if disabled_opcode opcode then Err SCRIPT_ERR_DISABLED_OPCODE
         else ebind
           (if fExec \<and> opcode \<le> OP_PUSHDATA4
            then ebind (if fRequireMinimal env then CheckMinimalPush vchPushValue opcode else Ok True) (\<lambda>minimal.
                   if \<not> minimal then Err SCRIPT_ERR_MINIMALDATA
                   else Ok (s1\<lparr>stack := vchPushValue # stack s1\<rparr>))
            else if fExec \<or> (opcode \<ge> OP_IF \<and> opcode \<le> OP_ENDIF) then eval_switch env fExec opcode rest s1
            else Ok s1)
           (\<lambda>s2. if length (stack s2) + length (altstack s2) > MAX_STACK_SIZE
                 then Err SCRIPT_ERR_STACK_SIZE else Ok s2))"

function eval_loop :: "eval_env \<Rightarrow> bytes \<Rightarrow> eval_state \<Rightarrow> eval_state exec" where
  "eval_loop env pc s =
     (if pc = [] then Ok s
      else case GetOp pc of None \<Rightarrow> Err SCRIPT_ERR_BAD_OPCODE
           | Some (opcode, vchPushValue, rest) \<Rightarrow>
               ebind (eval_instruction env opcode vchPushValue rest s) (eval_loop env rest))"
  by pat_completeness auto
termination
  by (relation "measure (\<lambda>(env, pc, s). length pc)") (auto dest: GetOp_shorter)

declare eval_loop.simps [simp del]

definition EvalScript :: "eval_env \<Rightarrow> bytes list \<Rightarrow> CScript \<Rightarrow> bytes list exec" where
  "EvalScript env st script =
     (if length script > MAX_SCRIPT_SIZE then Err SCRIPT_ERR_SCRIPT_SIZE
      else ebind (eval_loop env script
             \<lparr>stack = st, altstack = [], vfExec = [], pbegincodehash = script, nOpCount = 0\<rparr>) (\<lambda>s.
        if vfExec s \<noteq> [] then Err SCRIPT_ERR_UNBALANCED_CONDITIONAL else Ok (stack s)))"

end
