(* ===== verification/Eval_Props.thy ===== *)
theory Eval_Props
  imports Interpreter
begin

text \<open>
  Properties of the interpreter: the limits it enforces (stack size, element size, operation count)
  as invariants of the loop, absence of aborts for a checker that answers everything, and the effect
  of push-only scripts.
\<close>

section \<open>Sequencing\<close>

lemma ebind_Ok [simp]: "ebind m f = Ok b \<longleftrightarrow> (\<exists>a. m = Ok a \<and> f a = Ok b)"
  by (cases m) auto

lemma ebind_Abort [simp]: "ebind m f = Abort \<longleftrightarrow> m = Abort \<or> (\<exists>a. m = Ok a \<and> f a = Abort)"
  by (cases m) auto

lemma defined_or_abort_simps [simp]:
  "defined_or_abort x = Ok a \<longleftrightarrow> x = Some a" "defined_or_abort x = Abort \<longleftrightarrow> x = None"
  by (cases x; simp)+

lemma popstack_Ok [simp]: "popstack st = Ok st' \<longleftrightarrow> (\<exists>x. st = x # st')"
  by (cases st) auto

lemma popstack_Abort [simp]: "popstack st \<noteq> Abort"
  by (cases st) auto

lemma stacktop_Ok [simp]: "stacktop st i = Ok x \<longleftrightarrow> 0 < i \<and> i \<le> length st \<and> x = st ! (i - 1)"
  by (auto simp: stacktop_def)

lemma stacktop_Abort [simp]: "stacktop st i \<noteq> Abort"
  by (simp add: stacktop_def)

lemma set_stack_Ok [simp]: "set_stack s st = Ok s' \<longleftrightarrow> s' = s\<lparr>stack := st\<rparr>"
  by (auto simp: set_stack_def)

lemma set_stack_Abort [simp]: "set_stack s st \<noteq> Abort"
  by (simp add: set_stack_def)

lemma script_num_Abort [simp]: "script_num env v n \<noteq> Abort"
  by (simp add: script_num_def split: sum.splits)

section \<open>The size of numbers\<close>

lemma length_abs_bytes: "n < 256 ^ k \<Longrightarrow> length (abs_bytes n) \<le> k"
proof (induction n arbitrary: k rule: abs_bytes.induct)
  case (1 n)
  show ?case
  proof (cases "n = 0")
    case False
    then obtain j where j: "k = Suc j" using 1(2) by (cases k) auto
    then have "n div 256 < 256 ^ j" using 1(2) by (simp add: less_mult_imp_div_less mult.commute)
    then show ?thesis using 1(1) [OF False, of j] False j by (subst abs_bytes.simps) simp
  qed (simp add: abs_bytes.simps)
qed

lemma length_scriptnum_serialize: "\<bar>v\<bar> < 256 ^ k \<Longrightarrow> length (scriptnum_serialize v) \<le> k + 1"
proof -
  assume "\<bar>v\<bar> < 256 ^ k"
  then have "nat \<bar>v\<bar> < 256 ^ k" by (simp add: nat_less_iff)
  then have "length (abs_bytes (nat \<bar>v\<bar>)) \<le> k" by (rule length_abs_bytes)
  then show ?thesis by (auto simp: scriptnum_serialize_def Let_def)
qed

lemma set_vch_bound: "\<bar>set_vch vch\<bar> < 256 ^ length vch"
proof -
  have "0 \<le> bytes_le vch" "bytes_le vch < 256 ^ length vch" by (rule bytes_le_nonneg bytes_le_bound)+
  moreover have "0 \<le> bytes_le vch AND m" "bytes_le vch AND m \<le> bytes_le vch" for m
    using bytes_le_nonneg [of vch] by (simp_all add: AND_upper1)
  ultimately show ?thesis
    by (auto simp: set_vch_def Let_def abs_of_nonneg intro: le_less_trans)
qed

lemma script_num_bound: "script_num env v n = Ok k \<Longrightarrow> \<bar>k\<bar> < 256 ^ n"
proof -
  assume "script_num env v n = Ok k"
  then have "k = set_vch v" "length v \<le> n"
    by (auto simp: script_num_def CScriptNum_def split: sum.splits if_splits)
  then have "\<bar>k\<bar> < 256 ^ length v" "(256 :: int) ^ length v \<le> 256 ^ n" using set_vch_bound [of v] by simp_all
  then show ?thesis by linarith
qed

lemma serialize_small: "\<bar>v\<bar> < 2 ^ 63 \<Longrightarrow> length (scriptnum_serialize v) \<le> 520"
  using length_scriptnum_serialize [of v 8] by simp

section \<open>Element sizes\<close>

definition elems_ok :: "eval_state \<Rightarrow> bool" where
  "elems_ok s \<longleftrightarrow> (\<forall>x \<in> set (stack s). length x \<le> MAX_SCRIPT_ELEMENT_SIZE) \<and>
     (\<forall>x \<in> set (altstack s). length x \<le> MAX_SCRIPT_ELEMENT_SIZE)"

definition hash_sizes_ok :: "hash_functions \<Rightarrow> bool" where
  "hash_sizes_ok h \<longleftrightarrow> (\<forall>x. length (hf_RIPEMD160 h x) = 20 \<and> length (hf_SHA1 h x) = 20 \<and>
     length (hf_SHA3_256 h x) = 32 \<and> length (hf_HASH160 h x) = 20 \<and> length (hf_HASH256 h x) = 32)"

definition op_inv :: "eval_state \<Rightarrow> bool" where
  "op_inv s \<longleftrightarrow> elems_ok s \<and> length (stack s) + length (altstack s) \<le> MAX_STACK_SIZE"

lemma vch_small: "length vchTrue \<le> 520" "length vchFalse \<le> 520"
  by (simp_all add: vchTrue_def vchFalse_def)

lemmas elems_defs = elems_ok_def MAX_SCRIPT_ELEMENT_SIZE_def

lemma small_int_size: "length (scriptnum_serialize (uint (opcode :: u8) - 80)) \<le> 520"
proof (rule serialize_small)
  have "\<bar>n - 80\<bar> < 2 ^ 63" if "0 \<le> n" "n < 256" for n :: int using that by simp
  moreover have "0 \<le> uint opcode" "uint opcode < 256" using uint_bounded [of opcode] by simp_all
  ultimately show "\<bar>uint opcode - 80\<bar> < 2 ^ 63" by blast
qed

lemma op_control_elems:
  "op_small_int opcode s = Ok s' \<Longrightarrow> elems_ok s \<Longrightarrow> elems_ok s'"
  "op_checklocktimeverify env s = Ok s' \<Longrightarrow> elems_ok s \<Longrightarrow> elems_ok s'"
  "op_checksequenceverify env s = Ok s' \<Longrightarrow> elems_ok s \<Longrightarrow> elems_ok s'"
  "op_if env fExec opcode s = Ok s' \<Longrightarrow> elems_ok s \<Longrightarrow> elems_ok s'"
  "op_else s = Ok s' \<Longrightarrow> elems_ok s \<Longrightarrow> elems_ok s'"
  "op_endif s = Ok s' \<Longrightarrow> elems_ok s \<Longrightarrow> elems_ok s'"
  "op_verify s = Ok s' \<Longrightarrow> elems_ok s \<Longrightarrow> elems_ok s'"
  using small_int_size [of opcode]
  by (auto simp: op_small_int_def op_checklocktimeverify_def op_checksequenceverify_def op_if_def op_else_def
    op_endif_def op_verify_def elems_defs split: if_splits list.splits)

lemma op_stack_elems:
  assumes "op_stack opcode s = Ok s'" "op_inv s"
  shows "elems_ok s'"
proof -
  have "length (scriptnum_serialize (int (length (stack s)))) \<le> 520"
    using assms(2) by (intro serialize_small) (simp add: op_inv_def MAX_STACK_SIZE_def)
  moreover have "length (scriptnum_serialize (int (length x))) \<le> 520" if "x \<in> set (stack s)" for x
  proof -
    have "length x \<le> 520" using assms(2) that by (auto simp: op_inv_def elems_defs)
    then show ?thesis by (intro serialize_small) simp
  qed
  ultimately show ?thesis using assms
    by (auto simp: op_stack_def op_inv_def elems_defs split: if_splits list.splits)
qed


lemma op_pick_roll_elems: "op_pick_roll env opcode s = Ok s' \<Longrightarrow> elems_ok s \<Longrightarrow> elems_ok s'"
  by (auto simp: op_pick_roll_def elems_defs Let_def split: if_splits
    dest!: set_take_subset [THEN subsetD] set_drop_subset [THEN subsetD])

lemma op_equal_elems: "op_equal opcode s = Ok s' \<Longrightarrow> elems_ok s \<Longrightarrow> elems_ok s'"
  using vch_small by (auto simp: op_equal_def elems_defs Let_def split: if_splits list.splits)

lemma op_within_elems: "op_within env s = Ok s' \<Longrightarrow> elems_ok s \<Longrightarrow> elems_ok s'"
  using vch_small by (auto simp: op_within_def elems_defs split: if_splits list.splits)

lemma op_checksig_elems: "op_checksig env opcode s = Ok s' \<Longrightarrow> elems_ok s \<Longrightarrow> elems_ok s'"
  using vch_small by (auto simp: op_checksig_def elems_defs Let_def split: if_splits list.splits)

lemma op_digest_elems: "op_digest env opcode s = Ok s' \<Longrightarrow> hash_sizes_ok (ev_hash env) \<Longrightarrow> elems_ok s \<Longrightarrow> elems_ok s'"
  by (auto simp: op_digest_def hash_sizes_ok_def elems_defs Let_def split: if_splits list.splits)

lemma unary_num_bound: "unary_num opcode bn = Ok r \<Longrightarrow> \<bar>bn\<bar> < 2 ^ 32 \<Longrightarrow> \<bar>r\<bar> < 2 ^ 63"
  by (auto simp: unary_num_def num_add_assign_def num_sub_assign_def num_neg_def split: if_splits)

lemma binary_num_bound: "binary_num opcode a b = Ok r \<Longrightarrow> \<bar>a\<bar> < 2 ^ 32 \<Longrightarrow> \<bar>b\<bar> < 2 ^ 32 \<Longrightarrow> \<bar>r\<bar> < 2 ^ 63"
  by (auto simp: binary_num_def split: if_splits)

lemma script_num_bound4: "script_num env v nDefaultMaxNumSize = Ok k \<Longrightarrow> \<bar>k\<bar> < 2 ^ 32"
  using script_num_bound [of env v nDefaultMaxNumSize k] by (simp add: nDefaultMaxNumSize_def)

lemma op_unary_elems: "op_unary env opcode s = Ok s' \<Longrightarrow> elems_ok s \<Longrightarrow> elems_ok s'"
  using serialize_small [OF unary_num_bound [OF _ script_num_bound4]]
  by (fastforce simp: op_unary_def elems_defs split: if_splits)

lemma op_binary_elems: "op_binary env opcode s = Ok s' \<Longrightarrow> elems_ok s \<Longrightarrow> elems_ok s'"
  using serialize_small [OF binary_num_bound [OF _ script_num_bound4 script_num_bound4]]
  by (fastforce simp: op_binary_def elems_defs split: if_splits)


lemma multisig_cleanup_elems:
  "multisig_cleanup env fSuccess n ikey2 st = Ok st' \<Longrightarrow> set st' \<subseteq> set st"
  by (induction env fSuccess n ikey2 st rule: multisig_cleanup.induct) (fastforce split: if_splits)+

lemma multisig_finish_elems:
  assumes "multisig_finish env opcode fSuccess st s = Ok s'" "elems_ok s" "set st \<subseteq> set (stack s)"
  shows "elems_ok s'"
proof -
  have "\<forall>x \<in> set st. length x \<le> 520" using assms(2,3) by (auto simp: elems_defs)
  then show ?thesis using assms vch_small
    by (auto simp: multisig_finish_def elems_defs split: if_splits)
qed

lemma op_checkmultisig_elems:
  assumes "op_checkmultisig env opcode s = Ok s'" "elems_ok s"
  shows "elems_ok s'"
proof -
  obtain fSuccess n ikey2 st c where
    "multisig_cleanup env fSuccess n ikey2 (stack s) = Ok st"
    "multisig_finish env opcode fSuccess st (s\<lparr>nOpCount := c\<rparr>) = Ok s'"
    using assms(1) by (auto simp: op_checkmultisig_def Let_def simp del: multisig_cleanup.simps split: if_splits)
  moreover have "elems_ok (s\<lparr>nOpCount := c\<rparr>)" using assms(2) by (simp add: elems_ok_def)
  ultimately show ?thesis
    using multisig_finish_elems [of env opcode fSuccess st "s\<lparr>nOpCount := c\<rparr>" s'] multisig_cleanup_elems by simp
qed

text \<open>A property of the outcome of the \<open>switch\<close> follows from the same property of its cases.\<close>

lemma eval_switch_cases:
  assumes "P (op_small_int opcode s)" "P (Ok s)" "P (op_checklocktimeverify env s)"
    and "P (op_checksequenceverify env s)" "\<And>e. P (Err e)" "P (op_if env fExec opcode s)" "P (op_else s)"
    and "P (op_endif s)" "P (op_verify s)" "P (op_stack opcode s)" "P (op_pick_roll env opcode s)"
    and "P (op_equal opcode s)"
    and "opcode = OP_1ADD \<or> opcode = OP_1SUB \<or> opcode = OP_NEGATE \<or> opcode = OP_ABS \<or> opcode = OP_NOT \<or>
           opcode = OP_0NOTEQUAL \<Longrightarrow> P (op_unary env opcode s)"
    and "opcode = OP_ADD \<or> opcode = OP_SUB \<or> (opcode \<ge> OP_BOOLAND \<and> opcode \<le> OP_MAX) \<Longrightarrow>
           P (op_binary env opcode s)"
    and "P (op_within env s)" "P (op_digest env opcode s)" "P (Ok (s\<lparr>pbegincodehash := rest\<rparr>))"
    and "P (op_checksig env opcode s)" "P (op_checkmultisig env opcode s)"
  shows "P (eval_switch env fExec opcode rest s)"
proof -
  have if_intro: "\<And>c a b. (c \<Longrightarrow> P a) \<Longrightarrow> (\<not> c \<Longrightarrow> P b) \<Longrightarrow> P (if c then a else b)" by simp
  show ?thesis unfolding eval_switch_def by ((rule if_intro | rule assms | assumption)+)
qed

lemma eval_switch_elems:
  assumes "eval_switch env fExec opcode rest s = Ok s'" "op_inv s" "hash_sizes_ok (ev_hash env)"
  shows "elems_ok s'"
proof -
  have e: "elems_ok s" using assms(2) by (simp add: op_inv_def)
  have "\<forall>s'. eval_switch env fExec opcode rest s = Ok s' \<longrightarrow> elems_ok s'"
  proof (rule eval_switch_cases [of "\<lambda>r. \<forall>s'. r = Ok s' \<longrightarrow> elems_ok s'"])
    show "\<forall>s'. Ok (s\<lparr>pbegincodehash := rest\<rparr>) = Ok s' \<longrightarrow> elems_ok s'" using e by (simp add: elems_ok_def)
  qed (use e in \<open>auto dest!: op_control_elems [OF _ e] op_stack_elems [OF _ assms(2)] op_pick_roll_elems [OF _ e]
      op_equal_elems [OF _ e] op_within_elems [OF _ e] op_checksig_elems [OF _ e] op_digest_elems [OF _ assms(3) e]
      op_unary_elems [OF _ e] op_binary_elems [OF _ e] op_checkmultisig_elems [OF _ e]\<close>)
  then show ?thesis using assms(1) by blast
qed

text \<open>The ways one instruction can succeed.\<close>

lemma eval_instruction_Ok:
  assumes "eval_instruction env opcode v rest s = Ok s'"
  obtains s1 where "s1 = (if opcode > OP_16 then s\<lparr>nOpCount := nOpCount s + 1\<rparr> else s)"
    "opcode > OP_16 \<Longrightarrow> nOpCount s1 \<le> int MAX_OPS_PER_SCRIPT"
    "length v \<le> MAX_SCRIPT_ELEMENT_SIZE" "\<not> disabled_opcode opcode"
    "s' = s1\<lparr>stack := v # stack s1\<rparr> \<and> opcode \<le> OP_PUSHDATA4 \<or>
     eval_switch env (list_all (\<lambda>b. b) (vfExec s)) opcode rest s1 = Ok s' \<or> s' = s1"
    "length (stack s') + length (altstack s') \<le> MAX_STACK_SIZE"
proof -
  define s1 where "s1 = (if opcode > OP_16 then s\<lparr>nOpCount := nOpCount s + 1\<rparr> else s)"
  have *: "length v \<le> MAX_SCRIPT_ELEMENT_SIZE" "\<not> (opcode > OP_16 \<and> nOpCount s1 > int MAX_OPS_PER_SCRIPT)"
    "\<not> disabled_opcode opcode"
    using assms unfolding eval_instruction_def Let_def s1_def [symmetric]
    by (cases "length v \<le> MAX_SCRIPT_ELEMENT_SIZE"; cases "opcode > OP_16 \<and> nOpCount s1 > int MAX_OPS_PER_SCRIPT";
        cases "disabled_opcode opcode"; simp)+
  have **: "ebind
     (if list_all (\<lambda>b. b) (vfExec s) \<and> opcode \<le> OP_PUSHDATA4
      then ebind (if fRequireMinimal env then CheckMinimalPush v opcode else Ok True) (\<lambda>minimal.
             if \<not> minimal then Err SCRIPT_ERR_MINIMALDATA else Ok (s1\<lparr>stack := v # stack s1\<rparr>))
      else if list_all (\<lambda>b. b) (vfExec s) \<or> (opcode \<ge> OP_IF \<and> opcode \<le> OP_ENDIF)
      then eval_switch env (list_all (\<lambda>b. b) (vfExec s)) opcode rest s1
      else Ok s1)
     (\<lambda>s2. if length (stack s2) + length (altstack s2) > MAX_STACK_SIZE
           then Err SCRIPT_ERR_STACK_SIZE else Ok s2) = Ok s'"
    using assms * unfolding eval_instruction_def Let_def s1_def [symmetric] by (simp only: if_False not_less [symmetric])
  then have size: "length (stack s') + length (altstack s') \<le> MAX_STACK_SIZE"
    by (auto simp del: One_nat_def split: if_split_asm)
  have "s' = s1\<lparr>stack := v # stack s1\<rparr> \<and> opcode \<le> OP_PUSHDATA4 \<or>
     eval_switch env (list_all (\<lambda>b. b) (vfExec s)) opcode rest s1 = Ok s' \<or> s' = s1"
    using ** unfolding ebind_Ok by (auto split: if_split_asm)
  with * size show thesis by (intro that [of s1] s1_def) (simp_all only: not_less simp_thms)
qed

text \<open>One instruction keeps the stacks within the limits it is given.\<close>

lemma eval_instruction_inv:
  assumes "eval_instruction env opcode v rest s = Ok s'" "op_inv s" "hash_sizes_ok (ev_hash env)"
  shows "op_inv s'"
proof (rule eval_instruction_Ok [OF assms(1)])
  fix s1
  assume s1: "s1 = (if opcode > OP_16 then s\<lparr>nOpCount := nOpCount s + 1\<rparr> else s)"
    and v: "length v \<le> MAX_SCRIPT_ELEMENT_SIZE"
    and cases: "s' = s1\<lparr>stack := v # stack s1\<rparr> \<and> opcode \<le> OP_PUSHDATA4 \<or>
      eval_switch env (list_all (\<lambda>b. b) (vfExec s)) opcode rest s1 = Ok s' \<or> s' = s1"
    and size: "length (stack s') + length (altstack s') \<le> MAX_STACK_SIZE"
  have inv: "op_inv s1" using assms(2) by (simp add: s1 op_inv_def elems_ok_def)
  then have "elems_ok s1" "elems_ok (s1\<lparr>stack := v # stack s1\<rparr>)" using v by (simp_all add: op_inv_def elems_defs)
  with cases eval_switch_elems [OF _ inv assms(3)] have "elems_ok s'" by blast
  with size show "op_inv s'" by (simp add: op_inv_def)
qed

text \<open>A property that every successful instruction keeps is kept by the loop.\<close>

lemma eval_loop_preserves:
  assumes "\<And>opcode v rest s s'. eval_instruction env opcode v rest s = Ok s' \<Longrightarrow> P s \<Longrightarrow> P s'"
  shows "eval_loop env pc s = Ok s' \<Longrightarrow> P s \<Longrightarrow> P s'"
proof (induction pc arbitrary: s rule: length_induct)
  case (1 pc)
  show ?case
  proof (cases "pc = []")
    case False
    then obtain opcode v rest where g: "GetOp pc = Some (opcode, v, rest)" using 1(2)
      by (subst (asm) eval_loop.simps) (auto split: option.splits)
    then obtain s1 where "eval_instruction env opcode v rest s = Ok s1" "eval_loop env rest s1 = Ok s'"
      using 1(2) False by (subst (asm) (2) eval_loop.simps) auto
    then show ?thesis using 1 assms GetOp_shorter [OF g] by blast
  qed (use 1(2,3) in \<open>simp add: eval_loop.simps\<close>)
qed

lemma eval_loop_inv:
  "eval_loop env pc s = Ok s' \<Longrightarrow> op_inv s \<Longrightarrow> hash_sizes_ok (ev_hash env) \<Longrightarrow> op_inv s'"
  using eval_loop_preserves [of env op_inv pc s s'] eval_instruction_inv by blast

section \<open>The operation count\<close>

text \<open>The number of instructions of a script that count as operations, as \<open>GetOp\<close> reads them.\<close>

function count_ops :: "bytes \<Rightarrow> nat" where
  "count_ops pc = (case GetOp pc of None \<Rightarrow> 0
     | Some (opcode, v, rest) \<Rightarrow> (if opcode > OP_16 then 1 else 0) + count_ops rest)"
  by pat_completeness auto
termination
  by (relation "measure length") (auto dest: GetOp_shorter)

declare count_ops.simps [simp del]

text \<open>The opcodes of a script, as \<open>GetOp\<close> reads them.\<close>

function script_opcodes :: "bytes \<Rightarrow> opcodetype list" where
  "script_opcodes pc = (case GetOp pc of None \<Rightarrow> [] | Some (opcode, v, rest) \<Rightarrow> opcode # script_opcodes rest)"
  by pat_completeness auto
termination
  by (relation "measure length") (auto dest: GetOp_shorter)

declare script_opcodes.simps [simp del]

definition count_ok :: "int \<Rightarrow> eval_state exec \<Rightarrow> bool" where
  "count_ok c r \<longleftrightarrow> (\<forall>s'. r = Ok s' \<longrightarrow> nOpCount s' = c \<or> (c \<le> nOpCount s' \<and> nOpCount s' \<le> int MAX_OPS_PER_SCRIPT))"

lemma multisig_finish_count: "multisig_finish env opcode b st s = Ok s' \<Longrightarrow> nOpCount s' = nOpCount s"
  by (auto simp: multisig_finish_def split: if_splits)

lemma op_checkmultisig_count: "count_ok (nOpCount s) (op_checkmultisig env opcode s)"
  unfolding count_ok_def
  by (auto simp: op_checkmultisig_def Let_def simp del: multisig_cleanup.simps
    dest!: multisig_finish_count split: if_split_asm)

lemma op_group_count:
  "count_ok (nOpCount s) (op_small_int opcode s)" "count_ok (nOpCount s) (op_checklocktimeverify env s)"
  "count_ok (nOpCount s) (op_checksequenceverify env s)" "count_ok (nOpCount s) (op_if env fExec opcode s)"
  "count_ok (nOpCount s) (op_else s)" "count_ok (nOpCount s) (op_endif s)" "count_ok (nOpCount s) (op_verify s)"
  "count_ok (nOpCount s) (op_stack opcode s)" "count_ok (nOpCount s) (op_pick_roll env opcode s)"
  "count_ok (nOpCount s) (op_equal opcode s)" "count_ok (nOpCount s) (op_unary env opcode s)"
  "count_ok (nOpCount s) (op_binary env opcode s)" "count_ok (nOpCount s) (op_within env s)"
  "count_ok (nOpCount s) (op_digest env opcode s)" "count_ok (nOpCount s) (op_checksig env opcode s)"
  unfolding count_ok_def
  by (auto simp: op_small_int_def op_checklocktimeverify_def op_checksequenceverify_def op_if_def op_else_def
    op_endif_def op_verify_def op_stack_def op_pick_roll_def op_equal_def op_unary_def op_binary_def op_within_def
    op_digest_def op_checksig_def Let_def split: if_split_asm list.splits)

lemma eval_switch_count: "count_ok (nOpCount s) (eval_switch env fExec opcode rest s)"
  by (rule eval_switch_cases [of "count_ok (nOpCount s)"])
    (simp_all add: op_group_count op_checkmultisig_count, simp_all add: count_ok_def)

lemma eval_instruction_count:
  assumes "eval_instruction env opcode v rest s = Ok s'" "nOpCount s \<le> int MAX_OPS_PER_SCRIPT"
  shows "nOpCount s + (if opcode > OP_16 then 1 else 0) \<le> nOpCount s' \<and> nOpCount s' \<le> int MAX_OPS_PER_SCRIPT"
proof (rule eval_instruction_Ok [OF assms(1)])
  fix s1
  assume s1: "s1 = (if opcode > OP_16 then s\<lparr>nOpCount := nOpCount s + 1\<rparr> else s)"
    and lim: "opcode > OP_16 \<Longrightarrow> nOpCount s1 \<le> int MAX_OPS_PER_SCRIPT"
    and cases: "s' = s1\<lparr>stack := v # stack s1\<rparr> \<and> opcode \<le> OP_PUSHDATA4 \<or>
      eval_switch env (list_all (\<lambda>b. b) (vfExec s)) opcode rest s1 = Ok s' \<or> s' = s1"
  have "nOpCount s1 = nOpCount s + (if opcode > OP_16 then 1 else 0)" by (simp add: s1)
  moreover have "nOpCount s1 \<le> int MAX_OPS_PER_SCRIPT" using lim assms(2) by (cases "opcode > OP_16") (simp_all add: s1)
  moreover have "nOpCount s' = nOpCount s1 \<or> (nOpCount s1 \<le> nOpCount s' \<and> nOpCount s' \<le> int MAX_OPS_PER_SCRIPT)"
    using cases eval_switch_count [of s1 env "list_all (\<lambda>b. b) (vfExec s)" opcode rest] by (auto simp: count_ok_def)
  ultimately show ?thesis by auto
qed

lemma eval_loop_step:
  "eval_loop env pc s = Ok s' \<longleftrightarrow> (if pc = [] then s' = s else
     \<exists>opcode v rest s1. GetOp pc = Some (opcode, v, rest) \<and> eval_instruction env opcode v rest s = Ok s1 \<and>
       eval_loop env rest s1 = Ok s')"
  by (subst eval_loop.simps) (auto split: option.splits)

lemma eval_loop_count:
  "eval_loop env pc s = Ok s' \<Longrightarrow> nOpCount s \<le> int MAX_OPS_PER_SCRIPT \<Longrightarrow>
   nOpCount s + int (count_ops pc) \<le> nOpCount s' \<and> nOpCount s' \<le> int MAX_OPS_PER_SCRIPT"
proof (induction pc arbitrary: s rule: length_induct)
  case (1 pc)
  show ?case
  proof (cases "pc = []")
    case False
    then obtain opcode v rest s1 where g: "GetOp pc = Some (opcode, v, rest)"
      and i: "eval_instruction env opcode v rest s = Ok s1" and l: "eval_loop env rest s1 = Ok s'"
      using 1(2) by (subst (asm) eval_loop_step) auto
    then have "nOpCount s1 + int (count_ops rest) \<le> nOpCount s' \<and> nOpCount s' \<le> int MAX_OPS_PER_SCRIPT"
      using 1 eval_instruction_count [OF i] GetOp_shorter [OF g] by blast
    moreover have "int (count_ops pc) = (if opcode > OP_16 then 1 else 0) + int (count_ops rest)"
      using g by (subst count_ops.simps) simp
    ultimately show ?thesis using eval_instruction_count [OF i 1(3)] by linarith
  qed (use 1(2,3) in \<open>simp add: eval_loop.simps count_ops.simps\<close>)
qed

lemma eval_loop_not_disabled:
  "eval_loop env pc s = Ok s' \<Longrightarrow> opcode \<in> set (script_opcodes pc) \<Longrightarrow> \<not> disabled_opcode opcode"
proof (induction pc arbitrary: s rule: length_induct)
  case (1 pc)
  show ?case
  proof (cases "pc = []")
    case False
    then obtain op v rest s1 where g: "GetOp pc = Some (op, v, rest)"
      and i: "eval_instruction env op v rest s = Ok s1" and l: "eval_loop env rest s1 = Ok s'"
      using 1(2) by (subst (asm) eval_loop_step) auto
    have "opcode = op \<or> opcode \<in> set (script_opcodes rest)"
      using 1(3) g by (subst (asm) script_opcodes.simps) simp
    moreover have "\<not> disabled_opcode op" using eval_instruction_Ok [OF i] by blast
    ultimately show ?thesis using 1(1) GetOp_shorter [OF g] l by blast
  qed (use 1(3) in \<open>simp add: script_opcodes.simps\<close>)
qed

section \<open>Definedness\<close>

text \<open>With a checker that answers everything, no instruction aborts: the assertions of \<open>CScriptNum\<close> and
  \<open>CheckMinimalPush\<close> and the \<open>default\<close> branches of the inner switches are never reached.\<close>

definition total_checker :: "checker \<Rightarrow> bool" where
  "total_checker chk \<longleftrightarrow> (\<forall>sig key code sv. CheckSig chk sig key code sv \<noteq> None) \<and>
     (\<forall>n. CheckLockTime chk n \<noteq> None) \<and> (\<forall>n. CheckSequence chk n \<noteq> None)"

lemma encodings_Abort [simp]: "CheckSignatureEncoding env sig \<noteq> Abort" "CheckPubKeyEncoding env key \<noteq> Abort"
  by (simp_all add: CheckSignatureEncoding_def CheckPubKeyEncoding_def)

lemma op_plain_defined:
  "op_small_int opcode s \<noteq> Abort" "op_if env fExec opcode s \<noteq> Abort" "op_else s \<noteq> Abort" "op_endif s \<noteq> Abort"
  "op_verify s \<noteq> Abort" "op_stack opcode s \<noteq> Abort" "op_pick_roll env opcode s \<noteq> Abort" "op_equal opcode s \<noteq> Abort"
  "op_within env s \<noteq> Abort" "op_digest env opcode s \<noteq> Abort"
  by (auto simp: op_small_int_def op_if_def op_else_def op_endif_def op_verify_def op_stack_def op_pick_roll_def
    op_equal_def op_within_def op_digest_def Let_def split: if_split_asm list.splits)

lemma op_checker_defined:
  assumes "total_checker (ev_checker env)"
  shows "op_checklocktimeverify env s \<noteq> Abort" "op_checksequenceverify env s \<noteq> Abort" "op_checksig env opcode s \<noteq> Abort"
  using assms by (auto simp: op_checklocktimeverify_def op_checksequenceverify_def op_checksig_def total_checker_def
    Let_def split: if_split_asm list.splits)

lemma op_unary_defined:
  assumes "opcode = OP_1ADD \<or> opcode = OP_1SUB \<or> opcode = OP_NEGATE \<or> opcode = OP_ABS \<or> opcode = OP_NOT \<or> opcode = OP_0NOTEQUAL"
  shows "op_unary env opcode s \<noteq> Abort"
proof -
  have "unary_num opcode bn \<noteq> Abort" if "\<bar>bn\<bar> < 2 ^ 32" for bn
    using assms that by (auto simp: unary_num_def num_add_assign_def num_sub_assign_def num_neg_def)
  then show ?thesis by (auto simp: op_unary_def split: if_split_asm dest!: script_num_bound4)
qed

lemma opcode_154_164:
  assumes "(154 :: u8) \<le> x" "x \<le> 164"
  shows "x = 154 \<or> x = 155 \<or> x = 156 \<or> x = 157 \<or> x = 158 \<or> x = 159 \<or> x = 160 \<or> x = 161 \<or> x = 162 \<or> x = 163 \<or> x = 164"
proof -
  have "154 \<le> unat x" "unat x \<le> 164" using assms by (simp_all add: word_le_nat_alt)
  then have "unat x = 154 \<or> unat x = 155 \<or> unat x = 156 \<or> unat x = 157 \<or> unat x = 158 \<or> unat x = 159 \<or>
    unat x = 160 \<or> unat x = 161 \<or> unat x = 162 \<or> unat x = 163 \<or> unat x = 164" by arith
  then show ?thesis by (simp add: word_unat_eq_iff)
qed

lemma op_binary_defined:
  assumes "opcode = OP_ADD \<or> opcode = OP_SUB \<or> (opcode \<ge> OP_BOOLAND \<and> opcode \<le> OP_MAX)"
  shows "op_binary env opcode s \<noteq> Abort"
proof -
  have "opcode = 147 \<or> opcode = 148 \<or> opcode = 154 \<or> opcode = 155 \<or> opcode = 156 \<or> opcode = 157 \<or> opcode = 158 \<or>
    opcode = 159 \<or> opcode = 160 \<or> opcode = 161 \<or> opcode = 162 \<or> opcode = 163 \<or> opcode = 164"
    using assms opcode_154_164 by blast
  then have "binary_num opcode a b \<noteq> Abort" for a b by (elim disjE) (simp_all add: binary_num_def)
  then show ?thesis by (auto simp: op_binary_def split: if_split_asm)
qed

lemma multisig_script_code_defined: "multisig_script_code env st isig n code \<noteq> Abort"
  by (induction env st isig n code rule: multisig_script_code.induct) auto

lemma multisig_loop_defined:
  assumes "total_checker (ev_checker env)"
  shows "multisig_loop env st code nSigs nKeys isig ikey \<noteq> Abort"
  using assms
proof (induction env st code nSigs nKeys isig ikey rule: multisig_loop.induct)
  case (1 env st code nSigs nKeys isig ikey)
  then show ?case by (subst multisig_loop.simps) (auto simp: total_checker_def split: if_splits)
qed

lemma multisig_cleanup_defined: "multisig_cleanup env b n ikey2 st \<noteq> Abort"
  by (induction env b n ikey2 st rule: multisig_cleanup.induct) auto

lemma op_checkmultisig_defined:
  assumes "total_checker (ev_checker env)"
  shows "op_checkmultisig env opcode s \<noteq> Abort"
proof -
  have "multisig_finish env opcode b st s' \<noteq> Abort" for b st s' by (auto simp: multisig_finish_def split: if_splits)
  then show ?thesis using multisig_loop_defined [OF assms] multisig_script_code_defined multisig_cleanup_defined
    by (auto simp: op_checkmultisig_def Let_def simp del: multisig_cleanup.simps split: if_split_asm)
qed

lemma eval_switch_defined:
  "total_checker (ev_checker env) \<Longrightarrow> eval_switch env fExec opcode rest s \<noteq> Abort"
  by (rule eval_switch_cases [of "\<lambda>r. r \<noteq> Abort"])
    (simp_all only: op_plain_defined op_checker_defined op_unary_defined op_binary_defined op_checkmultisig_defined
      exec.distinct simp_thms not_False_eq_True)

lemma eval_instruction_defined:
  assumes "total_checker (ev_checker env)"
  shows "eval_instruction env opcode v rest s \<noteq> Abort"
proof -
  have "CheckMinimalPush v opcode \<noteq> Abort" if "opcode \<le> OP_PUSHDATA4" using that by (simp add: CheckMinimalPush_def)
  then show ?thesis using eval_switch_defined [OF assms] unfolding eval_instruction_def Let_def
    by (auto split: if_split_asm)
qed

lemma eval_loop_defined:
  assumes "total_checker (ev_checker env)"
  shows "eval_loop env pc s \<noteq> Abort"
  using assms
proof (induction env pc s rule: eval_loop.induct)
  case (1 env pc s)
  then show ?case using eval_instruction_defined [OF 1(2)] by (subst eval_loop.simps) (auto split: option.splits)
qed

lemma EvalScript_defined: "total_checker (ev_checker env) \<Longrightarrow> EvalScript env st script \<noteq> Abort"
  by (simp add: EvalScript_def eval_loop_defined)

context checker_contract
begin

lemma EvalScript_answers:
  assumes "valid" "\<And>sig key. safe sig key" "ev_checker env = chk"
  shows "EvalScript env st script \<noteq> Abort"
  using EvalScript_defined [of env st script] sig_defined lock_defined seq_defined assms
  by (simp add: total_checker_def)

end

section \<open>Scripts run to the end\<close>

lemma eval_push:
  assumes "GetOp pc = Some (opcode, v, rest)" "opcode \<le> OP_PUSHDATA4" "list_all (\<lambda>b. b) (vfExec s)"
    and "\<not> fRequireMinimal env \<or> CheckMinimalPush v opcode = Ok True" "length v \<le> MAX_SCRIPT_ELEMENT_SIZE"
    and "length (stack s) + length (altstack s) < MAX_STACK_SIZE"
  shows "eval_loop env pc s = eval_loop env rest (s\<lparr>stack := v # stack s\<rparr>)"
proof -
  have "\<not> opcode > OP_16" using assms(2) by (simp add: word_less_nat_alt word_le_nat_alt)
  moreover have "\<not> disabled_opcode opcode" using assms(2) by (auto simp: disabled_opcode_def)
  ultimately have "eval_instruction env opcode v rest s = Ok (s\<lparr>stack := v # stack s\<rparr>)"
    using assms(2-6) by (auto simp: eval_instruction_def Let_def simp del: ebind_Ok)
  moreover have "pc \<noteq> []" using assms(1) by auto
  ultimately show ?thesis using assms(1) by (subst eval_loop.simps) simp
qed

text \<open>The script \<open>CScript() << b1 << b2 << ...\<close>.\<close>

definition push_all :: "bytes list \<Rightarrow> CScript" where
  "push_all bs = foldl push_vector [] bs"

lemma push_vector_append: "push_vector s b = s @ push_vector [] b"
  by (simp add: push_vector_def)

lemma push_all_Cons: "push_all (b # bs) = push_vector [] b @ push_all bs"
proof -
  have "foldl push_vector s bs = s @ foldl push_vector [] bs" for s
  proof (induction bs arbitrary: s)
    case (Cons a bs)
    have "foldl push_vector s (a # bs) = push_vector s a @ foldl push_vector [] bs" using Cons [of "push_vector s a"] by simp
    also have "\<dots> = s @ push_vector [] a @ foldl push_vector [] bs" by (simp add: push_vector_append [of s])
    also have "\<dots> = s @ foldl push_vector [] (a # bs)" using Cons [of "push_vector [] a"] by simp
    finally show ?case .
  qed simp
  from this [of "push_vector [] b"] show ?thesis by (simp add: push_all_def)
qed

lemma eval_loop_push_all:
  assumes "\<not> fRequireMinimal env" "list_all (\<lambda>b. b) (vfExec s)"
  shows "\<forall>b \<in> set bs. length b \<le> MAX_SCRIPT_ELEMENT_SIZE \<Longrightarrow>
    length bs + length (stack s) + length (altstack s) \<le> MAX_STACK_SIZE \<Longrightarrow>
    eval_loop env (push_all bs) s = Ok (s\<lparr>stack := rev bs @ stack s\<rparr>)"
  using assms(2)
proof (induction bs arbitrary: s)
  case Nil
  then show ?case by (simp add: push_all_def eval_loop.simps)
next
  case (Cons b bs)
  have "length b < 2 ^ 32" using Cons(2) by (simp add: MAX_SCRIPT_ELEMENT_SIZE_def)
  then obtain opcode where "opcode \<le> OP_PUSHDATA4" "GetOp (push_all (b # bs)) = Some (opcode, b, push_all bs)"
    using GetOp_push_vector [of b "push_all bs"] by (auto simp: push_all_Cons)
  then have "eval_loop env (push_all (b # bs)) s = eval_loop env (push_all bs) (s\<lparr>stack := b # stack s\<rparr>)"
    using assms(1) Cons by (intro eval_push) auto
  then show ?case using Cons by simp
qed

lemma EvalScript_push_all:
  assumes "\<not> fRequireMinimal env" "\<forall>b \<in> set bs. length b \<le> MAX_SCRIPT_ELEMENT_SIZE"
    and "length bs + length st \<le> MAX_STACK_SIZE" "length (push_all bs) \<le> MAX_SCRIPT_SIZE"
  shows "EvalScript env st (push_all bs) = Ok (rev bs @ st)"
  using assms by (simp add: EvalScript_def eval_loop_push_all)

text \<open>The pay-to-public-key-hash script.\<close>

definition p2pkh_script :: "bytes \<Rightarrow> CScript" where
  "p2pkh_script h = push_opcode (push_opcode (push_vector (push_opcode (push_opcode [] OP_DUP) OP_HASH160) h)
     OP_EQUALVERIFY) OP_CHECKSIG"

lemma p2pkh_script_bytes:
  "length h = 20 \<Longrightarrow> p2pkh_script h = OP_DUP # OP_HASH160 # 20 # h @ [OP_EQUALVERIFY, OP_CHECKSIG]"
  by (simp add: p2pkh_script_def push_opcode_def push_vector_def)

lemma p2pkh_script_eval:
  assumes h: "length h = 20" and "length st + 4 \<le> MAX_STACK_SIZE" "length (hf_HASH160 (ev_hash env) key) = 20"
  shows "EvalScript env (key # sig # st) (p2pkh_script h) =
    (if hf_HASH160 (ev_hash env) key \<noteq> h then Err SCRIPT_ERR_EQUALVERIFY
     else ebind (op_checksig env OP_CHECKSIG \<lparr>stack = key # sig # st, altstack = [], vfExec = [],
            pbegincodehash = p2pkh_script h, nOpCount = 4\<rparr>) (\<lambda>s. Ok (stack s)))"
proof -
  let ?s = "\<lambda>st n. \<lparr>stack = st, altstack = [], vfExec = [], pbegincodehash = p2pkh_script h, nOpCount = n\<rparr>"
  let ?hash = "hf_HASH160 (ev_hash env) key"
  note step = eval_loop.simps eval_instruction_def eval_switch_def disabled_opcode_def MAX_OPS_PER_SCRIPT_def
    MAX_SCRIPT_ELEMENT_SIZE_def MAX_STACK_SIZE_def op_stack_def op_digest_def op_equal_def set_stack_def
  have 1: "eval_loop env (OP_DUP # pc) (?s (key # sig # st) 0) = eval_loop env pc (?s (key # key # sig # st) 1)" for pc
    using assms(2) by (subst eval_loop.simps) (simp add: step)
  have 2: "eval_loop env (OP_HASH160 # pc) (?s (key # key # sig # st) 1) = eval_loop env pc (?s (?hash # key # sig # st) 2)" for pc
    using assms(2) by (subst eval_loop.simps) (simp add: step)
  have 3: "eval_loop env (20 # h @ pc) (?s (?hash # key # sig # st) 2) = eval_loop env pc (?s (h # ?hash # key # sig # st) 2)" for pc
  proof (rule trans [OF eval_push])
    show "GetOp (20 # h @ pc) = Some (20, h, pc)" using h by (simp add: read_operand_def)
    show "\<not> fRequireMinimal env \<or> CheckMinimalPush h 20 = Ok True" using h by (simp add: CheckMinimalPush_def)
  qed (use h assms(2) in \<open>simp_all add: MAX_SCRIPT_ELEMENT_SIZE_def MAX_STACK_SIZE_def\<close>)
  have 4: "eval_loop env (OP_EQUALVERIFY # pc) (?s (h # ?hash # key # sig # st) 2) =
    (if ?hash \<noteq> h then Err SCRIPT_ERR_EQUALVERIFY else eval_loop env pc (?s (key # sig # st) 3))" for pc
    using assms(2) by (subst eval_loop.simps) (simp add: step)
  have 5: "eval_loop env [OP_CHECKSIG] (?s (key # sig # st) 3) =
    op_checksig env OP_CHECKSIG (?s (key # sig # st) 4)" 
  proof -
    have "length (stack s') + length (altstack s') \<le> MAX_STACK_SIZE"
      if "op_checksig env OP_CHECKSIG (?s (key # sig # st) 4) = Ok s'" for s'
      using that assms(2) by (auto simp: op_checksig_def Let_def split: if_split_asm)
    then show ?thesis
      by (cases "op_checksig env OP_CHECKSIG (?s (key # sig # st) 4)"; subst eval_loop.simps)
        (simp_all add: step eval_loop.simps [of env "[]"])
  qed
  have vf: "vfExec s' = []" if "op_checksig env OP_CHECKSIG (?s (key # sig # st) 4) = Ok s'" for s'
    using that by (auto simp: op_checksig_def Let_def split: if_split_asm)
  have "length (p2pkh_script h) \<le> MAX_SCRIPT_SIZE" using h by (simp add: p2pkh_script_bytes MAX_SCRIPT_SIZE_def)
  moreover have "eval_loop env (p2pkh_script h) (?s (key # sig # st) 0) =
    (if ?hash \<noteq> h then Err SCRIPT_ERR_EQUALVERIFY else op_checksig env OP_CHECKSIG (?s (key # sig # st) 4))"
    unfolding p2pkh_script_bytes [OF h, symmetric]
    by (subst p2pkh_script_bytes [OF h]) (simp only: 1 2 3 4 5 append_Cons append_Nil cong: if_cong)
  ultimately show ?thesis using vf
    by (cases "op_checksig env OP_CHECKSIG (?s (key # sig # st) 4)") (simp_all add: EvalScript_def)
qed

text \<open>The transaction checker reads past the end of a short signature: the one-byte signature that only
  carries a valid hash type passes every encoding check and reaches \<open>ed25519_verify\<close>.\<close>

lemma Tx_CheckSig_short:
  assumes "nIn c < length (vin (txTo c))" "sig \<noteq> []" "length sig \<le> 64"
  shows "Tx_CheckSig ed H c sig key code sv = None"
  using assms SignatureHash_defined [OF assms(1), of H code "uint (last sig)" "tc_amount c" sv "txdata c"]
  by (auto simp: Tx_CheckSig_def Let_def CPubKey_IsValid_def CPubKey_Verify_def PUBLIC_KEY_SIZE_def ed25519_verify_def)

lemma EvalScript_short_signature:
  assumes "ev_checker env = TransactionSignatureChecker ed H c" "nIn c < length (vin (txTo c))"
    and "length key = PUBLIC_KEY_SIZE"
  shows "EvalScript env (key # [1] # st) [OP_CHECKSIG] = Abort"
proof -
  let ?s = "\<lparr>stack = key # [1] # st, altstack = [], vfExec = [], pbegincodehash = [OP_CHECKSIG], nOpCount = 1\<rparr>"
  have "CheckSignatureEncoding env [1] = Ok ()" "CheckPubKeyEncoding env key = Ok ()"
    using assms(3) by (simp_all add: CheckSignatureEncoding_def IsDefinedHashtypeSignature_def SIGHASH_ALL_def
      SIGHASH_SINGLE_def CheckPubKeyEncoding_def IsCompressedOrUncompressedPubKey_def IsCompressedPubKey_def)
  then have "op_checksig env OP_CHECKSIG ?s = Abort"
    using assms(1,2) by (simp add: op_checksig_def Let_def TransactionSignatureChecker_def Tx_CheckSig_short)
  then have "eval_instruction env OP_CHECKSIG [] [] (?s\<lparr>nOpCount := 0\<rparr>) = Abort"
    by (simp add: eval_instruction_def eval_switch_def disabled_opcode_def MAX_OPS_PER_SCRIPT_def Let_def)
  then show ?thesis by (simp add: EvalScript_def eval_loop.simps [of env "[OP_CHECKSIG]"] MAX_SCRIPT_SIZE_def)
qed

end
