(* ===== verification/Coins.thy ===== *)
theory Coins
  imports Script "HOL-Library.AList"
begin

text \<open>
  The cache of unspent transaction outputs (\<open>coins.h\<close>, \<open>coins.cpp\<close>).  The table \<open>cacheCoins\<close> is an
  association list in the order its iteration visits; the base view is the function its \<open>GetCoin\<close>
  computes (\<open>None\<close> is the return value \<open>false\<close>) and its best block.  Look-ups fill the cache, so they
  return it.  Not modelled is the accounting of memory (\<open>cachedCoinsUsage\<close>), which depends on the
  allocator.
\<close>

section \<open>Data\<close>

record Coin =
  coin_out :: CTxOut
  fCoinBase :: bool
  coin_nHeight :: "31 word"

definition Coin_of :: "CTxOut \<Rightarrow> int \<Rightarrow> bool \<Rightarrow> Coin" where
  "Coin_of outIn nHeightIn fCoinBaseIn =
     \<lparr>coin_out = outIn, fCoinBase = fCoinBaseIn, coin_nHeight = word_of_int nHeightIn\<rparr>"

text \<open>\<open>Coin()\<close>, and a coin after \<open>Clear\<close>.\<close>

definition coinEmpty :: Coin where
  "coinEmpty = \<lparr>coin_out = CTxOut_SetNull, fCoinBase = False, coin_nHeight = 0\<rparr>"

definition IsSpent :: "Coin \<Rightarrow> bool" where
  "IsSpent c = CTxOut_IsNull (coin_out c)"

record CCoinsCacheEntry =
  ce_coin :: Coin
  ce_flags :: u8

definition DIRTY :: u8 where "DIRTY = push_bit 0 1"
definition FRESH :: u8 where "FRESH = push_bit 1 1"

definition is_dirty :: "CCoinsCacheEntry \<Rightarrow> bool" where "is_dirty e \<longleftrightarrow> ce_flags e AND DIRTY \<noteq> 0"
definition is_fresh :: "CCoinsCacheEntry \<Rightarrow> bool" where "is_fresh e \<longleftrightarrow> ce_flags e AND FRESH \<noteq> 0"

type_synonym CCoinsMap = "(COutPoint \<times> CCoinsCacheEntry) list"

record CCoinsViewCache =
  cv_base :: "COutPoint \<Rightarrow> Coin option"
  cv_base_best :: uint256
  cv_hashBlock :: uint256
  cacheCoins :: CCoinsMap

datatype coins_error = CoinIsSpent | ReplacesUnspent | FreshMisapplied

definition CCoinsViewCache_of :: "(COutPoint \<Rightarrow> Coin option) \<Rightarrow> uint256 \<Rightarrow> CCoinsViewCache" where
  "CCoinsViewCache_of base best = \<lparr>cv_base = base, cv_base_best = best, cv_hashBlock = uint256_null, cacheCoins = []\<rparr>"

section \<open>Look-ups\<close>

text \<open>The result \<open>None\<close> is the end iterator.\<close>

definition FetchCoin :: "CCoinsViewCache \<Rightarrow> COutPoint \<Rightarrow> CCoinsCacheEntry option \<times> CCoinsViewCache" where
  "FetchCoin c outpoint =
     (case map_of (cacheCoins c) outpoint of
        Some e \<Rightarrow> (Some e, c)
      | None \<Rightarrow>
          (case cv_base c outpoint of
             None \<Rightarrow> (None, c)
           | Some tmp \<Rightarrow>
               let e = \<lparr>ce_coin = tmp, ce_flags = (if IsSpent tmp then FRESH else 0)\<rparr>
               in (Some e, c\<lparr>cacheCoins := AList.update outpoint e (cacheCoins c)\<rparr>)))"

definition GetCoin :: "CCoinsViewCache \<Rightarrow> COutPoint \<Rightarrow> Coin option \<times> CCoinsViewCache" where
  "GetCoin c outpoint =
     (case FetchCoin c outpoint of
        (Some e, c') \<Rightarrow> (if IsSpent (ce_coin e) then None else Some (ce_coin e), c')
      | (None, c') \<Rightarrow> (None, c'))"

definition AccessCoin :: "CCoinsViewCache \<Rightarrow> COutPoint \<Rightarrow> Coin \<times> CCoinsViewCache" where
  "AccessCoin c outpoint =
     (case FetchCoin c outpoint of (None, c') \<Rightarrow> (coinEmpty, c') | (Some e, c') \<Rightarrow> (ce_coin e, c'))"

definition HaveCoin :: "CCoinsViewCache \<Rightarrow> COutPoint \<Rightarrow> bool \<times> CCoinsViewCache" where
  "HaveCoin c outpoint =
     (case FetchCoin c outpoint of (None, c') \<Rightarrow> (False, c') | (Some e, c') \<Rightarrow> (\<not> IsSpent (ce_coin e), c'))"

definition HaveCoinInCache :: "CCoinsViewCache \<Rightarrow> COutPoint \<Rightarrow> bool" where
  "HaveCoinInCache c outpoint =
     (case map_of (cacheCoins c) outpoint of None \<Rightarrow> False | Some e \<Rightarrow> \<not> IsSpent (ce_coin e))"

definition GetBestBlock :: "CCoinsViewCache \<Rightarrow> uint256 \<times> CCoinsViewCache" where
  "GetBestBlock c =
     (let h = (if uint256_IsNull (cv_hashBlock c) then cv_base_best c else cv_hashBlock c)
      in (h, c\<lparr>cv_hashBlock := h\<rparr>))"

definition SetBestBlock :: "CCoinsViewCache \<Rightarrow> uint256 \<Rightarrow> CCoinsViewCache" where
  "SetBestBlock c hashBlockIn = c\<lparr>cv_hashBlock := hashBlockIn\<rparr>"

section \<open>Modifications\<close>

definition AddCoin :: "CCoinsViewCache \<Rightarrow> COutPoint \<Rightarrow> Coin \<Rightarrow> bool \<Rightarrow> coins_error + CCoinsViewCache" where
  "AddCoin c outpoint coin possible_overwrite =
     (if IsSpent coin then Inl CoinIsSpent
      else if IsUnspendable (scriptPubKey (coin_out coin)) then Inr c
      else let it = (case map_of (cacheCoins c) outpoint of None \<Rightarrow> \<lparr>ce_coin = coinEmpty, ce_flags = 0\<rparr> | Some e \<Rightarrow> e)
           in if \<not> possible_overwrite \<and> \<not> IsSpent (ce_coin it) then Inl ReplacesUnspent
              else let fresh = (\<not> possible_overwrite \<and> \<not> is_dirty it);
                       e = \<lparr>ce_coin = coin, ce_flags = ce_flags it OR (DIRTY OR (if fresh then FRESH else 0))\<rparr>
                   in Inr (c\<lparr>cacheCoins := AList.update outpoint e (cacheCoins c)\<rparr>))"

text \<open>The result is the return value, the coin moved out and the cache.\<close>

definition SpendCoin :: "CCoinsViewCache \<Rightarrow> COutPoint \<Rightarrow> bool \<times> Coin \<times> CCoinsViewCache" where
  "SpendCoin c outpoint =
     (case FetchCoin c outpoint of
        (None, c') \<Rightarrow> (False, coinEmpty, c')
      | (Some e, c') \<Rightarrow>
          (True, ce_coin e,
           if is_fresh e then c'\<lparr>cacheCoins := AList.delete outpoint (cacheCoins c')\<rparr>
           else c'\<lparr>cacheCoins := AList.update outpoint \<lparr>ce_coin = coinEmpty, ce_flags = ce_flags e OR DIRTY\<rparr> (cacheCoins c')\<rparr>))"

text \<open>The operations of a view that the code updating it calls, as a table of functions: the model's
  counterpart of a reference to a \<open>CCoinsViewCache\<close>.  \<open>ops_cache\<close> below is the table of the cache.\<close>

record 's coins_ops =
  op_HaveCoin :: "'s \<Rightarrow> COutPoint \<Rightarrow> bool \<times> 's"
  op_AddCoin :: "'s \<Rightarrow> COutPoint \<Rightarrow> Coin \<Rightarrow> bool \<Rightarrow> coins_error + 's"
  op_SpendCoin :: "'s \<Rightarrow> COutPoint \<Rightarrow> bool \<times> Coin \<times> 's"
  op_AccessByTxid :: "'s \<Rightarrow> uint256 \<Rightarrow> Coin \<times> 's"
  op_SetBestBlock :: "'s \<Rightarrow> uint256 \<Rightarrow> 's"

fun AddCoins_loop :: "'s coins_ops \<Rightarrow> uint256 \<Rightarrow> int \<Rightarrow> bool \<Rightarrow> bool \<Rightarrow> nat \<Rightarrow> CTxOut list \<Rightarrow> 's \<Rightarrow> coins_error + 's" where
  "AddCoins_loop ops txid nHeight fCoinbase check i [] c = Inr c"
| "AddCoins_loop ops txid nHeight fCoinbase check i (txout # outs) c =
     (let outpoint = \<lparr>op_hash = txid, op_n = of_nat i\<rparr>;
          (overwrite, c1) = (if check then op_HaveCoin ops c outpoint else (fCoinbase, c))
      in case op_AddCoin ops c1 outpoint (Coin_of txout nHeight fCoinbase) overwrite of
           Inl e \<Rightarrow> Inl e
         | Inr c2 \<Rightarrow> AddCoins_loop ops txid nHeight fCoinbase check (i + 1) outs c2)"

definition AddCoins :: "'s coins_ops \<Rightarrow> hasher \<Rightarrow> 's \<Rightarrow> CTransaction \<Rightarrow> int \<Rightarrow> bool \<Rightarrow> coins_error + 's" where
  "AddCoins ops H cache tx nHeight check =
     AddCoins_loop ops (tx_GetHash H tx) nHeight (IsCoinBase tx) check 0 (vout tx) cache"

text \<open>One entry of the child's table, written to its parent.\<close>

definition BatchWrite_entry :: "COutPoint \<Rightarrow> CCoinsCacheEntry \<Rightarrow> CCoinsMap \<Rightarrow> coins_error + CCoinsMap" where
  "BatchWrite_entry k e us =
     (if \<not> is_dirty e then Inr us
      else case map_of us k of
        None \<Rightarrow>
          if is_fresh e \<and> IsSpent (ce_coin e) then Inr us
          else Inr (AList.update k \<lparr>ce_coin = ce_coin e, ce_flags = (if is_fresh e then DIRTY OR FRESH else DIRTY)\<rparr> us)
      | Some itUs \<Rightarrow>
          if is_fresh e \<and> \<not> IsSpent (ce_coin itUs) then Inl FreshMisapplied
          else if is_fresh itUs \<and> IsSpent (ce_coin e) then Inr (AList.delete k us)
          else Inr (AList.update k \<lparr>ce_coin = ce_coin e, ce_flags = ce_flags itUs OR DIRTY\<rparr> us))"

fun BatchWrite_loop :: "CCoinsMap \<Rightarrow> CCoinsMap \<Rightarrow> coins_error + CCoinsMap" where
  "BatchWrite_loop [] us = Inr us"
| "BatchWrite_loop ((k, e) # mapCoins) us =
     (case BatchWrite_entry k e us of Inl err \<Rightarrow> Inl err | Inr us' \<Rightarrow> BatchWrite_loop mapCoins us')"

definition BatchWrite :: "CCoinsViewCache \<Rightarrow> CCoinsMap \<Rightarrow> uint256 \<Rightarrow> coins_error + CCoinsViewCache" where
  "BatchWrite c mapCoins hashBlockIn =
     (case BatchWrite_loop mapCoins (cacheCoins c) of Inl e \<Rightarrow> Inl e
      | Inr us \<Rightarrow> Inr (c\<lparr>cacheCoins := us, cv_hashBlock := hashBlockIn\<rparr>))"

text \<open>\<open>Flush\<close> of a cache whose base is the cache \<open>parent\<close>; both are returned.\<close>

definition Flush :: "CCoinsViewCache \<Rightarrow> CCoinsViewCache \<Rightarrow> coins_error + CCoinsViewCache \<times> CCoinsViewCache" where
  "Flush parent c =
     (case BatchWrite parent (cacheCoins c) (cv_hashBlock c) of Inl e \<Rightarrow> Inl e
      | Inr parent' \<Rightarrow> Inr (parent', c\<lparr>cacheCoins := []\<rparr>))"

definition Uncache :: "CCoinsViewCache \<Rightarrow> COutPoint \<Rightarrow> CCoinsViewCache" where
  "Uncache c hash =
     (case map_of (cacheCoins c) hash of
        Some e \<Rightarrow> if ce_flags e = 0 then c\<lparr>cacheCoins := AList.delete hash (cacheCoins c)\<rparr> else c
      | None \<Rightarrow> c)"

definition GetCacheSize :: "CCoinsViewCache \<Rightarrow> nat" where
  "GetCacheSize c = length (cacheCoins c)"

section \<open>Transactions\<close>

fun GetValueIn_loop :: "CCoinsViewCache \<Rightarrow> CAmount \<Rightarrow> CTxIn list \<Rightarrow> CAmount \<times> CCoinsViewCache" where
  "GetValueIn_loop c nResult [] = (nResult, c)"
| "GetValueIn_loop c nResult (txin # ins) =
     (let (coin, c') = AccessCoin c (prevout txin) in GetValueIn_loop c' (nResult + nValue (coin_out coin)) ins)"

definition GetValueIn :: "CCoinsViewCache \<Rightarrow> CTransaction \<Rightarrow> CAmount \<times> CCoinsViewCache" where
  "GetValueIn c tx = (if IsCoinBase tx then (0, c) else GetValueIn_loop c 0 (vin tx))"

fun HaveInputs_loop :: "CCoinsViewCache \<Rightarrow> CTxIn list \<Rightarrow> bool \<times> CCoinsViewCache" where
  "HaveInputs_loop c [] = (True, c)"
| "HaveInputs_loop c (txin # ins) =
     (let (have_coin, c') = HaveCoin c (prevout txin)
      in if \<not> have_coin then (False, c') else HaveInputs_loop c' ins)"

definition HaveInputs :: "CCoinsViewCache \<Rightarrow> CTransaction \<Rightarrow> bool \<times> CCoinsViewCache" where
  "HaveInputs c tx = (if \<not> IsCoinBase tx then HaveInputs_loop c (vin tx) else (True, c))"

definition MIN_TRANSACTION_OUTPUT_WEIGHT :: nat where
  "MIN_TRANSACTION_OUTPUT_WEIGHT = 4 * length (ser_CTxOut CTxOut_SetNull)"
definition MAX_OUTPUTS_PER_BLOCK :: nat where
  "MAX_OUTPUTS_PER_BLOCK = MAX_BLOCK_WEIGHT div MIN_TRANSACTION_OUTPUT_WEIGHT"

function AccessByTxid_loop :: "CCoinsViewCache \<Rightarrow> uint256 \<Rightarrow> nat \<Rightarrow> Coin \<times> CCoinsViewCache" where
  "AccessByTxid_loop view txid n =
     (if n < MAX_OUTPUTS_PER_BLOCK
      then let (alternate, view') = AccessCoin view \<lparr>op_hash = txid, op_n = of_nat n\<rparr>
           in if \<not> IsSpent alternate then (alternate, view') else AccessByTxid_loop view' txid (n + 1)
      else (coinEmpty, view))"
  by pat_completeness auto
termination
  by (relation "measure (\<lambda>(view, txid, n). MAX_OUTPUTS_PER_BLOCK - n)") auto

declare AccessByTxid_loop.simps [simp del]

definition AccessByTxid :: "CCoinsViewCache \<Rightarrow> uint256 \<Rightarrow> Coin \<times> CCoinsViewCache" where
  "AccessByTxid view txid = AccessByTxid_loop view txid 0"

definition ops_cache :: "CCoinsViewCache coins_ops" where
  "ops_cache = \<lparr>op_HaveCoin = HaveCoin, op_AddCoin = AddCoin, op_SpendCoin = SpendCoin,
     op_AccessByTxid = AccessByTxid, op_SetBestBlock = SetBestBlock\<rparr>"

section \<open>The set a cache stands for\<close>

definition unspent :: "Coin option \<Rightarrow> Coin option" where
  "unspent x = (case x of None \<Rightarrow> None | Some c \<Rightarrow> if IsSpent c then None else Some c)"

definition utxo :: "CCoinsViewCache \<Rightarrow> COutPoint \<Rightarrow> Coin option" where
  "utxo c k = (case map_of (cacheCoins c) k of Some e \<Rightarrow> unspent (Some (ce_coin e)) | None \<Rightarrow> unspent (cv_base c k))"

text \<open>What the flags promise: a fresh entry is unknown to the base, a clean one agrees with it.\<close>

definition entry_ok :: "Coin option \<Rightarrow> CCoinsCacheEntry \<Rightarrow> bool" where
  "entry_ok b e \<longleftrightarrow> (is_fresh e \<longrightarrow> unspent b = None) \<and> (\<not> is_dirty e \<longrightarrow> unspent b = unspent (Some (ce_coin e)))"

definition cache_inv :: "CCoinsViewCache \<Rightarrow> bool" where
  "cache_inv c \<longleftrightarrow> distinct (map fst (cacheCoins c)) \<and>
     (\<forall>k e. map_of (cacheCoins c) k = Some e \<longrightarrow> entry_ok (cv_base c k) e)"

lemma unspent_simps [simp]:
  "unspent None = None" "\<not> IsSpent c \<Longrightarrow> unspent (Some c) = Some c" "IsSpent c \<Longrightarrow> unspent (Some c) = None"
  "unspent x = Some c \<longleftrightarrow> x = Some c \<and> \<not> IsSpent c"
  by (auto simp: unspent_def split: option.splits if_splits)

lemma unspent_None [simp]: "unspent (Some c) = None \<longleftrightarrow> IsSpent c"
  by (simp add: unspent_def)

lemma unspent_unspent [simp]: "unspent (unspent x) = unspent x"
  by (simp add: unspent_def split: option.split)

lemma unspent_utxo [simp]: "unspent (utxo c k) = utxo c k"
  by (simp add: utxo_def split: option.split)

lemma IsSpent_coinEmpty [simp]: "IsSpent coinEmpty"
  by (simp add: IsSpent_def coinEmpty_def CTxOut_IsNull_def CTxOut_SetNull_def)

lemma flag_simps [simp]:
  "is_dirty \<lparr>ce_coin = x, ce_flags = f OR (DIRTY OR g)\<rparr>" "is_dirty \<lparr>ce_coin = x, ce_flags = f OR DIRTY\<rparr>"
  "is_dirty \<lparr>ce_coin = x, ce_flags = DIRTY OR f\<rparr>" "is_dirty \<lparr>ce_coin = x, ce_flags = DIRTY\<rparr>"
  "\<not> is_fresh \<lparr>ce_coin = x, ce_flags = DIRTY\<rparr>" "is_fresh \<lparr>ce_coin = x, ce_flags = DIRTY OR FRESH\<rparr>"
  "is_fresh \<lparr>ce_coin = x, ce_flags = ce_flags e OR DIRTY\<rparr> = is_fresh e"
  "is_fresh \<lparr>ce_coin = x, ce_flags = ce_flags e OR (DIRTY OR 0)\<rparr> = is_fresh e"
  "is_fresh \<lparr>ce_coin = x, ce_flags = ce_flags e OR (DIRTY OR FRESH)\<rparr>"
  "\<not> is_fresh \<lparr>ce_coin = x, ce_flags = 0\<rparr>" "\<not> is_dirty \<lparr>ce_coin = x, ce_flags = 0\<rparr>"
  "is_fresh \<lparr>ce_coin = x, ce_flags = FRESH\<rparr>" "\<not> is_dirty \<lparr>ce_coin = x, ce_flags = FRESH\<rparr>"
  unfolding is_dirty_def is_fresh_def DIRTY_def FRESH_def and_push_bit_1 by (simp_all add: bit_or_iff bit_exp_iff bit_1_iff)

section \<open>Look-ups keep the set\<close>

lemma cache_invD: "cache_inv c \<Longrightarrow> map_of (cacheCoins c) k = Some e \<Longrightarrow> entry_ok (cv_base c k) e"
  by (simp add: cache_inv_def)

text \<open>Replacing an entry by one the base agrees with.\<close>

lemma cache_update:
  assumes "cache_inv c" "entry_ok (cv_base c k) e"
  shows "cache_inv (c\<lparr>cacheCoins := AList.update k e (cacheCoins c)\<rparr>)"
    "utxo (c\<lparr>cacheCoins := AList.update k e (cacheCoins c)\<rparr>) = (utxo c)(k := unspent (Some (ce_coin e)))"
  using assms by (auto simp: cache_inv_def utxo_def update_conv' distinct_update fun_eq_iff split: option.split if_splits)

lemma cache_delete:
  assumes "cache_inv c"
  shows "cache_inv (c\<lparr>cacheCoins := AList.delete k (cacheCoins c)\<rparr>)"
    "utxo (c\<lparr>cacheCoins := AList.delete k (cacheCoins c)\<rparr>) = (utxo c)(k := unspent (cv_base c k))"
  using assms by (auto simp: cache_inv_def utxo_def delete_conv' distinct_delete fun_eq_iff split: option.split if_splits)

lemma FetchCoin_spec:
  assumes "cache_inv c" "FetchCoin c k = (r, c')"
  shows "cache_inv c' \<and> utxo c' = utxo c \<and> cv_base c' = cv_base c \<and> cv_base_best c' = cv_base_best c \<and> cv_hashBlock c' = cv_hashBlock c \<and>
    map_of (cacheCoins c') k = r \<and> unspent (map_option ce_coin r) = utxo c k"
proof (cases "map_of (cacheCoins c) k")
  case None
  show ?thesis
  proof (cases "cv_base c k")
    case (Some tmp)
    let ?e = "\<lparr>ce_coin = tmp, ce_flags = (if IsSpent tmp then FRESH else 0)\<rparr>"
    have "entry_ok (cv_base c k) ?e" using Some by (simp add: entry_ok_def)
    then have "cache_inv (c\<lparr>cacheCoins := AList.update k ?e (cacheCoins c)\<rparr>)"
      "utxo (c\<lparr>cacheCoins := AList.update k ?e (cacheCoins c)\<rparr>) = (utxo c)(k := unspent (Some tmp))"
      using cache_update [OF assms(1), of k ?e] by simp_all
    moreover have "utxo c k = unspent (Some tmp)" using None Some by (simp add: utxo_def)
    ultimately show ?thesis using assms(2) None Some by (auto simp: FetchCoin_def Let_def update_conv')
  qed (use assms None in \<open>auto simp: FetchCoin_def utxo_def\<close>)
next
  case (Some e)
  then have "utxo c k = unspent (Some (ce_coin e))" by (simp add: utxo_def)
  moreover have "r = Some e" "c' = c" using assms(2) Some by (simp_all add: FetchCoin_def)
  ultimately show ?thesis using assms(1) Some by simp
qed

definition same_view :: "CCoinsViewCache \<Rightarrow> CCoinsViewCache \<Rightarrow> bool" where
  "same_view c c' \<longleftrightarrow> cache_inv c' \<and> utxo c' = utxo c \<and> cv_base c' = cv_base c \<and> cv_base_best c' = cv_base_best c \<and>
     cv_hashBlock c' = cv_hashBlock c"

lemma same_view_trans: "same_view a b \<Longrightarrow> same_view b c \<Longrightarrow> same_view a c"
  by (simp add: same_view_def)

lemma lookup_spec:
  assumes "cache_inv c"
  shows "same_view c (snd (GetCoin c k))" "fst (GetCoin c k) = utxo c k"
    "same_view c (snd (AccessCoin c k))" "unspent (Some (fst (AccessCoin c k))) = utxo c k"
    "same_view c (snd (HaveCoin c k))" "fst (HaveCoin c k) \<longleftrightarrow> utxo c k \<noteq> None"
proof -
  obtain r c' where f: "FetchCoin c k = (r, c')" by fastforce
  note s = FetchCoin_spec [OF assms f]
  then have "same_view c c'" by (simp add: same_view_def)
  moreover have "utxo c k = (case r of None \<Rightarrow> None | Some e \<Rightarrow> unspent (Some (ce_coin e)))"
    using s by (cases r) simp_all
  ultimately show "same_view c (snd (GetCoin c k))" "fst (GetCoin c k) = utxo c k"
    "same_view c (snd (AccessCoin c k))" "unspent (Some (fst (AccessCoin c k))) = utxo c k"
    "same_view c (snd (HaveCoin c k))" "fst (HaveCoin c k) \<longleftrightarrow> utxo c k \<noteq> None"
    by (cases r; simp add: f GetCoin_def AccessCoin_def HaveCoin_def unspent_def)+
qed

section \<open>Modifications act on the set\<close>

lemma AddCoin_spec:
  assumes inv: "cache_inv c" and "\<not> IsSpent coin" "overwrite \<or> utxo c k = None"
  obtains c' where "AddCoin c k coin overwrite = Inr c'" "cache_inv c'" "cv_base c' = cv_base c"
    "utxo c' = (if IsUnspendable (scriptPubKey (coin_out coin)) then utxo c else (utxo c)(k \<mapsto> coin))"
proof (cases "IsUnspendable (scriptPubKey (coin_out coin))")
  case True
  then show thesis using that [of c] assms by (simp add: AddCoin_def)
next
  case False
  define it where "it = (case map_of (cacheCoins c) k of None \<Rightarrow> \<lparr>ce_coin = coinEmpty, ce_flags = 0\<rparr> | Some e \<Rightarrow> e)"
  have it: "unspent (Some (ce_coin it)) = None" if "\<not> overwrite"
    using that assms(3) by (auto simp: it_def utxo_def split: option.splits)
  then have spent: "\<not> overwrite \<Longrightarrow> IsSpent (ce_coin it)" by (auto simp: unspent_def split: if_splits)
  define fresh where "fresh = (\<not> overwrite \<and> \<not> is_dirty it)"
  let ?e = "\<lparr>ce_coin = coin, ce_flags = ce_flags it OR (DIRTY OR (if fresh then FRESH else 0))\<rparr>"
  have "unspent (cv_base c k) = None" if "is_fresh ?e"
  proof (cases "map_of (cacheCoins c) k")
    case None
    then have "\<not> overwrite" using that by (auto simp: it_def fresh_def split: if_splits)
    then show ?thesis using None assms(3) by (auto simp: utxo_def)
  next
    case (Some e)
    then have "it = e" by (simp add: it_def)
    moreover have "entry_ok (cv_base c k) e" using cache_invD [OF inv Some] .
    ultimately show ?thesis using that it spent by (auto simp: entry_ok_def fresh_def split: if_splits)
  qed
  then have "entry_ok (cv_base c k) ?e" by (simp add: entry_ok_def)
  note u = cache_update [OF inv this]
  have "AddCoin c k coin overwrite = Inr (c\<lparr>cacheCoins := AList.update k ?e (cacheCoins c)\<rparr>)"
    using False assms(2) spent unfolding AddCoin_def it_def [symmetric] Let_def fresh_def [symmetric] by auto
  then show thesis using that u False assms(2) by simp
qed

lemma SpendCoin_spec:
  assumes inv: "cache_inv c" and run: "SpendCoin c k = (spent, coin, c')"
  shows "cache_inv c'" "cv_base c' = cv_base c" "utxo c' = (utxo c)(k := None)"
    "utxo c k = Some v \<Longrightarrow> spent \<and> coin = v" "unspent (Some coin) = utxo c k"
proof -
  obtain r c1 where f: "FetchCoin c k = (r, c1)" by fastforce
  note s = FetchCoin_spec [OF inv f]
  then have c1: "cache_inv c1" "utxo c1 = utxo c" "cv_base c1 = cv_base c" and r: "map_of (cacheCoins c1) k = r"
    and u: "unspent (map_option ce_coin r) = utxo c k" by simp_all
  have "cache_inv c' \<and> cv_base c' = cv_base c \<and> utxo c' = (utxo c)(k := None) \<and> unspent (Some coin) = utxo c k \<and>
    (utxo c k = Some v \<longrightarrow> spent \<and> coin = v)"
  proof (cases r)
    case None
    then have "spent = False" "coin = coinEmpty" "c' = c1" "utxo c k = None" using run f u by (simp_all add: SpendCoin_def)
    then show ?thesis using c1 by (auto simp: fun_eq_iff)
  next
    case (Some e)
    then have ok: "entry_ok (cv_base c1 k) e" and uk: "utxo c k = unspent (Some (ce_coin e))"
      using cache_invD [OF c1(1)] r u by simp_all
    have "fst (SpendCoin c k)" "fst (snd (SpendCoin c k)) = ce_coin e" using f Some by (simp_all add: SpendCoin_def)
    then have "coin = ce_coin e" "spent" using run by simp_all
    moreover have "utxo c k = Some v \<longrightarrow> ce_coin e = v" using uk by auto
    ultimately have v: "coin = ce_coin e" "spent" "utxo c k = Some v \<longrightarrow> ce_coin e = v" by simp_all
    show ?thesis
    proof (cases "is_fresh e")
      case True
      then have "c' = c1\<lparr>cacheCoins := AList.delete k (cacheCoins c1)\<rparr>" using run f Some by (simp add: SpendCoin_def)
      moreover have nb: "unspent (cv_base c1 k) = None" using ok True by (simp add: entry_ok_def)
      have "utxo (c1\<lparr>cacheCoins := AList.delete k (cacheCoins c1)\<rparr>) = (utxo c)(k := None)"
        by (simp only: cache_delete(2) [OF c1(1)] nb c1(2))
      ultimately show ?thesis using v uk c1(3) cache_delete(1) [OF c1(1), of k] by (metis CCoinsViewCache.select_convs(1) CCoinsViewCache.surjective CCoinsViewCache.update_convs(4))
    next
      case False
      let ?e = "\<lparr>ce_coin = coinEmpty, ce_flags = ce_flags e OR DIRTY\<rparr>"
      have "entry_ok (cv_base c1 k) ?e" using False by (simp add: entry_ok_def)
      moreover have "c' = c1\<lparr>cacheCoins := AList.update k ?e (cacheCoins c1)\<rparr>" using run f Some False by (simp add: SpendCoin_def)
      moreover have "utxo (c1\<lparr>cacheCoins := AList.update k ?e (cacheCoins c1)\<rparr>) = (utxo c)(k := None)"
        using cache_update(2) [OF c1(1) calculation(1)] by (simp only: c1(2) CCoinsCacheEntry.simps unspent_simps IsSpent_coinEmpty)
      ultimately show ?thesis using v uk c1(3) cache_update(1) [OF c1(1), of k ?e] by (metis CCoinsViewCache.select_convs(1) CCoinsViewCache.surjective CCoinsViewCache.update_convs(4))
    qed
  qed
  then show "cache_inv c'" "cv_base c' = cv_base c" "utxo c' = (utxo c)(k := None)"
    "utxo c k = Some v \<Longrightarrow> spent \<and> coin = v" "unspent (Some coin) = utxo c k" by auto
qed

lemma Uncache_spec: "cache_inv c \<Longrightarrow> same_view c (Uncache c k)"
proof -
  assume inv: "cache_inv c"
  have "utxo c k = unspent (cv_base c k)" if "map_of (cacheCoins c) k = Some e" "ce_flags e = 0" for e
    using cache_invD [OF inv that(1)] that by (simp add: entry_ok_def is_dirty_def utxo_def)
  then show ?thesis using inv cache_delete [OF inv, of k]
    by (auto simp: Uncache_def same_view_def fun_eq_iff split: option.splits)
qed

section \<open>Flushing\<close>

text \<open>Writing the child's entries to the parent makes the parent stand for the child's set.\<close>

lemma BatchWrite_entry_spec:
  assumes inv: "cache_inv p" and ok: "entry_ok (utxo p k) e"
  obtains us where "BatchWrite_entry k e (cacheCoins p) = Inr us" "cache_inv (p\<lparr>cacheCoins := us\<rparr>)"
    "utxo (p\<lparr>cacheCoins := us\<rparr>) = (utxo p)(k := unspent (Some (ce_coin e)))"
proof (cases "is_dirty e")
  case False
  then have "utxo p = (utxo p)(k := unspent (Some (ce_coin e)))"
    using ok by (simp add: entry_ok_def fun_upd_idem)
  then show thesis using that [of "cacheCoins p"] False inv by (simp add: BatchWrite_entry_def)
next
  case dirty: True
  show thesis
  proof (cases "map_of (cacheCoins p) k")
    case None
    then have u: "utxo p k = unspent (cv_base p k)" by (simp add: utxo_def)
    show thesis
    proof (cases "is_fresh e \<and> IsSpent (ce_coin e)")
      case True
      then have "utxo p = (utxo p)(k := unspent (Some (ce_coin e)))" using ok by (simp add: entry_ok_def fun_upd_idem)
      then show thesis using that [of "cacheCoins p"] True None dirty inv by (simp add: BatchWrite_entry_def)
    next
      case False
      let ?e = "\<lparr>ce_coin = ce_coin e, ce_flags = (if is_fresh e then DIRTY OR FRESH else DIRTY)\<rparr>"
      have "entry_ok (cv_base p k) ?e" using ok u by (simp add: entry_ok_def)
      note up = cache_update [OF inv this]
      have "BatchWrite_entry k e (cacheCoins p) = Inr (AList.update k ?e (cacheCoins p))"
        using False None dirty by (simp only: BatchWrite_entry_def option.case if_False if_True simp_thms)
      then show thesis using up by (intro that) simp_all
    qed
  next
    case (Some itUs)
    have okp: "entry_ok (cv_base p k) itUs" using cache_invD [OF inv Some] .
    have nf: "\<not> (is_fresh e \<and> \<not> IsSpent (ce_coin itUs))"
      using ok Some by (auto simp: entry_ok_def utxo_def)
    show thesis
    proof (cases "is_fresh itUs \<and> IsSpent (ce_coin e)")
      case True
      then show thesis using that [OF _ cache_delete(1) [OF inv]] cache_delete(2) [OF inv, of k] nf Some dirty okp
        by (simp add: BatchWrite_entry_def entry_ok_def)
    next
      case False
      have "entry_ok (cv_base p k) \<lparr>ce_coin = ce_coin e, ce_flags = ce_flags itUs OR DIRTY\<rparr>"
        using okp by (simp add: entry_ok_def)
      note up = cache_update [OF inv this]
      have "BatchWrite_entry k e (cacheCoins p) =
        Inr (AList.update k \<lparr>ce_coin = ce_coin e, ce_flags = ce_flags itUs OR DIRTY\<rparr> (cacheCoins p))"
        using False nf Some dirty by (auto simp: BatchWrite_entry_def)
      then show thesis using up by (intro that) simp_all
    qed
  qed
qed

lemma BatchWrite_loop_spec:
  assumes "cache_inv p" "distinct (map fst m)" "\<And>k e. map_of m k = Some e \<Longrightarrow> entry_ok (utxo p k) e"
  shows "\<exists>us. BatchWrite_loop m (cacheCoins p) = Inr us \<and> cache_inv (p\<lparr>cacheCoins := us\<rparr>) \<and>
    utxo (p\<lparr>cacheCoins := us\<rparr>) = (\<lambda>k. case map_of m k of Some e \<Rightarrow> unspent (Some (ce_coin e)) | None \<Rightarrow> utxo p k)"
  using assms
proof (induction m arbitrary: p)
  case (Cons a m)
  obtain k e where a: "a = (k, e)" by fastforce
  obtain us where us: "BatchWrite_entry k e (cacheCoins p) = Inr us" "cache_inv (p\<lparr>cacheCoins := us\<rparr>)"
    "utxo (p\<lparr>cacheCoins := us\<rparr>) = (utxo p)(k := unspent (Some (ce_coin e)))"
    using BatchWrite_entry_spec [OF Cons.prems(1), of k e] Cons.prems(3) [of k e] a by auto
  have "map_of m k = None" using Cons.prems(2) a by (simp add: map_of_eq_None_iff)
  then have "entry_ok (utxo (p\<lparr>cacheCoins := us\<rparr>) j) f" if "map_of m j = Some f" for j f
    using Cons.prems(3) [of j f] a that us(3) by auto
  then obtain us' where "BatchWrite_loop m us = Inr us'" "cache_inv (p\<lparr>cacheCoins := us'\<rparr>)"
    "utxo (p\<lparr>cacheCoins := us'\<rparr>) =
      (\<lambda>j. case map_of m j of Some f \<Rightarrow> unspent (Some (ce_coin f)) | None \<Rightarrow> utxo (p\<lparr>cacheCoins := us\<rparr>) j)"
    using Cons.IH [OF us(2)] Cons.prems(2) by auto
  then show ?case using a us \<open>map_of m k = None\<close> by (auto simp: fun_eq_iff split: option.splits)
qed auto

lemma Flush_spec:
  assumes "cache_inv p" "cache_inv c" "cv_base c = utxo p"
  obtains p' c' where "Flush p c = Inr (p', c')" "cache_inv p'" "utxo p' = utxo c" "cv_base p' = cv_base p"
    "cv_hashBlock p' = cv_hashBlock c" "cacheCoins c' = []"
proof -
  have "\<And>k e. map_of (cacheCoins c) k = Some e \<Longrightarrow> entry_ok (utxo p k) e"
    using assms(2,3) by (auto simp: cache_inv_def)
  then obtain us where us: "BatchWrite_loop (cacheCoins c) (cacheCoins p) = Inr us" "cache_inv (p\<lparr>cacheCoins := us\<rparr>)"
    "utxo (p\<lparr>cacheCoins := us\<rparr>) = (\<lambda>k. case map_of (cacheCoins c) k of Some e \<Rightarrow> unspent (Some (ce_coin e)) | None \<Rightarrow> utxo p k)"
    using BatchWrite_loop_spec [OF assms(1), of "cacheCoins c"] assms(2) by (auto simp: cache_inv_def)
  let ?p = "p\<lparr>cacheCoins := us, cv_hashBlock := cv_hashBlock c\<rparr>"
  have "utxo ?p = utxo (p\<lparr>cacheCoins := us\<rparr>)" by (simp add: utxo_def fun_eq_iff split: option.split)
  also have "\<dots> = utxo c" unfolding us(3) using assms(3) by (auto simp: utxo_def [of c] fun_eq_iff split: option.splits)
  finally have "utxo ?p = utxo c" .
  moreover have "cache_inv ?p" using us(2) by (simp add: cache_inv_def)
  ultimately show thesis using that [of ?p "c\<lparr>cacheCoins := []\<rparr>"] us(1) by (simp add: Flush_def BatchWrite_def)
qed

end
