(* ===== verification/Arith_Uint256.thy ===== *)
theory Arith_Uint256
  imports Prelude
begin

text \<open>
  The fixed-width unsigned integers of \<open>arith_uint256.h\<close> and \<open>arith_uint256.cpp\<close>: an array
  \<open>pn\<close> of 32-bit limbs, least significant first.  \<open>base_uint<BITS>\<close> is the list of its limbs, its
  \<open>WIDTH\<close> the length of the list (8 for \<open>arith_uint256\<close>).  Every loop over the limbs is a
  recursion over the lists.  The lemmas show that each operation computes the arithmetic operation
  on natural numbers modulo \<open>2 ^ (32 * WIDTH)\<close>, which the word-level loops implement.
\<close>

type_synonym limbs = "u32 list"

definition WIDTH :: nat where
  "WIDTH = 8"

section \<open>The operations\<close>

definition bu_zero :: "nat \<Rightarrow> limbs" where
  "bu_zero w = replicate w 0"

definition bu_of_u64 :: "nat \<Rightarrow> u64 \<Rightarrow> limbs" where
  "bu_of_u64 w b = ucast b # ucast (drop_bit 32 b) # replicate (w - 2) 0"

fun bu_is_zero :: "limbs \<Rightarrow> bool" where
  "bu_is_zero [] = True"
| "bu_is_zero (p # pn) = (if p \<noteq> 0 then False else bu_is_zero pn)"

definition bu_not :: "limbs \<Rightarrow> limbs" where
  "bu_not pn = map (\<lambda>p. NOT p) pn"

definition bu_xor :: "limbs \<Rightarrow> limbs \<Rightarrow> limbs" where
  "bu_xor a b = map2 (\<lambda>x y. x XOR y) a b"

definition bu_and :: "limbs \<Rightarrow> limbs \<Rightarrow> limbs" where
  "bu_and a b = map2 (\<lambda>x y. x AND y) a b"

definition bu_or :: "limbs \<Rightarrow> limbs \<Rightarrow> limbs" where
  "bu_or a b = map2 (\<lambda>x y. x OR y) a b"

fun bu_inc :: "limbs \<Rightarrow> limbs" where
  "bu_inc [] = []"
| "bu_inc (p # pn) = (if p + 1 = 0 then (p + 1) # bu_inc pn else (p + 1) # pn)"

fun bu_dec :: "limbs \<Rightarrow> limbs" where
  "bu_dec [] = []"
| "bu_dec (p # pn) = (if p - 1 = - 1 then (p - 1) # bu_dec pn else (p - 1) # pn)"

definition bu_neg :: "limbs \<Rightarrow> limbs" where
  "bu_neg pn = bu_inc (bu_not pn)"

fun bu_add_loop :: "u64 \<Rightarrow> limbs \<Rightarrow> limbs \<Rightarrow> limbs" where
  "bu_add_loop carry (p # pn) (b # bs) =
     (let n = carry + ucast p + ucast b
      in ucast (n AND 0xffffffff) # bu_add_loop (drop_bit 32 n) pn bs)"
| "bu_add_loop carry _ _ = []"

definition bu_add :: "limbs \<Rightarrow> limbs \<Rightarrow> limbs" where
  "bu_add a b = bu_add_loop 0 a b"

definition bu_sub :: "limbs \<Rightarrow> limbs \<Rightarrow> limbs" where
  "bu_sub a b = bu_add a (bu_neg b)"

definition bu_add64 :: "limbs \<Rightarrow> u64 \<Rightarrow> limbs" where
  "bu_add64 a b = bu_add a (bu_of_u64 (length a) b)"

definition bu_sub64 :: "limbs \<Rightarrow> u64 \<Rightarrow> limbs" where
  "bu_sub64 a b = bu_add a (bu_neg (bu_of_u64 (length a) b))"

text \<open>\<open>operator*=(uint32_t)\<close>\<close>

fun bu_mul32_loop :: "u64 \<Rightarrow> u32 \<Rightarrow> limbs \<Rightarrow> limbs" where
  "bu_mul32_loop carry b32 [] = []"
| "bu_mul32_loop carry b32 (p # pn) =
     (let n = carry + ucast b32 * ucast p
      in ucast (n AND 0xffffffff) # bu_mul32_loop (drop_bit 32 n) b32 pn)"

definition bu_mul32 :: "limbs \<Rightarrow> u32 \<Rightarrow> limbs" where
  "bu_mul32 a b32 = bu_mul32_loop 0 b32 a"

text \<open>
  \<open>operator*=(const base_uint&)\<close>: the inner loop over \<open>i\<close> adds \<open>a.pn[j] * b\<close> into the limbs from
  \<open>j\<close> on (\<open>i + j < WIDTH\<close>, so it stops when these are used up); the outer loop never touches the
  limbs below \<open>j\<close> again.
\<close>

fun bu_mul_row :: "u64 \<Rightarrow> u32 \<Rightarrow> limbs \<Rightarrow> limbs \<Rightarrow> limbs" where
  "bu_mul_row carry aj (p # pn) (b # bs) =
     (let n = carry + ucast p + ucast aj * ucast b
      in ucast (n AND 0xffffffff) # bu_mul_row (drop_bit 32 n) aj pn bs)"
| "bu_mul_row carry aj pn bs = []"

fun bu_mul_loop :: "limbs \<Rightarrow> limbs \<Rightarrow> limbs \<Rightarrow> limbs" where
  "bu_mul_loop (aj # as) bs pn =
     (case bu_mul_row 0 aj pn bs of
        [] \<Rightarrow> []
      | p # ps \<Rightarrow> p # bu_mul_loop as bs ps)"
| "bu_mul_loop [] bs pn = pn"

definition bu_mul :: "limbs \<Rightarrow> limbs \<Rightarrow> limbs" where
  "bu_mul a b = bu_mul_loop a b (bu_zero (length a))"

text \<open>\<open>CompareTo\<close>: from the top limb down.\<close>

fun bu_cmp_rev :: "limbs \<Rightarrow> limbs \<Rightarrow> int" where
  "bu_cmp_rev (p # pn) (b # bs) =
     (if p < b then - 1 else if p > b then 1 else bu_cmp_rev pn bs)"
| "bu_cmp_rev _ _ = 0"

definition CompareTo :: "limbs \<Rightarrow> limbs \<Rightarrow> int" where
  "CompareTo a b = bu_cmp_rev (rev a) (rev b)"

definition EqualTo :: "limbs \<Rightarrow> u64 \<Rightarrow> bool" where
  "EqualTo pn b =
     (if \<exists>p \<in> set (drop 2 pn). p \<noteq> 0 then False
      else if ucast (pn ! 1) \<noteq> drop_bit 32 b then False
      else if ucast (pn ! 0) \<noteq> b AND 0xffffffff then False
      else True)"

definition GetLow64 :: "limbs \<Rightarrow> u64" where
  "GetLow64 pn = ucast (pn ! 0) OR push_bit 32 (ucast (pn ! 1))"

text \<open>\<open>bits\<close>: the position of the highest set bit plus one.\<close>

fun limb_top :: "nat \<Rightarrow> u32 \<Rightarrow> nat" where
  "limb_top 0 p = 1"
| "limb_top (Suc nb) p = (if p AND push_bit (Suc nb) 1 \<noteq> 0 then Suc nb + 1 else limb_top nb p)"

fun bu_bits_rev :: "limbs \<Rightarrow> nat" where
  "bu_bits_rev [] = 0"
| "bu_bits_rev (p # pn) =
     (if p \<noteq> 0 then 32 * length pn + limb_top 31 p else bu_bits_rev pn)"

definition bu_bits :: "limbs \<Rightarrow> nat" where
  "bu_bits pn = bu_bits_rev (rev pn)"

text \<open>\<open>operator<<=\<close> and \<open>operator>>=\<close>: the loop over \<open>i\<close> ORs two parts of limb \<open>i\<close> into the result.\<close>

fun bu_shl_loop :: "limbs \<Rightarrow> nat \<Rightarrow> nat \<Rightarrow> nat \<Rightarrow> limbs \<Rightarrow> limbs" where
  "bu_shl_loop a k s 0 pn = pn"
| "bu_shl_loop a k s (Suc m) pn =
     (let i = length a - Suc m;
          pn1 = (if i + k + 1 < length a \<and> s \<noteq> 0
                 then pn[i + k + 1 := (pn ! (i + k + 1)) OR drop_bit (32 - s) (a ! i)] else pn);
          pn2 = (if i + k < length a then pn1[i + k := (pn1 ! (i + k)) OR push_bit s (a ! i)] else pn1)
      in bu_shl_loop a k s m pn2)"

definition bu_shl :: "limbs \<Rightarrow> nat \<Rightarrow> limbs" where
  "bu_shl a shift = bu_shl_loop a (shift div 32) (shift mod 32) (length a) (bu_zero (length a))"

fun bu_shr_loop :: "limbs \<Rightarrow> nat \<Rightarrow> nat \<Rightarrow> nat \<Rightarrow> limbs \<Rightarrow> limbs" where
  "bu_shr_loop a k s 0 pn = pn"
| "bu_shr_loop a k s (Suc m) pn =
     (let i = length a - Suc m;
          pn1 = (if i \<ge> k + 1 \<and> s \<noteq> 0
                 then pn[i - k - 1 := (pn ! (i - k - 1)) OR push_bit (32 - s) (a ! i)] else pn);
          pn2 = (if i \<ge> k then pn1[i - k := (pn1 ! (i - k)) OR drop_bit s (a ! i)] else pn1)
      in bu_shr_loop a k s m pn2)"

definition bu_shr :: "limbs \<Rightarrow> nat \<Rightarrow> limbs" where
  "bu_shr a shift = bu_shr_loop a (shift div 32) (shift mod 32) (length a) (bu_zero (length a))"

text \<open>\<open>operator/=\<close>: shift-and-subtract; the loop runs \<open>shift + 1\<close> times.  Division by zero throws.\<close>

datatype uint_error = DivisionByZero

fun bu_div_loop :: "nat \<Rightarrow> limbs \<Rightarrow> limbs \<Rightarrow> limbs \<Rightarrow> limbs" where
  "bu_div_loop 0 num dv pn = pn"
| "bu_div_loop (Suc shift) num dv pn =
     (let ge = (CompareTo num dv \<ge> 0);
          num' = (if ge then bu_sub num dv else num);
          pn' = (if ge then pn[shift div 32 := (pn ! (shift div 32)) OR push_bit (shift mod 32) 1]
                 else pn)
      in bu_div_loop shift num' (bu_shr dv 1) pn')"

definition bu_div :: "limbs \<Rightarrow> limbs \<Rightarrow> uint_error + limbs" where
  "bu_div a b =
     (let num_bits = bu_bits a; div_bits = bu_bits b
      in if div_bits = 0 then Inl DivisionByZero
         else if div_bits > num_bits then Inr (bu_zero (length a))
         else let shift = num_bits - div_bits
              in Inr (bu_div_loop (Suc shift) a (bu_shl b shift) (bu_zero (length a))))"

section \<open>The number a limb array stands for\<close>

fun bu_val :: "limbs \<Rightarrow> nat" where
  "bu_val [] = 0"
| "bu_val (p # pn) = unat p + 2 ^ 32 * bu_val pn"

abbreviation bu_mod :: "limbs \<Rightarrow> nat" where
  "bu_mod a \<equiv> 2 ^ (32 * length a)"

lemma bu_val_bound: "bu_val pn < bu_mod pn"
proof (induction pn)
  case (Cons p pn)
  have "unat p + 2 ^ 32 * bu_val pn < 2 ^ 32 + 2 ^ 32 * bu_val pn"
    using unat_bound_u32 [of p] by linarith
  also have "\<dots> = 2 ^ 32 * (bu_val pn + 1)" by simp
  also have "\<dots> \<le> 2 ^ 32 * bu_mod pn" using Cons by (intro mult_le_mono2) simp
  finally show ?case by (simp add: power_add)
qed simp

lemma bu_val_append: "bu_val (a @ b) = bu_val a + bu_mod a * bu_val b"
  by (induction a) (simp_all add: power_add algebra_simps)

lemma bu_val_inj: "length a = length b \<Longrightarrow> bu_val a = bu_val b \<Longrightarrow> a = b"
proof (induction a b rule: list_induct2)
  case (Cons x xs y ys)
  have "unat x = unat y"
    using arg_cong [OF Cons.prems, of "\<lambda>v. v mod 2 ^ 32"] unat_bound_u32 [of x] unat_bound_u32 [of y]
    by simp
  then show ?case using Cons by (simp add: word_unat_eq_iff)
qed simp

lemma bu_val_zero [value_simps]: "bu_val (bu_zero w) = 0"
  by (induction w) (simp_all add: bu_zero_def)

lemma length_bu_zero [length_simps]: "length (bu_zero w) = w"
  by (simp add: bu_zero_def)

lemma bu_val_of_u64 [value_simps]: "bu_val (bu_of_u64 w b) = unat b"
proof -
  have "bu_val (replicate (w - 2) 0) = 0" using bu_val_zero [of "w - 2"] by (simp add: bu_zero_def)
  moreover have "unat b div 2 ^ 32 < 2 ^ 32" using unat_bound_u64 [of b] by (simp add: less_mult_imp_div_less)
  ultimately show ?thesis
    by (simp add: bu_of_u64_def unat_ucast unat_drop_bit)
qed

lemma length_bu_of_u64 [length_simps]: "2 \<le> w \<Longrightarrow> length (bu_of_u64 w b) = w"
  by (simp add: bu_of_u64_def)

lemma bu_is_zero_val [value_simps]: "bu_is_zero pn \<longleftrightarrow> bu_val pn = 0"
  by (induction pn) (auto simp: unat_eq_0)

lemma length_bu_not [length_simps]: "length (bu_not pn) = length pn"
  by (simp add: bu_not_def)

lemma bu_val_not: "bu_val (bu_not pn) + bu_val pn + 1 = bu_mod pn"
proof (induction pn)
  case (Cons p pn)
  have "unat (NOT p) + unat p + 1 = 2 ^ 32"
    using unat_not [of p] unat_bound_u32 [of p] by simp
  moreover have "bu_val (bu_not (p # pn)) + bu_val (p # pn) + 1
      = (unat (NOT p) + unat p + 1) + 2 ^ 32 * (bu_val (bu_not pn) + bu_val pn)"
    by (simp add: bu_not_def algebra_simps)
  ultimately have "bu_val (bu_not (p # pn)) + bu_val (p # pn) + 1
      = 2 ^ 32 * (bu_val (bu_not pn) + bu_val pn + 1)" by simp
  then show ?case using Cons by (simp add: power_add)
qed (simp add: bu_not_def)

lemma length_bu_inc [length_simps]: "length (bu_inc pn) = length pn"
  by (induction pn) auto

lemma bu_val_inc [value_simps]: "bu_val (bu_inc pn) = (bu_val pn + 1) mod bu_mod pn"
proof (induction pn)
  case (Cons p pn)
  show ?case
  proof (cases "p + 1 = 0")
    case True
    then have "unat p = 2 ^ 32 - 1"
      by (metis add_eq_0_iff2 unat_u32_max)
    then show ?thesis using True Cons
      by (simp add: power_add mult_mod_right)
  next
    case False
    then have "unat (p + 1) = unat p + 1" by (metis unatSuc add.commute Suc_eq_plus1)
    moreover have "unat p + 1 + 2 ^ 32 * bu_val pn < bu_mod (p # pn)"
      using bu_val_bound [of "(p + 1) # pn"] calculation by simp
    ultimately show ?thesis using False by (simp add: algebra_simps)
  qed
qed simp

lemma length_bu_neg [length_simps]: "length (bu_neg pn) = length pn"
  by (simp add: bu_neg_def length_simps)

lemma bu_val_neg [value_simps]: "bu_val (bu_neg pn) = (bu_mod pn - bu_val pn) mod bu_mod pn"
proof -
  have "bu_val (bu_not pn) + 1 = bu_mod pn - bu_val pn" using bu_val_not [of pn] by linarith
  then show ?thesis by (simp only: bu_neg_def value_simps length_simps)
qed

section \<open>Addition and subtraction\<close>

lemma length_bu_add_loop: "length pn = length b \<Longrightarrow> length (bu_add_loop c pn b) = length pn"
  by (induction c pn b rule: bu_add_loop.induct) (auto simp: Let_def)

lemma bu_val_add_loop:
  "length pn = length b \<Longrightarrow> unat c < 2 ^ 32 \<Longrightarrow>
   bu_val (bu_add_loop c pn b) = (unat c + bu_val pn + bu_val b) mod bu_mod pn"
proof (induction pn b arbitrary: c rule: list_induct2)
  case (Cons p pn b bs)
  define n where "n = c + ucast p + (ucast b :: u64)"
  have n: "unat n = unat c + unat p + unat b"
    using Cons.prems unat_bound_u32 [of p] unat_bound_u32 [of b]
    by (simp add: n_def unat_plus_no_overflow value_simps)
  have "unat n div 2 ^ 32 < 2 ^ 32"
    using n Cons.prems unat_bound_u32 [of p] unat_bound_u32 [of b] by simp
  then have IH: "bu_val (bu_add_loop (drop_bit 32 n) pn bs)
      = (unat n div 2 ^ 32 + (bu_val pn + bu_val bs)) mod bu_mod pn"
    using Cons.IH [of "drop_bit 32 n"] by (simp only: unat_drop_bit add.assoc)
  have "bu_val (bu_add_loop c (p # pn) (b # bs))
      = unat n mod 2 ^ 32 + 2 ^ 32 * bu_val (bu_add_loop (drop_bit 32 n) pn bs)"
    by (simp only: bu_add_loop.simps Let_def n_def [symmetric] bu_val.simps unat_low32)
  also have "\<dots> = (unat n + 2 ^ 32 * (bu_val pn + bu_val bs)) mod (2 ^ 32 * bu_mod pn)"
    unfolding IH by (rule mod_limb_step)
  finally show ?case by (simp add: n power_add algebra_simps)
qed simp

lemma length_bu_add [length_simps]: "length a = length b \<Longrightarrow> length (bu_add a b) = length a"
  by (simp add: bu_add_def length_bu_add_loop)

lemma bu_val_add [value_simps]:
  "length a = length b \<Longrightarrow> bu_val (bu_add a b) = (bu_val a + bu_val b) mod bu_mod a"
  by (simp add: bu_add_def bu_val_add_loop)

lemma length_bu_sub [length_simps]: "length a = length b \<Longrightarrow> length (bu_sub a b) = length a"
  by (simp add: bu_sub_def length_simps)

lemma bu_val_sub [value_simps]:
  "length a = length b \<Longrightarrow> bu_val (bu_sub a b) = (bu_val a + (bu_mod a - bu_val b)) mod bu_mod a"
  by (simp add: bu_sub_def value_simps length_simps mod_simps)

lemma bu_val_sub_le:
  assumes "length a = length b" "bu_val b \<le> bu_val a"
  shows "bu_val (bu_sub a b) = bu_val a - bu_val b"
proof -
  have "bu_val a + (bu_mod a - bu_val b) = (bu_val a - bu_val b) + bu_mod a"
    using assms bu_val_bound [of b] by simp
  then have "bu_val (bu_sub a b) = ((bu_val a - bu_val b) + bu_mod a) mod bu_mod a"
    by (simp only: bu_val_sub [OF assms(1)])
  then show ?thesis using bu_val_bound [of a] by simp
qed

section \<open>Multiplication\<close>

lemma mult_u32_bound: "unat (x :: u32) * unat (y :: u32) \<le> (2 ^ 32 - 1) * (2 ^ 32 - 1)"
  using unat_bound_u32 [of x] unat_bound_u32 [of y] by (intro mult_le_mono) auto

lemma unat_mult_u32: "unat (ucast (x :: u32) * ucast (y :: u32) :: u64) = unat x * unat y"
  using mult_u32_bound [of x y] by (simp add: unat_mult_no_overflow value_simps)

lemma length_bu_mul32_loop: "length (bu_mul32_loop c b pn) = length pn"
  by (induction c b pn rule: bu_mul32_loop.induct) (auto simp: Let_def)

lemma bu_val_mul32_loop:
  "unat c < 2 ^ 32 \<Longrightarrow>
   bu_val (bu_mul32_loop c b pn) = (unat c + unat b * bu_val pn) mod bu_mod pn"
proof (induction pn arbitrary: c)
  case (Cons p pn)
  define n where "n = c + ucast b * (ucast p :: u64)"
  have n: "unat n = unat c + unat b * unat p"
    using Cons.prems mult_u32_bound [of b p]
    by (simp add: n_def unat_plus_no_overflow unat_mult_u32)
  have "unat n div 2 ^ 32 < 2 ^ 32"
    using unat_bound_u64 [of n] by (simp add: less_mult_imp_div_less)
  then have IH: "bu_val (bu_mul32_loop (drop_bit 32 n) b pn)
      = (unat n div 2 ^ 32 + unat b * bu_val pn) mod bu_mod pn"
    using Cons.IH [of "drop_bit 32 n"] by (simp only: unat_drop_bit)
  have "bu_val (bu_mul32_loop c b (p # pn))
      = unat n mod 2 ^ 32 + 2 ^ 32 * bu_val (bu_mul32_loop (drop_bit 32 n) b pn)"
    by (simp only: bu_mul32_loop.simps Let_def n_def [symmetric] bu_val.simps unat_low32)
  also have "\<dots> = (unat n + 2 ^ 32 * (unat b * bu_val pn)) mod (2 ^ 32 * bu_mod pn)"
    unfolding IH by (rule mod_limb_step)
  finally show ?case by (simp add: n power_add algebra_simps)
qed simp

lemma length_bu_mul32 [length_simps]: "length (bu_mul32 a b) = length a"
  by (simp add: bu_mul32_def length_bu_mul32_loop)

lemma bu_val_mul32 [value_simps]: "bu_val (bu_mul32 a b) = (unat b * bu_val a) mod bu_mod a"
  by (simp add: bu_mul32_def bu_val_mul32_loop)

lemma length_bu_mul_row: "length pn \<le> length bs \<Longrightarrow> length (bu_mul_row c aj pn bs) = length pn"
  by (induction c aj pn bs rule: bu_mul_row.induct) (auto simp: Let_def)

lemma bu_val_mul_row:
  "length pn \<le> length bs \<Longrightarrow> unat c < 2 ^ 32 \<Longrightarrow>
   bu_val (bu_mul_row c aj pn bs) = (unat c + bu_val pn + unat aj * bu_val bs) mod bu_mod pn"
proof (induction pn arbitrary: c bs)
  case (Cons p pn)
  then obtain b bs' where bs: "bs = b # bs'" by (cases bs) auto
  define n where "n = c + ucast p + ucast aj * (ucast b :: u64)"
  have n: "unat n = unat c + unat p + unat aj * unat b"
    using Cons.prems mult_u32_bound [of aj b] unat_bound_u32 [of p]
    by (simp add: n_def unat_plus_no_overflow unat_mult_u32 value_simps)
  have "unat n div 2 ^ 32 < 2 ^ 32"
    using unat_bound_u64 [of n] by (simp add: less_mult_imp_div_less)
  then have IH: "bu_val (bu_mul_row (drop_bit 32 n) aj pn bs')
      = (unat n div 2 ^ 32 + (bu_val pn + unat aj * bu_val bs')) mod bu_mod pn"
    using Cons.IH [of bs' "drop_bit 32 n"] Cons.prems bs by (simp only: unat_drop_bit add.assoc) simp
  have "bu_val (bu_mul_row c aj (p # pn) bs)
      = unat n mod 2 ^ 32 + 2 ^ 32 * bu_val (bu_mul_row (drop_bit 32 n) aj pn bs')"
    by (simp only: bs bu_mul_row.simps Let_def n_def [symmetric] bu_val.simps unat_low32)
  also have "\<dots> = (unat n + 2 ^ 32 * (bu_val pn + unat aj * bu_val bs')) mod (2 ^ 32 * bu_mod pn)"
    unfolding IH by (rule mod_limb_step)
  finally show ?case by (simp add: n bs power_add algebra_simps)
qed simp

lemma bu_val_mul_loop:
  "length as = length pn \<Longrightarrow> length pn \<le> length bs \<Longrightarrow>
   length (bu_mul_loop as bs pn) = length pn \<and>
   bu_val (bu_mul_loop as bs pn) = (bu_val pn + bu_val as * bu_val bs) mod bu_mod pn"
proof (induction as arbitrary: pn)
  case (Cons aj as)
  have len: "length (bu_mul_row 0 aj pn bs) = length pn" using Cons.prems by (simp add: length_bu_mul_row)
  then obtain p ps where row: "bu_mul_row 0 aj pn bs = p # ps" using Cons.prems by (cases "bu_mul_row 0 aj pn bs") auto
  with len Cons.prems have lps: "length ps = length as" by simp
  then have "length pn = Suc (length ps)" using Cons.prems by simp
  then have m: "bu_mod pn = 2 ^ 32 * bu_mod ps" by (simp add: power_add)
  have IH: "length (bu_mul_loop as bs ps) = length ps"
    "bu_val (bu_mul_loop as bs ps) = (bu_val ps + bu_val as * bu_val bs) mod bu_mod ps"
    using Cons.IH [of ps] lps Cons.prems by simp_all
  have v: "unat p + 2 ^ 32 * bu_val ps = (bu_val pn + unat aj * bu_val bs) mod bu_mod pn"
    using bu_val_mul_row [of pn bs 0 aj] Cons.prems row by simp
  have "bu_val (bu_mul_loop (aj # as) bs pn) = unat p + 2 ^ 32 * ((bu_val ps + bu_val as * bu_val bs) mod bu_mod ps)"
    by (simp add: row IH)
  also have "\<dots> = (unat p + 2 ^ 32 * (bu_val ps + bu_val as * bu_val bs)) mod bu_mod pn"
    unfolding m by (rule mod_limb_low) (rule unat_bound_u32)
  also have "\<dots> = ((bu_val pn + unat aj * bu_val bs) mod bu_mod pn + 2 ^ 32 * (bu_val as * bu_val bs)) mod bu_mod pn"
    by (simp only: v [symmetric]) (simp add: algebra_simps)
  also have "\<dots> = (bu_val pn + bu_val (aj # as) * bu_val bs) mod bu_mod pn"
    by (simp add: mod_simps algebra_simps)
  finally show ?case using lps IH Cons.prems row by simp
qed simp

lemma length_bu_mul [length_simps]: "length a = length b \<Longrightarrow> length (bu_mul a b) = length a"
  using bu_val_mul_loop [of a "bu_zero (length a)" b] by (simp add: bu_mul_def length_simps)

lemma bu_val_mul [value_simps]:
  "length a = length b \<Longrightarrow> bu_val (bu_mul a b) = (bu_val a * bu_val b) mod bu_mod a"
  using bu_val_mul_loop [of a "bu_zero (length a)" b] by (simp add: bu_mul_def length_simps value_simps)

section \<open>Comparison and the position of the top bit\<close>

lemma bu_cmp_rev_val:
  "length xs = length ys \<Longrightarrow> bu_cmp_rev xs ys =
   (if bu_val (rev xs) < bu_val (rev ys) then - 1 else if bu_val (rev xs) > bu_val (rev ys) then 1 else 0)"
proof (induction xs ys rule: list_induct2)
  case (Cons x xs y ys)
  let ?M = "bu_mod xs"
  have lx: "bu_val (rev xs) < ?M" and ly: "bu_val (rev ys) < ?M"
    using bu_val_bound [of "rev xs"] bu_val_bound [of "rev ys"] Cons.hyps by simp_all
  have lt: "u + ?M * a < v + ?M * b" if "u < ?M" "a < b" for u v a b :: nat
  proof -
    have "u + ?M * a < ?M * (a + 1)" using that by simp
    also have "\<dots> \<le> ?M * b" using that by (intro mult_le_mono2) simp
    finally show ?thesis by simp
  qed
  consider "unat x < unat y" | "unat x > unat y" | "x = y"
    using nat_neq_iff word_unat_eq_iff by blast
  then show ?case
  proof cases
    case 1
    then show ?thesis using lt [OF lx 1, of "bu_val (rev ys)"] Cons.hyps
      by (simp add: bu_val_append word_less_nat_alt)
  next
    case 2
    then show ?thesis using lt [OF ly 2, of "bu_val (rev xs)"] Cons.hyps
      by (simp add: bu_val_append word_less_nat_alt)
  next
    case 3
    then show ?thesis using Cons by (simp add: bu_val_append)
  qed
qed simp

lemma CompareTo_val [value_simps]:
  "length a = length b \<Longrightarrow> CompareTo a b =
   (if bu_val a < bu_val b then - 1 else if bu_val a > bu_val b then 1 else 0)"
  using bu_cmp_rev_val [of "rev a" "rev b"] by (simp add: CompareTo_def)

lemma limb_top_spec:
  "p \<noteq> 0 \<Longrightarrow> unat p < 2 ^ (nb + 1) \<Longrightarrow>
   1 \<le> limb_top nb p \<and> limb_top nb p \<le> nb + 1 \<and>
   2 ^ (limb_top nb p - 1) \<le> unat p \<and> unat p < 2 ^ limb_top nb p"
proof (induction nb)
  case 0
  then show ?case by (auto simp: unat_eq_0 [symmetric] Suc_le_eq)
next
  case (Suc nb)
  have bit: "p AND push_bit (Suc nb) 1 = 0 \<longleftrightarrow> unat p < 2 ^ Suc nb"
  proof -
    have "bit p (Suc nb) \<longleftrightarrow> odd (unat p div 2 ^ Suc nb)"
      using bit_unat [of p "Suc nb"] by (simp only: bit_iff_odd)
    moreover have "unat p div 2 ^ Suc nb < 2"
      using Suc.prems by (simp add: less_mult_imp_div_less)
    ultimately show ?thesis
      unfolding and_push_bit_1
      by (metis One_nat_def div_eq_0_iff even_zero less_2_cases odd_one power_not_zero zero_neq_numeral)
  qed
  show ?case
  proof (cases "p AND push_bit (Suc nb) 1 = 0")
    case True
    then show ?thesis using bit Suc by (auto simp del: push_bit_of_1)
  next
    case False
    then show ?thesis using bit Suc.prems by (simp del: push_bit_of_1)
  qed
qed

lemma bu_bits_rev_spec:
  "let v = bu_val (rev xs); n = bu_bits_rev xs in
   (v = 0 \<and> n = 0) \<or> (1 \<le> n \<and> n \<le> 32 * length xs \<and> 2 ^ (n - 1) \<le> v \<and> v < 2 ^ n)"
proof (induction xs)
  case (Cons p xs)
  show ?case
  proof (cases "p = 0")
    case True
    then show ?thesis using Cons by (auto simp: Let_def bu_val_append)
  next
    case False
    let ?t = "limb_top 31 p"
    let ?M = "2 ^ (32 * length xs) :: nat"
    have t: "1 \<le> ?t" "?t \<le> 32" "2 ^ (?t - 1) \<le> unat p" "unat p < 2 ^ ?t"
      using limb_top_spec [OF False, of 31] unat_bound_u32 [of p] by simp_all
    have low: "bu_val (rev xs) < ?M" using bu_val_bound [of "rev xs"] by simp
    have v: "bu_val (rev (p # xs)) = bu_val (rev xs) + ?M * unat p" by (simp add: bu_val_append)
    have n: "bu_bits_rev (p # xs) = 32 * length xs + ?t" using False by simp
    have "2 ^ (bu_bits_rev (p # xs) - 1) = ?M * 2 ^ (?t - 1)"
      using t(1) False by (simp add: power_add [symmetric] del: bu_bits_rev.simps, simp)
    also have "\<dots> \<le> ?M * unat p" using t by (intro mult_le_mono2)
    finally have lo: "2 ^ (bu_bits_rev (p # xs) - 1) \<le> bu_val (rev (p # xs))" using v by simp
    have "bu_val (rev (p # xs)) < ?M * (unat p + 1)" using low v by simp
    also have "\<dots> \<le> ?M * 2 ^ ?t" using t by (intro mult_le_mono2) simp
    finally have hi: "bu_val (rev (p # xs)) < 2 ^ bu_bits_rev (p # xs)" by (simp only: n power_add)
    show ?thesis using lo hi t n by (simp add: Let_def)
  qed
qed simp

lemma bu_bits_zero: "bu_bits pn = 0 \<longleftrightarrow> bu_val pn = 0"
  using bu_bits_rev_spec [of "rev pn"] by (auto simp: bu_bits_def Let_def)

lemma bu_bits_le: "bu_bits pn \<le> 32 * length pn"
  using bu_bits_rev_spec [of "rev pn"] by (auto simp: bu_bits_def Let_def)

lemma bu_bits_upper: "bu_val pn < 2 ^ bu_bits pn"
  using bu_bits_rev_spec [of "rev pn"] by (auto simp: bu_bits_def Let_def)

lemma bu_bits_lower: "bu_val pn \<noteq> 0 \<Longrightarrow> 2 ^ (bu_bits pn - 1) \<le> bu_val pn"
  using bu_bits_rev_spec [of "rev pn"] by (auto simp: bu_bits_def Let_def)

section \<open>Shifts\<close>

lemma bit_bu_val:
  "bit (bu_val pn) n \<longleftrightarrow> n < 32 * length pn \<and> bit (pn ! (n div 32)) (n mod 32)"
proof (induction pn arbitrary: n)
  case (Cons p pn)
  have v: "bu_val (p # pn) = unat p OR push_bit 32 (bu_val pn)"
  proof -
    have "unat p + push_bit 32 (bu_val pn) = unat p OR push_bit 32 (bu_val pn)"
      by (rule disjunctive_add_eq_or)
        (auto simp: bit_eq_iff bit_and_iff bit_push_bit_iff bit_unat dest: bit_imp_le_length)
    then show ?thesis by (simp add: push_bit_eq_mult mult.commute)
  qed
  show ?case
  proof (cases "n < 32")
    case True
    then show ?thesis by (simp add: v bit_or_iff bit_push_bit_iff bit_unat del: bu_val.simps)
  next
    case False
    then obtain m where m: "n = 32 + m" using le_Suc_ex not_less by blast
    have "\<not> bit p n" using False by (auto dest: bit_imp_le_length)
    moreover have "(32 + m) div 32 = Suc (m div 32)" by presburger
    ultimately show ?thesis using Cons.IH [of m]
      by (simp add: v m bit_or_iff bit_push_bit_iff bit_unat del: bu_val.simps)
  qed
qed simp

lemma bit_or_update:
  fixes xs :: "'a::len word list"
  shows "j < length xs \<Longrightarrow> bit (xs[p := (xs ! p) OR w] ! j) b \<longleftrightarrow> bit (xs ! j) b \<or> (j = p \<and> bit w b)"
  by (cases "j = p") (auto simp: bit_or_iff)

lemma bu_shl_loop_bit:
  "length pn = length a \<Longrightarrow> m \<le> length a \<Longrightarrow>
   length (bu_shl_loop a k s m pn) = length a \<and>
   (\<forall>j < length a. \<forall>b. bit (bu_shl_loop a k s m pn ! j) b \<longleftrightarrow>
      bit (pn ! j) b \<or> (k \<le> j \<and> length a - m \<le> j - k \<and> bit (push_bit s (a ! (j - k))) b) \<or>
      (s \<noteq> 0 \<and> k + 1 \<le> j \<and> length a - m \<le> j - k - 1 \<and> bit (drop_bit (32 - s) (a ! (j - k - 1))) b))"
proof (induction m arbitrary: pn)
  case (Suc m)
  define i where "i = length a - Suc m"
  define pn1 where "pn1 = (if i + k + 1 < length a \<and> s \<noteq> 0
                 then pn[i + k + 1 := (pn ! (i + k + 1)) OR drop_bit (32 - s) (a ! i)] else pn)"
  define pn2 where "pn2 = (if i + k < length a
                 then pn1[i + k := (pn1 ! (i + k)) OR push_bit s (a ! i)] else pn1)"
  have step: "bu_shl_loop a k s (Suc m) pn = bu_shl_loop a k s m pn2"
    by (simp add: Let_def i_def pn1_def pn2_def)
  have len: "length pn2 = length a" using Suc.prems by (simp add: pn1_def pn2_def)
  have b2: "bit (pn2 ! j) b \<longleftrightarrow> bit (pn ! j) b \<or> (j = i + k \<and> bit (push_bit s (a ! i)) b) \<or>
      (s \<noteq> 0 \<and> j = i + k + 1 \<and> bit (drop_bit (32 - s) (a ! i)) b)" if "j < length a" for j b
    using that Suc.prems by (auto simp: pn1_def pn2_def nth_list_update bit_or_iff)
  have i: "length a - m = Suc i" using Suc.prems by (simp add: i_def)
  have IH: "length (bu_shl_loop a k s m pn2) = length a"
    "\<And>j b. j < length a \<Longrightarrow> bit (bu_shl_loop a k s m pn2 ! j) b \<longleftrightarrow>
      bit (pn2 ! j) b \<or> (k \<le> j \<and> Suc i \<le> j - k \<and> bit (push_bit s (a ! (j - k))) b) \<or>
      (s \<noteq> 0 \<and> k + 1 \<le> j \<and> Suc i \<le> j - k - 1 \<and> bit (drop_bit (32 - s) (a ! (j - k - 1))) b)"
    using Suc.IH [OF len] Suc.prems unfolding i by simp_all
  have c1: "(j = i + k \<and> P i) \<or> (k \<le> j \<and> Suc i \<le> j - k \<and> P (j - k)) \<longleftrightarrow>
      k \<le> j \<and> i \<le> j - k \<and> P (j - k)" for P j
    by (cases "j = i + k") auto
  have c2: "(j = i + k + 1 \<and> P i) \<or> (k + 1 \<le> j \<and> Suc i \<le> j - k - 1 \<and> P (j - k - 1)) \<longleftrightarrow>
      k + 1 \<le> j \<and> i \<le> j - k - 1 \<and> P (j - k - 1)" for P j
    by (cases "j = i + k + 1") auto
  show ?case unfolding step i_def [symmetric]
    using IH b2 c1 [of _ "\<lambda>x. bit (push_bit s (a ! x)) _"] c2 [of _ "\<lambda>x. bit (drop_bit (32 - s) (a ! x)) _"]
    by blast
qed auto

lemma bit_zero_limb: "j < w \<Longrightarrow> \<not> bit (bu_zero w ! j) b"
  by (simp add: bu_zero_def)

lemma limb_shift_low:
  fixes s j k r :: nat
  assumes "s \<le> r" "k \<le> j" "r < 32"
  shows "(32 * j + r - (32 * k + s)) div 32 = j - k" "(32 * j + r - (32 * k + s)) mod 32 = r - s"
proof -
  have "32 * j + r - (32 * k + s) = 32 * (j - k) + (r - s)" using assms by simp
  then show "(32 * j + r - (32 * k + s)) div 32 = j - k" "(32 * j + r - (32 * k + s)) mod 32 = r - s"
    using assms(3) by (simp_all only: div_mult_self4 mod_mult_self4) simp_all
qed

lemma limb_shift_high:
  fixes s j k r :: nat
  assumes "r < s" "s < 32" "k + 1 \<le> j"
  shows "(32 * j + r - (32 * k + s)) div 32 = j - k - 1" "(32 * j + r - (32 * k + s)) mod 32 = 32 + r - s"
proof -
  have "32 * j + r - (32 * k + s) = 32 * (j - k - 1) + (32 + r - s)" using assms by simp
  then show "(32 * j + r - (32 * k + s)) div 32 = j - k - 1" "(32 * j + r - (32 * k + s)) mod 32 = 32 + r - s"
    using assms by (simp_all only: div_mult_self4 mod_mult_self4) simp_all
qed

lemma limb_shift_le:
  fixes s j k r :: nat
  assumes "s < 32" "r < 32"
  shows "32 * k + s \<le> 32 * j + r \<longleftrightarrow> (s \<le> r \<and> k \<le> j) \<or> (r < s \<and> k + 1 \<le> j)"
  using assms by (cases "s \<le> r") auto

lemma length_bu_shl [length_simps]: "length (bu_shl a n) = length a"
  using bu_shl_loop_bit [of "bu_zero (length a)" a "length a"]
  by (simp add: bu_shl_def length_simps)

lemma bit_bu_shl:
  "bit (bu_val (bu_shl a n)) i \<longleftrightarrow> i < 32 * length a \<and> n \<le> i \<and> bit (bu_val a) (i - n)"
proof (cases "i < 32 * length a")
  case True
  define j r k s where "j = i div 32" and "r = i mod 32" and "k = n div 32" and "s = n mod 32"
  have jr: "i = 32 * j + r" "r < 32" and ks: "n = 32 * k + s" "s < 32"
    by (simp_all add: j_def r_def k_def s_def)
  have j: "j < length a" using True jr by linarith
  have "bit (bu_val (bu_shl a n)) i \<longleftrightarrow> bit (bu_shl a n ! j) r"
    using True by (simp add: bit_bu_val length_simps j_def r_def)
  also have "\<dots> \<longleftrightarrow> (k \<le> j \<and> bit (push_bit s (a ! (j - k))) r) \<or>
      (s \<noteq> 0 \<and> k + 1 \<le> j \<and> bit (drop_bit (32 - s) (a ! (j - k - 1))) r)"
    using bu_shl_loop_bit [of "bu_zero (length a)" a "length a" k s] j
    by (simp add: bu_shl_def k_def [symmetric] s_def [symmetric] length_simps bit_zero_limb)
  also have "\<dots> \<longleftrightarrow> (k \<le> j \<and> s \<le> r \<and> bit (a ! (j - k)) (r - s)) \<or>
      (r < s \<and> k + 1 \<le> j \<and> bit (a ! (j - k - 1)) (32 + r - s))"
    using jr ks by (auto simp: bit_push_bit_iff bit_drop_bit_eq dest: bit_imp_le_length)
  also have "\<dots> \<longleftrightarrow> n \<le> i \<and> bit (bu_val a) (i - n)"
  proof -
    consider "s \<le> r" "k \<le> j" | "r < s" "k + 1 \<le> j" | "\<not> n \<le> i"
      using limb_shift_le [OF ks(2) jr(2), of k j] jr ks by fastforce
    then show ?thesis
    proof cases
      case 1
      then have "(i - n) div 32 = j - k" "(i - n) mod 32 = r - s" "n \<le> i"
        using limb_shift_low [of s r k j] jr ks by simp_all
      moreover have "i - n < 32 * length a" using True by linarith
      ultimately show ?thesis using 1 True by (simp add: bit_bu_val)
    next
      case 2
      then have "(i - n) div 32 = j - k - 1" "(i - n) mod 32 = 32 + r - s" "n \<le> i"
        using limb_shift_high [of r s k j] jr ks by simp_all
      moreover have "i - n < 32 * length a" using True by linarith
      ultimately show ?thesis using 2 True by (simp add: bit_bu_val)
    next
      case 3
      then show ?thesis using limb_shift_le [OF ks(2) jr(2), of k j] jr ks by auto
    qed
  qed
  finally show ?thesis using True by simp
qed (simp add: bit_bu_val length_simps)

lemma bu_val_shl [value_simps]: "bu_val (bu_shl a n) = (bu_val a * 2 ^ n) mod bu_mod a"
proof -
  have "bu_val (bu_shl a n) = take_bit (32 * length a) (push_bit n (bu_val a))"
    by (rule bit_eqI) (auto simp: bit_bu_shl bit_take_bit_iff bit_push_bit_iff)
  then show ?thesis by (simp add: take_bit_eq_mod push_bit_eq_mult)
qed

lemma bu_shr_loop_bit:
  "length pn = length a \<Longrightarrow> m \<le> length a \<Longrightarrow>
   length (bu_shr_loop a k s m pn) = length a \<and>
   (\<forall>j < length a. \<forall>b. bit (bu_shr_loop a k s m pn ! j) b \<longleftrightarrow>
      bit (pn ! j) b \<or> (j + k < length a \<and> length a - m \<le> j + k \<and> bit (drop_bit s (a ! (j + k))) b) \<or>
      (s \<noteq> 0 \<and> j + k + 1 < length a \<and> length a - m \<le> j + k + 1 \<and> bit (push_bit (32 - s) (a ! (j + k + 1))) b))"
proof (induction m arbitrary: pn)
  case (Suc m)
  define i where "i = length a - Suc m"
  define pn1 where "pn1 = (if i \<ge> k + 1 \<and> s \<noteq> 0
                 then pn[i - k - 1 := (pn ! (i - k - 1)) OR push_bit (32 - s) (a ! i)] else pn)"
  define pn2 where "pn2 = (if i \<ge> k
                 then pn1[i - k := (pn1 ! (i - k)) OR drop_bit s (a ! i)] else pn1)"
  have step: "bu_shr_loop a k s (Suc m) pn = bu_shr_loop a k s m pn2"
    by (simp add: Let_def i_def pn1_def pn2_def)
  have len: "length pn2 = length a" using Suc.prems by (simp add: pn1_def pn2_def)
  have il: "i < length a" using Suc.prems by (simp add: i_def)
  have b2: "bit (pn2 ! j) b \<longleftrightarrow> bit (pn ! j) b \<or> (i = j + k \<and> bit (drop_bit s (a ! i)) b) \<or>
      (s \<noteq> 0 \<and> i = j + k + 1 \<and> bit (push_bit (32 - s) (a ! i)) b)" if "j < length a" for j b
  proof -
    have l1: "j < length pn1" using that Suc.prems by (simp add: pn1_def)
    have b1: "bit (pn1 ! j) b \<longleftrightarrow> bit (pn ! j) b \<or>
        (s \<noteq> 0 \<and> i = j + k + 1 \<and> bit (push_bit (32 - s) (a ! i)) b)"
      unfolding pn1_def using that Suc.prems by (auto simp: bit_or_update)
    show ?thesis
    proof (cases "k \<le> i")
      case True
      then have "j = i - k \<longleftrightarrow> i = j + k" by auto
      then show ?thesis using True l1 b1 unfolding pn2_def by (auto simp: bit_or_update)
    qed (use b1 in \<open>auto simp: pn2_def\<close>)
  qed
  have i: "length a - m = Suc i" using Suc.prems by (simp add: i_def)
  have IH: "length (bu_shr_loop a k s m pn2) = length a"
    "\<And>j b. j < length a \<Longrightarrow> bit (bu_shr_loop a k s m pn2 ! j) b \<longleftrightarrow>
      bit (pn2 ! j) b \<or> (j + k < length a \<and> Suc i \<le> j + k \<and> bit (drop_bit s (a ! (j + k))) b) \<or>
      (s \<noteq> 0 \<and> j + k + 1 < length a \<and> Suc i \<le> j + k + 1 \<and> bit (push_bit (32 - s) (a ! (j + k + 1))) b)"
    using Suc.IH [OF len] Suc.prems unfolding i by simp_all
  have c: "(i = x \<and> P i) \<or> (x < length a \<and> Suc i \<le> x \<and> P x) \<longleftrightarrow> x < length a \<and> i \<le> x \<and> P x" for P x
    using il by (cases "x = i") auto
  show ?case unfolding step i_def [symmetric]
    using IH b2 c [of _ "\<lambda>x. bit (drop_bit s (a ! x)) _"] c [of _ "\<lambda>x. bit (push_bit (32 - s) (a ! x)) _"]
    by blast
qed auto

lemma length_bu_shr [length_simps]: "length (bu_shr a n) = length a"
  using bu_shr_loop_bit [of "bu_zero (length a)" a "length a"]
  by (simp add: bu_shr_def length_simps)

lemma bit_bu_shr: "bit (bu_val (bu_shr a n)) i \<longleftrightarrow> bit (bu_val a) (i + n)"
proof (cases "i < 32 * length a")
  case True
  define j r k s where "j = i div 32" and "r = i mod 32" and "k = n div 32" and "s = n mod 32"
  have jr: "i = 32 * j + r" "r < 32" and ks: "n = 32 * k + s" "s < 32"
    by (simp_all add: j_def r_def k_def s_def)
  have j: "j < length a" using True jr by linarith
  have "bit (bu_val (bu_shr a n)) i \<longleftrightarrow> bit (bu_shr a n ! j) r"
    using True by (simp add: bit_bu_val length_simps j_def r_def)
  also have "\<dots> \<longleftrightarrow> (j + k < length a \<and> bit (drop_bit s (a ! (j + k))) r) \<or>
      (s \<noteq> 0 \<and> j + k + 1 < length a \<and> bit (push_bit (32 - s) (a ! (j + k + 1))) r)"
    using bu_shr_loop_bit [of "bu_zero (length a)" a "length a" k s] j
    by (simp add: bu_shr_def k_def [symmetric] s_def [symmetric] length_simps bit_zero_limb)
  also have "\<dots> \<longleftrightarrow> bit (bu_val a) (i + n)"
  proof (cases "r + s < 32")
    case True
    then have e: "(i + n) div 32 = j + k" "(i + n) mod 32 = r + s"
    proof -
      have "i + n = 32 * (j + k) + (r + s)" using jr ks by simp
      then show "(i + n) div 32 = j + k" "(i + n) mod 32 = r + s"
        using True by (simp_all only: div_mult_self4 mod_mult_self4) simp_all
    qed
    have "\<not> bit (push_bit (32 - s) (a ! (j + k + 1))) r" using True by (auto simp: bit_push_bit_iff)
    moreover have "i + n < 32 * length a \<longleftrightarrow> j + k < length a" using True jr ks by auto
    ultimately show ?thesis using e by (simp add: bit_bu_val bit_drop_bit_eq add.commute)
  next
    case False
    then have e: "(i + n) div 32 = j + k + 1" "(i + n) mod 32 = r + s - 32"
    proof -
      have "i + n = 32 * (j + k + 1) + (r + s - 32)" using False jr ks by simp
      then show "(i + n) div 32 = j + k + 1" "(i + n) mod 32 = r + s - 32"
        using jr(2) ks(2) by (simp_all only: div_mult_self4 mod_mult_self4) simp_all
    qed
    have "\<not> bit (drop_bit s (a ! (j + k))) r"
      using False by (auto simp: bit_drop_bit_eq dest: bit_imp_le_length)
    moreover have "i + n < 32 * length a \<longleftrightarrow> j + k + 1 < length a" using False jr ks by auto
    moreover have "s \<noteq> 0" "32 - s \<le> r" "r - (32 - s) = r + s - 32" using False jr ks by auto
    ultimately show ?thesis using e jr(2) by (simp add: bit_bu_val bit_push_bit_iff)
  qed
  finally show ?thesis .
qed (auto simp: bit_bu_val length_simps)

lemma bu_val_shr [value_simps]: "bu_val (bu_shr a n) = bu_val a div 2 ^ n"
proof -
  have "bu_val (bu_shr a n) = drop_bit n (bu_val a)"
    by (rule bit_eqI) (auto simp: bit_bu_shr bit_drop_bit_eq add.commute)
  then show ?thesis by (simp add: drop_bit_eq_div)
qed

section \<open>Division\<close>

lemma bu_val_set_bit:
  assumes "n < 32 * length pn" "2 ^ (n + 1) dvd bu_val pn"
  shows "bu_val (pn[n div 32 := (pn ! (n div 32)) OR push_bit (n mod 32) 1]) = bu_val pn + 2 ^ n"
proof -
  let ?q = "pn[n div 32 := (pn ! (n div 32)) OR push_bit (n mod 32) 1]"
  have "\<not> bit (bu_val pn) n"
    using assms(2) by (auto simp: bit_iff_odd)
  have "bu_val ?q = bu_val pn OR push_bit n 1"
  proof (rule bit_eqI)
    fix m
    show "bit (bu_val ?q) m \<longleftrightarrow> bit (bu_val pn OR push_bit n 1) m"
    proof (cases "m < 32 * length pn")
      case True
      have "m = n \<longleftrightarrow> m div 32 = n div 32 \<and> m mod 32 = n mod 32"
        by (metis div_mult_mod_eq)
      moreover have "m div 32 < length pn" using True by (simp add: less_mult_imp_div_less mult.commute)
      moreover have "bit (push_bit (n mod 32) 1 :: u32) (m mod 32) \<longleftrightarrow> m mod 32 = n mod 32"
        by (auto simp: bit_exp_iff)
      ultimately show ?thesis using True
        by (auto simp: bit_bu_val bit_or_iff bit_or_update bit_push_bit_iff bit_1_iff bit_exp_iff
            simp del: push_bit_of_1)
    qed (use assms(1) in \<open>auto simp: bit_bu_val bit_or_iff bit_push_bit_iff bit_1_iff bit_exp_iff\<close>)
  qed
  also have "\<dots> = bu_val pn + push_bit n 1"
    by (rule disjunctive_add_eq_or [symmetric])
      (rule bit_eqI, use \<open>\<not> bit (bu_val pn) n\<close> in \<open>auto simp: bit_and_iff bit_push_bit_iff bit_1_iff bit_exp_iff\<close>)
  finally show ?thesis by simp
qed

lemma bu_div_loop_val:
  assumes "length num = w" "length dv = w" "length pn = w" "m \<le> 32 * w"
    and "m > 0 \<Longrightarrow> bu_val dv = D * 2 ^ (m - 1)" and "bu_val num < D * 2 ^ m"
    and "2 ^ m dvd bu_val pn"
  shows "length (bu_div_loop m num dv pn) = w \<and>
    bu_val (bu_div_loop m num dv pn) = bu_val pn + bu_val num div D"
  using assms
proof (induction m arbitrary: num dv pn)
  case 0
  then show ?case by simp
next
  case (Suc m)
  define ge where "ge = (CompareTo num dv \<ge> 0)"
  define num' where "num' = (if ge then bu_sub num dv else num)"
  define pn' where "pn' = (if ge then pn[m div 32 := (pn ! (m div 32)) OR push_bit (m mod 32) 1] else pn)"
  have step: "bu_div_loop (Suc m) num dv pn = bu_div_loop m num' (bu_shr dv 1) pn'"
    by (simp add: Let_def ge_def num'_def pn'_def)
  have dv: "bu_val dv = D * 2 ^ m" using Suc.prems by simp
  have ge: "ge \<longleftrightarrow> bu_val dv \<le> bu_val num" using Suc.prems by (auto simp: ge_def CompareTo_val)
  have D: "D > 0" using Suc.prems(6) by (cases D) auto
  have len: "length num' = w" "length (bu_shr dv 1) = w" "length pn' = w"
    using Suc.prems by (auto simp: num'_def pn'_def length_simps)
  have num': "bu_val num' = (if ge then bu_val num - D * 2 ^ m else bu_val num)"
    using Suc.prems ge dv by (simp add: num'_def bu_val_sub_le)
  have pn': "bu_val pn' = bu_val pn + (if ge then 2 ^ m else 0)"
    using Suc.prems bu_val_set_bit [of m pn] by (simp add: pn'_def)
  have dv': "bu_val (bu_shr dv 1) = D * 2 ^ (m - 1)" if "m > 0"
    using that dv by (cases m) (simp_all add: bu_val_shr)
  have less: "bu_val num' < D * 2 ^ m" using Suc.prems(6) ge dv num' by auto
  have dvd: "2 ^ m dvd bu_val pn'"
    using Suc.prems(7) by (auto simp: pn' intro!: dvd_add dest: dvd_mult_left)
  have q: "bu_val num div D = (if ge then 2 ^ m else 0) + bu_val num' div D"
  proof (cases ge)
    case True
    then have "bu_val num = bu_val num' + D * 2 ^ m" using num' ge dv by simp
    then show ?thesis using True D by simp
  qed (simp add: num')
  show ?case unfolding step
    using Suc.IH [OF len _ dv' less dvd] Suc.prems(4) pn' q by simp
qed

lemma bu_val_div:
  assumes len: "length a = length b" and b: "bu_val b \<noteq> 0"
  shows "\<exists>q. bu_div a b = Inr q \<and> length q = length a \<and> bu_val q = bu_val a div bu_val b"
proof (cases "bu_bits b > bu_bits a")
  case True
  have "bu_val a < 2 ^ bu_bits a" by (rule bu_bits_upper)
  also have "\<dots> \<le> 2 ^ (bu_bits b - 1)" using True by (intro power_increasing) auto
  also have "\<dots> \<le> bu_val b" by (rule bu_bits_lower [OF b])
  finally show ?thesis using True b by (auto simp: bu_div_def bu_bits_zero value_simps length_simps)
next
  case False
  define s where "s = bu_bits a - bu_bits b"
  have b0: "bu_bits b > 0" using b bu_bits_zero [of b] by simp
  have div: "bu_div a b = Inr (bu_div_loop (Suc s) a (bu_shl b s) (bu_zero (length a)))"
    using False b0 by (simp add: bu_div_def s_def Let_def del: bu_div_loop.simps)
  have "bu_val b * 2 ^ s < 2 ^ bu_bits b * 2 ^ s" using bu_bits_upper [of b] by simp
  also have "\<dots> = 2 ^ bu_bits a" using False by (simp add: s_def power_add [symmetric])
  also have "\<dots> \<le> bu_mod b" using bu_bits_le [of a] len by (intro power_increasing) auto
  finally have dv: "bu_val (bu_shl b s) = bu_val b * 2 ^ s" by (simp add: bu_val_shl)
  have "bu_val a < 2 ^ (bu_bits b - 1) * 2 ^ Suc s"
  proof -
    have "bu_bits b - 1 + Suc s = bu_bits a" using False b0 by (simp add: s_def)
    then show ?thesis using bu_bits_upper [of a] by (simp only: power_add [symmetric])
  qed
  also have "\<dots> \<le> bu_val b * 2 ^ Suc s" using bu_bits_lower [OF b] by (intro mult_le_mono1)
  finally have less: "bu_val a < bu_val b * 2 ^ Suc s" .
  have "Suc s \<le> 32 * length a" using b0 bu_bits_le [of a] False by (simp add: s_def)
  then show ?thesis
    using bu_div_loop_val [of a "length a" "bu_shl b s" "bu_zero (length a)" "Suc s" "bu_val b"]
      dv less len div by (simp add: length_simps value_simps)
qed

end
