(* ===== verification/Compact.thy ===== *)
theory Compact
  imports Arith_Uint256 Transaction
begin

text \<open>
  The compact encoding of difficulty targets (\<open>SetCompact\<close>, \<open>GetCompact\<close>) and the conversions
  between \<open>uint256\<close> blobs and \<open>arith_uint256\<close> (end of \<open>arith_uint256.cpp\<close>).  An assertion of the
  code that fails ends the process: such results are \<open>None\<close>, and the lemmas show when it cannot.
\<close>

section \<open>Blobs and integers\<close>

definition ArithToUint256 :: "limbs \<Rightarrow> uint256" where
  "ArithToUint256 a = concat (map (\<lambda>x. WriteLE32 (a ! x)) [0..<length a])"

definition UintToArith256 :: "uint256 \<Rightarrow> limbs" where
  "UintToArith256 a = map (\<lambda>x. ReadLE32 (drop (x * 4) a)) [0..<WIDTH]"

section \<open>The compact format\<close>

text \<open>The target, \<open>fNegative\<close> and \<open>fOverflow\<close>.\<close>

definition SetCompact :: "u32 \<Rightarrow> limbs \<times> bool \<times> bool" where
  "SetCompact nCompact =
     (let nSize = unat (drop_bit 24 nCompact);
          nWord0 = nCompact AND 0x007fffff;
          nWord = (if nSize \<le> 3 then drop_bit (8 * (3 - nSize)) nWord0 else nWord0);
          t = (if nSize \<le> 3 then bu_of_u64 WIDTH (ucast nWord)
               else bu_shl (bu_of_u64 WIDTH (ucast nWord)) (8 * (nSize - 3)));
          fNegative = (nWord \<noteq> 0 \<and> nCompact AND 0x00800000 \<noteq> 0);
          fOverflow = (nWord \<noteq> 0 \<and> (nSize > 34 \<or> (nWord > 0xff \<and> nSize > 33) \<or>
                                     (nWord > 0xffff \<and> nSize > 32)))
      in (t, fNegative, fOverflow))"

definition GetCompact :: "bool \<Rightarrow> limbs \<Rightarrow> u32 option" where
  "GetCompact fNegative a =
     (let nSize = (bu_bits a + 7) div 8;
          nCompact0 = (if nSize \<le> 3 then ucast (push_bit (8 * (3 - nSize)) (GetLow64 a))
                       else ucast (GetLow64 (bu_shr a (8 * (nSize - 3)))) :: u32);
          carry = (nCompact0 AND 0x00800000 \<noteq> 0);
          nCompact1 = (if carry then drop_bit 8 nCompact0 else nCompact0);
          nSize1 = (if carry then nSize + 1 else nSize)
      in if nCompact1 AND NOT 0x007fffff \<noteq> 0 then None
         else if nSize1 \<ge> 256 then None
         else let nCompact2 = nCompact1 OR push_bit 24 (of_nat nSize1)
              in Some (nCompact2 OR (if fNegative \<and> nCompact2 AND 0x007fffff \<noteq> 0 then 0x00800000 else 0)))"

section \<open>Values\<close>

definition u256_val :: "uint256 \<Rightarrow> nat" where
  "u256_val h = bu_val (UintToArith256 h)"

lemma length_UintToArith256 [length_simps]: "length (UintToArith256 a) = WIDTH"
  by (simp add: UintToArith256_def)

lemma UintToArith256_val: "bu_val (UintToArith256 h) < 2 ^ 256"
  using bu_val_bound [of "UintToArith256 h"] by (simp add: length_simps WIDTH_def)

lemma drop_WriteLE32: "drop (x * 4) (concat (map WriteLE32 xs)) = concat (map WriteLE32 (drop x xs))"
proof (induction x arbitrary: xs)
  case (Suc x)
  then show ?case by (cases xs) (simp_all add: WriteLE32_def length_simps)
qed simp

lemma ArithToUint256_inverse: "length a = WIDTH \<Longrightarrow> UintToArith256 (ArithToUint256 a) = a"
proof -
  assume len: "length a = WIDTH"
  have m: "map (\<lambda>x. WriteLE32 (a ! x)) [0..<length a] = map WriteLE32 a"
    by (rule nth_equalityI) simp_all
  show ?thesis
  proof (rule nth_equalityI)
    fix x
    assume "x < length (UintToArith256 (ArithToUint256 a))"
    then have x: "x < length a" by (simp add: length_simps len)
    then have "drop x a = a ! x # drop (Suc x) a" by (rule Cons_nth_drop_Suc [symmetric])
    then show "UintToArith256 (ArithToUint256 a) ! x = a ! x"
      using x by (simp add: UintToArith256_def ArithToUint256_def m [unfolded len] len drop_WriteLE32 ReadLE32_def)
        (simp add: WriteLE32_def length_simps le_read_write)
  qed (simp add: length_simps len)
qed

definition compact_size :: "u32 \<Rightarrow> nat" where
  "compact_size c = unat c div 2 ^ 24"

definition compact_word :: "u32 \<Rightarrow> nat" where
  "compact_word c = unat c mod 2 ^ 23"

text \<open>The number a compact value denotes: mantissa times \<open>256 ^ (exponent - 3)\<close>.\<close>

definition compact_val :: "u32 \<Rightarrow> nat" where
  "compact_val c =
     (if compact_size c \<le> 3 then compact_word c div 256 ^ (3 - compact_size c)
      else compact_word c * 256 ^ (compact_size c - 3))"

lemma compact_word_bound: "compact_word c < 2 ^ 23"
  by (simp add: compact_word_def)

lemma unat_and_7fffff: "unat (c AND 0x007fffff :: u32) = compact_word c"
proof -
  have "(0x007fffff :: u32) = mask 23" by (simp add: mask_eq_exp_minus_1)
  then have "c AND 0x007fffff = take_bit 23 c" by (simp only: take_bit_eq_mask)
  then show ?thesis unfolding compact_word_def
    by (simp only:) (rule trans [OF unsigned_take_bit_eq take_bit_eq_mod])
qed

lemma pow256: "(256 :: nat) ^ n = 2 ^ (8 * n)"
  by (simp add: power_mult)

lemma SetCompact_word:
  "unat (if compact_size c \<le> 3 then drop_bit (8 * (3 - compact_size c)) (c AND 0x007fffff) else c AND 0x007fffff)
   = (if compact_size c \<le> 3 then compact_word c div 256 ^ (3 - compact_size c) else compact_word c)"
  by (simp only: unat_drop_bit unat_and_7fffff pow256 split: if_split) simp

text \<open>Without the overflow flag the target is exactly the denoted number.\<close>

lemma SetCompact_spec:
  assumes "SetCompact c = (t, neg, ovf)"
  shows "length t = WIDTH" "bu_val t = compact_val c mod 2 ^ 256" "\<not> ovf \<Longrightarrow> bu_val t = compact_val c"
proof -
  define w where "w = (if compact_size c \<le> 3 then drop_bit (8 * (3 - compact_size c)) (c AND 0x007fffff)
    else c AND 0x007fffff)"
  have size: "unat (drop_bit 24 c) = compact_size c" unfolding compact_size_def by (rule unat_drop_bit)
  have w: "unat w = (if compact_size c \<le> 3 then compact_word c div 256 ^ (3 - compact_size c) else compact_word c)"
    unfolding w_def by (rule SetCompact_word)
  have t: "t = (if compact_size c \<le> 3 then bu_of_u64 WIDTH (ucast w)
               else bu_shl (bu_of_u64 WIDTH (ucast w)) (8 * (compact_size c - 3)))"
    and ovf: "ovf \<longleftrightarrow> w \<noteq> 0 \<and> (compact_size c > 34 \<or> (w > 0xff \<and> compact_size c > 33) \<or>
                                     (w > 0xffff \<and> compact_size c > 32))"
    using assms unfolding SetCompact_def Let_def size w_def [symmetric] by auto
  show len: "length t = WIDTH" by (simp add: t length_simps WIDTH_def)
  show v: "bu_val t = compact_val c mod 2 ^ 256"
  proof (cases "compact_size c \<le> 3")
    case True
    have "compact_word c div 256 ^ (3 - compact_size c) < 2 ^ 256"
      by (rule le_less_trans [OF div_le_dividend less_trans [OF compact_word_bound]]) simp
    then show ?thesis using True w by (simp add: t value_simps compact_val_def)
  next
    case False
    then show ?thesis using w
      by (simp add: t value_simps compact_val_def length_simps WIDTH_def pow256 [symmetric])
  qed
  assume no: "\<not> ovf"
  have "compact_val c < 2 ^ 256"
  proof (cases "compact_size c \<le> 3")
    case True
    then show ?thesis using w unat_bound_u32 [of w] by (simp add: compact_val_def)
  next
    case False
    let ?s = "compact_size c"
    have bnd: "compact_word c < 2 ^ k \<Longrightarrow> k + 8 * (?s - 3) \<le> 256 \<Longrightarrow> compact_val c < 2 ^ 256" for k
    proof -
      assume k: "compact_word c < 2 ^ k" "k + 8 * (?s - 3) \<le> 256"
      then have "compact_word c * 2 ^ (8 * (?s - 3)) < 2 ^ k * 2 ^ (8 * (?s - 3))" by simp
      also have "\<dots> \<le> 2 ^ 256" using k(2) by (simp only: power_add [symmetric]) (rule power_increasing, simp_all)
      finally show ?thesis using False by (simp add: compact_val_def pow256)
    qed
    consider "compact_word c = 0" | "?s \<le> 32" | "?s = 33" "compact_word c < 2 ^ 16" | "?s = 34" "compact_word c < 2 ^ 8"
      using no w False unfolding ovf by (fastforce simp: word_less_nat_alt unat_eq_0 [symmetric])
    then show ?thesis
    proof cases
      case 1
      then show ?thesis using False by (simp add: compact_val_def)
    next
      case 2
      then show ?thesis using bnd [OF compact_word_bound] by simp
    next
      case 3
      then show ?thesis using bnd [of 16] by simp
    next
      case 4
      then show ?thesis using bnd [of 8] by simp
    qed
  qed
  then show "bu_val t = compact_val c" using v by simp
qed


lemma GetLow64_val: "2 \<le> length a \<Longrightarrow> unat (GetLow64 a) = bu_val a mod 2 ^ 64"
proof -
  assume "2 \<le> length a"
  then obtain p q r where a: "a = p # q # r" by (metis Suc_le_length_iff numeral_2_eq_2)
  have "unat (push_bit 32 (ucast q :: u64)) = unat q * 2 ^ 32"
    using unat_bound_u32 [of q] by (simp only: unat_push_bit) (simp add: unat_ucast)
  moreover have "(ucast p :: u64) OR push_bit 32 (ucast q) = ucast p + push_bit 32 (ucast q)"
    by (rule disjunctive_add [symmetric]) (auto simp: bit_push_bit_iff bit_ucast_iff dest: bit_imp_le_length)
  ultimately have "unat (GetLow64 a) = unat p + unat q * 2 ^ 32"
    using unat_bound_u32 [of p] unat_bound_u32 [of q]
    by (simp add: a GetLow64_def unat_plus_no_overflow value_simps)
  moreover have "bu_val a mod 2 ^ 64 = unat p + unat q * 2 ^ 32"
    using unat_bound_u32 [of p] unat_bound_u32 [of q]
      mod_mult_self2 [of "unat p + unat q * 2 ^ 32" "2 ^ 64" "bu_val r"]
    by (simp add: a algebra_simps)
  ultimately show ?thesis by simp
qed

definition compact_bytes :: "limbs \<Rightarrow> nat" where
  "compact_bytes a = (bu_bits a + 7) div 8"

definition compact_mantissa :: "limbs \<Rightarrow> nat" where
  "compact_mantissa a = (if compact_bytes a \<le> 3 then bu_val a * 256 ^ (3 - compact_bytes a)
                         else bu_val a div 256 ^ (compact_bytes a - 3))"

lemma compact_bytes_upper: "bu_val a < 256 ^ compact_bytes a"
proof -
  have "bu_bits a \<le> 8 * compact_bytes a" by (simp add: compact_bytes_def)
  then have "(2 :: nat) ^ bu_bits a \<le> 2 ^ (8 * compact_bytes a)" by (rule power_increasing) simp
  then show ?thesis unfolding pow256 by (rule less_le_trans [OF bu_bits_upper])
qed

lemma compact_bytes_le: "length a = WIDTH \<Longrightarrow> compact_bytes a \<le> 32"
  using bu_bits_le [of a] by (simp add: compact_bytes_def WIDTH_def)

lemma compact_mantissa_bound: "compact_mantissa a < 2 ^ 24"
proof (cases "compact_bytes a \<le> 3")
  case True
  then have "bu_val a * 256 ^ (3 - compact_bytes a) < 256 ^ compact_bytes a * 256 ^ (3 - compact_bytes a)"
    using compact_bytes_upper [of a] by simp
  then show ?thesis using True by (simp add: compact_mantissa_def power_add [symmetric])
next
  case False
  then have "(256 :: nat) ^ compact_bytes a = 256 ^ (compact_bytes a - 3) * 256 ^ 3"
    by (simp only: power_add [symmetric]) simp
  then have "bu_val a < 2 ^ 24 * 256 ^ (compact_bytes a - 3)"
    using compact_bytes_upper [of a] by simp
  then show ?thesis using False by (simp add: compact_mantissa_def less_mult_imp_div_less)
qed

lemma GetCompact_mantissa:
  assumes "length a = WIDTH"
  shows "unat (if compact_bytes a \<le> 3 then ucast (push_bit (8 * (3 - compact_bytes a)) (GetLow64 a))
           else ucast (GetLow64 (bu_shr a (8 * (compact_bytes a - 3)))) :: u32) = compact_mantissa a"
proof (cases "compact_bytes a \<le> 3")
  case True
  have "unat (push_bit (8 * (3 - compact_bytes a)) (GetLow64 a)) = bu_val a * 256 ^ (3 - compact_bytes a) mod 2 ^ 64"
    using assms unfolding unat_push_bit by (simp add: GetLow64_val WIDTH_def pow256 mod_mult_left_eq)
  then show ?thesis using True compact_mantissa_bound [of a]
    by (simp add: unat_ucast compact_mantissa_def mod_mod_cancel)
next
  case False
  then show ?thesis using assms compact_mantissa_bound [of a]
    by (simp add: unat_ucast compact_mantissa_def GetLow64_val length_simps WIDTH_def value_simps
        pow256 mod_mod_cancel)
qed


lemma unat_or_disjoint: "x AND y = 0 \<Longrightarrow> unat (x OR y) = unat x + unat (y :: 'a::len word)"
proof -
  assume "x AND y = 0"
  then have "\<not> bit (unat x) n \<or> \<not> bit (unat y) n" for n
    using bit_and_iff [of x y n] by (auto simp: bit_unat)
  then show ?thesis by (simp only: disjunctive_add unsigned_or_eq)
qed

lemma and_push_bit_0: "unat (x :: 'a::len word) < 2 ^ k \<Longrightarrow> x AND push_bit k y = 0"
proof -
  assume "unat x < 2 ^ k"
  then have "take_bit k (unat x) = unat x" by (simp add: take_bit_nat_eq_self)
  then have "\<not> bit x n" if "k \<le> n" for n
    using that by (metis bit_take_bit_iff bit_unat linorder_not_le)
  then show ?thesis by (intro bit_eqI) (auto simp: bit_simps)
qed

lemma and_not_7fffff: "(c :: u32) AND NOT 0x007fffff = 0 \<longleftrightarrow> unat c < 2 ^ 23"
proof -
  have m: "(0x007fffff :: u32) = mask 23" by (simp add: mask_eq_exp_minus_1)
  have "c AND NOT 0x007fffff = 0 \<longleftrightarrow> take_bit 23 c = c"
    unfolding m by (simp only: bit_eq_iff) (auto simp: bit_simps)
  also have "\<dots> \<longleftrightarrow> unat (take_bit 23 c) = unat c" by (simp only: word_unat_eq_iff)
  also have "\<dots> \<longleftrightarrow> unat c mod 2 ^ 23 = unat c"
    by (simp only: trans [OF unsigned_take_bit_eq take_bit_eq_mod, of 23 c])
  also have "\<dots> \<longleftrightarrow> unat c < 2 ^ 23" by (metis mod_less mod_less_divisor zero_less_numeral zero_less_power)
  finally show ?thesis .
qed

lemma and_800000: "unat (c :: u32) < 2 ^ 24 \<Longrightarrow> c AND 0x00800000 = 0 \<longleftrightarrow> unat c < 2 ^ 23"
proof -
  assume c: "unat c < 2 ^ 24"
  have "(0x00800000 :: u32) = push_bit 23 1" by simp
  then have "c AND 0x00800000 = 0 \<longleftrightarrow> \<not> bit (unat c) 23" by (simp only: and_push_bit_1 bit_unat)
  also have "\<dots> \<longleftrightarrow> even (unat c div 2 ^ 23)" by (simp only: bit_iff_odd) simp
  also have "\<dots> \<longleftrightarrow> unat c div 2 ^ 23 = 0"
  proof -
    have "unat c div 2 ^ 23 < 2" by (rule less_mult_imp_div_less) (use c in simp)
    then have "unat c div 2 ^ 23 = 0 \<or> unat c div 2 ^ 23 = 1" by linarith
    then show ?thesis by auto
  qed
  also have "\<dots> \<longleftrightarrow> unat c < 2 ^ 23" by (simp only: div_eq_0_iff) simp
  finally show ?thesis .
qed

text \<open>The three bit fields of a compact value, assembled.\<close>

lemma compact_fields:
  fixes m :: u32
  assumes "unat m < 2 ^ 23" "n < 256"
  shows "unat (m OR push_bit 24 (of_nat n)) = unat m + n * 2 ^ 24"
    "unat ((m OR push_bit 24 (of_nat n)) OR 0x00800000) = unat m + n * 2 ^ 24 + 2 ^ 23"
    "(m OR push_bit 24 (of_nat n)) AND 0x007fffff = m"
proof -
  have n: "unat (push_bit 24 (of_nat n) :: u32) = n * 2 ^ 24"
    unfolding unat_push_bit using assms(2) by (simp add: unat_of_nat)
  have "m AND push_bit 24 (of_nat n) = 0" by (rule and_push_bit_0) (use assms(1) in simp)
  then show sum: "unat (m OR push_bit 24 (of_nat n)) = unat m + n * 2 ^ 24"
    by (simp only: unat_or_disjoint n)
  have e: "(0x00800000 :: u32) = push_bit 23 1" by simp
  have "m AND push_bit 23 1 = 0" by (rule and_push_bit_0) (use assms(1) in simp)
  moreover have "push_bit 24 (of_nat n) AND push_bit 23 1 = (0 :: u32)"
    by (simp only: and_push_bit_1) (simp add: bit_push_bit_iff)
  ultimately have "(m OR push_bit 24 (of_nat n)) AND 0x00800000 = 0"
    unfolding e by (simp only: bit.conj_disj_distrib2) simp
  from unat_or_disjoint [OF this]
  show "unat ((m OR push_bit 24 (of_nat n)) OR 0x00800000) = unat m + n * 2 ^ 24 + 2 ^ 23"
    by (simp only: sum) simp
  have "unat ((m OR push_bit 24 (of_nat n)) AND 0x007fffff) = unat m"
    using assms(1) by (simp only: unat_and_7fffff compact_word_def sum) (simp add: mod_add_eq [symmetric] mod_mult_right_eq [symmetric])
  then show "(m OR push_bit 24 (of_nat n)) AND 0x007fffff = m" by (simp only: word_unat_eq_iff)
qed


lemma GetCompact_spec:
  assumes "length a = WIDTH"
  defines "m \<equiv> compact_mantissa a" and "n \<equiv> compact_bytes a"
  defines "m1 \<equiv> (if m < 2 ^ 23 then m else m div 256)" and "n1 \<equiv> (if m < 2 ^ 23 then n else n + 1)"
  shows "\<exists>c. GetCompact neg a = Some c \<and> unat c = m1 + n1 * 2 ^ 24 + (if neg \<and> m1 \<noteq> 0 then 2 ^ 23 else 0)"
    "m1 < 2 ^ 23" "n1 \<le> 33"
proof -
  define c0 where "c0 = (if compact_bytes a \<le> 3 then ucast (push_bit (8 * (3 - compact_bytes a)) (GetLow64 a))
     else ucast (GetLow64 (bu_shr a (8 * (compact_bytes a - 3)))) :: u32)"
  define c1 where "c1 = (if c0 AND 0x00800000 \<noteq> 0 then drop_bit 8 c0 else c0)"
  have c0: "unat c0 = m" unfolding c0_def m_def by (rule GetCompact_mantissa [OF assms(1)])
  have m: "m < 2 ^ 24" unfolding m_def by (rule compact_mantissa_bound)
  have carry: "c0 AND 0x00800000 = 0 \<longleftrightarrow> m < 2 ^ 23" using and_800000 [of c0] m by (simp only: c0)
  have c1: "unat c1 = m1" unfolding c1_def m1_def carry [symmetric]
    by (simp only: c0 [symmetric] unat_drop_bit split: if_split) simp
  show m1: "m1 < 2 ^ 23" using m by (auto simp: m1_def)
  show n1: "n1 \<le> 33" using compact_bytes_le [OF assms(1)] by (simp add: n1_def n_def)
  have "GetCompact neg a = Some ((c1 OR push_bit 24 (of_nat n1)) OR (if neg \<and> c1 \<noteq> 0 then 0x00800000 else 0))"
  proof -
    have n1': "n1 = (if c0 AND 0x00800000 \<noteq> 0 then compact_bytes a + 1 else compact_bytes a)"
      by (simp only: carry n1_def n_def) simp
    have ok: "c1 AND NOT 0x007fffff = 0" "\<not> 256 \<le> n1"
      using m1 n1 by (simp_all only: and_not_7fffff c1)
    have fields: "(c1 OR push_bit 24 (of_nat n1)) AND 0x007fffff = c1"
      using m1 n1 by (intro compact_fields(3)) (simp_all add: c1)
    show ?thesis
      unfolding GetCompact_def Let_def compact_bytes_def [symmetric] c0_def [symmetric] c1_def [symmetric] n1' [symmetric] fields
      by (simp only: ok) simp
  qed
  moreover have "c1 = 0 \<longleftrightarrow> m1 = 0" by (simp add: c1 [symmetric] unat_eq_0)
  ultimately show "\<exists>c. GetCompact neg a = Some c \<and>
      unat c = m1 + n1 * 2 ^ 24 + (if neg \<and> m1 \<noteq> 0 then 2 ^ 23 else 0)"
    using compact_fields(1,2) [of c1 n1] m1 n1 by (simp add: c1)
qed


lemma compact_decode:
  assumes "unat c = m + n * 2 ^ 24 + (if b then 2 ^ 23 else 0)" "m < 2 ^ 23"
  shows "compact_size c = n" "compact_word c = m" "c AND 0x00800000 \<noteq> 0 \<longleftrightarrow> b"
proof -
  let ?low = "m + (if b then 2 ^ 23 else 0)"
  have c: "unat c = ?low + 2 ^ 24 * n" using assms(1) by simp
  have low: "?low < 2 ^ 24" using assms(2) by auto
  show "compact_size c = n"
    unfolding compact_size_def c div_mult_self2 [OF power_not_zero [OF zero_neq_numeral [symmetric]]]
    using low by simp
  have c': "unat c = m + (n * 2 + (if b then 1 else 0)) * 2 ^ 23" using assms(1) by simp
  then show "compact_word c = m" using assms(2) by (simp only: compact_word_def mod_mult_self1) simp
  have "(0x00800000 :: u32) = push_bit 23 1" by simp
  then have "c AND 0x00800000 \<noteq> 0 \<longleftrightarrow> bit (unat c) 23" by (simp only: and_push_bit_1 bit_unat not_not)
  also have "\<dots> \<longleftrightarrow> odd (unat c div 2 ^ 23)" by (simp only: bit_iff_odd)
  also have "unat c div 2 ^ 23 = n * 2 + (if b then 1 else 0)"
    unfolding c' div_mult_self1 [OF power_not_zero [OF zero_neq_numeral [symmetric]]] using assms(2) by simp
  finally show "c AND 0x00800000 \<noteq> 0 \<longleftrightarrow> b" by simp
qed

lemma compact_mantissa_val:
  fixes v n :: nat and q :: bool
  defines "m \<equiv> (if n \<le> 3 then v * 256 ^ (3 - n) else v div 256 ^ (n - 3))"
  defines "m1 \<equiv> (if q then m else m div 256)" and "n1 \<equiv> (if q then n else n + 1)"
  shows "(if n1 \<le> 3 then m1 div 256 ^ (3 - n1) else m1 * 256 ^ (n1 - 3))
         = v div 256 ^ (n1 - 3) * 256 ^ (n1 - 3)"
proof (cases "n < 3")
  case True
  then obtain k where k: "3 - n = Suc k" by (metis Suc_diff_Suc)
  then have "2 - n = k" by simp
  with True k show ?thesis by (simp add: m_def m1_def n1_def)
next
  case False
  then consider "n = 3" | j where "n = j + 4" by (metis add.commute le_Suc_ex less_Suc_eq_le not_less_eq
      numeral_3_eq_3 eval_nat_numeral(2,3) nat_less_le semiring_norm(26,27))
  then show ?thesis
    by cases (simp_all add: m_def m1_def n1_def div_mult2_eq [symmetric] mult.commute)
qed

text \<open>Encoding a target never trips an assertion, and decoding gives the target back, rounded down
  to the three most significant bytes (two when the top bit of the third is set).\<close>

lemma GetCompact_round:
  assumes "length a = WIDTH"
  obtains c where "GetCompact neg a = Some c"
    "compact_val c = bu_val a div 256 ^ (compact_size c - 3) * 256 ^ (compact_size c - 3)"
    "compact_size c \<le> 33" "compact_size c = 33 \<Longrightarrow> compact_word c < 2 ^ 16"
    "c AND 0x00800000 \<noteq> 0 \<longleftrightarrow> neg \<and> compact_word c \<noteq> 0"
proof -
  define m n where "m = compact_mantissa a" and "n = compact_bytes a"
  define m1 n1 where "m1 = (if m < 2 ^ 23 then m else m div 256)" and "n1 = (if m < 2 ^ 23 then n else n + 1)"
  note spec = GetCompact_spec [OF assms, folded m_def n_def, folded m1_def n1_def]
  obtain c where c: "GetCompact neg a = Some c"
    "unat c = m1 + n1 * 2 ^ 24 + (if neg \<and> m1 \<noteq> 0 then 2 ^ 23 else 0)"
    using spec(1) [of neg] by auto
  note dec = compact_decode [OF c(2) spec(2)]
  have n: "n \<le> 32" using compact_bytes_le [OF assms] by (simp add: n_def)
  have "compact_val c = bu_val a div 256 ^ (n1 - 3) * 256 ^ (n1 - 3)"
  proof -
    have m: "m = (if n \<le> 3 then bu_val a * 256 ^ (3 - n) else bu_val a div 256 ^ (n - 3))"
      by (simp only: m_def n_def compact_mantissa_def)
    show ?thesis
      unfolding compact_val_def dec
      using compact_mantissa_val [where n = n and v = "bu_val a" and q = "m < 2 ^ 23", folded m, folded m1_def n1_def] .
  qed
  moreover have "n1 = 33 \<Longrightarrow> m1 < 2 ^ 16"
    using compact_mantissa_bound [of a] n by (auto simp: m1_def n1_def m_def split: if_splits)
  ultimately show ?thesis using that [of c] c(1) dec spec(3) by simp
qed

text \<open>A target without the overflow flag leaves room for the increment that work computation makes.\<close>

lemma compact_val_not_max: "compact_val c \<noteq> 2 ^ 256 - 1"
proof (cases "compact_size c \<le> 3")
  case True
  have "compact_word c div 256 ^ (3 - compact_size c) < 2 ^ 23"
    by (rule le_less_trans [OF div_le_dividend compact_word_bound])
  also have "(2 :: nat) ^ 23 < 2 ^ 256 - 1" by simp
  finally show ?thesis using True by (simp add: compact_val_def)
next
  case False
  then have "even (compact_val c)" by (simp add: compact_val_def)
  moreover have "odd (2 ^ 256 - 1 :: nat)" by simp
  ultimately show ?thesis by metis
qed

lemma EqualTo_0: "length t = WIDTH \<Longrightarrow> EqualTo t 0 \<longleftrightarrow> bu_val t = 0"
proof -
  assume "length t = WIDTH"
  then obtain p q r where t: "t = p # q # r" by (metis WIDTH_def length_0_conv length_Cons list.exhaust
        numeral_eq_Suc old.nat.inject zero_neq_numeral nat.distinct(1) pred_numeral_simps(2,3))
  have "(ucast x = (0 :: u64)) = (x = 0)" for x :: u32
    by (metis unat_ucast_u32_u64 unat_eq_0)
  moreover have "bu_val r = 0 \<longleftrightarrow> (\<forall>p \<in> set r. p = 0)"
    by (induction r) (auto simp: unat_eq_0)
  ultimately show ?thesis by (auto simp: t EqualTo_def unat_eq_0)
qed

end
