(* ===== verification/Chain.thy ===== *)
theory Chain
  imports Compact "HOL-Library.Monad_Syntax"
begin

text \<open>
  The block tree and the active chain (\<open>chain.h\<close>, \<open>chain.cpp\<close>) and the insertion of a header into
  the tree (\<open>CChainState::AddToBlockIndex\<close> of \<open>validation.cpp\<close>).  Block index entries live in a
  store from addresses to records; a pointer is an optional address.  A value of type \<open>'a option\<close>
  returned by an operation is \<open>None\<close> when the C++ does not return: a failed assertion, a dereference
  of a null or dangling pointer, or a loop that never ends.  Heights of entries are never negative
  and are kept as \<open>nat\<close>.
\<close>

type_synonym ptr = "nat option"

section \<open>Entries of the tree\<close>

record CBlockIndex =
  phashBlock :: "uint256 option"
  pprev :: ptr
  pskip :: ptr
  nHeight :: nat
  nFile :: int
  nDataPos :: u32
  nUndoPos :: u32
  nChainWork :: limbs
  nTx :: u32
  nChainTx :: u32
  nStatus :: u32
  idx_nVersion :: int
  idx_hashMerkleRoot :: uint256
  idx_nTime :: u32
  idx_nBits :: u32
  idx_nNonce :: uint256
  idx_nSolution :: bytes
  nSequenceId :: int
  nTimeMax :: u32

type_synonym block_tree = "nat \<Rightarrow> CBlockIndex option"

definition CBlockIndex_SetNull :: CBlockIndex where
  "CBlockIndex_SetNull =
     \<lparr>phashBlock = None, pprev = None, pskip = None, nHeight = 0, nFile = 0, nDataPos = 0,
      nUndoPos = 0, nChainWork = bu_zero WIDTH, nTx = 0, nChainTx = 0, nStatus = 0, idx_nVersion = 0,
      idx_hashMerkleRoot = uint256_null, idx_nTime = 0, idx_nBits = 0, idx_nNonce = uint256_null,
      idx_nSolution = [], nSequenceId = 0, nTimeMax = 0\<rparr>"

definition CBlockIndex_of_header :: "'a CBlockHeader_scheme \<Rightarrow> CBlockIndex" where
  "CBlockIndex_of_header block =
     CBlockIndex_SetNull\<lparr>idx_nVersion := blk_nVersion block, idx_hashMerkleRoot := hashMerkleRoot block,
       idx_nTime := blk_nTime block, idx_nBits := blk_nBits block, idx_nNonce := nNonce block,
       idx_nSolution := nSolution block\<rparr>"

definition BLOCK_VALID_HEADER :: u32 where "BLOCK_VALID_HEADER = 1"
definition BLOCK_VALID_TREE :: u32 where "BLOCK_VALID_TREE = 2"
definition BLOCK_VALID_TRANSACTIONS :: u32 where "BLOCK_VALID_TRANSACTIONS = 3"
definition BLOCK_VALID_CHAIN :: u32 where "BLOCK_VALID_CHAIN = 4"
definition BLOCK_VALID_SCRIPTS :: u32 where "BLOCK_VALID_SCRIPTS = 5"
definition BLOCK_VALID_MASK :: u32 where
  "BLOCK_VALID_MASK = ((((BLOCK_VALID_HEADER OR BLOCK_VALID_TREE) OR BLOCK_VALID_TRANSACTIONS) OR
     BLOCK_VALID_CHAIN) OR BLOCK_VALID_SCRIPTS)"
definition BLOCK_HAVE_DATA :: u32 where "BLOCK_HAVE_DATA = 8"
definition BLOCK_HAVE_UNDO :: u32 where "BLOCK_HAVE_UNDO = 16"
definition BLOCK_FAILED_VALID :: u32 where "BLOCK_FAILED_VALID = 32"
definition BLOCK_FAILED_CHILD :: u32 where "BLOCK_FAILED_CHILD = 64"
definition BLOCK_FAILED_MASK :: u32 where "BLOCK_FAILED_MASK = (BLOCK_FAILED_VALID OR BLOCK_FAILED_CHILD)"

definition IsValid :: "u32 \<Rightarrow> CBlockIndex \<Rightarrow> bool option" where
  "IsValid nUpTo i =
     (if nUpTo AND NOT BLOCK_VALID_MASK \<noteq> 0 then None
      else if nStatus i AND BLOCK_FAILED_MASK \<noteq> 0 then Some False
      else Some ((nStatus i AND BLOCK_VALID_MASK) \<ge> nUpTo))"

definition RaiseValidity :: "u32 \<Rightarrow> CBlockIndex \<Rightarrow> (bool \<times> CBlockIndex) option" where
  "RaiseValidity nUpTo i =
     (if nUpTo AND NOT BLOCK_VALID_MASK \<noteq> 0 then None
      else if nStatus i AND BLOCK_FAILED_MASK \<noteq> 0 then Some (False, i)
      else if (nStatus i AND BLOCK_VALID_MASK) < nUpTo
      then Some (True, i\<lparr>nStatus := (nStatus i AND NOT BLOCK_VALID_MASK) OR nUpTo\<rparr>)
      else Some (False, i))"

text \<open>\<open>CDiskBlockPos\<close>, null by default, and the positions of a block's data.\<close>

record CDiskBlockPos =
  pos_nFile :: int
  nPos :: u32

definition CDiskBlockPos_SetNull :: CDiskBlockPos where
  "CDiskBlockPos_SetNull = \<lparr>pos_nFile = - 1, nPos = 0\<rparr>"

definition GetBlockPos :: "CBlockIndex \<Rightarrow> CDiskBlockPos" where
  "GetBlockPos i = (if nStatus i AND BLOCK_HAVE_DATA \<noteq> 0 then \<lparr>pos_nFile = nFile i, nPos = nDataPos i\<rparr>
                    else CDiskBlockPos_SetNull)"

definition GetUndoPos :: "CBlockIndex \<Rightarrow> CDiskBlockPos" where
  "GetUndoPos i = (if nStatus i AND BLOCK_HAVE_UNDO \<noteq> 0 then \<lparr>pos_nFile = nFile i, nPos = nUndoPos i\<rparr>
                   else CDiskBlockPos_SetNull)"

definition GetBlockHash :: "CBlockIndex \<Rightarrow> uint256 option" where
  "GetBlockHash i = phashBlock i"

definition index_GetBlockHeader :: "block_tree \<Rightarrow> CBlockIndex \<Rightarrow> CBlockHeader option" where
  "index_GetBlockHeader T i = do {
     prev \<leftarrow> (case pprev i of None \<Rightarrow> Some uint256_null | Some q \<Rightarrow> T q \<bind> GetBlockHash);
     Some \<lparr>blk_nVersion = idx_nVersion i, hashPrevBlock = prev, hashMerkleRoot = idx_hashMerkleRoot i,
           blk_nTime = idx_nTime i, blk_nBits = idx_nBits i, nNonce = idx_nNonce i,
           nSolution = idx_nSolution i\<rparr> }"

text \<open>\<open>GetMedianTimePast\<close>: the times of up to eleven blocks, walking back from the given one.\<close>

definition nMedianTimeSpan :: nat where "nMedianTimeSpan = 11"

fun median_times :: "block_tree \<Rightarrow> nat \<Rightarrow> ptr \<Rightarrow> int list option" where
  "median_times T 0 p = Some []"
| "median_times T (Suc k) None = Some []"
| "median_times T (Suc k) (Some p) = do {
     i \<leftarrow> T p;
     ts \<leftarrow> median_times T k (pprev i);
     Some (uint (idx_nTime i) # ts) }"

definition GetMedianTimePast :: "block_tree \<Rightarrow> nat \<Rightarrow> int option" where
  "GetMedianTimePast T p = do {
     ts \<leftarrow> median_times T nMedianTimeSpan (Some p);
     Some (sort ts ! (length ts div 2)) }"

section \<open>The skip list\<close>

definition InvertLowestOne :: "nat \<Rightarrow> nat" where
  "InvertLowestOne n = n AND (n - 1)"

definition GetSkipHeight :: "nat \<Rightarrow> nat" where
  "GetSkipHeight height =
     (if height < 2 then 0
      else if height AND 1 \<noteq> 0 then InvertLowestOne (InvertLowestOne (height - 1)) + 1
      else InvertLowestOne height)"

lemma and_nat_le: "(m :: nat) AND n \<le> n"
proof -
  have "int m AND int n \<le> int n" by (rule AND_upper2) simp
  then show ?thesis by (simp add: of_nat_and_eq [symmetric])
qed

lemma InvertLowestOne_le: "InvertLowestOne n \<le> n - 1"
  unfolding InvertLowestOne_def by (rule and_nat_le)

lemma GetSkipHeight_less: "0 < h \<Longrightarrow> GetSkipHeight h < h"
proof -
  assume h: "0 < h"
  have "InvertLowestOne (InvertLowestOne (h - 1)) \<le> h - 2" if "2 \<le> h"
    using InvertLowestOne_le [of "InvertLowestOne (h - 1)"] InvertLowestOne_le [of "h - 1"] that by linarith
  then show ?thesis using h InvertLowestOne_le [of h] by (auto simp: GetSkipHeight_def)
qed

function GetAncestor_loop :: "block_tree \<Rightarrow> nat \<Rightarrow> nat \<Rightarrow> nat \<Rightarrow> nat option" where
  "GetAncestor_loop T height pindexWalk heightWalk =
     (if heightWalk > height
      then do {
        i \<leftarrow> T pindexWalk;
        let heightSkip = GetSkipHeight heightWalk;
        let heightSkipPrev = GetSkipHeight (heightWalk - 1);
        if pskip i \<noteq> None \<and>
           (heightSkip = height \<or>
            (heightSkip > height \<and> \<not> (int heightSkipPrev < int heightSkip - 2 \<and> heightSkipPrev \<ge> height)))
        then GetAncestor_loop T height (the (pskip i)) heightSkip
        else (case pprev i of None \<Rightarrow> None
              | Some q \<Rightarrow> GetAncestor_loop T height q (heightWalk - 1)) }
      else Some pindexWalk)"
  by pat_completeness auto
termination
  by (relation "measure (\<lambda>(T, height, p, heightWalk). heightWalk)") (auto intro: GetSkipHeight_less)

declare GetAncestor_loop.simps [simp del]

definition GetAncestor :: "block_tree \<Rightarrow> nat \<Rightarrow> int \<Rightarrow> ptr option" where
  "GetAncestor T p height = do {
     i \<leftarrow> T p;
     if height > int (nHeight i) \<or> height < 0 then Some None
     else map_option Some (GetAncestor_loop T (nat height) p (nHeight i)) }"

definition BuildSkip :: "block_tree \<Rightarrow> CBlockIndex \<Rightarrow> CBlockIndex option" where
  "BuildSkip T i = (case pprev i of None \<Rightarrow> Some i
     | Some q \<Rightarrow> do { s \<leftarrow> GetAncestor T q (int (GetSkipHeight (nHeight i))); Some (i\<lparr>pskip := s\<rparr>) })"

section \<open>Work\<close>

definition GetBlockProof :: "u32 \<Rightarrow> uint_error + limbs" where
  "GetBlockProof nBits =
     (let (bnTarget, fNegative, fOverflow) = SetCompact nBits
      in if fNegative \<or> fOverflow \<or> EqualTo bnTarget 0 then Inr (bu_of_u64 WIDTH 0)
         else case bu_div (bu_not bnTarget) (bu_add64 bnTarget 1) of
                Inl e \<Rightarrow> Inl e
              | Inr q \<Rightarrow> Inr (bu_add64 q 1))"

definition GetBlockProofEquivalentTime :: "CBlockIndex \<Rightarrow> CBlockIndex \<Rightarrow> CBlockIndex \<Rightarrow> u64 \<Rightarrow> uint_error + int" where
  "GetBlockProofEquivalentTime to from' tip nPowTargetSpacing =
     (let (r, sign) = (if CompareTo (nChainWork to) (nChainWork from') > 0
                       then (bu_sub (nChainWork to) (nChainWork from'), 1 :: int)
                       else (bu_sub (nChainWork from') (nChainWork to), - 1))
      in case GetBlockProof (idx_nBits tip) of
           Inl e \<Rightarrow> Inl e
         | Inr proof \<Rightarrow>
             (case bu_div (bu_mul r (bu_of_u64 WIDTH nPowTargetSpacing)) proof of
                Inl e \<Rightarrow> Inl e
              | Inr r \<Rightarrow>
                  if bu_bits r > 63 then Inr (sign * (2 ^ 63 - 1))
                  else Inr (sint (word_of_int sign * GetLow64 r))))"

section \<open>Common ancestors\<close>

text \<open>\<open>(pa != pb && pa && pb)\<close> guards the walk; the assertion after it fails when only one pointer
  has become null.\<close>

partial_function (option) LastCommonAncestor_loop :: "block_tree \<Rightarrow> ptr \<Rightarrow> ptr \<Rightarrow> ptr option" where
  "LastCommonAncestor_loop T pa pb =
     (if pa \<noteq> pb \<and> pa \<noteq> None \<and> pb \<noteq> None
      then do { ia \<leftarrow> T (the pa); ib \<leftarrow> T (the pb); LastCommonAncestor_loop T (pprev ia) (pprev ib) }
      else if pa = pb then Some pa else None)"

definition LastCommonAncestor :: "block_tree \<Rightarrow> nat \<Rightarrow> nat \<Rightarrow> ptr option" where
  "LastCommonAncestor T pa pb = do {
     ia \<leftarrow> T pa;
     ib \<leftarrow> T pb;
     if nHeight ia > nHeight ib
     then do { pa' \<leftarrow> GetAncestor T pa (int (nHeight ib)); LastCommonAncestor_loop T pa' (Some pb) }
     else if nHeight ib > nHeight ia
     then do { pb' \<leftarrow> GetAncestor T pb (int (nHeight ia)); LastCommonAncestor_loop T (Some pa) pb' }
     else LastCommonAncestor_loop T (Some pa) (Some pb) }"

section \<open>The active chain\<close>

text \<open>\<open>CChain\<close> is its vector of pointers; \<open>resize\<close> fills with null pointers.\<close>

type_synonym CChain = "ptr list"

definition chain_Genesis :: "CChain \<Rightarrow> ptr" where
  "chain_Genesis vChain = (if length vChain > 0 then vChain ! 0 else None)"

definition chain_Tip :: "CChain \<Rightarrow> ptr" where
  "chain_Tip vChain = (if length vChain > 0 then vChain ! (length vChain - 1) else None)"

definition chain_at :: "CChain \<Rightarrow> int \<Rightarrow> ptr" where
  "chain_at vChain h = (if h < 0 \<or> h \<ge> int (length vChain) then None else vChain ! nat h)"

definition chain_Height :: "CChain \<Rightarrow> int" where
  "chain_Height vChain = int (length vChain) - 1"

definition chain_Contains :: "block_tree \<Rightarrow> CChain \<Rightarrow> nat \<Rightarrow> bool option" where
  "chain_Contains T vChain p = do { i \<leftarrow> T p; Some (chain_at vChain (int (nHeight i)) = Some p) }"

definition chain_Next :: "block_tree \<Rightarrow> CChain \<Rightarrow> nat \<Rightarrow> ptr option" where
  "chain_Next T vChain p = do {
     c \<leftarrow> chain_Contains T vChain p;
     i \<leftarrow> T p;
     Some (if c then chain_at vChain (int (nHeight i) + 1) else None) }"

definition resize_vec :: "nat \<Rightarrow> 'a option list \<Rightarrow> 'a option list" where
  "resize_vec n v = take n v @ replicate (n - length v) None"

text \<open>An access past the end of the vector is undefined: the walk does not return.\<close>

partial_function (option) SetTip_loop :: "block_tree \<Rightarrow> CChain \<Rightarrow> ptr \<Rightarrow> CChain option" where
  "SetTip_loop T vChain p = (case p of None \<Rightarrow> Some vChain
     | Some q \<Rightarrow> do {
         i \<leftarrow> T q;
         if nHeight i \<ge> length vChain then None
         else if vChain ! nHeight i \<noteq> Some q
         then SetTip_loop T (vChain[nHeight i := Some q]) (pprev i)
         else Some vChain })"

definition SetTip :: "block_tree \<Rightarrow> CChain \<Rightarrow> ptr \<Rightarrow> CChain option" where
  "SetTip T vChain pindex = (case pindex of None \<Rightarrow> Some []
     | Some p \<Rightarrow> do { i \<leftarrow> T p; SetTip_loop T (resize_vec (nHeight i + 1) vChain) (Some p) })"

partial_function (option) GetLocator_loop ::
  "block_tree \<Rightarrow> CChain \<Rightarrow> int \<Rightarrow> uint256 list \<Rightarrow> ptr \<Rightarrow> uint256 list option" where
  "GetLocator_loop T vChain nStep vHave pindex = (case pindex of None \<Rightarrow> Some vHave
     | Some p \<Rightarrow> do {
         i \<leftarrow> T p;
         h \<leftarrow> GetBlockHash i;
         let vHave' = vHave @ [h];
         if nHeight i = 0 then Some vHave'
         else do {
           let height = max (int (nHeight i) - nStep) 0;
           c \<leftarrow> chain_Contains T vChain p;
           next \<leftarrow> (if c then Some (chain_at vChain height) else GetAncestor T p height);
           GetLocator_loop T vChain (if length vHave' > 10 then nStep * 2 else nStep) vHave' next } })"

definition GetLocator :: "block_tree \<Rightarrow> CChain \<Rightarrow> ptr \<Rightarrow> uint256 list option" where
  "GetLocator T vChain pindex =
     GetLocator_loop T vChain 1 [] (if pindex = None then chain_Tip vChain else pindex)"

partial_function (option) FindFork_loop :: "block_tree \<Rightarrow> CChain \<Rightarrow> ptr \<Rightarrow> ptr option" where
  "FindFork_loop T vChain pindex = (case pindex of None \<Rightarrow> Some None
     | Some p \<Rightarrow> do {
         c \<leftarrow> chain_Contains T vChain p;
         if \<not> c then T p \<bind> (\<lambda>i. FindFork_loop T vChain (pprev i)) else Some (Some p) })"

definition FindFork :: "block_tree \<Rightarrow> CChain \<Rightarrow> ptr \<Rightarrow> ptr option" where
  "FindFork T vChain pindex = (case pindex of None \<Rightarrow> Some None
     | Some p \<Rightarrow> do {
         i \<leftarrow> T p;
         q \<leftarrow> (if int (nHeight i) > chain_Height vChain then GetAncestor T p (chain_Height vChain)
              else Some (Some p));
         FindFork_loop T vChain q })"

text \<open>\<open>std::lower_bound\<close>: the binary search over the range of \<open>n\<close> elements starting at \<open>first\<close>.\<close>

function lower_bound :: "('a \<Rightarrow> bool option) \<Rightarrow> 'a list \<Rightarrow> nat \<Rightarrow> nat \<Rightarrow> nat option" where
  "lower_bound lt xs first n =
     (if n > 0
      then do {
        let half = n div 2;
        b \<leftarrow> lt (xs ! (first + half));
        if b then lower_bound lt xs (first + half + 1) (n - half - 1)
        else lower_bound lt xs first half }
      else Some first)"
  by pat_completeness auto
termination
  by (relation "measure (\<lambda>(lt, xs, first, n). n)") auto

declare lower_bound.simps [simp del]

definition FindEarliestAtLeast :: "block_tree \<Rightarrow> CChain \<Rightarrow> int \<Rightarrow> ptr option" where
  "FindEarliestAtLeast T vChain nTime = do {
     lower \<leftarrow> lower_bound (\<lambda>b. case b of None \<Rightarrow> None
                | Some p \<Rightarrow> map_option (\<lambda>i. uint (nTimeMax i) < nTime) (T p)) vChain 0 (length vChain);
     Some (if lower = length vChain then None else vChain ! lower) }"

section \<open>Adding a header to the tree\<close>

text \<open>The state of \<open>CChainState\<close> that \<open>AddToBlockIndex\<close> works on; \<open>new\<close> takes the next address.\<close>

record ChainState =
  cs_tree :: block_tree
  cs_next :: nat
  mapBlockIndex :: "uint256 \<Rightarrow> nat option"
  pindexBestHeader :: ptr
  setDirtyBlockIndex :: "nat set"

definition link_prev :: "block_tree \<Rightarrow> ptr \<Rightarrow> CBlockIndex \<Rightarrow> CBlockIndex option" where
  "link_prev T miPrev i = (case miPrev of None \<Rightarrow> Some i
     | Some q \<Rightarrow> do { j \<leftarrow> T q; BuildSkip T (i\<lparr>pprev := Some q, nHeight := nHeight j + 1\<rparr>) })"

definition chain_totals :: "block_tree \<Rightarrow> CBlockIndex \<Rightarrow> CBlockIndex option" where
  "chain_totals T i = do {
     prev \<leftarrow> (case pprev i of None \<Rightarrow> Some None | Some q \<Rightarrow> map_option Some (T q));
     w \<leftarrow> (case GetBlockProof (idx_nBits i) of Inl e \<Rightarrow> None | Inr w \<Rightarrow> Some w);
     Some (i\<lparr>nTimeMax := (case prev of None \<Rightarrow> idx_nTime i | Some j \<Rightarrow> max (nTimeMax j) (idx_nTime i)),
             nChainWork := bu_add (case prev of None \<Rightarrow> bu_of_u64 WIDTH 0 | Some j \<Rightarrow> nChainWork j) w\<rparr>) }"

definition AddToBlockIndex :: "hasher \<Rightarrow> 'a CBlockHeader_scheme \<Rightarrow> ChainState \<Rightarrow> (nat \<times> ChainState) option" where
  "AddToBlockIndex H block s =
     (let hash = header_GetHash H block
      in case mapBlockIndex s hash of Some p \<Rightarrow> Some (p, s)
      | None \<Rightarrow> do {
          let p = cs_next s;
          let i0 = (CBlockIndex_of_header block)\<lparr>nSequenceId := 0, phashBlock := Some hash\<rparr>;
          let m = (mapBlockIndex s)(hash \<mapsto> p);
          let T = (cs_tree s)(p \<mapsto> i0);
          i1 \<leftarrow> link_prev T (m (hashPrevBlock block)) i0;
          i2 \<leftarrow> chain_totals T i1;
          (_, i3) \<leftarrow> RaiseValidity BLOCK_VALID_TREE i2;
          best \<leftarrow> (case pindexBestHeader s of None \<Rightarrow> Some (Some p)
                  | Some b \<Rightarrow> do { j \<leftarrow> (T(p \<mapsto> i3)) b;
                               Some (if CompareTo (nChainWork j) (nChainWork i3) < 0 then Some p else Some b) });
          Some (p, s\<lparr>cs_tree := T(p \<mapsto> i3), cs_next := p + 1, mapBlockIndex := m,
                     pindexBestHeader := best, setDirtyBlockIndex := insert p (setDirtyBlockIndex s)\<rparr>) })"

section \<open>Well-formed trees\<close>

fun prev_n :: "block_tree \<Rightarrow> nat \<Rightarrow> nat \<Rightarrow> nat option" where
  "prev_n T 0 p = Some p"
| "prev_n T (Suc k) p = T p \<bind> (\<lambda>i. pprev i \<bind> prev_n T k)"

text \<open>Heights count the way to a root, and skip pointers point to the ancestor they claim to.\<close>

definition wf_entry :: "block_tree \<Rightarrow> nat \<Rightarrow> CBlockIndex \<Rightarrow> bool" where
  "wf_entry T p i \<longleftrightarrow>
     (case pprev i of None \<Rightarrow> nHeight i = 0 | Some q \<Rightarrow> \<exists>j. T q = Some j \<and> nHeight i = Suc (nHeight j)) \<and>
     (\<forall>s. pskip i = Some s \<longrightarrow>
        GetSkipHeight (nHeight i) < nHeight i \<and> prev_n T (nHeight i - GetSkipHeight (nHeight i)) p = Some s)"

definition wf_tree :: "block_tree \<Rightarrow> bool" where
  "wf_tree T \<longleftrightarrow> (\<forall>p i. T p = Some i \<longrightarrow> wf_entry T p i)"

definition ancestor_at :: "block_tree \<Rightarrow> nat \<Rightarrow> nat \<Rightarrow> nat option" where
  "ancestor_at T p h = T p \<bind> (\<lambda>i. if h \<le> nHeight i then prev_n T (nHeight i - h) p else None)"

lemma prev_n_add: "prev_n T (a + b) p = prev_n T a p \<bind> prev_n T b"
  by (induction a arbitrary: p) (auto simp: bind_assoc split: Option.bind_splits)

lemma wf_prev:
  assumes "wf_tree T" "T p = Some i" "pprev i = Some q"
  obtains j where "T q = Some j" "nHeight i = Suc (nHeight j)"
  using assms unfolding wf_tree_def wf_entry_def by fastforce

lemma wf_root: "wf_tree T \<Longrightarrow> T p = Some i \<Longrightarrow> pprev i = None \<Longrightarrow> nHeight i = 0"
  unfolding wf_tree_def wf_entry_def by fastforce

lemma prev_n_ex:
  assumes "wf_tree T"
  shows "T p = Some i \<Longrightarrow> k \<le> nHeight i \<Longrightarrow>
    \<exists>q j. prev_n T k p = Some q \<and> T q = Some j \<and> nHeight j = nHeight i - k"
proof (induction k arbitrary: p i)
  case (Suc k)
  then obtain q where q: "pprev i = Some q" using wf_root [OF assms Suc.prems(1)] by (cases "pprev i") auto
  obtain j where j: "T q = Some j" "nHeight i = Suc (nHeight j)" by (rule wf_prev [OF assms Suc.prems(1) q])
  show ?case using Suc.IH [OF j(1)] Suc.prems j(2) by (simp add: q)
qed simp

lemma GetAncestor_loop_spec:
  assumes wf: "wf_tree T"
  shows "T p = Some i \<Longrightarrow> nHeight i = hw \<Longrightarrow> h \<le> hw \<Longrightarrow> GetAncestor_loop T h p hw = prev_n T (hw - h) p"
proof (induction hw arbitrary: p i rule: less_induct)
  case (less hw)
  show ?case
  proof (cases "hw > h")
    case False
    then show ?thesis using less.prems by (subst GetAncestor_loop.simps) simp
  next
    case True
    let ?s = "GetSkipHeight hw"
    have skip: "prev_n T (hw - ?s) p = Some s" "?s < hw" if "pskip i = Some s" for s
      using that wf less.prems(1,2) by (auto simp: wf_tree_def wf_entry_def)
    have go_skip: "GetAncestor_loop T h s ?s = prev_n T (hw - h) p" if "pskip i = Some s" "h \<le> ?s" for s
    proof -
      note sk = skip [OF that(1)]
      obtain j where "T s = Some j" "nHeight j = ?s"
        using prev_n_ex [OF wf less.prems(1), of "hw - ?s"] sk less.prems(2) by auto
      then have "GetAncestor_loop T h s ?s = prev_n T (?s - h) s" using less.IH sk(2) that(2) by blast
      also have "\<dots> = prev_n T ((hw - ?s) + (?s - h)) p" by (simp only: prev_n_add sk(1)) simp
      finally show ?thesis using that(2) sk(2) by simp
    qed
    have "hw \<noteq> 0" using True by simp
    then obtain q where q: "pprev i = Some q" using wf_root [OF wf less.prems(1)] less.prems(2) by (cases "pprev i") auto
    obtain j where j: "T q = Some j" "hw = Suc (nHeight j)" using wf_prev [OF wf less.prems(1) q] less.prems(2) by blast
    have go_prev: "GetAncestor_loop T h q (hw - 1) = prev_n T (hw - h) p"
    proof -
      have e: "hw - h = Suc (hw - 1 - h)" "hw - 1 < hw" "h \<le> hw - 1" "nHeight j = hw - 1"
        using True j(2) by simp_all
      have "GetAncestor_loop T h q (hw - 1) = prev_n T (hw - 1 - h) q"
        by (rule less.IH [OF e(2) j(1) e(4,3)])
      then show ?thesis unfolding e(1) by (simp add: less.prems(1) q)
    qed
    show ?thesis
    proof (cases "pskip i")
      case None
      then show ?thesis using True less.prems(1) go_prev q
        by (subst GetAncestor_loop.simps) (simp add: Let_def)
    next
      case (Some s)
      have "h \<le> ?s \<Longrightarrow> GetAncestor_loop T h s ?s = prev_n T (hw - h) p" by (rule go_skip [OF Some])
      then show ?thesis using True less.prems(1) go_prev q Some
        by (subst GetAncestor_loop.simps) (auto simp: Let_def)
    qed
  qed
qed

text \<open>The skip list finds what the walk along \<open>pprev\<close> finds.\<close>

lemma GetAncestor_spec:
  assumes "wf_tree T" "T p = Some i"
  shows "GetAncestor T p h = Some (if 0 \<le> h then ancestor_at T p (nat h) else None)"
  using assms GetAncestor_loop_spec [OF assms refl, of "nat h"] prev_n_ex [OF assms, of "nHeight i - nat h"]
  by (auto simp: GetAncestor_def ancestor_at_def)

lemma ancestor_at_ex:
  assumes "wf_tree T" "T p = Some i" "h \<le> nHeight i"
  obtains q j where "ancestor_at T p h = Some q" "T q = Some j" "nHeight j = h"
  using prev_n_ex [OF assms(1,2), of "nHeight i - h"] assms by (auto simp: ancestor_at_def)

text \<open>Adding an entry at a fresh address leaves the old entries well formed.\<close>

lemma prev_n_dom: "prev_n T k p = Some q \<Longrightarrow> k \<noteq> 0 \<Longrightarrow> T p \<noteq> None"
  by (cases k) (auto split: Option.bind_splits)

lemma prev_n_fresh:
  assumes "wf_tree T" "T x = None" "T p \<noteq> None"
  shows "prev_n (T(x \<mapsto> i)) k p = prev_n T k p"
  using assms(3)
proof (induction k arbitrary: p)
  case (Suc k)
  then obtain j where j: "T p = Some j" by auto
  with assms(2) have "p \<noteq> x" by auto
  have "prev_n (T(x \<mapsto> i)) k q = prev_n T k q" if "pprev j = Some q" for q
    by (rule Suc.IH) (use wf_prev [OF assms(1) j that] in auto)
  with j \<open>p \<noteq> x\<close> show ?case by (cases "pprev j") (simp_all add: fun_upd_other del: fun_upd_apply)
qed simp

lemma wf_entry_fresh:
  assumes "wf_tree T" "T x = None" "T p = Some j"
  shows "wf_entry (T(x \<mapsto> i)) p j"
proof -
  have "wf_entry T p j" using assms by (simp add: wf_tree_def)
  moreover have "pprev j = Some q \<Longrightarrow> T q = Some k \<Longrightarrow> q \<noteq> x" for q k using assms(2) by auto
  ultimately show ?thesis unfolding wf_entry_def
    using assms prev_n_fresh [OF assms(1,2), of p i] by (auto split: option.splits)
qed

lemma ancestor_at_fresh:
  assumes "wf_tree T" "T x = None" "T p \<noteq> None"
  shows "ancestor_at (T(x \<mapsto> i)) p h = ancestor_at T p h"
  using assms by (auto simp: ancestor_at_def prev_n_fresh)

lemma wf_tree_add:
  assumes "wf_tree T" "T x = None" "wf_entry (T(x \<mapsto> i)) x i"
  shows "wf_tree (T(x \<mapsto> i))"
  unfolding wf_tree_def
proof (intro allI impI)
  fix p j
  assume "(T(x \<mapsto> i)) p = Some j"
  then show "wf_entry (T(x \<mapsto> i)) p j"
    using assms(3) wf_entry_fresh [OF assms(1,2), of p j i] by (cases "p = x") simp_all
qed

text \<open>\<open>BuildSkip\<close> gives the new entry the skip pointer the invariant asks for.\<close>

lemma BuildSkip_wf:
  assumes wf: "wf_tree T" and x: "T x = None" and q: "T q = Some j"
    and i: "pprev i = Some q" "nHeight i = Suc (nHeight j)"
  obtains s where "BuildSkip T i = Some (i\<lparr>pskip := Some s\<rparr>)"
    "\<And>i'. pprev i' = Some q \<Longrightarrow> nHeight i' = nHeight i \<Longrightarrow> pskip i' = Some s \<Longrightarrow> wf_tree (T(x \<mapsto> i'))"
proof -
  let ?h = "GetSkipHeight (nHeight i)"
  have h: "?h < nHeight i" using i(2) by (intro GetSkipHeight_less) simp
  then have le: "?h \<le> nHeight j" using i(2) by simp
  obtain s k where s: "ancestor_at T q ?h = Some s" "T s = Some k" by (rule ancestor_at_ex [OF wf q le])
  have "wf_tree (T(x \<mapsto> i'))" if "pprev i' = Some q" "nHeight i' = nHeight i" "pskip i' = Some s" for i'
  proof (rule wf_tree_add [OF wf x])
    have "nHeight i - ?h = Suc (nHeight j - ?h)" using le i(2) by simp
    moreover have "prev_n T (nHeight j - ?h) q = Some s" using s(1) q le by (simp add: ancestor_at_def)
    moreover have "q \<noteq> x" using q x by auto
    ultimately show "wf_entry (T(x \<mapsto> i')) x i'"
      using that h q i(2) by (simp add: wf_entry_def prev_n_fresh [OF wf x])
  qed
  moreover have "BuildSkip T i = Some (i\<lparr>pskip := Some s\<rparr>)"
    using s(1) by (simp add: BuildSkip_def i(1) GetAncestor_spec [OF wf q])
  ultimately show ?thesis by (rule that [rotated])
qed

section \<open>The work of a block\<close>

text \<open>\<open>2^256 div (target + 1)\<close>, which does not fit the integers it is computed with; the division
  never fails.\<close>

definition block_work :: "u32 \<Rightarrow> nat" where
  "block_work c = (case SetCompact c of (t, neg, ovf) \<Rightarrow>
     if neg \<or> ovf \<or> bu_val t = 0 then 0 else 2 ^ 256 div (bu_val t + 1))"

lemma complement_div: "0 < t \<Longrightarrow> (2 ^ 256 - 1 - t) div (t + 1) + 1 = (2 ^ 256 :: nat) div (t + 1)"
  if "t < 2 ^ 256"
proof -
  have "2 ^ 256 = (2 ^ 256 - 1 - t) + (t + 1)" using that by simp
  then show ?thesis by (metis div_add_self2 add_is_0 one_neq_zero)
qed

lemma GetBlockProof_work:
  obtains w where "GetBlockProof c = Inr w" "length w = WIDTH" "bu_val w = block_work c"
proof -
  obtain t neg ovf where t: "SetCompact c = (t, neg, ovf)" by (metis prod_cases3)
  note spec = SetCompact_spec [OF t]
  show ?thesis
  proof (cases "neg \<or> ovf \<or> bu_val t = 0")
    case True
    then show ?thesis
      by (intro that [of "bu_of_u64 WIDTH 0"])
        (auto simp: GetBlockProof_def block_work_def t EqualTo_0 [OF spec(1)] value_simps length_simps WIDTH_def)
  next
    case False
    have lt: "bu_val t < 2 ^ 256" using bu_val_bound [of t] spec(1) by (simp add: WIDTH_def)
    have lt': "bu_val t + 1 < 2 ^ 256"
      using lt False spec(3) compact_val_not_max [of c] by (simp add: less_Suc_eq)
    have den: "bu_val (bu_add64 t 1) = bu_val t + 1"
      using spec(1) lt' by (simp add: bu_add64_def value_simps length_simps WIDTH_def)
    have num: "bu_val (bu_not t) = 2 ^ 256 - 1 - bu_val t"
      using bu_val_not [of t] spec(1) by (simp add: WIDTH_def)
    obtain q where q: "bu_div (bu_not t) (bu_add64 t 1) = Inr q" "length q = WIDTH"
        "bu_val q = (2 ^ 256 - 1 - bu_val t) div (bu_val t + 1)"
      using bu_val_div [of "bu_not t" "bu_add64 t 1"] den num spec(1)
      by (auto simp: bu_add64_def length_simps WIDTH_def)
    have sum: "bu_val q + 1 = 2 ^ 256 div (bu_val t + 1)"
      using complement_div [of "bu_val t"] lt False q(3) by simp
    have "(2 ^ 256 :: nat) div (bu_val t + 1) < 2 ^ 256" using False by (intro div_less_dividend) auto
    then have "bu_val (bu_add64 q 1) = 2 ^ 256 div (bu_val t + 1)"
      using q(2) sum by (simp add: bu_add64_def value_simps length_simps WIDTH_def)
    then show ?thesis using False q
      by (intro that [of "bu_add64 q 1"])
        (auto simp: GetBlockProof_def block_work_def t EqualTo_0 [OF spec(1)] bu_add64_def length_simps WIDTH_def)
  qed
qed

section \<open>The invariant of the header tree\<close>

text \<open>Times never decrease along the tree in \<open>nTimeMax\<close>, and the accumulated work of an entry is that
  of its parent plus its own.\<close>

definition totals_ok :: "block_tree \<Rightarrow> CBlockIndex \<Rightarrow> bool" where
  "totals_ok T i \<longleftrightarrow>
     length (nChainWork i) = WIDTH \<and> idx_nTime i \<le> nTimeMax i \<and>
     (\<forall>q j. pprev i = Some q \<longrightarrow> T q = Some j \<longrightarrow>
        nTimeMax j \<le> nTimeMax i \<and>
        bu_val (nChainWork i) = (bu_val (nChainWork j) + block_work (idx_nBits i)) mod 2 ^ 256)"

definition cs_inv :: "ChainState \<Rightarrow> bool" where
  "cs_inv s \<longleftrightarrow> wf_tree (cs_tree s) \<and>
     (\<forall>p. cs_next s \<le> p \<longrightarrow> cs_tree s p = None) \<and>
     (\<forall>p i. cs_tree s p = Some i \<longrightarrow> totals_ok (cs_tree s) i) \<and>
     (\<forall>h p. mapBlockIndex s h = Some p \<longrightarrow> (\<exists>i. cs_tree s p = Some i \<and> phashBlock i = Some h)) \<and>
     (\<forall>b. pindexBestHeader s = Some b \<longrightarrow> cs_tree s b \<noteq> None)"

lemma totals_ok_fresh:
  assumes "wf_tree T" "T x = None" "T p = Some j" "totals_ok T j"
  shows "totals_ok (T(x \<mapsto> i)) j"
proof -
  have "pprev j \<noteq> Some x" using wf_prev [OF assms(1,3), of x] assms(2) by auto
  then show ?thesis using assms(4) by (auto simp: totals_ok_def)
qed

lemma BLOCK_VALID_TREE_mask: "BLOCK_VALID_TREE AND NOT BLOCK_VALID_MASK = 0"
  by (simp add: BLOCK_VALID_TREE_def BLOCK_VALID_MASK_def BLOCK_VALID_HEADER_def
      BLOCK_VALID_TRANSACTIONS_def BLOCK_VALID_CHAIN_def BLOCK_VALID_SCRIPTS_def)

lemma RaiseValidity_TREE:
  "nStatus i = 0 \<Longrightarrow> RaiseValidity BLOCK_VALID_TREE i = Some (True, i\<lparr>nStatus := BLOCK_VALID_TREE\<rparr>)"
  unfolding RaiseValidity_def BLOCK_VALID_TREE_mask by (simp add: BLOCK_VALID_TREE_def)

lemma chain_totals_ok:
  assumes "\<And>q. pprev i = Some q \<Longrightarrow> \<exists>j. T q = Some j \<and> length (nChainWork j) = WIDTH"
  obtains w t where "chain_totals T i = Some (i\<lparr>nTimeMax := t, nChainWork := w\<rparr>)"
    "totals_ok T (i\<lparr>nTimeMax := t, nChainWork := w\<rparr>)"
    "pprev i = None \<Longrightarrow> bu_val w = block_work (idx_nBits i)"
proof -
  obtain p where p: "GetBlockProof (idx_nBits i) = Inr p" "length p = WIDTH" "bu_val p = block_work (idx_nBits i)"
    by (rule GetBlockProof_work)
  show ?thesis
  proof (cases "pprev i")
    case None
    have "bu_val p < 2 ^ 256" using bu_val_bound [of p] p(2) by (simp add: WIDTH_def)
    with None p show ?thesis
      by (intro that [of "bu_add (bu_of_u64 WIDTH 0) p" "idx_nTime i"])
        (simp_all add: chain_totals_def totals_ok_def value_simps length_simps WIDTH_def)
  next
    case (Some q)
    then obtain j where "T q = Some j" "length (nChainWork j) = WIDTH" using assms by blast
    with Some p show ?thesis
      by (intro that [of "bu_add (nChainWork j) p" "max (nTimeMax j) (idx_nTime i)"])
        (simp_all add: chain_totals_def totals_ok_def value_simps length_simps WIDTH_def)
  qed
qed

lemma wf_entry_root: "pprev i = None \<Longrightarrow> pskip i = None \<Longrightarrow> nHeight i = 0 \<Longrightarrow> wf_entry T p i"
  by (simp add: wf_entry_def)

lemma link_prev_ok:
  assumes wf: "wf_tree T" and x: "T x = None" and i: "pprev i = None" "pskip i = None" "nHeight i = 0"
    and q: "\<And>q. miPrev = Some q \<Longrightarrow> T q \<noteq> None"
  obtains sk h where "link_prev (T(x \<mapsto> i)) miPrev i = Some (i\<lparr>pprev := miPrev, nHeight := h, pskip := sk\<rparr>)"
    "\<And>i'. pprev i' = miPrev \<Longrightarrow> nHeight i' = h \<Longrightarrow> pskip i' = sk \<Longrightarrow> wf_tree (T(x \<mapsto> i'))"
proof (cases miPrev)
  case None
  then show ?thesis
    using wf_tree_add [OF wf x wf_entry_root] i by (intro that [of None 0]) (simp_all add: link_prev_def)
next
  case (Some q)
  then obtain j where j: "T q = Some j" using assms(6) by auto
  let ?i = "i\<lparr>pprev := Some q, nHeight := nHeight j + 1\<rparr>"
  have wf': "wf_tree (T(x \<mapsto> i))" by (rule wf_tree_add [OF wf x wf_entry_root [OF i]])
  have qx: "q \<noteq> x" using j x by auto
  obtain s where s: "BuildSkip T ?i = Some (?i\<lparr>pskip := Some s\<rparr>)"
    "\<And>i'. pprev i' = Some q \<Longrightarrow> nHeight i' = nHeight ?i \<Longrightarrow> pskip i' = Some s \<Longrightarrow> wf_tree (T(x \<mapsto> i'))"
    by (rule BuildSkip_wf [OF wf x j, of ?i]) simp_all
  have "GetAncestor (T(x \<mapsto> i)) q (int h) = GetAncestor T q (int h)" for h
    using j qx wf by (simp add: GetAncestor_spec [OF wf'] GetAncestor_spec [OF wf] ancestor_at_fresh [OF wf x])
  then have "BuildSkip (T(x \<mapsto> i)) ?i = BuildSkip T ?i" by (simp add: BuildSkip_def)
  then show ?thesis using s j qx Some by (intro that [of "Some s" "nHeight j + 1"]) (simp_all add: link_prev_def)
qed

text \<open>Adding a header whose parent hash is not its own hash keeps the invariant, and the entry is
  found under its hash afterwards.\<close>

lemma AddToBlockIndex_inv:
  assumes inv: "cs_inv s" and ne: "hashPrevBlock block \<noteq> header_GetHash H block"
  obtains p s' where "AddToBlockIndex H block s = Some (p, s')" "cs_inv s'"
    "mapBlockIndex s' = (mapBlockIndex s)(header_GetHash H block \<mapsto> p)"
proof (cases "mapBlockIndex s (header_GetHash H block)")
  case (Some p)
  then show ?thesis using inv by (intro that [of p s]) (auto simp: AddToBlockIndex_def Let_def)
next
  case None
  define hash where "hash = header_GetHash H block"
  define x where "x = cs_next s"
  define T where "T = cs_tree s"
  define m where "m = (mapBlockIndex s)(hash \<mapsto> x)"
  define i0 where "i0 = (CBlockIndex_of_header block)\<lparr>nSequenceId := 0, phashBlock := Some hash\<rparr>"
  have i0: "pprev i0 = None" "pskip i0 = None" "nHeight i0 = 0" "nStatus i0 = 0" "phashBlock i0 = Some hash"
    by (simp_all add: i0_def CBlockIndex_of_header_def CBlockIndex_SetNull_def)
  have wf: "wf_tree T" and x: "T x = None" and fresh: "\<And>p. x \<le> p \<Longrightarrow> T p = None"
    and tot: "\<And>p i. T p = Some i \<Longrightarrow> totals_ok T i"
    and hashes: "\<And>h p. mapBlockIndex s h = Some p \<Longrightarrow> \<exists>i. T p = Some i \<and> phashBlock i = Some h"
    and best: "\<And>b. pindexBestHeader s = Some b \<Longrightarrow> T b \<noteq> None"
    using inv by (auto simp: cs_inv_def T_def x_def)
  have prev: "T q \<noteq> None" if "m (hashPrevBlock block) = Some q" for q
    using that hashes ne by (auto simp: m_def hash_def split: if_splits)
  obtain sk h where link: "link_prev (T(x \<mapsto> i0)) (m (hashPrevBlock block)) i0 =
      Some (i0\<lparr>pprev := m (hashPrevBlock block), nHeight := h, pskip := sk\<rparr>)"
    and wf_new: "\<And>i'. pprev i' = m (hashPrevBlock block) \<Longrightarrow> nHeight i' = h \<Longrightarrow> pskip i' = sk \<Longrightarrow> wf_tree (T(x \<mapsto> i'))"
    using link_prev_ok [OF wf x i0(1-3), of "m (hashPrevBlock block)"] prev by blast
  define i1 where "i1 = i0\<lparr>pprev := m (hashPrevBlock block), nHeight := h, pskip := sk\<rparr>"
  have par: "\<exists>j. (T(x \<mapsto> i0)) q = Some j \<and> length (nChainWork j) = WIDTH" if "pprev i1 = Some q" for q
    using prev [of q] that x tot [of q] by (auto simp: i1_def totals_ok_def)
  obtain w t where totals: "chain_totals (T(x \<mapsto> i0)) i1 = Some (i1\<lparr>nTimeMax := t, nChainWork := w\<rparr>)"
    and tot1: "totals_ok (T(x \<mapsto> i0)) (i1\<lparr>nTimeMax := t, nChainWork := w\<rparr>)"
    using chain_totals_ok [of i1 "T(x \<mapsto> i0)"] par by blast
  define i3 where "i3 = i1\<lparr>nTimeMax := t, nChainWork := w, nStatus := BLOCK_VALID_TREE\<rparr>"
  have raise: "RaiseValidity BLOCK_VALID_TREE (i1\<lparr>nTimeMax := t, nChainWork := w\<rparr>) = Some (True, i3)"
    using i0(4) by (subst RaiseValidity_TREE) (simp_all add: i1_def i3_def)
  have prevx: "pprev i3 \<noteq> Some x" using prev [of x] x by (auto simp: i3_def i1_def)
  have wf3: "wf_tree (T(x \<mapsto> i3))" by (rule wf_new) (simp_all add: i3_def i1_def)
  have tot3: "totals_ok (T(x \<mapsto> i3)) i3"
    using tot1 prevx by (auto simp: totals_ok_def i3_def)
  obtain b where b: "(case pindexBestHeader s of None \<Rightarrow> Some (Some x)
      | Some b \<Rightarrow> do { j \<leftarrow> ((T(x \<mapsto> i0))(x \<mapsto> i3)) b;
            Some (if CompareTo (nChainWork j) (nChainWork i3) < 0 then Some x else Some b) }) = Some (Some b)"
    "(T(x \<mapsto> i3)) b \<noteq> None"
  proof (cases "pindexBestHeader s")
    case None
    then show ?thesis by (intro that [of x]) simp_all
  next
    case (Some a)
    then obtain j where "T a = Some j" "a \<noteq> x" using best x by fastforce
    with Some show ?thesis
      by (intro that [of "if CompareTo (nChainWork j) (nChainWork i3) < 0 then x else a"]) auto
  qed
  define s' where "s' = s\<lparr>cs_tree := T(x \<mapsto> i3), cs_next := x + 1, mapBlockIndex := m,
      pindexBestHeader := Some b, setDirtyBlockIndex := insert x (setDirtyBlockIndex s)\<rparr>"
  have "AddToBlockIndex H block s = Some (x, s')"
    using None link totals raise b(1)
    by (simp add: AddToBlockIndex_def Let_def hash_def [symmetric] x_def [symmetric] T_def [symmetric]
        i0_def [symmetric] m_def [symmetric] i1_def [symmetric] s'_def del: fun_upd_apply)
  moreover have "cs_inv s'"
  proof -
    have "totals_ok (T(x \<mapsto> i3)) j" if "(T(x \<mapsto> i3)) p = Some j" for p j
      using that tot3 totals_ok_fresh [OF wf x] tot by (cases "p = x") auto
    moreover have "\<exists>i. (T(x \<mapsto> i3)) p = Some i \<and> phashBlock i = Some h" if "m h = Some p" for h p
    proof (cases "p = x")
      case True
      then have "h = hash" using that hashes [of h x] x by (auto simp: m_def split: if_splits)
      then show ?thesis using True i0(5) by (simp add: i3_def i1_def)
    next
      case False
      then show ?thesis using that hashes [of h p] by (auto simp: m_def split: if_splits)
    qed
    ultimately show ?thesis using wf3 b(2) fresh unfolding cs_inv_def s'_def by simp
  qed
  ultimately show ?thesis by (intro that [of x s']) (simp_all add: s'_def m_def hash_def)
qed

section \<open>The active chain is a path of the tree\<close>

lemma ancestor_at_self: "T p = Some i \<Longrightarrow> ancestor_at T p (nHeight i) = Some p"
  by (simp add: ancestor_at_def)

lemma ancestor_at_prev:
  assumes "T p = Some i" "pprev i = Some q" "T q = Some j" "nHeight i = Suc (nHeight j)" "h \<le> nHeight j"
  shows "ancestor_at T p h = ancestor_at T q h"
proof -
  have "Suc (nHeight j) - h = Suc (nHeight j - h)" using assms(5) by simp
  then show ?thesis using assms by (simp add: ancestor_at_def)
qed

lemma ancestor_at_above: "T p = Some i \<Longrightarrow> nHeight i < h \<Longrightarrow> ancestor_at T p h = None"
  by (simp add: ancestor_at_def)

text \<open>Up to height \<open>k\<close> the filled slots hold the block of their height, each above its parent.\<close>

definition path_upto :: "block_tree \<Rightarrow> CChain \<Rightarrow> nat \<Rightarrow> bool" where
  "path_upto T c k \<longleftrightarrow>
     (\<forall>h \<le> k. \<forall>p. c ! h = Some p \<longrightarrow>
        (\<exists>i. T p = Some i \<and> nHeight i = h \<and> (h > 0 \<longrightarrow> pprev i = c ! (h - 1))))"

definition chain_ok :: "block_tree \<Rightarrow> CChain \<Rightarrow> bool" where
  "chain_ok T c \<longleftrightarrow> (\<forall>h < length c. c ! h \<noteq> None) \<and> (c \<noteq> [] \<longrightarrow> path_upto T c (length c - 1))"

lemma path_uptoE:
  assumes "path_upto T c k" "h \<le> k" "c ! h = Some p"
  obtains i where "T p = Some i" "nHeight i = h" "h > 0 \<longrightarrow> pprev i = c ! (h - 1)"
  using assms unfolding path_upto_def by blast

lemma path_upto_ancestor:
  assumes wf: "wf_tree T"
  shows "path_upto T c k \<Longrightarrow> c ! k = Some q \<Longrightarrow> h \<le> k \<Longrightarrow> c ! h = ancestor_at T q h"
proof (induction k arbitrary: q)
  case 0
  then show ?case by (auto simp: path_upto_def ancestor_at_def)
next
  case (Suc k)
  then obtain i where i: "T q = Some i" "nHeight i = Suc k" "pprev i = c ! k"
    by (elim path_uptoE [of T c "Suc k" "Suc k"]) auto
  show ?case
  proof (cases "h = Suc k")
    case True
    then show ?thesis using Suc.prems(2) ancestor_at_self [of T q i, OF i(1)] i(2) by simp
  next
    case False
    obtain r where r: "pprev i = Some r" using wf_root [OF wf i(1)] i(2) by (cases "pprev i") auto
    obtain j where j: "T r = Some j" "nHeight i = Suc (nHeight j)" by (rule wf_prev [OF wf i(1) r])
    have "path_upto T c k" using Suc.prems(1) by (simp add: path_upto_def)
    then have "c ! h = ancestor_at T r h" using Suc.IH [of r] i(3) r Suc.prems(3) False by simp
    also have "\<dots> = ancestor_at T q h"
      using ancestor_at_prev [OF i(1) r j] Suc.prems(3) False i(2) j(2) by simp
    finally show ?thesis .
  qed
qed

lemma SetTip_loop_spec:
  assumes wf: "wf_tree T"
  shows "T q = Some i \<Longrightarrow> nHeight i = k \<Longrightarrow> k < length c \<Longrightarrow> path_upto T c k \<Longrightarrow>
    \<exists>c'. SetTip_loop T c (Some q) = Some c' \<and> length c' = length c \<and>
         (\<forall>h \<le> k. c' ! h = ancestor_at T q h) \<and> (\<forall>h > k. c' ! h = c ! h)"
proof (induction k arbitrary: q i c)
  case 0
  then show ?case
    using wf_prev [OF wf 0(1)] path_upto_ancestor [OF wf 0(4)] ancestor_at_self [of T q i, OF 0(1)]
    by (subst SetTip_loop.simps, cases "pprev i") (auto simp: SetTip_loop.simps)
next
  case (Suc k)
  show ?case
  proof (cases "c ! Suc k = Some q")
    case True
    then show ?thesis using Suc.prems path_upto_ancestor [OF wf Suc.prems(4) True]
      by (subst SetTip_loop.simps) simp
  next
    case False
    obtain r where r: "pprev i = Some r" using wf_root [OF wf Suc.prems(1)] Suc.prems(2) by (cases "pprev i") auto
    obtain j where j: "T r = Some j" "nHeight i = Suc (nHeight j)" by (rule wf_prev [OF wf Suc.prems(1) r])
    let ?c = "c[Suc k := Some q]"
    have "path_upto T ?c k" using Suc.prems(4) by (auto simp: path_upto_def)
    then obtain c' where c': "SetTip_loop T ?c (Some r) = Some c'" "length c' = length c"
        "\<forall>h \<le> k. c' ! h = ancestor_at T r h" "\<forall>h > k. c' ! h = ?c ! h"
      using Suc.IH [OF j(1), of ?c] j(2) Suc.prems(2,3) by auto
    have "SetTip_loop T c (Some q) = Some c'"
      using False Suc.prems(1-3) r c'(1) by (subst SetTip_loop.simps) simp
    moreover have "c' ! h = ancestor_at T q h" if "h \<le> Suc k" for h
    proof (cases "h = Suc k")
      case True
      then show ?thesis using c'(4) Suc.prems ancestor_at_self [of T q i, OF Suc.prems(1)] by simp
    next
      case False
      then show ?thesis using c'(3) that ancestor_at_prev [OF Suc.prems(1) r j] Suc.prems(2) j(2) by simp
    qed
    ultimately show ?thesis using c'(2,4) by auto
  qed
qed

lemma chain_ok_path:
  assumes wf: "wf_tree T" and i: "T p = Some i" and c: "length c = nHeight i + 1"
    and at: "\<And>h. h \<le> nHeight i \<Longrightarrow> c ! h = ancestor_at T p h"
  shows "chain_ok T c"
proof -
  have "\<exists>q j. c ! h = Some q \<and> T q = Some j \<and> nHeight j = h \<and> (h > 0 \<longrightarrow> pprev j = c ! (h - 1))"
    if h: "h \<le> nHeight i" for h
  proof -
    obtain q j where q: "ancestor_at T p h = Some q" "T q = Some j" "nHeight j = h"
      by (rule ancestor_at_ex [OF wf i h])
    have "pprev j = ancestor_at T p (h - 1)" if "h > 0"
    proof -
      have "nHeight i - (h - 1) = (nHeight i - h) + 1" using h that by simp
      then have "prev_n T (nHeight i - (h - 1)) p = prev_n T 1 q"
        using q(1) i h by (simp only: prev_n_add) (simp add: ancestor_at_def)
      then show ?thesis using q(2) i h by (cases "pprev j") (simp_all add: ancestor_at_def)
    qed
    then show ?thesis using q at [OF h] at [of "h - 1"] h by simp
  qed
  then show ?thesis using c by (fastforce simp: chain_ok_def path_upto_def less_Suc_eq_le)
qed

lemma SetTip_spec:
  assumes wf: "wf_tree T" and ok: "chain_ok T c" and i: "T p = Some i"
  obtains c' where "SetTip T c (Some p) = Some c'" "length c' = nHeight i + 1"
    "\<And>h. h \<le> nHeight i \<Longrightarrow> c' ! h = ancestor_at T p h" "chain_ok T c'" "chain_Tip c' = Some p"
proof -
  let ?r = "resize_vec (nHeight i + 1) c"
  have len: "length ?r = nHeight i + 1" by (simp add: resize_vec_def)
  have nth: "?r ! h = (if h < length c then c ! h else None)" if "h \<le> nHeight i" for h
    using that by (auto simp: resize_vec_def nth_append)
  have "path_upto T ?r (nHeight i)"
    unfolding path_upto_def
  proof (intro allI impI)
    fix h q
    assume h: "h \<le> nHeight i" "?r ! h = Some q"
    then have "h < length c" "c ! h = Some q" using nth [of h] by (auto split: if_splits)
    then show "\<exists>i. T q = Some i \<and> nHeight i = h \<and> (h > 0 \<longrightarrow> pprev i = ?r ! (h - 1))"
      using ok h(1) nth [of "h - 1"] by (auto simp: chain_ok_def path_upto_def)
  qed
  then obtain c' where c': "SetTip_loop T ?r (Some p) = Some c'" "length c' = nHeight i + 1"
      "\<forall>h \<le> nHeight i. c' ! h = ancestor_at T p h"
    using SetTip_loop_spec [OF wf i refl, of ?r] len by auto
  show ?thesis
    using c' i chain_ok_path [OF wf i c'(2)] ancestor_at_self [of T p i]
    by (intro that [of c']) (auto simp: SetTip_def chain_Tip_def)
qed

lemma chain_at_nth: "h < length c \<Longrightarrow> chain_at c (int h) = c ! h"
  by (simp add: chain_at_def)

lemma chain_Contains_eq: "T p = Some i \<Longrightarrow> chain_Contains T c p = Some (chain_at c (int (nHeight i)) = Some p)"
  by (simp add: chain_Contains_def)

section \<open>Forks\<close>

text \<open>\<open>r\<close> is the highest block at which the ancestors given by \<open>f\<close> and \<open>g\<close> agree, or null when they
  never do.\<close>

definition highest_common :: "(nat \<Rightarrow> ptr) \<Rightarrow> (nat \<Rightarrow> ptr) \<Rightarrow> ptr \<Rightarrow> bool" where
  "highest_common f g r \<longleftrightarrow> (case r of
       None \<Rightarrow> \<forall>h. f h = None \<or> f h \<noteq> g h
     | Some x \<Rightarrow> \<exists>h. f h = Some x \<and> g h = Some x \<and> (\<forall>h' > h. f h' = None \<or> f h' \<noteq> g h'))"

lemma highest_common_lower:
  assumes "highest_common f' g' r" "\<And>h. h \<le> k \<Longrightarrow> f h = f' h" "\<And>h. h \<le> k \<Longrightarrow> g h = g' h"
    "\<And>h. h > k \<Longrightarrow> f h = None \<or> f h \<noteq> g h" "\<And>h. h > k \<Longrightarrow> f' h = None \<or> g' h = None"
  shows "highest_common f g r"
  using assms unfolding highest_common_def
  by (cases r) (simp_all, metis linorder_not_less, metis linorder_not_less option.distinct(1))

lemma FindFork_loop_spec:
  assumes wf: "wf_tree T"
  shows "T p = Some i \<Longrightarrow> nHeight i = k \<Longrightarrow>
    \<exists>r. FindFork_loop T c (Some p) = Some r \<and> highest_common (ancestor_at T p) (\<lambda>h. chain_at c (int h)) r"
proof (induction k arbitrary: p i)
  case 0
  have root: "pprev i = None" using wf_prev [OF wf 0(1)] 0(2) by fastforce
  have anc: "ancestor_at T p h = (if h = 0 then Some p else None)" for h
    using 0 by (simp add: ancestor_at_def)
  have nil: "FindFork_loop T c None = Some None" by (simp add: FindFork_loop.simps)
  show ?case
  proof (cases "chain_at c 0 = Some p")
    case True
    then show ?thesis using 0 by (subst FindFork_loop.simps) (auto simp: chain_Contains_def highest_common_def anc)
  next
    case False
    then show ?thesis using 0 root nil
      by (subst FindFork_loop.simps) (auto simp: chain_Contains_def highest_common_def anc)
  qed
next
  case (Suc k)
  show ?case
  proof (cases "chain_at c (int (Suc k)) = Some p")
    case True
    then have "FindFork_loop T c (Some p) = Some (Some p)"
      using Suc.prems by (subst FindFork_loop.simps) (simp add: chain_Contains_def)
    moreover have "highest_common (ancestor_at T p) (\<lambda>h. chain_at c (int h)) (Some p)"
      using True Suc.prems ancestor_at_self [of T p i] ancestor_at_above [of T p i]
      unfolding highest_common_def by (simp only: option.case) (intro exI [of _ "Suc k"], simp)
    ultimately show ?thesis by blast
  next
    case False
    obtain q where q: "pprev i = Some q" using wf_root [OF wf Suc.prems(1)] Suc.prems(2) by (cases "pprev i") auto
    obtain j where j: "T q = Some j" "nHeight i = Suc (nHeight j)" by (rule wf_prev [OF wf Suc.prems(1) q])
    obtain r where r: "FindFork_loop T c (Some q) = Some r"
        "highest_common (ancestor_at T q) (\<lambda>h. chain_at c (int h)) r"
      using Suc.IH [OF j(1)] j(2) Suc.prems(2) by auto
    have "FindFork_loop T c (Some p) = Some r"
      using False Suc.prems q r(1) by (subst FindFork_loop.simps) (simp add: chain_Contains_def)
    moreover have "highest_common (ancestor_at T p) (\<lambda>h. chain_at c (int h)) r"
    proof (rule highest_common_lower [where k = k, OF r(2)])
      show "ancestor_at T p h = None \<or> ancestor_at T p h \<noteq> chain_at c (int h)" if "h > k" for h
        using that False Suc.prems ancestor_at_self [of T p i] ancestor_at_above [of T p i h]
        by (cases "h = Suc k") auto
      show "ancestor_at T q h = None \<or> chain_at c (int h) = None" if "h > k" for h
        using that ancestor_at_above [of T q j h] j Suc.prems(2) by simp
    qed (use ancestor_at_prev [OF Suc.prems(1) q j] j(2) Suc.prems(2) in auto)
    ultimately show ?thesis by blast
  qed
qed

lemma ancestor_at_trans:
  assumes wf: "wf_tree T" and i: "T p = Some i" and q: "ancestor_at T p k = Some q" and h: "h \<le> k"
  shows "ancestor_at T p h = ancestor_at T q h"
proof -
  have k: "k \<le> nHeight i" using q i by (auto simp: ancestor_at_def split: if_splits)
  obtain j where j: "T q = Some j" "nHeight j = k" using ancestor_at_ex [OF wf i k] q by auto
  have e: "nHeight i - h = (nHeight i - k) + (k - h)" using h k by simp
  have pq: "prev_n T (nHeight i - k) p = Some q" using q i k by (simp add: ancestor_at_def)
  have "prev_n T (nHeight i - h) p = prev_n T (k - h) q"
    unfolding e prev_n_add pq by simp
  then show ?thesis using h k i j by (simp add: ancestor_at_def)
qed

lemma FindFork_spec:
  assumes wf: "wf_tree T" and i: "T p = Some i"
  shows "\<exists>r. FindFork T c (Some p) = Some r \<and> highest_common (ancestor_at T p) (\<lambda>h. chain_at c (int h)) r"
proof (cases "int (nHeight i) > chain_Height c")
  case False
  then show ?thesis using FindFork_loop_spec [OF wf i refl] i by (simp add: FindFork_def)
next
  case True
  have above: "chain_at c (int h) = None" if "length c \<le> h" for h
    using that by (simp add: chain_at_def)
  show ?thesis
  proof (cases "c = []")
    case True
    then show ?thesis using wf i above
      by (auto simp: FindFork_def chain_Height_def GetAncestor_spec FindFork_loop.simps highest_common_def)
  next
    case False
    let ?k = "length c - 1"
    have k: "?k \<le> nHeight i" "chain_Height c = int ?k" using True False
      by (cases c, auto simp: chain_Height_def)+
    obtain q j where q: "ancestor_at T p ?k = Some q" "T q = Some j" "nHeight j = ?k"
      by (rule ancestor_at_ex [OF wf i k(1)])
    obtain r where r: "FindFork_loop T c (Some q) = Some r"
        "highest_common (ancestor_at T q) (\<lambda>h. chain_at c (int h)) r"
      using FindFork_loop_spec [OF wf q(2,3)] by blast
    have "FindFork T c (Some p) = Some r"
      using True k(2) i q(1) r(1) by (simp add: FindFork_def GetAncestor_spec [OF wf i])
    moreover have "highest_common (ancestor_at T p) (\<lambda>h. chain_at c (int h)) r"
    proof (rule highest_common_lower [where k = ?k, OF r(2)])
      show "ancestor_at T p h = ancestor_at T q h" if "h \<le> ?k" for h
        by (rule ancestor_at_trans [OF wf i q(1) that])
      show "ancestor_at T p h = None \<or> ancestor_at T p h \<noteq> chain_at c (int h)" if "h > ?k" for h
        using above [of h] that False by (cases "ancestor_at T p h") auto
      show "ancestor_at T q h = None \<or> chain_at c (int h) = None" if "h > ?k" for h
        using above [of h] that False by auto
    qed simp
    ultimately show ?thesis by blast
  qed
qed

lemma LastCommonAncestor_loop_spec:
  assumes wf: "wf_tree T"
  shows "T a = Some i \<Longrightarrow> T b = Some j \<Longrightarrow> nHeight i = k \<Longrightarrow> nHeight j = k \<Longrightarrow>
    \<exists>r. LastCommonAncestor_loop T (Some a) (Some b) = Some r \<and>
        highest_common (ancestor_at T a) (ancestor_at T b) r"
proof (induction k arbitrary: a b i j)
  case 0
  have root: "pprev i = None" "pprev j = None"
    using wf_prev [OF wf 0(1)] 0(3) apply fastforce
    using wf_prev [OF wf 0(2)] 0(4) by fastforce
  have nil: "LastCommonAncestor_loop T None None = Some None" by (simp add: LastCommonAncestor_loop.simps)
  show ?case using 0 root nil
    by (subst LastCommonAncestor_loop.simps) (auto simp: highest_common_def ancestor_at_def)
next
  case (Suc k)
  show ?case
  proof (cases "a = b")
    case True
    then have "LastCommonAncestor_loop T (Some a) (Some b) = Some (Some a)"
      by (subst LastCommonAncestor_loop.simps) simp
    moreover have "highest_common (ancestor_at T a) (ancestor_at T b) (Some a)"
      using True Suc.prems(1,3) ancestor_at_self [of T a i] ancestor_at_above [of T a i]
      unfolding highest_common_def by (simp only: option.case) (intro exI [of _ "Suc k"], simp)
    ultimately show ?thesis by blast
  next
    case False
    obtain p q where pq: "pprev i = Some p" "pprev j = Some q"
      using wf_root [OF wf Suc.prems(1)] wf_root [OF wf Suc.prems(2)] Suc.prems(3,4)
      by (cases "pprev i"; cases "pprev j") simp_all
    obtain i' where i': "T p = Some i'" "nHeight i = Suc (nHeight i')" by (rule wf_prev [OF wf Suc.prems(1) pq(1)])
    obtain j' where j': "T q = Some j'" "nHeight j = Suc (nHeight j')" by (rule wf_prev [OF wf Suc.prems(2) pq(2)])
    obtain r where r: "LastCommonAncestor_loop T (Some p) (Some q) = Some r"
        "highest_common (ancestor_at T p) (ancestor_at T q) r"
      using Suc.IH [OF i'(1) j'(1)] i'(2) j'(2) Suc.prems(3,4) by auto
    have "LastCommonAncestor_loop T (Some a) (Some b) = Some r"
      using False Suc.prems pq r(1) by (subst LastCommonAncestor_loop.simps) simp
    moreover have "highest_common (ancestor_at T a) (ancestor_at T b) r"
    proof (rule highest_common_lower [where k = k, OF r(2)])
      show "ancestor_at T a h = None \<or> ancestor_at T a h \<noteq> ancestor_at T b h" if "h > k" for h
        using that False Suc.prems ancestor_at_self [of T a i] ancestor_at_self [of T b j] ancestor_at_above [of T a i h]
        by (cases "h = Suc k") auto
      show "ancestor_at T p h = None \<or> ancestor_at T q h = None" if "h > k" for h
        using that ancestor_at_above [of T p i' h] i' Suc.prems(3) by simp
    qed (use ancestor_at_prev [OF Suc.prems(1) pq(1) i'] ancestor_at_prev [OF Suc.prems(2) pq(2) j'] i'(2) j'(2)
        Suc.prems(3,4) in auto)
    ultimately show ?thesis by blast
  qed
qed

lemma highest_common_sym: "highest_common f g r \<Longrightarrow> highest_common g f r"
  unfolding highest_common_def by (cases r) (simp_all, metis, metis)

lemma highest_common_descend:
  assumes wf: "wf_tree T" and i: "T a = Some i" and j: "T b = Some j"
    and q: "ancestor_at T a (nHeight j) = Some q" and r: "highest_common (ancestor_at T q) (ancestor_at T b) r"
  shows "highest_common (ancestor_at T a) (ancestor_at T b) r"
proof (rule highest_common_lower [where k = "nHeight j", OF r])
  show "ancestor_at T a h = None \<or> ancestor_at T a h \<noteq> ancestor_at T b h" if "h > nHeight j" for h
    using ancestor_at_above [of T b j h] that j by auto
  show "ancestor_at T q h = None \<or> ancestor_at T b h = None" if "h > nHeight j" for h
    using ancestor_at_above [of T b j h] that j by auto
qed (use ancestor_at_trans [OF wf i q] in auto)

lemma LastCommonAncestor_spec:
  assumes wf: "wf_tree T" and i: "T a = Some i" and j: "T b = Some j"
  shows "\<exists>r. LastCommonAncestor T a b = Some r \<and> highest_common (ancestor_at T a) (ancestor_at T b) r"
proof -
  consider "nHeight i > nHeight j" | "nHeight j > nHeight i" | "nHeight i = nHeight j" by linarith
  then show ?thesis
  proof cases
    case 1
    obtain q k where q: "ancestor_at T a (nHeight j) = Some q" "T q = Some k" "nHeight k = nHeight j"
      by (rule ancestor_at_ex [OF wf i less_imp_le [OF 1]])
    then show ?thesis
      using LastCommonAncestor_loop_spec [OF wf q(2) j q(3) refl] highest_common_descend [OF wf i j q(1)] 1 i j
      by (auto simp: LastCommonAncestor_def GetAncestor_spec [OF wf i])
  next
    case 2
    obtain q k where q: "ancestor_at T b (nHeight i) = Some q" "T q = Some k" "nHeight k = nHeight i"
      by (rule ancestor_at_ex [OF wf j less_imp_le [OF 2]])
    then show ?thesis
      using LastCommonAncestor_loop_spec [OF wf i q(2) refl q(3)] 2 i j
        highest_common_sym [OF highest_common_descend [OF wf j i q(1) highest_common_sym]]
      by (auto simp: LastCommonAncestor_def GetAncestor_spec [OF wf j])
  next
    case 3
    then show ?thesis
      using LastCommonAncestor_loop_spec [OF wf i j refl 3 [symmetric]] i j by (simp add: LastCommonAncestor_def)
  qed
qed

section \<open>Searching by time\<close>

text \<open>On a range split into a true part followed by a false part, the binary search finds the split.\<close>

lemma lower_bound_spec:
  assumes "\<And>k. k < length xs \<Longrightarrow> lt (xs ! k) = Some (P k)" and "\<And>k l. k \<le> l \<Longrightarrow> P l \<Longrightarrow> P k"
  shows "first + n \<le> length xs \<Longrightarrow> \<exists>r. lower_bound lt xs first n = Some r \<and> first \<le> r \<and> r \<le> first + n \<and>
    (\<forall>k. first \<le> k \<and> k < r \<longrightarrow> P k) \<and> (\<forall>k. r \<le> k \<and> k < first + n \<longrightarrow> \<not> P k)"
proof (induction n arbitrary: first rule: less_induct)
  case (less n)
  show ?case
  proof (cases "n = 0")
    case True
    then show ?thesis by (subst lower_bound.simps) auto
  next
    case False
    let ?h = "n div 2"
    have h: "?h < n" using False by simp
    have v: "lt (xs ! (first + ?h)) = Some (P (first + ?h))" using assms(1) h less.prems by simp
    show ?thesis
    proof (cases "P (first + ?h)")
      case True
      then obtain r where r: "lower_bound lt xs (first + ?h + 1) (n - ?h - 1) = Some r" "first + ?h + 1 \<le> r"
          "r \<le> first + n" "\<forall>k. first + ?h + 1 \<le> k \<and> k < r \<longrightarrow> P k"
          "\<forall>k. r \<le> k \<and> k < first + n \<longrightarrow> \<not> P k"
        using less.IH [of "n - ?h - 1" "first + ?h + 1"] h less.prems by auto
      moreover have "P k" if "first \<le> k" "k < r" for k
        using assms(2) [OF _ True, of k] r(4) that by (cases "k \<le> first + ?h") auto
      ultimately show ?thesis using v False True by (subst lower_bound.simps) (simp add: Let_def)
    next
      case nP: False
      then obtain r where r: "lower_bound lt xs first ?h = Some r" "first \<le> r"
          "r \<le> first + ?h" "\<forall>k. first \<le> k \<and> k < r \<longrightarrow> P k"
          "\<forall>k. r \<le> k \<and> k < first + ?h \<longrightarrow> \<not> P k"
        using less.IH [of ?h first] h less.prems by auto
      moreover have "\<not> P k" if "r \<le> k" "k < first + n" for k
        using assms(2) [of "first + ?h" k] nP r(5) that by (cases "k < first + ?h") auto
      moreover have "r \<le> first + n" using r(3) h by linarith
      ultimately show ?thesis using v False nP by (subst lower_bound.simps) (simp add: Let_def)
    qed
  qed
qed

end
