(* ===== verification/Verify_Script.thy ===== *)
theory Verify_Script
  imports Eval_Props
begin

text \<open>
  \<open>VerifyScript\<close> and the witness programs (\<open>script/interpreter.cpp\<close>): the evaluation of the signature
  script and the output script, pay-to-script-hash, the two kinds of version 0 witness programs, and the
  count of signature operations of a witness.  \<open>Ok ()\<close> is the return value \<open>true\<close> (with
  \<open>SCRIPT_ERR_OK\<close>), \<open>Err e\<close> is \<open>false\<close> with \<open>serror = e\<close>, \<open>Abort\<close> a failed assertion.
\<close>

section \<open>Verification\<close>

text \<open>The script and the initial stack a witness program stands for; a stack is listed from its top.\<close>

definition witness_program_script ::
  "eval_env \<Rightarrow> bytes list \<Rightarrow> bytes \<Rightarrow> (bytes list \<times> CScript) exec" where
  "witness_program_script env witness program =
     (if length program = 32
      then (if length witness = 0 then Err SCRIPT_ERR_WITNESS_PROGRAM_WITNESS_EMPTY
            else let pubKeyScript = last witness; stk = rev (butlast witness)
                 in if hf_SHA3_256 (ev_hash env) pubKeyScript \<noteq> program
                    then Err SCRIPT_ERR_WITNESS_PROGRAM_MISMATCH else Ok (stk, pubKeyScript))
      else if length program = 20
      then (if length witness \<noteq> 2 then Err SCRIPT_ERR_WITNESS_PROGRAM_MISMATCH
            else Ok (rev witness,
              push_opcode (push_opcode (push_vector (push_opcode (push_opcode [] OP_DUP) OP_HASH160) program)
                OP_EQUALVERIFY) OP_CHECKSIG))
      else Err SCRIPT_ERR_WITNESS_PROGRAM_WRONG_LENGTH)"

definition VerifyWitnessProgram :: "eval_env \<Rightarrow> bytes list \<Rightarrow> int \<Rightarrow> bytes \<Rightarrow> unit exec" where
  "VerifyWitnessProgram env witness witversion program =
     (if witversion = 0
      then ebind (witness_program_script env witness program) (\<lambda>(stk, pubKeyScript).
        if \<not> list_all (\<lambda>x. length x \<le> MAX_SCRIPT_ELEMENT_SIZE) stk then Err SCRIPT_ERR_PUSH_SIZE
        else ebind (EvalScript (env\<lparr>ev_sigversion := SIGVERSION_WITNESS_V0\<rparr>) stk pubKeyScript) (\<lambda>stk.
          if length stk \<noteq> 1 then Err SCRIPT_ERR_EVAL_FALSE
          else if \<not> CastToBool (hd stk) then Err SCRIPT_ERR_EVAL_FALSE
          else Ok ()))
      else if has_flag env SCRIPT_VERIFY_DISCOURAGE_UPGRADABLE_WITNESS_PROGRAM
      then Err SCRIPT_ERR_DISCOURAGE_UPGRADABLE_WITNESS_PROGRAM
      else Ok ())"

text \<open>An evaluation whose final stack must end in a true element.\<close>

definition eval_true :: "eval_env \<Rightarrow> bytes list \<Rightarrow> CScript \<Rightarrow> bytes list exec" where
  "eval_true env stk script =
     ebind (EvalScript env stk script) (\<lambda>stk.
       if stk = [] then Err SCRIPT_ERR_EVAL_FALSE
       else if \<not> CastToBool (hd stk) then Err SCRIPT_ERR_EVAL_FALSE
       else Ok stk)"

text \<open>Running a script's witness program, when witness verification is on and it is one.  The signature
  script must be \<open>expected\<close>; the result is the stack to go on with and \<open>hadWitness\<close>.\<close>

definition run_witness ::
  "eval_env \<Rightarrow> bytes list \<Rightarrow> CScript \<Rightarrow> CScript \<Rightarrow> CScript \<Rightarrow> ScriptError \<Rightarrow> bytes list \<times> bool \<Rightarrow> (bytes list \<times> bool) exec" where
  "run_witness env witness script sigScript expected malleated = (\<lambda>(stk, hadWitness).
     if \<not> has_flag env SCRIPT_VERIFY_WITNESS then Ok (stk, hadWitness)
     else ebind (defined_or_abort (IsWitnessProgram script)) (\<lambda>wp.
       case wp of None \<Rightarrow> Ok (stk, hadWitness)
       | Some (witnessversion, witnessprogram) \<Rightarrow>
           if sigScript \<noteq> expected then Err malleated
           else ebind (VerifyWitnessProgram env witness witnessversion witnessprogram) (\<lambda>_. Ok ([last stk], True))))"

definition verify_p2sh ::
  "eval_env \<Rightarrow> bytes list \<Rightarrow> CScript \<Rightarrow> CScript \<Rightarrow> bytes list \<Rightarrow> bytes list \<times> bool \<Rightarrow> (bytes list \<times> bool) exec" where
  "verify_p2sh env witness sigScript pubKeyScript stackCopy = (\<lambda>(stk, hadWitness).
     if \<not> (has_flag env SCRIPT_VERIFY_P2SH \<and> IsPayToScriptHash pubKeyScript) then Ok (stk, hadWitness)
     else if \<not> IsPushOnly sigScript then Err SCRIPT_ERR_SIG_PUSHONLY
     else case stackCopy of [] \<Rightarrow> Abort
       | pubKey2 # stk \<Rightarrow>
           ebind (eval_true env stk pubKey2) (\<lambda>stk.
             run_witness env witness pubKey2 sigScript (push_vector [] pubKey2) SCRIPT_ERR_WITNESS_MALLEATED_P2SH
               (stk, hadWitness)))"

definition verify_final :: "eval_env \<Rightarrow> bytes list \<Rightarrow> bytes list \<times> bool \<Rightarrow> unit exec" where
  "verify_final env witness = (\<lambda>(stk, hadWitness).
     if has_flag env SCRIPT_VERIFY_CLEANSTACK \<and>
        \<not> (has_flag env SCRIPT_VERIFY_P2SH \<and> has_flag env SCRIPT_VERIFY_WITNESS) then Abort
     else if has_flag env SCRIPT_VERIFY_CLEANSTACK \<and> length stk \<noteq> 1 then Err SCRIPT_ERR_CLEANSTACK
     else if has_flag env SCRIPT_VERIFY_WITNESS \<and> \<not> has_flag env SCRIPT_VERIFY_P2SH then Abort
     else if has_flag env SCRIPT_VERIFY_WITNESS \<and> \<not> hadWitness \<and> witness \<noteq> [] then Err SCRIPT_ERR_WITNESS_UNEXPECTED
     else Ok ())"

text \<open>\<open>witness\<close> is \<open>None\<close> for a null pointer.  The environment carries the flags, the checker and the hash
  functions; its signature version is set by the calls.\<close>

definition VerifyScript :: "eval_env \<Rightarrow> CScript \<Rightarrow> CScript \<Rightarrow> bytes list option \<Rightarrow> unit exec" where
  "VerifyScript env0 sigScript pubKeyScript witness_opt =
     (let env = env0\<lparr>ev_sigversion := SIGVERSION_BASE\<rparr>;
          witness = (case witness_opt of None \<Rightarrow> [] | Some w \<Rightarrow> w)
      in if has_flag env SCRIPT_VERIFY_SIGPUSHONLY \<and> \<not> IsPushOnly sigScript then Err SCRIPT_ERR_SIG_PUSHONLY
         else ebind (EvalScript env [] sigScript) (\<lambda>stackCopy.
           ebind (eval_true env stackCopy pubKeyScript) (\<lambda>stk.
             ebind (run_witness env witness pubKeyScript sigScript [] SCRIPT_ERR_WITNESS_MALLEATED (stk, False)) (\<lambda>r.
               ebind (verify_p2sh env witness sigScript pubKeyScript stackCopy r) (verify_final env witness)))))"

section \<open>Signature operations of a witness\<close>

definition WitnessSigOps :: "int \<Rightarrow> bytes \<Rightarrow> bytes list \<Rightarrow> nat option" where
  "WitnessSigOps witversion witprogram witness =
     (if witversion = 0 \<and> length witprogram = 20 then Some 1
      else if witversion = 0 \<and> length witprogram = 32 \<and> length witness > 0
      then GetSigOpCount True (last witness)
      else Some 0)"

text \<open>The data of the last instruction; the loop does not advance on an instruction that is cut short,
  which the caller rules out with \<open>IsPushOnly\<close>.\<close>

function last_data :: "bytes \<Rightarrow> bytes \<Rightarrow> bytes option" where
  "last_data data pc =
     (if pc = [] then Some data
      else case GetOp pc of None \<Rightarrow> None | Some (opcode, d, rest) \<Rightarrow> last_data d rest)"
  by pat_completeness auto
termination
  by (relation "measure (\<lambda>(data, pc). length pc)") (auto dest: GetOp_shorter)

declare last_data.simps [simp del]

definition CountWitnessSigOps :: "u32 \<Rightarrow> CScript \<Rightarrow> CScript \<Rightarrow> bytes list option \<Rightarrow> nat option" where
  "CountWitnessSigOps flags sigScript pubKeyScript witness_opt =
     (let witness = (case witness_opt of None \<Rightarrow> [] | Some w \<Rightarrow> w)
      in if flags AND SCRIPT_VERIFY_WITNESS = 0 then Some 0
         else if flags AND SCRIPT_VERIFY_P2SH = 0 then None
         else case IsWitnessProgram pubKeyScript of None \<Rightarrow> None
         | Some (Some (witnessversion, witnessprogram)) \<Rightarrow> WitnessSigOps witnessversion witnessprogram witness
         | Some None \<Rightarrow>
             if IsPayToScriptHash pubKeyScript \<and> IsPushOnly sigScript
             then (case last_data [] sigScript of None \<Rightarrow> None
                   | Some data \<Rightarrow>
                       (case IsWitnessProgram data of None \<Rightarrow> None
                        | Some (Some (witnessversion, witnessprogram)) \<Rightarrow>
                            WitnessSigOps witnessversion witnessprogram witness
                        | Some None \<Rightarrow> Some 0))
             else Some 0)"

section \<open>The flags the interpreter reads\<close>

text \<open>Two environments that differ at most in the flags \<open>VerifyScript\<close> itself reads run scripts alike.\<close>

definition same_eval :: "eval_env \<Rightarrow> eval_env \<Rightarrow> bool" where
  "same_eval e1 e2 \<longleftrightarrow> ev_checker e1 = ev_checker e2 \<and> ev_sigversion e1 = ev_sigversion e2 \<and> ev_hash e1 = ev_hash e2 \<and>
     list_all (\<lambda>f. has_flag e1 f = has_flag e2 f)
       [SCRIPT_VERIFY_STRICTENC, SCRIPT_VERIFY_NULLDUMMY, SCRIPT_VERIFY_MINIMALDATA,
        SCRIPT_VERIFY_DISCOURAGE_UPGRADABLE_NOPS, SCRIPT_VERIFY_CHECKLOCKTIMEVERIFY,
        SCRIPT_VERIFY_CHECKSEQUENCEVERIFY, SCRIPT_VERIFY_MINIMALIF, SCRIPT_VERIFY_NULLFAIL,
        SCRIPT_VERIFY_WITNESS_PUBKEYTYPE]"

lemma same_eval_basic:
  assumes "same_eval e1 e2"
  shows "fRequireMinimal e1 = fRequireMinimal e2" "script_num e1 = script_num e2"
    "CheckSignatureEncoding e1 = CheckSignatureEncoding e2" "CheckPubKeyEncoding e1 = CheckPubKeyEncoding e2"
    "drop_signature e1 = drop_signature e2"
  using assms by (auto simp: same_eval_def fRequireMinimal_def script_num_def CheckSignatureEncoding_def
    CheckPubKeyEncoding_def drop_signature_def fun_eq_iff)

lemma same_eval_fields:
  assumes "same_eval e1 e2"
  shows "ev_checker e1 = ev_checker e2" "ev_sigversion e1 = ev_sigversion e2" "ev_hash e1 = ev_hash e2"
    "has_flag e1 SCRIPT_VERIFY_NULLDUMMY = has_flag e2 SCRIPT_VERIFY_NULLDUMMY"
    "has_flag e1 SCRIPT_VERIFY_DISCOURAGE_UPGRADABLE_NOPS = has_flag e2 SCRIPT_VERIFY_DISCOURAGE_UPGRADABLE_NOPS"
    "has_flag e1 SCRIPT_VERIFY_CHECKLOCKTIMEVERIFY = has_flag e2 SCRIPT_VERIFY_CHECKLOCKTIMEVERIFY"
    "has_flag e1 SCRIPT_VERIFY_CHECKSEQUENCEVERIFY = has_flag e2 SCRIPT_VERIFY_CHECKSEQUENCEVERIFY"
    "has_flag e1 SCRIPT_VERIFY_MINIMALIF = has_flag e2 SCRIPT_VERIFY_MINIMALIF"
    "has_flag e1 SCRIPT_VERIFY_NULLFAIL = has_flag e2 SCRIPT_VERIFY_NULLFAIL"
  using assms by (simp_all add: same_eval_def)

lemma same_eval_ops:
  assumes "same_eval e1 e2"
  shows "op_checklocktimeverify e1 = op_checklocktimeverify e2" "op_checksequenceverify e1 = op_checksequenceverify e2"
    "op_if e1 = op_if e2" "op_pick_roll e1 = op_pick_roll e2" "op_unary e1 = op_unary e2"
    "op_binary e1 = op_binary e2" "op_within e1 = op_within e2" "op_digest e1 = op_digest e2"
    "op_checksig e1 = op_checksig e2"
  by (simp_all only: fun_eq_iff same_eval_basic [OF assms] same_eval_fields [OF assms] op_checklocktimeverify_def
    op_checksequenceverify_def op_if_def op_pick_roll_def op_unary_def op_binary_def op_within_def op_digest_def op_checksig_def simp_thms)

lemma same_eval_multisig_loop:
  assumes "same_eval e1 e2"
  shows "multisig_loop e1 st code nSigs nKeys isig ikey = multisig_loop e2 st code nSigs nKeys isig ikey"
proof (induction "nat nKeys" arbitrary: nSigs nKeys isig ikey rule: less_induct)
  case less
  have bind: "ebind m f = ebind m g" if "\<And>a. f a = g a" for m :: "'x exec" and f g :: "'x \<Rightarrow> bool exec"
    using that by (cases m) auto
  have "multisig_loop e1 st code n (nKeys - 1) isig' ikey' = multisig_loop e2 st code n (nKeys - 1) isig' ikey'"
    if "\<not> n > nKeys - 1" "n \<ge> 0" "nSigs > 0" for n isig' ikey'
  proof (cases "nKeys > 0")
    case False
    then show ?thesis using that by (simp add: multisig_loop.simps [of _ _ _ n])
  qed (use less in simp)
  then show ?case
    by (subst (1 2) multisig_loop.simps)
      (intro if_cong refl, simp only: same_eval_basic [OF assms] same_eval_fields [OF assms], intro bind if_cong refl, simp)
qed

lemma same_eval_multisig:
  assumes "same_eval e1 e2"
  shows "multisig_script_code e1 st isig n code = multisig_script_code e2 st isig n code"
    "multisig_cleanup e1 b n ikey2 = multisig_cleanup e2 b n ikey2"
    "multisig_finish e1 = multisig_finish e2"
proof -
  show "multisig_script_code e1 st isig n code = multisig_script_code e2 st isig n code"
    by (induction n arbitrary: isig code) (simp_all add: same_eval_basic [OF assms])
  show "multisig_cleanup e1 b n ikey2 = multisig_cleanup e2 b n ikey2"
  proof (induction n arbitrary: ikey2; rule ext)
    fix n ikey2 st
    assume "\<And>ikey2. multisig_cleanup e1 b n ikey2 = multisig_cleanup e2 b n ikey2"
    then show "multisig_cleanup e1 b (Suc n) ikey2 st = multisig_cleanup e2 b (Suc n) ikey2 st"
      by (simp only: multisig_cleanup.simps same_eval_fields [OF assms])
  qed simp
  show "multisig_finish e1 = multisig_finish e2"
    by (simp only: fun_eq_iff multisig_finish_def same_eval_fields [OF assms] simp_thms)
qed

lemma same_eval_switch:
  assumes "same_eval e1 e2"
  shows "eval_switch e1 = eval_switch e2"
proof -
  have "op_checkmultisig e1 = op_checkmultisig e2"
    by (simp only: fun_eq_iff op_checkmultisig_def same_eval_basic [OF assms] same_eval_multisig [OF assms]
      same_eval_multisig_loop [OF assms] simp_thms)
  then show ?thesis
    by (simp only: fun_eq_iff eval_switch_def same_eval_ops [OF assms] same_eval_fields [OF assms] simp_thms)
qed

lemma same_eval_loop:
  assumes "same_eval e1 e2"
  shows "eval_loop e1 pc s = eval_loop e2 pc s"
proof (induction pc arbitrary: s rule: length_induct)
  case (1 pc)
  have i: "eval_instruction e1 = eval_instruction e2"
    by (simp only: fun_eq_iff eval_instruction_def same_eval_basic [OF assms] same_eval_switch [OF assms] simp_thms)
  have "ebind m (eval_loop e1 rest) = ebind m (eval_loop e2 rest)" if "GetOp pc = Some (opcode, v, rest)" for m opcode v rest
    using 1 GetOp_shorter [OF that] by (cases m) auto
  then show ?case by (subst (1 2) eval_loop.simps) (simp add: i split: option.split)
qed

lemma same_eval_EvalScript: "same_eval e1 e2 \<Longrightarrow> EvalScript e1 = EvalScript e2"
  by (simp add: fun_eq_iff EvalScript_def same_eval_loop)

section \<open>The assertions of VerifyScript\<close>

text \<open>The signature script of a pay-to-script-hash output leaves a non-empty stack, which the code asserts:
  the output script fails on an empty one.\<close>

lemma p2sh_empty_stack:
  assumes "IsPayToScriptHash script"
  shows "EvalScript env [] script = Err SCRIPT_ERR_INVALID_STACK_OPERATION"
proof -
  obtain tl where "script = OP_HASH160 # tl" "length script = 23"
    using assms by (cases script) (auto simp: IsPayToScriptHash_def)
  then show ?thesis
    by (simp add: EvalScript_def eval_loop.simps [of env "_ # _"] eval_instruction_def eval_switch_def disabled_opcode_def
      op_digest_def MAX_SCRIPT_SIZE_def MAX_OPS_PER_SCRIPT_def MAX_SCRIPT_ELEMENT_SIZE_def)
qed

definition flags_ok :: "eval_env \<Rightarrow> bool" where
  "flags_ok env \<longleftrightarrow> (has_flag env SCRIPT_VERIFY_CLEANSTACK \<longrightarrow> has_flag env SCRIPT_VERIFY_WITNESS) \<and>
     (has_flag env SCRIPT_VERIFY_WITNESS \<longrightarrow> has_flag env SCRIPT_VERIFY_P2SH)"

lemma VerifyWitnessProgram_defined:
  assumes "total_checker (ev_checker env)"
  shows "VerifyWitnessProgram env w ver prog \<noteq> Abort"
proof -
  have "witness_program_script env w prog \<noteq> Abort" by (simp add: witness_program_script_def Let_def)
  moreover have "EvalScript (env\<lparr>ev_sigversion := SIGVERSION_WITNESS_V0\<rparr>) stk scr \<noteq> Abort" for stk scr
    using assms by (intro EvalScript_defined) simp
  ultimately show ?thesis by (auto simp: VerifyWitnessProgram_def split: if_splits)
qed

lemma run_witness_defined: "total_checker (ev_checker env) \<Longrightarrow> run_witness env w scr sg ex m r \<noteq> Abort"
  using VerifyWitnessProgram_defined [of env] IsWitnessProgram_iff(1) [of scr]
  by (auto simp: run_witness_def split: if_splits option.splits prod.splits)

lemma VerifyScript_defined:
  assumes "total_checker (ev_checker env)" "flags_ok env"
  shows "VerifyScript env sigScript pubKeyScript witness \<noteq> Abort"
proof -
  define e where "e = env\<lparr>ev_sigversion := SIGVERSION_BASE\<rparr>"
  have t: "total_checker (ev_checker e)" using assms(1) by (simp add: e_def)
  have flags: "flags_ok e" using assms(2) by (simp add: e_def flags_ok_def has_flag_def)
  have et: "eval_true e stk scr \<noteq> Abort" for stk scr
    using EvalScript_defined [OF t] by (auto simp: eval_true_def split: if_splits)
  have ne: "stk \<noteq> []" if "eval_true e stk pubKeyScript = Ok r" "IsPayToScriptHash pubKeyScript" for stk r
    using that p2sh_empty_stack [of pubKeyScript e] by (auto simp: eval_true_def)
  have "verify_p2sh e w sigScript pubKeyScript stk r \<noteq> Abort" if "eval_true e stk pubKeyScript = Ok q" for w stk r q
    using ne [OF that] et run_witness_defined [OF t]
    by (auto simp: verify_p2sh_def split: if_splits prod.splits list.splits)
  moreover have "verify_final e w r \<noteq> Abort" for w r
    using flags by (auto simp: verify_final_def flags_ok_def split: if_splits prod.splits)
  ultimately show ?thesis using EvalScript_defined [OF t] et run_witness_defined [OF t]
    unfolding VerifyScript_def Let_def e_def [symmetric] by (auto split: if_split_asm simp del: option.case_distrib)
qed

section \<open>Soft forks\<close>

lemmas flag_defs = SCRIPT_VERIFY_P2SH_def SCRIPT_VERIFY_STRICTENC_def SCRIPT_VERIFY_NULLDUMMY_def
  SCRIPT_VERIFY_SIGPUSHONLY_def SCRIPT_VERIFY_MINIMALDATA_def SCRIPT_VERIFY_DISCOURAGE_UPGRADABLE_NOPS_def
  SCRIPT_VERIFY_CLEANSTACK_def SCRIPT_VERIFY_CHECKLOCKTIMEVERIFY_def SCRIPT_VERIFY_CHECKSEQUENCEVERIFY_def
  SCRIPT_VERIFY_WITNESS_def SCRIPT_VERIFY_DISCOURAGE_UPGRADABLE_WITNESS_PROGRAM_def SCRIPT_VERIFY_MINIMALIF_def
  SCRIPT_VERIFY_NULLFAIL_def SCRIPT_VERIFY_WITNESS_PUBKEYTYPE_def

definition clear_P2SH :: "eval_env \<Rightarrow> eval_env" where
  "clear_P2SH env = env\<lparr>ev_flags := ev_flags env AND NOT SCRIPT_VERIFY_P2SH\<rparr>"

definition clear_WITNESS :: "eval_env \<Rightarrow> eval_env" where
  "clear_WITNESS env = env\<lparr>ev_flags := ev_flags env AND NOT SCRIPT_VERIFY_WITNESS\<rparr>"

lemma clear_same_eval: "same_eval (clear_P2SH env) env" "same_eval (clear_WITNESS env) env"
  by (simp_all add: same_eval_def has_flag_def clear_P2SH_def clear_WITNESS_def flag_defs and.assoc)

lemma clear_flags:
  "\<not> has_flag (clear_P2SH env) SCRIPT_VERIFY_P2SH" "\<not> has_flag (clear_WITNESS env) SCRIPT_VERIFY_WITNESS"
  "has_flag (clear_P2SH env) SCRIPT_VERIFY_WITNESS = has_flag env SCRIPT_VERIFY_WITNESS"
  "has_flag (clear_WITNESS env) SCRIPT_VERIFY_P2SH = has_flag env SCRIPT_VERIFY_P2SH"
  "has_flag (clear_P2SH env) SCRIPT_VERIFY_CLEANSTACK = has_flag env SCRIPT_VERIFY_CLEANSTACK"
  "has_flag (clear_WITNESS env) SCRIPT_VERIFY_CLEANSTACK = has_flag env SCRIPT_VERIFY_CLEANSTACK"
  "has_flag (clear_P2SH env) SCRIPT_VERIFY_SIGPUSHONLY = has_flag env SCRIPT_VERIFY_SIGPUSHONLY"
  "has_flag (clear_WITNESS env) SCRIPT_VERIFY_SIGPUSHONLY = has_flag env SCRIPT_VERIFY_SIGPUSHONLY"
  by (simp_all add: has_flag_def clear_P2SH_def clear_WITNESS_def flag_defs and.assoc)

lemma eval_true_same: "same_eval e1 e2 \<Longrightarrow> eval_true e1 = eval_true e2"
  by (simp add: fun_eq_iff eval_true_def same_eval_EvalScript)

text \<open>What acceptance takes.\<close>

lemma VerifyScript_Ok:
  fixes env0 :: eval_env
  defines "env \<equiv> env0\<lparr>ev_sigversion := SIGVERSION_BASE\<rparr>"
  shows "VerifyScript env0 sigScript pubKeyScript w = Ok () \<longleftrightarrow>
    (has_flag env SCRIPT_VERIFY_SIGPUSHONLY \<longrightarrow> IsPushOnly sigScript) \<and>
    (\<exists>stk stk' r r'. EvalScript env [] sigScript = Ok stk \<and> eval_true env stk pubKeyScript = Ok stk' \<and>
      run_witness env (case w of None \<Rightarrow> [] | Some x \<Rightarrow> x) pubKeyScript sigScript [] SCRIPT_ERR_WITNESS_MALLEATED (stk', False) = Ok r \<and>
      verify_p2sh env (case w of None \<Rightarrow> [] | Some x \<Rightarrow> x) sigScript pubKeyScript stk r = Ok r' \<and>
      verify_final env (case w of None \<Rightarrow> [] | Some x \<Rightarrow> x) r' = Ok ())"
  unfolding VerifyScript_def Let_def env_def [symmetric] by (simp del: split_paired_Ex)

text \<open>Turning on pay-to-script-hash only rejects more, and so does turning on witness programs: what is
  accepted with the flag is accepted without it.\<close>

lemma VerifyScript_softfork:
  assumes acc: "VerifyScript env sigScript pubKeyScript w = Ok ()" and cs: "\<not> has_flag env SCRIPT_VERIFY_CLEANSTACK"
  shows "\<not> has_flag env SCRIPT_VERIFY_WITNESS \<Longrightarrow> VerifyScript (clear_P2SH env) sigScript pubKeyScript w = Ok ()"
    and "VerifyScript (clear_WITNESS env) sigScript pubKeyScript w = Ok ()"
proof -
  define e where "e = env\<lparr>ev_sigversion := SIGVERSION_BASE\<rparr>"
  have swap: "(clear_P2SH env)\<lparr>ev_sigversion := SIGVERSION_BASE\<rparr> = clear_P2SH e"
    "(clear_WITNESS env)\<lparr>ev_sigversion := SIGVERSION_BASE\<rparr> = clear_WITNESS e"
    by (simp_all add: e_def clear_P2SH_def clear_WITNESS_def)
  have fl: "has_flag e f = has_flag env f" for f by (simp add: e_def has_flag_def)
  have same: "EvalScript (clear_P2SH e) = EvalScript e" "eval_true (clear_P2SH e) = eval_true e"
    "EvalScript (clear_WITNESS e) = EvalScript e" "eval_true (clear_WITNESS e) = eval_true e"
    by (simp_all add: same_eval_EvalScript eval_true_same clear_same_eval)
  obtain stk stk' r r' where push: "has_flag e SCRIPT_VERIFY_SIGPUSHONLY \<longrightarrow> IsPushOnly sigScript"
    and ev: "EvalScript e [] sigScript = Ok stk" "eval_true e stk pubKeyScript = Ok stk'"
    and p2sh: "verify_p2sh e (case w of None \<Rightarrow> [] | Some x \<Rightarrow> x) sigScript pubKeyScript stk r = Ok r'"
    using acc unfolding VerifyScript_Ok e_def [symmetric] by blast
  show "VerifyScript (clear_P2SH env) sigScript pubKeyScript w = Ok ()" if "\<not> has_flag env SCRIPT_VERIFY_WITNESS"
    unfolding VerifyScript_Ok swap
    using that push ev cs
    by (auto simp: same clear_flags fl run_witness_def verify_p2sh_def verify_final_def)
  have "\<exists>r'. verify_p2sh (clear_WITNESS e) (case w of None \<Rightarrow> [] | Some x \<Rightarrow> x) sigScript pubKeyScript stk (stk', False) = Ok r'"
    using p2sh by (cases r) (auto simp: verify_p2sh_def clear_flags same run_witness_def split: if_split_asm list.splits)
  then obtain q where "verify_p2sh (clear_WITNESS e) (case w of None \<Rightarrow> [] | Some x \<Rightarrow> x) sigScript pubKeyScript stk (stk', False) = Ok q" ..
  moreover have "run_witness (clear_WITNESS e) ws pubKeyScript sigScript [] m (stk', False) = Ok (stk', False)" for ws m
    by (simp add: run_witness_def clear_flags)
  moreover have "verify_final (clear_WITNESS e) ws q = Ok ()" for ws
    using cs by (cases q) (simp add: verify_final_def clear_flags fl)
  ultimately show "VerifyScript (clear_WITNESS env) sigScript pubKeyScript w = Ok ()"
    unfolding VerifyScript_Ok swap same using push ev
    by (intro conjI exI [of _ stk] exI [of _ stk'] exI [of _ "(stk', False)"] exI [of _ q]) (simp_all add: clear_flags)
qed

section \<open>What an accepted spend shows\<close>

text \<open>An accepted spend of a pay-to-script-hash output presents a script with the committed hash.\<close>

lemma EvalScript_p2sh:
  assumes "IsPayToScriptHash script" "EvalScript env stk script = Ok stk'" "CastToBool (hd stk')" "stk' \<noteq> []"
  shows "\<exists>redeem st. stk = redeem # st \<and> hf_HASH160 (ev_hash env) redeem = take 20 (drop 2 script)"
proof -
  define h where "h = take 20 (drop 2 script)"
  have h: "length h = 20" using assms(1) by (simp add: h_def IsPayToScriptHash_def)
  have script: "script = OP_HASH160 # 20 # h @ [OP_EQUAL]"
    using assms(1) by (intro nth_equalityI)
      (auto simp: h_def IsPayToScriptHash_def nth_Cons nth_append less_Suc_eq numeral_eq_Suc split: nat.split)
  note step = eval_instruction_def eval_switch_def disabled_opcode_def Let_def MAX_OPS_PER_SCRIPT_def
    MAX_SCRIPT_ELEMENT_SIZE_def op_digest_def op_equal_def
  obtain x st where stk: "stk = x # st"
    using assms(2) p2sh_empty_stack [OF assms(1), of env] by (cases stk) auto
  let ?s = "\<lparr>stack = stk, altstack = [], vfExec = [], pbegincodehash = script, nOpCount = 0\<rparr>"
  obtain sf where sf: "eval_loop env script ?s = Ok sf" "stk' = stack sf"
    using assms(2) by (auto simp: EvalScript_def split: if_splits)
  have g: "GetOp script = Some (OP_HASH160, [], 20 # h @ [OP_EQUAL])"
    "GetOp (20 # h @ [OP_EQUAL]) = Some (20, h, [OP_EQUAL])" "GetOp [OP_EQUAL] = Some (OP_EQUAL, [], [])"
    using h by (simp_all add: script read_operand_def)
  obtain s1 where s1: "eval_instruction env OP_HASH160 [] (20 # h @ [OP_EQUAL]) ?s = Ok s1"
    "eval_loop env (20 # h @ [OP_EQUAL]) s1 = Ok sf"
    using sf(1) g(1) by (subst (asm) eval_loop_step) (auto simp: script simp del: GetOp_simps)
  then have st1: "stack s1 = hf_HASH160 (ev_hash env) x # st" "vfExec s1 = []" "nOpCount s1 = 1"
    by (auto simp: step stk split: if_split_asm)
  obtain s2 where s2: "eval_instruction env 20 h [OP_EQUAL] s1 = Ok s2" "eval_loop env [OP_EQUAL] s2 = Ok sf"
    using s1(2) g(2) by (subst (asm) eval_loop_step) (auto simp del: GetOp_simps)
  then have st2: "stack s2 = h # hf_HASH160 (ev_hash env) x # st" "vfExec s2 = []" "nOpCount s2 = 1"
    using st1 h by (auto simp: step split: if_split_asm)
  have "eval_instruction env OP_EQUAL [] [] s2 = Ok sf"
    using s2(2) g(3) by (subst (asm) eval_loop_step) (auto simp: eval_loop.simps [of env "[]"] simp del: GetOp_simps)
  then have "stack sf = (if hf_HASH160 (ev_hash env) x = h then vchTrue else vchFalse) # st"
    using st2 by (auto simp: step split: if_split_asm)
  then have "hf_HASH160 (ev_hash env) x = h"
    using assms(3) sf(2) by (auto simp: vchFalse_def split: if_split_asm)
  then show ?thesis by (simp add: stk h_def)
qed

lemma VerifyScript_p2sh:
  assumes "VerifyScript env sigScript pubKeyScript w = Ok ()" "IsPayToScriptHash pubKeyScript"
    and "has_flag env SCRIPT_VERIFY_P2SH"
  shows "\<exists>redeem st st'. IsPushOnly sigScript \<and>
    EvalScript (env\<lparr>ev_sigversion := SIGVERSION_BASE\<rparr>) [] sigScript = Ok (redeem # st) \<and>
    hf_HASH160 (ev_hash env) redeem = take 20 (drop 2 pubKeyScript) \<and>
    EvalScript (env\<lparr>ev_sigversion := SIGVERSION_BASE\<rparr>) st redeem = Ok st' \<and> st' \<noteq> [] \<and> CastToBool (hd st')"
proof -
  define e where "e = env\<lparr>ev_sigversion := SIGVERSION_BASE\<rparr>"
  obtain stk stk' r r' where ev: "EvalScript e [] sigScript = Ok stk" "eval_true e stk pubKeyScript = Ok stk'"
    and p2sh: "verify_p2sh e (case w of None \<Rightarrow> [] | Some x \<Rightarrow> x) sigScript pubKeyScript stk r = Ok r'"
    using assms(1) unfolding VerifyScript_Ok e_def [symmetric] by blast
  have fl: "has_flag e SCRIPT_VERIFY_P2SH" "ev_hash e = ev_hash env" using assms(3) by (simp_all add: e_def has_flag_def)
  obtain redeem st where stk: "stk = redeem # st" "hf_HASH160 (ev_hash env) redeem = take 20 (drop 2 pubKeyScript)"
    using ev(2) EvalScript_p2sh [OF assms(2), of e stk] fl by (auto simp: eval_true_def split: if_split_asm)
  have push: "IsPushOnly sigScript" using p2sh fl assms(2) by (cases r) (simp add: verify_p2sh_def split: if_split_asm)
  obtain st' where "eval_true e st redeem = Ok st'"
    using p2sh fl assms(2) push stk(1) by (cases r) (auto simp: verify_p2sh_def)
  then have "EvalScript e st redeem = Ok st'" "st' \<noteq> []" "CastToBool (hd st')"
    by (auto simp: eval_true_def split: if_split_asm)
  with ev(1) stk push show ?thesis unfolding e_def [symmetric] by blast
qed

text \<open>A version 0 witness program of 20 bytes is the key hash of its two-item witness.\<close>

lemma VerifyWitnessProgram_p2wpkh:
  assumes "length program = 20" "length (hf_HASH160 (ev_hash env) key) = 20"
    and "length key \<le> MAX_SCRIPT_ELEMENT_SIZE" "length sig \<le> MAX_SCRIPT_ELEMENT_SIZE"
  shows "VerifyWitnessProgram env [sig, key] 0 program = Ok () \<longleftrightarrow>
    hf_HASH160 (ev_hash env) key = program \<and>
    CheckSignatureEncoding (env\<lparr>ev_sigversion := SIGVERSION_WITNESS_V0\<rparr>) sig = Ok () \<and>
    CheckPubKeyEncoding (env\<lparr>ev_sigversion := SIGVERSION_WITNESS_V0\<rparr>) key = Ok () \<and>
    CheckSig (ev_checker env) sig key (p2pkh_script program) SIGVERSION_WITNESS_V0 = Some True"
proof -
  let ?e = "env\<lparr>ev_sigversion := SIGVERSION_WITNESS_V0\<rparr>"
  have "EvalScript ?e [key, sig] (p2pkh_script program) =
    (if hf_HASH160 (ev_hash env) key \<noteq> program then Err SCRIPT_ERR_EQUALVERIFY
     else ebind (op_checksig ?e OP_CHECKSIG \<lparr>stack = [key, sig], altstack = [], vfExec = [],
            pbegincodehash = p2pkh_script program, nOpCount = 4\<rparr>) (\<lambda>s. Ok (stack s)))"
    using assms p2pkh_script_eval [of program "[]" ?e key sig] by (simp add: MAX_STACK_SIZE_def)
  note run = this VerifyWitnessProgram_def witness_program_script_def p2pkh_script_def [symmetric]
      op_checksig_def Let_def drop_signature_def vchTrue_def vchFalse_def
  show ?thesis (is "?L \<longleftrightarrow> ?R")
  proof
    assume ?L
    then show ?R using assms by (auto simp: run split: if_split_asm)
  next
    assume ?R
    then show ?L using assms by (simp add: run set_stack_def del: ebind_Ok)
  qed
qed

section \<open>Counting\<close>

lemma last_data_defined: "IsPushOnly pc \<Longrightarrow> last_data d pc \<noteq> None"
proof (induction d pc rule: last_data.induct)
  case (1 d pc)
  then show ?case
    by (subst last_data.simps, subst (asm) (3) IsPushOnly.simps) (auto split: option.splits if_splits)
qed

text \<open>The count always exists, and is at most twenty for each byte of the last witness item.\<close>

lemma WitnessSigOps_bound: "\<exists>n. WitnessSigOps ver prog w = Some n \<and> n \<le> max 1 (20 * length (if w = [] then [] else last w))"
  using GetSigOpCount_loop_bound [of True 0 OP_INVALIDOPCODE "last w"]
  by (auto simp: WitnessSigOps_def GetSigOpCount_def)

lemma CountWitnessSigOps_defined:
  assumes "flags AND SCRIPT_VERIFY_WITNESS \<noteq> 0 \<longrightarrow> flags AND SCRIPT_VERIFY_P2SH \<noteq> 0"
  shows "CountWitnessSigOps flags sigScript pubKeyScript w \<noteq> None"
proof -
  have "WitnessSigOps ver prog x \<noteq> None" for ver prog x using WitnessSigOps_bound [of ver prog x] by auto
  then show ?thesis using assms IsWitnessProgram_iff(1) last_data_defined [of sigScript "[]"]
    by (auto simp: CountWitnessSigOps_def Let_def simp del: not_None_eq split: option.split)
qed

end
