(* ===== verification/Tx_Verify.thy ===== *)
theory Tx_Verify
  imports Coins Chain Verify_Script
begin

text \<open>
  The checks of single transactions (\<open>consensus/tx_verify.cpp\<close>) and the validation state they report
  into (\<open>consensus/validation.h\<close>).  A check takes the state and returns the C++ result with the new
  state; \<open>None\<close> is a failed assertion or an exception.  The debug message of the state, which only the log
  shows, is left out.  Checks that look coins up return the cache too.
\<close>

section \<open>The validation state\<close>

definition REJECT_INVALID :: u32 where "REJECT_INVALID = 0x10"
definition REJECT_NONSTANDARD :: u32 where "REJECT_NONSTANDARD = 0x40"
definition REJECT_CHECKPOINT :: u32 where "REJECT_CHECKPOINT = 0x43"

datatype mode_state = MODE_VALID | MODE_INVALID | MODE_ERROR

record CValidationState =
  state_mode :: mode_state
  nDoS :: int
  strRejectReason :: string
  chRejectCode :: u32
  corruptionPossible :: bool

definition CValidationState_init :: CValidationState where
  "CValidationState_init = \<lparr>state_mode = MODE_VALID, nDoS = 0, strRejectReason = '''', chRejectCode = 0, corruptionPossible = False\<rparr>"

type_synonym check = "CValidationState \<Rightarrow> bool \<times> CValidationState"

definition DoS :: "int \<Rightarrow> bool \<Rightarrow> u32 \<Rightarrow> string \<Rightarrow> bool \<Rightarrow> check" where
  "DoS level ret code reason corruption st =
     (let st = st\<lparr>chRejectCode := code, strRejectReason := reason, corruptionPossible := corruption\<rparr>
      in if state_mode st = MODE_ERROR then (ret, st)
         else (ret, st\<lparr>nDoS := nDoS st + level, state_mode := MODE_INVALID\<rparr>))"

definition Invalid :: "bool \<Rightarrow> u32 \<Rightarrow> string \<Rightarrow> check" where
  "Invalid ret code reason = DoS 0 ret code reason False"

definition state_Error :: "string \<Rightarrow> check" where
  "state_Error reason st =
     (False, (if state_mode st = MODE_VALID then st\<lparr>strRejectReason := reason\<rparr> else st)\<lparr>state_mode := MODE_ERROR\<rparr>)"

definition state_IsValid :: "CValidationState \<Rightarrow> bool" where
  "state_IsValid st \<longleftrightarrow> state_mode st = MODE_VALID"

definition state_IsInvalid :: "CValidationState \<Rightarrow> bool" where
  "state_IsInvalid st \<longleftrightarrow> state_mode st = MODE_INVALID"

section \<open>Lock times\<close>

definition LOCKTIME_VERIFY_SEQUENCE :: u32 where "LOCKTIME_VERIFY_SEQUENCE = push_bit 0 1"
definition LOCKTIME_MEDIAN_TIME_PAST :: u32 where "LOCKTIME_MEDIAN_TIME_PAST = push_bit 1 1"

fun all_final :: "CTxIn list \<Rightarrow> bool" where
  "all_final [] = True"
| "all_final (txin # ins) = (if \<not> nSequence txin = SEQUENCE_FINAL then False else all_final ins)"

definition IsFinalTx :: "CTransaction \<Rightarrow> int \<Rightarrow> int \<Rightarrow> bool" where
  "IsFinalTx tx nBlockHeight nBlockTime =
     (if tx_nLockTime tx = 0 then True
      else if uint (tx_nLockTime tx) < (if uint (tx_nLockTime tx) < LOCKTIME_THRESHOLD then nBlockHeight else nBlockTime)
      then True
      else all_final (vin tx))"

text \<open>The loop over the inputs and their heights, with the minimal height and time so far.\<close>

fun sequence_locks ::
  "block_tree \<Rightarrow> nat \<Rightarrow> CTxIn list \<Rightarrow> int list \<Rightarrow> int \<Rightarrow> int \<Rightarrow> ((int \<times> int) \<times> int list) option" where
  "sequence_locks T block (txin # ins) (nCoinHeight # prevHeights) nMinHeight nMinTime =
     (if nSequence txin AND SEQUENCE_LOCKTIME_DISABLE_FLAG \<noteq> 0
      then do {
        (lockPair, hs) \<leftarrow> sequence_locks T block ins prevHeights nMinHeight nMinTime;
        Some (lockPair, 0 # hs) }
      else if nSequence txin AND SEQUENCE_LOCKTIME_TYPE_FLAG \<noteq> 0
      then do {
        anc \<leftarrow> GetAncestor T block (max (nCoinHeight - 1) 0);
        a \<leftarrow> anc;
        nCoinTime \<leftarrow> GetMedianTimePast T a;
        (lockPair, hs) \<leftarrow> sequence_locks T block ins prevHeights nMinHeight
          (max nMinTime (nCoinTime +
             uint (push_bit SEQUENCE_LOCKTIME_GRANULARITY (nSequence txin AND SEQUENCE_LOCKTIME_MASK)) - 1));
        Some (lockPair, nCoinHeight # hs) }
      else do {
        (lockPair, hs) \<leftarrow> sequence_locks T block ins prevHeights
          (max nMinHeight (nCoinHeight + uint (nSequence txin AND SEQUENCE_LOCKTIME_MASK) - 1)) nMinTime;
        Some (lockPair, nCoinHeight # hs) })"
| "sequence_locks T block _ prevHeights nMinHeight nMinTime = Some ((nMinHeight, nMinTime), prevHeights)"

definition CalculateSequenceLocks ::
  "block_tree \<Rightarrow> CTransaction \<Rightarrow> u32 \<Rightarrow> int list \<Rightarrow> nat \<Rightarrow> ((int \<times> int) \<times> int list) option" where
  "CalculateSequenceLocks T tx flags prevHeights block =
     (if length prevHeights \<noteq> length (vin tx) then None
      else let fEnforceBIP68 = ((word_of_int (tx_nVersion tx) :: u32) \<ge> 2 \<and> flags AND LOCKTIME_VERIFY_SEQUENCE \<noteq> 0)
        in if \<not> fEnforceBIP68 then Some ((- 1, - 1), prevHeights)
           else sequence_locks T block (vin tx) prevHeights (- 1) (- 1))"

definition EvaluateSequenceLocks :: "block_tree \<Rightarrow> nat \<Rightarrow> int \<times> int \<Rightarrow> bool option" where
  "EvaluateSequenceLocks T block lockPair = do {
     i \<leftarrow> T block;
     prev \<leftarrow> pprev i;
     nBlockTime \<leftarrow> GetMedianTimePast T prev;
     Some (if fst lockPair \<ge> int (nHeight i) \<or> snd lockPair \<ge> nBlockTime then False else True) }"

definition SequenceLocks :: "block_tree \<Rightarrow> CTransaction \<Rightarrow> u32 \<Rightarrow> int list \<Rightarrow> nat \<Rightarrow> (bool \<times> int list) option" where
  "SequenceLocks T tx flags prevHeights block = do {
     (lockPair, hs) \<leftarrow> CalculateSequenceLocks T tx flags prevHeights block;
     ok \<leftarrow> EvaluateSequenceLocks T block lockPair;
     Some (ok, hs) }"

section \<open>Signature operations\<close>

fun sum_SigOps :: "u32 \<Rightarrow> CScript list \<Rightarrow> u32 option" where
  "sum_SigOps nSigOps [] = Some nSigOps"
| "sum_SigOps nSigOps (s # scripts) = do { n \<leftarrow> GetSigOpCount False s; sum_SigOps (nSigOps + of_nat n) scripts }"

definition GetLegacySigOpCount :: "CTransaction \<Rightarrow> u32 option" where
  "GetLegacySigOpCount tx = do {
     nSigOps \<leftarrow> sum_SigOps 0 (map scriptSig (vin tx));
     sum_SigOps nSigOps (map scriptPubKey (vout tx)) }"

fun p2sh_SigOps :: "CTxIn list \<Rightarrow> u32 \<Rightarrow> CCoinsViewCache \<Rightarrow> (u32 \<times> CCoinsViewCache) option" where
  "p2sh_SigOps [] nSigOps inputs = Some (nSigOps, inputs)"
| "p2sh_SigOps (txin # ins) nSigOps inputs =
     (let (coin, inputs) = AccessCoin inputs (prevout txin)
      in if IsSpent coin then None
         else if IsPayToScriptHash (scriptPubKey (coin_out coin))
         then do { n \<leftarrow> GetSigOpCount_p2sh (scriptPubKey (coin_out coin)) (scriptSig txin);
                   p2sh_SigOps ins (nSigOps + of_nat n) inputs }
         else p2sh_SigOps ins nSigOps inputs)"

definition GetP2SHSigOpCount :: "CTransaction \<Rightarrow> CCoinsViewCache \<Rightarrow> (u32 \<times> CCoinsViewCache) option" where
  "GetP2SHSigOpCount tx inputs = (if IsCoinBase tx then Some (0, inputs) else p2sh_SigOps (vin tx) 0 inputs)"

fun witness_SigOps :: "u32 \<Rightarrow> CTxIn list \<Rightarrow> int \<Rightarrow> CCoinsViewCache \<Rightarrow> (int \<times> CCoinsViewCache) option" where
  "witness_SigOps flags [] nSigOps inputs = Some (nSigOps, inputs)"
| "witness_SigOps flags (txin # ins) nSigOps inputs =
     (let (coin, inputs) = AccessCoin inputs (prevout txin)
      in if IsSpent coin then None
         else do { n \<leftarrow> CountWitnessSigOps flags (scriptSig txin) (scriptPubKey (coin_out coin)) (Some (scriptWitness txin));
                   witness_SigOps flags ins (nSigOps + int n) inputs })"

definition GetTransactionSigOpCost :: "CTransaction \<Rightarrow> CCoinsViewCache \<Rightarrow> u32 \<Rightarrow> (int \<times> CCoinsViewCache) option" where
  "GetTransactionSigOpCost tx inputs flags = do {
     legacy \<leftarrow> GetLegacySigOpCount tx;
     let nSigOps = uint (legacy * of_nat WITNESS_SCALE_FACTOR);
     if IsCoinBase tx then Some (nSigOps, inputs)
     else do {
       (nSigOps, inputs) \<leftarrow>
         (if flags AND SCRIPT_VERIFY_P2SH \<noteq> 0
          then do { (n, inputs) \<leftarrow> GetP2SHSigOpCount tx inputs;
                    Some (nSigOps + uint (n * of_nat WITNESS_SCALE_FACTOR), inputs) }
          else Some (nSigOps, inputs));
       witness_SigOps flags (vin tx) nSigOps inputs } }"

section \<open>Checks without context\<close>

text \<open>The loop over the output values; the result is the reason of the rejection.\<close>

fun check_outputs :: "CAmount \<Rightarrow> CTxOut list \<Rightarrow> string option" where
  "check_outputs nValueOut [] = None"
| "check_outputs nValueOut (txout # outs) =
     (if nValue txout < 0 then Some ''bad-txns-vout-negative''
      else if nValue txout > MAX_MONEY then Some ''bad-txns-vout-toolarge''
      else let nValueOut = nValueOut + nValue txout
        in if \<not> MoneyRange nValueOut then Some ''bad-txns-txouttotal-toolarge''
           else check_outputs nValueOut outs)"

fun duplicate_inputs :: "COutPoint list \<Rightarrow> CTxIn list \<Rightarrow> bool" where
  "duplicate_inputs vInOutPoints [] = False"
| "duplicate_inputs vInOutPoints (txin # ins) =
     (if prevout txin \<in> set vInOutPoints then True else duplicate_inputs (prevout txin # vInOutPoints) ins)"

definition CheckTransaction :: "CTransaction \<Rightarrow> bool \<Rightarrow> check" where
  "CheckTransaction tx fCheckDuplicateInputs st =
     (if vin tx = [] then DoS 10 False REJECT_INVALID ''bad-txns-vin-empty'' False st
      else if vout tx = [] then DoS 10 False REJECT_INVALID ''bad-txns-vout-empty'' False st
      else if length (SerializeTransaction False tx) * WITNESS_SCALE_FACTOR > MAX_BLOCK_WEIGHT
      then DoS 100 False REJECT_INVALID ''bad-txns-oversize'' False st
      else case check_outputs 0 (vout tx) of
        Some reason \<Rightarrow> DoS 100 False REJECT_INVALID reason False st
      | None \<Rightarrow>
          if fCheckDuplicateInputs \<and> duplicate_inputs [] (vin tx)
          then DoS 100 False REJECT_INVALID ''bad-txns-inputs-duplicate'' False st
          else if IsCoinBase tx
          then (if length (scriptSig (vin tx ! 0)) < 2 \<or> length (scriptSig (vin tx ! 0)) > 100
                then DoS 100 False REJECT_INVALID ''bad-cb-length'' False st
                else (True, st))
          else if list_ex (\<lambda>txin. COutPoint_IsNull (prevout txin)) (vin tx)
          then DoS 10 False REJECT_INVALID ''bad-txns-prevout-null'' False st
          else (True, st))"

section \<open>Checks against the coins spent\<close>

text \<open>The loop over the inputs: the value so far, or the rejection.\<close>

fun sum_inputs :: "int \<Rightarrow> CTxIn list \<Rightarrow> CAmount \<Rightarrow> CValidationState \<Rightarrow> CCoinsViewCache \<Rightarrow>
    ((CAmount + bool \<times> CValidationState) \<times> CCoinsViewCache) option" where
  "sum_inputs nSpendHeight [] nValueIn st inputs = Some (Inl nValueIn, inputs)"
| "sum_inputs nSpendHeight (txin # ins) nValueIn st inputs =
     (let (coin, inputs) = AccessCoin inputs (prevout txin)
      in if IsSpent coin then None
         else if fCoinBase coin \<and> nSpendHeight - uint (coin_nHeight coin) < COINBASE_MATURITY
         then Some (Inr (Invalid False REJECT_INVALID ''bad-txns-premature-spend-of-coinbase'' st), inputs)
         else let nValueIn = nValueIn + nValue (coin_out coin)
           in if \<not> MoneyRange (nValue (coin_out coin)) \<or> \<not> MoneyRange nValueIn
              then Some (Inr (DoS 100 False REJECT_INVALID ''bad-txns-inputvalues-outofrange'' False st), inputs)
              else sum_inputs nSpendHeight ins nValueIn st inputs)"

text \<open>The result is the return value and the state, the fee the reference \<open>txfee\<close> holds, and the cache.\<close>

definition CheckTxInputs :: "CTransaction \<Rightarrow> CValidationState \<Rightarrow> CCoinsViewCache \<Rightarrow> int \<Rightarrow> CAmount \<Rightarrow>
    ((bool \<times> CValidationState) \<times> CAmount \<times> CCoinsViewCache) option" where
  "CheckTxInputs tx st inputs nSpendHeight txfee =
     (let (have_all, inputs) = HaveInputs inputs tx
      in if \<not> have_all
         then Some (DoS 100 False REJECT_INVALID ''bad-txns-inputs-missingorspent'' False st, txfee, inputs)
         else do {
           (r, inputs) \<leftarrow> sum_inputs nSpendHeight (vin tx) 0 st inputs;
           (case r of Inr failed \<Rightarrow> Some (failed, txfee, inputs)
            | Inl nValueIn \<Rightarrow>
                (case GetValueOut tx of Inl e \<Rightarrow> None
                 | Inr value_out \<Rightarrow>
                     if nValueIn < value_out
                     then Some (DoS 100 False REJECT_INVALID ''bad-txns-in-belowout'' False st, txfee, inputs)
                     else let txfee_aux = nValueIn - value_out
                       in if \<not> MoneyRange txfee_aux
                          then Some (DoS 100 False REJECT_INVALID ''bad-txns-fee-outofrange'' False st, txfee, inputs)
                          else Some ((True, st), txfee_aux, inputs))) })"

section \<open>The checks decide their conditions\<close>

lemma check_outputs_None:
  "0 \<le> v \<Longrightarrow> v \<le> MAX_MONEY \<Longrightarrow>
   check_outputs v outs = None \<longleftrightarrow> (\<forall>out \<in> set outs. 0 \<le> nValue out) \<and> v + sum_list (map nValue outs) \<le> MAX_MONEY"
proof (induction outs arbitrary: v)
  case (Cons out outs)
  have "0 \<le> sum_list (map nValue outs)" if "\<forall>out \<in> set outs. 0 \<le> nValue out"
    using that by (intro sum_list_nonneg) auto
  then show ?case using Cons.prems Cons.IH [of "v + nValue out"] by (auto simp: MoneyRange_def Let_def)
qed simp

lemma duplicate_inputs_iff:
  "duplicate_inputs seen ins \<longleftrightarrow> \<not> distinct (map prevout ins) \<or> prevout ` set ins \<inter> set seen \<noteq> {}"
  by (induction ins arbitrary: seen) auto

lemma DoS_simps [simp]:
  "fst (DoS level ret code reason c st) = ret" "fst (Invalid ret code reason st) = ret"
  "DoS level ret code reason c st = (b, st') \<longleftrightarrow> b = ret \<and> st' = snd (DoS level ret code reason c st)"
  "Invalid ret code reason st = (b, st') \<longleftrightarrow> b = ret \<and> st' = snd (Invalid ret code reason st)"
  by (auto simp: DoS_def Invalid_def Let_def)

lemma CheckTransaction_iff:
  "fst (CheckTransaction tx dup st) \<longleftrightarrow>
     vin tx \<noteq> [] \<and> vout tx \<noteq> [] \<and> length (SerializeTransaction False tx) * 4 \<le> MAX_BLOCK_WEIGHT \<and>
     (\<forall>out \<in> set (vout tx). 0 \<le> nValue out) \<and> sum_list (map nValue (vout tx)) \<le> MAX_MONEY \<and>
     (dup \<longrightarrow> distinct (map prevout (vin tx))) \<and>
     (if IsCoinBase tx then 2 \<le> length (scriptSig (vin tx ! 0)) \<and> length (scriptSig (vin tx ! 0)) \<le> 100
      else \<forall>txin \<in> set (vin tx). \<not> COutPoint_IsNull (prevout txin))"
  using check_outputs_None [of 0 "vout tx"]
  by (auto simp: CheckTransaction_def WITNESS_SCALE_FACTOR_def duplicate_inputs_iff list_ex_iff MAX_MONEY_def COIN_def split: option.split)

lemma CheckTransaction_state: "CheckTransaction tx dup st = (True, st') \<Longrightarrow> st' = st"
  by (auto simp: CheckTransaction_def split: option.splits if_splits)

section \<open>Inputs and the set of unspent outputs\<close>

lemma HaveInputs_loop_spec:
  assumes "cache_inv c" "HaveInputs_loop c ins = (b, c')"
  shows "same_view c c' \<and> (b \<longleftrightarrow> (\<forall>txin \<in> set ins. utxo c (prevout txin) \<noteq> None))"
  using assms
proof (induction ins arbitrary: c)
  case (Cons txin ins)
  obtain b1 c1 where 1: "HaveCoin c (prevout txin) = (b1, c1)" by fastforce
  then have v: "same_view c c1" "b1 \<longleftrightarrow> utxo c (prevout txin) \<noteq> None"
    using lookup_spec(5,6) [OF Cons.prems(1), of "prevout txin"] by simp_all
  show ?case
  proof (cases b1)
    case True
    then have "HaveInputs_loop c1 ins = (b, c')" using Cons.prems(2) 1 by simp
    with Cons.IH [of c1] v True show ?thesis by (auto simp: same_view_def)
  qed (use Cons.prems 1 v in auto)
qed (simp add: same_view_def)

lemma AccessCoin_spec:
  assumes "cache_inv c" "AccessCoin c k = (coin, c')"
  shows "same_view c c'" "cache_inv c'" "utxo c' = utxo c" "IsSpent coin \<longleftrightarrow> utxo c k = None" "utxo c k = Some v \<Longrightarrow> coin = v"
proof -
  have u: "same_view c c'" "utxo c k = unspent (Some coin)" using lookup_spec(3,4) [OF assms(1), of k] assms(2) by simp_all
  then show "same_view c c'" "cache_inv c'" "utxo c' = utxo c" by (simp_all add: same_view_def)
  show "IsSpent coin \<longleftrightarrow> utxo c k = None" "utxo c k = Some v \<Longrightarrow> coin = v" by (simp_all only: u(2)) simp_all
qed

definition in_value :: "(COutPoint \<Rightarrow> Coin option) \<Rightarrow> CTxIn list \<Rightarrow> CAmount" where
  "in_value u ins = sum_list (map (\<lambda>txin. nValue (coin_out (the (u (prevout txin))))) ins)"

definition spendable :: "int \<Rightarrow> (COutPoint \<Rightarrow> Coin option) \<Rightarrow> CTxIn \<Rightarrow> bool" where
  "spendable h u txin \<longleftrightarrow> (\<exists>coin. u (prevout txin) = Some coin \<and> MoneyRange (nValue (coin_out coin)) \<and>
     (fCoinBase coin \<longrightarrow> COINBASE_MATURITY \<le> h - uint (coin_nHeight coin)))"

text \<open>What the loop over the inputs answers.\<close>

definition inputs_result :: "int \<Rightarrow> (COutPoint \<Rightarrow> Coin option) \<Rightarrow> CTxIn list \<Rightarrow> CAmount \<Rightarrow> CAmount + bool \<times> CValidationState \<Rightarrow> bool" where
  "inputs_result h u ins v r \<longleftrightarrow>
     (let ok = (v + in_value u ins \<le> MAX_MONEY \<and> (\<forall>txin \<in> set ins. spendable h u txin))
      in case r of Inl w \<Rightarrow> w = v + in_value u ins \<and> ok | Inr failed \<Rightarrow> \<not> fst failed \<and> \<not> ok)"

lemma sum_inputs_spec:
  assumes "cache_inv c" "\<forall>txin \<in> set ins. utxo c (prevout txin) \<noteq> None" "0 \<le> v" "v \<le> MAX_MONEY"
  shows "\<exists>r c'. sum_inputs h ins v st c = Some (r, c') \<and> same_view c c' \<and> inputs_result h (utxo c) ins v r"
  using assms
proof (induction ins arbitrary: v c)
  case (Cons txin ins)
  obtain coin c1 where a: "AccessCoin c (prevout txin) = (coin, c1)" by fastforce
  note s = AccessCoin_spec [OF Cons.prems(1) a]
  have u: "utxo c (prevout txin) = Some coin" using s(5) Cons.prems(2) by auto
  then have live: "\<not> IsSpent coin" using s(4) by simp
  have sp: "spendable h (utxo c) txin \<longleftrightarrow> MoneyRange (nValue (coin_out coin)) \<and>
      (fCoinBase coin \<longrightarrow> COINBASE_MATURITY \<le> h - uint (coin_nHeight coin))"
    using u by (simp add: spendable_def)
  have iv: "in_value (utxo c) (txin # ins) = nValue (coin_out coin) + in_value (utxo c) ins"
    using u by (simp add: in_value_def)
  have iv0: "0 \<le> in_value (utxo c) ins" if "\<forall>txin \<in> set ins. spendable h (utxo c) txin"
    unfolding in_value_def using that by (intro sum_list_nonneg) (auto simp: spendable_def MoneyRange_def)
  show ?case
  proof (cases "(fCoinBase coin \<longrightarrow> COINBASE_MATURITY \<le> h - uint (coin_nHeight coin)) \<and>
      MoneyRange (nValue (coin_out coin)) \<and> MoneyRange (v + nValue (coin_out coin))")
    case True
    then have run: "sum_inputs h (txin # ins) v st c = sum_inputs h ins (v + nValue (coin_out coin)) st c1"
      using a live by (auto simp: Let_def)
    have "\<exists>r c'. sum_inputs h ins (v + nValue (coin_out coin)) st c1 = Some (r, c') \<and> same_view c1 c' \<and>
        inputs_result h (utxo c1) ins (v + nValue (coin_out coin)) r"
      using True Cons.prems s(2,3) by (intro Cons.IH) (auto simp: MoneyRange_def)
    then obtain r c' where r: "sum_inputs h ins (v + nValue (coin_out coin)) st c1 = Some (r, c')" "same_view c1 c'"
      "inputs_result h (utxo c) ins (v + nValue (coin_out coin)) r" by (auto simp: s(3))
    have "same_view c c'" using s(1) r(2) by (rule same_view_trans)
    moreover have "inputs_result h (utxo c) (txin # ins) v r"
      using r(3) True sp by (auto simp: inputs_result_def iv Let_def split: sum.splits)
    ultimately show ?thesis using r(1) unfolding run by blast
  next
    case False
    then have "\<exists>failed. sum_inputs h (txin # ins) v st c = Some (Inr failed, c1) \<and> \<not> fst failed"
      using a live by (auto simp: Let_def)
    moreover have "\<not> (v + in_value (utxo c) (txin # ins) \<le> MAX_MONEY \<and> (\<forall>i \<in> set (txin # ins). spendable h (utxo c) i))"
    proof
      assume *: "v + in_value (utxo c) (txin # ins) \<le> MAX_MONEY \<and> (\<forall>i \<in> set (txin # ins). spendable h (utxo c) i)"
      with iv iv0 sp Cons.prems(3) have "MoneyRange (v + nValue (coin_out coin))" by (auto simp: MoneyRange_def)
      with * sp False show False by auto
    qed
    ultimately show ?thesis using s(1) by (auto simp: inputs_result_def Let_def)
  qed
qed (simp add: in_value_def same_view_def inputs_result_def)

lemma CheckTxInputs_spec:
  assumes inv: "cache_inv c" and cb: "\<not> IsCoinBase tx" and out: "GetValueOut tx = Inr out" "0 \<le> out"
  shows "\<exists>r fee c'. CheckTxInputs tx st c h fee0 = Some (r, fee, c') \<and> same_view c c' \<and>
    (fst r \<longleftrightarrow> (\<forall>txin \<in> set (vin tx). spendable h (utxo c) txin) \<and> out \<le> in_value (utxo c) (vin tx) \<and>
      in_value (utxo c) (vin tx) \<le> MAX_MONEY) \<and>
    (fst r \<longrightarrow> snd r = st \<and> fee = in_value (utxo c) (vin tx) - out)"
proof -
  obtain b c1 where h: "HaveInputs c tx = (b, c1)" by fastforce
  then have hv: "same_view c c1" "b \<longleftrightarrow> (\<forall>txin \<in> set (vin tx). utxo c (prevout txin) \<noteq> None)"
    using HaveInputs_loop_spec [OF inv] cb by (auto simp: HaveInputs_def)
  show ?thesis
  proof (cases b)
    case False
    then have "\<not> (\<forall>txin \<in> set (vin tx). spendable h (utxo c) txin)" using hv(2) by (auto simp: spendable_def)
    with False h hv(1) show ?thesis by (auto simp: CheckTxInputs_def)
  next
    case True
    then have "cache_inv c1" "\<forall>txin \<in> set (vin tx). utxo c1 (prevout txin) \<noteq> None" and u1: "utxo c1 = utxo c"
      using hv by (auto simp: same_view_def)
    from sum_inputs_spec [OF this(1,2), of 0 h st] obtain r c' where
      r: "sum_inputs h (vin tx) 0 st c1 = Some (r, c')" "same_view c1 c'" "inputs_result h (utxo c) (vin tx) 0 r"
      by (auto simp: u1 MAX_MONEY_def COIN_def)
    have "same_view c c'" using hv(1) r(2) by (rule same_view_trans)
    then show ?thesis using r True h out
      by (cases r) (auto simp: CheckTxInputs_def Let_def MoneyRange_def inputs_result_def)
  qed
qed

lemma GetValueOut_checked:
  assumes "fst (CheckTransaction tx dup st)"
  shows "GetValueOut tx = Inr (sum_list (map nValue (vout tx)))" "0 \<le> sum_list (map nValue (vout tx))"
proof -
  have v: "\<forall>out \<in> set (vout tx). 0 \<le> nValue out" "sum_list (map nValue (vout tx)) \<le> MAX_MONEY"
    using assms by (simp_all add: CheckTransaction_iff)
  then show "GetValueOut tx = Inr (sum_list (map nValue (vout tx)))"
    using GetValueOut_loop_ok [of "vout tx" 0] by (simp add: GetValueOut_def)
  show "0 \<le> sum_list (map nValue (vout tx))" using v(1) by (intro sum_list_nonneg) auto
qed

section \<open>Relative lock times\<close>

text \<open>An input is unlocked in a block of height \<open>H\<close> whose predecessor has median time \<open>B\<close>.\<close>

fun unlocked :: "block_tree \<Rightarrow> nat \<Rightarrow> int \<Rightarrow> int \<Rightarrow> CTxIn \<times> int \<Rightarrow> bool" where
  "unlocked T block H B (txin, h) =
     (if nSequence txin AND SEQUENCE_LOCKTIME_DISABLE_FLAG \<noteq> 0 then True
      else if nSequence txin AND SEQUENCE_LOCKTIME_TYPE_FLAG \<noteq> 0
      then (case GetAncestor T block (max (h - 1) 0) of
              Some (Some a) \<Rightarrow>
                (case GetMedianTimePast T a of
                   Some t \<Rightarrow> t + uint (nSequence txin AND SEQUENCE_LOCKTIME_MASK) * 512 \<le> B
                 | None \<Rightarrow> False)
            | _ \<Rightarrow> False)
      else h + uint (nSequence txin AND SEQUENCE_LOCKTIME_MASK) \<le> H)"

lemma shifted_lock: "uint (push_bit SEQUENCE_LOCKTIME_GRANULARITY (x AND SEQUENCE_LOCKTIME_MASK) :: u32) =
  uint (x AND SEQUENCE_LOCKTIME_MASK) * 512"
proof -
  have "x AND SEQUENCE_LOCKTIME_MASK = take_bit 16 x"
    by (simp add: SEQUENCE_LOCKTIME_MASK_def take_bit_eq_mask mask_eq_exp_minus_1)
  then have "unat (x AND SEQUENCE_LOCKTIME_MASK) < 65536" using take_bit_nat_less_exp [of 16 "unat x"] by (simp add: unsigned_take_bit_eq)
  then have "unat (push_bit 9 (x AND SEQUENCE_LOCKTIME_MASK) :: u32) = unat (x AND SEQUENCE_LOCKTIME_MASK) * 512"
    by (simp add: unat_push_bit del: push_bit_and)
  then show ?thesis by (simp only: SEQUENCE_LOCKTIME_GRANULARITY_def uint_nat of_nat_mult of_nat_numeral)
qed

lemma sequence_locks_spec:
  assumes "sequence_locks T block ins hs mh mt = Some ((mh', mt'), hs')"
  shows "mh' < H \<and> mt' < B \<longleftrightarrow> mh < H \<and> mt < B \<and> list_all (unlocked T block H B) (zip ins hs)"
  using assms
proof (induction T block ins hs mh mt arbitrary: mh' mt' hs' rule: sequence_locks.induct)
  case (1 T block txin ins h hs mh mt)
  show ?case
  proof (cases "nSequence txin AND SEQUENCE_LOCKTIME_DISABLE_FLAG \<noteq> 0")
    case True
    with 1(4) obtain r where a: "sequence_locks T block ins hs mh mt = Some ((mh', mt'), r)" by (auto split: bind_splits)
    show ?thesis using 1(1) [OF True a] True by simp
  next
    case False
    show ?thesis
    proof (cases "nSequence txin AND SEQUENCE_LOCKTIME_TYPE_FLAG \<noteq> 0")
      case True
      with 1(4) False obtain a t r where a: "GetAncestor T block (max (h - 1) 0) = Some (Some a)" "GetMedianTimePast T a = Some t"
        "sequence_locks T block ins hs mh
          (max mt (t + uint (push_bit SEQUENCE_LOCKTIME_GRANULARITY (nSequence txin AND SEQUENCE_LOCKTIME_MASK)) - 1)) = Some ((mh', mt'), r)"
        by (auto split: bind_splits)
      show ?thesis
        using 1(2) [OF False True a(1) refl a(2) a(3)] a(1,2) False True by (auto simp: shifted_lock simp del: push_bit_and)
    next
      case type: False
      with 1(4) False obtain r where a:
        "sequence_locks T block ins hs (max mh (h + uint (nSequence txin AND SEQUENCE_LOCKTIME_MASK) - 1)) mt = Some ((mh', mt'), r)"
        by (auto split: bind_splits)
      show ?thesis using 1(3) [OF False type a] False type by auto
    qed
  qed
qed auto

lemma SequenceLocks_spec:
  assumes "SequenceLocks T tx LOCKTIME_VERIFY_SEQUENCE hs block = Some (ok, hs')" "(word_of_int (tx_nVersion tx) :: u32) \<ge> 2"
    and "T block = Some i" "pprev i = Some q" "GetMedianTimePast T q = Some B" "0 \<le> B"
  shows "ok \<longleftrightarrow> list_all (unlocked T block (int (nHeight i)) B) (zip (vin tx) hs)"
proof -
  obtain mh mt where l: "sequence_locks T block (vin tx) hs (- 1) (- 1) = Some ((mh, mt), hs')"
    "ok \<longleftrightarrow> mh < int (nHeight i) \<and> mt < B"
    using assms by (auto simp: SequenceLocks_def CalculateSequenceLocks_def EvaluateSequenceLocks_def LOCKTIME_VERIFY_SEQUENCE_def
      split: bind_splits if_splits)
  show ?thesis using sequence_locks_spec [OF l(1), of "int (nHeight i)" B] l(2) assms(6) by auto
qed

end
