(* ===== verification/Utxo_Update.thy ===== *)
theory Utxo_Update
  imports Tx_Verify
begin

text \<open>
  What connecting a transaction does to the coins, and how disconnecting a block takes it back
  (\<open>UpdateCoins\<close>, \<open>ApplyTxInUndo\<close> and \<open>DisconnectBlock\<close> of \<open>validation.cpp\<close>, with the undo records of
  \<open>undo.h\<close>).  The code works on the operations of a view; the locale \<open>coins_view\<close> states what they
  promise, the lemmas of this theory follow from these promises alone, and the interpretation at the end
  gives them for the cache.  \<open>None\<close> is a failed assertion or an exception.
\<close>

section \<open>Operations\<close>

type_synonym CTxUndo = "Coin list"
type_synonym CBlockUndo = "CTxUndo list"

datatype DisconnectResult = DISCONNECT_OK | DISCONNECT_UNCLEAN | DISCONNECT_FAILED

fun or_abort :: "'e + 'a \<Rightarrow> 'a option" where
  "or_abort (Inl e) = None"
| "or_abort (Inr a) = Some a"

fun SpendInputs :: "'s coins_ops \<Rightarrow> CTxIn list \<Rightarrow> 's \<Rightarrow> (CTxUndo \<times> 's) option" where
  "SpendInputs ops [] inputs = Some ([], inputs)"
| "SpendInputs ops (txin # ins) inputs =
     (let (is_spent, coin, inputs) = op_SpendCoin ops inputs (prevout txin)
      in if \<not> is_spent then None
         else do { (txundo, inputs) \<leftarrow> SpendInputs ops ins inputs; Some (coin # txundo, inputs) })"

definition UpdateCoins :: "'s coins_ops \<Rightarrow> hasher \<Rightarrow> CTransaction \<Rightarrow> 's \<Rightarrow> int \<Rightarrow> (CTxUndo \<times> 's) option" where
  "UpdateCoins ops H tx inputs height = do {
     (txundo, inputs) \<leftarrow> (if \<not> IsCoinBase tx then SpendInputs ops (vin tx) inputs else Some ([], inputs));
     inputs \<leftarrow> or_abort (AddCoins ops H inputs tx height False);
     Some (txundo, inputs) }"

definition ApplyTxInUndo :: "'s coins_ops \<Rightarrow> Coin \<Rightarrow> 's \<Rightarrow> COutPoint \<Rightarrow> (DisconnectResult \<times> 's) option" where
  "ApplyTxInUndo ops undo view out =
     (let (have_it, view) = op_HaveCoin ops view out;
          fClean = (if have_it then False else True);
          (undo_or_failed, view) =
            (if coin_nHeight undo = 0
             then let (alternate, view) = op_AccessByTxid ops view (op_hash out)
                  in if \<not> IsSpent alternate
                     then (Some (undo\<lparr>coin_nHeight := coin_nHeight alternate, fCoinBase := fCoinBase alternate\<rparr>), view)
                     else (None, view)
             else (Some undo, view))
      in case undo_or_failed of None \<Rightarrow> Some (DISCONNECT_FAILED, view)
         | Some undo \<Rightarrow> do {
             view \<leftarrow> or_abort (op_AddCoin ops view out undo (\<not> fClean));
             Some (if fClean then DISCONNECT_OK else DISCONNECT_UNCLEAN, view) })"

text \<open>The outputs of a transaction are taken out of the view; \<open>o\<close> counts them.\<close>

fun UndoOutputs :: "'s coins_ops \<Rightarrow> int \<Rightarrow> uint256 \<Rightarrow> bool \<Rightarrow> nat \<Rightarrow> CTxOut list \<Rightarrow> bool \<Rightarrow> 's \<Rightarrow> bool \<times> 's" where
  "UndoOutputs ops height hash is_coinbase i [] fClean view = (fClean, view)"
| "UndoOutputs ops height hash is_coinbase i (txout # outs) fClean view =
     (if \<not> IsUnspendable (scriptPubKey txout)
      then let (is_spent, coin, view) = op_SpendCoin ops view \<lparr>op_hash = hash, op_n = of_nat i\<rparr>;
               fClean = (if \<not> is_spent \<or> txout \<noteq> coin_out coin \<or> height \<noteq> uint (coin_nHeight coin) \<or>
                            is_coinbase \<noteq> fCoinBase coin then False else fClean)
           in UndoOutputs ops height hash is_coinbase (i + 1) outs fClean view
      else UndoOutputs ops height hash is_coinbase (i + 1) outs fClean view)"

text \<open>The inputs are restored in the order of the list; the flag is \<open>None\<close> when one fails.\<close>

fun UndoInputs :: "'s coins_ops \<Rightarrow> (COutPoint \<times> Coin) list \<Rightarrow> bool \<Rightarrow> 's \<Rightarrow> (bool option \<times> 's) option" where
  "UndoInputs ops [] fClean view = Some (Some fClean, view)"
| "UndoInputs ops ((out, undo) # rest) fClean view = do {
     (res, view) \<leftarrow> ApplyTxInUndo ops undo view out;
     if res = DISCONNECT_FAILED then Some (None, view)
     else UndoInputs ops rest (fClean \<and> res \<noteq> DISCONNECT_UNCLEAN) view }"

text \<open>The loop over the transactions, backwards from number \<open>i\<close>.\<close>

fun UndoTransactions :: "'s coins_ops \<Rightarrow> hasher \<Rightarrow> int \<Rightarrow> CTransaction list \<Rightarrow> CBlockUndo \<Rightarrow> nat \<Rightarrow> bool \<Rightarrow> 's \<Rightarrow>
    (bool option \<times> 's) option" where
  "UndoTransactions ops H height txs vtxundo 0 fClean view = Some (Some fClean, view)"
| "UndoTransactions ops H height txs vtxundo (Suc i) fClean view =
     (let tx = txs ! i;
          (fClean, view) = UndoOutputs ops height (tx_GetHash H tx) (IsCoinBase tx) 0 (vout tx) fClean view
      in if i > 0
         then let txundo = vtxundo ! (i - 1)
              in if length txundo \<noteq> length (vin tx) then Some (None, view)
                 else do {
                   (res, view) \<leftarrow> UndoInputs ops (rev (zip (map prevout (vin tx)) txundo)) fClean view;
                   (case res of None \<Rightarrow> Some (None, view)
                    | Some fClean \<Rightarrow> UndoTransactions ops H height txs vtxundo i fClean view) }
         else UndoTransactions ops H height txs vtxundo i fClean view)"

text \<open>The undo data is \<open>None\<close> when it cannot be read.\<close>

definition DisconnectBlock :: "'s coins_ops \<Rightarrow> hasher \<Rightarrow> block_tree \<Rightarrow> CBlock \<Rightarrow> CBlockIndex \<Rightarrow> CBlockUndo option \<Rightarrow> 's \<Rightarrow>
    (DisconnectResult \<times> 's) option" where
  "DisconnectBlock ops H T block pindex blockUndo view =
     (case blockUndo of None \<Rightarrow> Some (DISCONNECT_FAILED, view)
      | Some vtxundo \<Rightarrow>
          if length vtxundo + 1 \<noteq> length (vtx block) then Some (DISCONNECT_FAILED, view)
          else do {
            (res, view) \<leftarrow> UndoTransactions ops H (int (nHeight pindex)) (vtx block) vtxundo (length (vtx block)) True view;
            (case res of None \<Rightarrow> Some (DISCONNECT_FAILED, view)
             | Some fClean \<Rightarrow> do {
                 hash \<leftarrow> (case pprev pindex of None \<Rightarrow> Some uint256_null
                         | Some q \<Rightarrow> do { j \<leftarrow> T q; GetBlockHash j });
                 Some (if fClean then DISCONNECT_OK else DISCONNECT_UNCLEAN, op_SetBestBlock ops view hash) }) })"

section \<open>The interface of a view\<close>

text \<open>\<open>view\<close> is the set of unspent outputs a state stands for.\<close>

locale coins_view =
  fixes ops :: "'s coins_ops"
    and inv :: "'s \<Rightarrow> bool"
    and view :: "'s \<Rightarrow> COutPoint \<Rightarrow> Coin option"
  assumes view_unspent: "view s k = Some coin \<Longrightarrow> \<not> IsSpent coin"
    and have_coin: "inv s \<Longrightarrow> op_HaveCoin ops s k = (b, s') \<Longrightarrow> inv s' \<and> view s' = view s \<and> (b \<longleftrightarrow> view s k \<noteq> None)"
    and add: "inv s \<Longrightarrow> \<not> IsSpent coin \<Longrightarrow> overwrite \<or> view s k = None \<Longrightarrow>
      \<exists>s'. op_AddCoin ops s k coin overwrite = Inr s' \<and> inv s' \<and>
        view s' = (if IsUnspendable (scriptPubKey (coin_out coin)) then view s else (view s)(k \<mapsto> coin))"
    and spend: "inv s \<Longrightarrow> op_SpendCoin ops s k = (b, coin, s') \<Longrightarrow>
      inv s' \<and> view s' = (view s)(k := None) \<and> (\<forall>v. view s k = Some v \<longrightarrow> b \<and> coin = v)"
    and by_txid: "inv s \<Longrightarrow> op_AccessByTxid ops s txid = (coin, s') \<Longrightarrow> inv s' \<and> view s' = view s \<and>
      (IsSpent coin \<longleftrightarrow> (\<forall>n < MAX_OUTPUTS_PER_BLOCK. view s \<lparr>op_hash = txid, op_n = of_nat n\<rparr> = None))"
    and best_block: "inv s \<Longrightarrow> inv (op_SetBestBlock ops s h) \<and> view (op_SetBestBlock ops s h) = view s"

section \<open>The effect of a transaction on a set of unspent outputs\<close>

text \<open>The outputs numbered from \<open>i\<close> of a transaction, as coins.\<close>

definition created :: "uint256 \<Rightarrow> int \<Rightarrow> bool \<Rightarrow> nat \<Rightarrow> CTxOut list \<Rightarrow> COutPoint \<Rightarrow> Coin option" where
  "created txid h cb i outs k =
     (if op_hash k = txid \<and> i \<le> unat (op_n k) \<and> unat (op_n k) < i + length outs \<and>
         \<not> IsUnspendable (scriptPubKey (outs ! (unat (op_n k) - i)))
      then Some (Coin_of (outs ! (unat (op_n k) - i)) h cb) else None)"

definition spent_by :: "CTransaction \<Rightarrow> COutPoint set" where
  "spent_by tx = (if IsCoinBase tx then {} else set (map prevout (vin tx)))"

definition tx_effect :: "hasher \<Rightarrow> int \<Rightarrow> CTransaction \<Rightarrow> (COutPoint \<Rightarrow> Coin option) \<Rightarrow> COutPoint \<Rightarrow> Coin option" where
  "tx_effect H h tx u = u |` (- spent_by tx) ++ created (tx_GetHash H tx) h (IsCoinBase tx) 0 (vout tx)"

text \<open>What has to hold for a transaction to be applied: its inputs are there, each once, its outputs are not
  null, and no output of a transaction with its hash is unspent.\<close>

definition tx_applies :: "hasher \<Rightarrow> CTransaction \<Rightarrow> (COutPoint \<Rightarrow> Coin option) \<Rightarrow> bool" where
  "tx_applies H tx u \<longleftrightarrow>
     (\<not> IsCoinBase tx \<longrightarrow> distinct (map prevout (vin tx)) \<and> spent_by tx \<subseteq> dom u) \<and>
     length (vout tx) < 2 ^ 32 \<and> (\<forall>out \<in> set (vout tx). nValue out \<noteq> - 1) \<and>
     (\<forall>n. u \<lparr>op_hash = tx_GetHash H tx, op_n = n\<rparr> = None)"

lemma restrict_map_UNIV [simp]: "u |` UNIV = u"
  by (simp add: restrict_map_def)

lemma created_Nil [simp]: "created txid h cb i [] = Map.empty"
  by (simp add: created_def fun_eq_iff)

lemma created_Cons:
  assumes "i + length (out # outs) \<le> 2 ^ 32"
  shows "created txid h cb i (out # outs) =
    (if IsUnspendable (scriptPubKey out) then created txid h cb (i + 1) outs
     else (created txid h cb (i + 1) outs)(\<lparr>op_hash = txid, op_n = of_nat i\<rparr> \<mapsto> Coin_of out h cb))" (is "?l = ?r")
proof
  fix k
  have i: "unat (of_nat i :: u32) = i" using assms by (simp add: unat_of_nat_u32)
  show "?l k = ?r k"
  proof (cases "op_hash k = txid \<and> unat (op_n k) = i")
    case True
    then have "k = \<lparr>op_hash = txid, op_n = of_nat i\<rparr>" by (cases k) auto
    then show ?thesis by (auto simp: created_def i)
  next
    case False
    then have "k \<noteq> \<lparr>op_hash = txid, op_n = of_nat i\<rparr>" using i by auto
    moreover have "(out # outs) ! (unat (op_n k) - i) = outs ! (unat (op_n k) - (i + 1))" if "i < unat (op_n k)"
      using that by (simp add: nth_Cons')
    ultimately show ?thesis using False by (auto simp: created_def le_less)
  qed
qed

lemma created_below: "created txid h cb (i + 1) outs \<lparr>op_hash = txid, op_n = of_nat i\<rparr> = None" if "i < 2 ^ 32"
  using that by (simp add: created_def unat_of_nat_u32)

section \<open>Connecting\<close>

context coins_view
begin

lemma SpendInputs_spec:
  assumes "inv s" "distinct (map prevout ins)" "set (map prevout ins) \<subseteq> dom (view s)"
  shows "\<exists>s'. SpendInputs ops ins s = Some (map (\<lambda>txin. the (view s (prevout txin))) ins, s') \<and> inv s' \<and>
    view s' = view s |` (- set (map prevout ins))"
  using assms
proof (induction ins arbitrary: s)
  case (Cons txin ins)
  obtain b coin s1 where run: "op_SpendCoin ops s (prevout txin) = (b, coin, s1)" by (metis prod_cases3)
  have s1: "inv s1" "view s1 = (view s)(prevout txin := None)" "b" "view s (prevout txin) = Some coin"
    using spend [OF Cons.prems(1) run] Cons.prems(3) by auto
  have same: "view s1 (prevout i) = view s (prevout i)" if "i \<in> set ins" for i
    using that Cons.prems(2) s1(2) by (auto simp: image_iff)
  then have "set (map prevout ins) \<subseteq> dom (view s1)" using Cons.prems(3) by auto
  with Cons.IH [of s1] s1(1) Cons.prems(2) obtain s' where
    s': "SpendInputs ops ins s1 = Some (map (\<lambda>txin. the (view s1 (prevout txin))) ins, s')" "inv s'"
      "view s' = view s1 |` (- set (map prevout ins))" by auto
  have "map (\<lambda>txin. the (view s1 (prevout txin))) ins = map (\<lambda>txin. the (view s (prevout txin))) ins" using same by simp
  moreover have "view s' = view s |` (- set (map prevout (txin # ins)))"
    unfolding s'(3) s1(2) by (auto simp: restrict_map_def fun_eq_iff)
  ultimately show ?case using run s1 s' by simp
qed simp

lemma AddCoins_loop_spec:
  assumes "inv s" "i + length outs \<le> 2 ^ 32" "\<forall>out \<in> set outs. nValue out \<noteq> - 1"
    and "cb \<or> (\<forall>n. view s \<lparr>op_hash = txid, op_n = n\<rparr> \<noteq> None \<longrightarrow> unat n < i)"
  shows "\<exists>s'. AddCoins_loop ops txid h cb False i outs s = Inr s' \<and> inv s' \<and> view s' = view s ++ created txid h cb i outs"
  using assms
proof (induction outs arbitrary: s i)
  case (Cons out outs)
  let ?k = "\<lparr>op_hash = txid, op_n = of_nat i\<rparr>" and ?c = "Coin_of out h cb"
  have i: "unat (of_nat i :: u32) = i" using Cons.prems(2) by (simp add: unat_of_nat_u32)
  have live: "\<not> IsSpent ?c" using Cons.prems(3) by (simp add: IsSpent_def CTxOut_IsNull_def Coin_of_def)
  have "cb \<or> view s ?k = None" using Cons.prems(4) i by fastforce
  then obtain s1 where s1: "op_AddCoin ops s ?k ?c cb = Inr s1" "inv s1"
    "view s1 = (if IsUnspendable (scriptPubKey out) then view s else (view s)(?k \<mapsto> ?c))"
    using add [OF Cons.prems(1) live] by (auto simp: Coin_of_def)
  have "cb \<or> (\<forall>n. view s1 \<lparr>op_hash = txid, op_n = n\<rparr> \<noteq> None \<longrightarrow> unat n < i + 1)"
    using Cons.prems(4) i s1(3) by (auto split: if_splits simp: less_Suc_eq)
  with Cons.IH [of s1 "i + 1"] s1(2) Cons.prems(2,3) obtain s' where
    s': "AddCoins_loop ops txid h cb False (i + 1) outs s1 = Inr s'" "inv s'" "view s' = view s1 ++ created txid h cb (i + 1) outs"
    by auto
  have below: "created txid h cb (i + 1) outs ?k = None" using Cons.prems(2) by (intro created_below) simp
  have "view s' = view s ++ created txid h cb i (out # outs)"
    unfolding s'(3) s1(3) created_Cons [OF Cons.prems(2)] using below by (auto simp: map_add_def fun_eq_iff split: option.split)
  then show ?case using s1(1) s' by simp
qed simp

lemma UpdateCoins_spec:
  assumes "inv s" "tx_applies H tx (view s)"
  shows "\<exists>s'. UpdateCoins ops H tx s h =
      Some (if IsCoinBase tx then [] else map (\<lambda>txin. the (view s (prevout txin))) (vin tx), s') \<and>
    inv s' \<and> view s' = tx_effect H h tx (view s)"
proof -
  obtain s1 where s1: "(if \<not> IsCoinBase tx then SpendInputs ops (vin tx) s else Some ([], s)) =
      Some (if IsCoinBase tx then [] else map (\<lambda>txin. the (view s (prevout txin))) (vin tx), s1)" "inv s1"
    "view s1 = view s |` (- spent_by tx)"
    using SpendInputs_spec [OF assms(1), of "vin tx"] assms
    by (cases "IsCoinBase tx") (auto simp: tx_applies_def spent_by_def)
  have "IsCoinBase tx \<or> (\<forall>n. view s1 \<lparr>op_hash = tx_GetHash H tx, op_n = n\<rparr> \<noteq> None \<longrightarrow> unat n < 0)"
    using assms(2) s1(3) by (simp add: tx_applies_def restrict_map_def)
  with AddCoins_loop_spec [OF s1(2), of 0 "vout tx" "IsCoinBase tx" "tx_GetHash H tx" h] assms(2) s1(3)
  show ?thesis unfolding UpdateCoins_def s1(1) by (auto simp: AddCoins_def tx_applies_def tx_effect_def)
qed

end

section \<open>Disconnecting\<close>

text \<open>A coin the undo data can bring back: its height is not zero and \<open>AddCoin\<close> does not drop it.\<close>

definition restorable :: "Coin \<Rightarrow> bool" where
  "restorable coin \<longleftrightarrow> coin_nHeight coin \<noteq> 0 \<and> \<not> IsUnspendable (scriptPubKey (coin_out coin))"

text \<open>The sets of unspent outputs along a block, and that every transaction applies where it is reached.\<close>

fun block_effect :: "hasher \<Rightarrow> int \<Rightarrow> CTransaction list \<Rightarrow> (COutPoint \<Rightarrow> Coin option) \<Rightarrow> COutPoint \<Rightarrow> Coin option" where
  "block_effect H h [] u = u"
| "block_effect H h (tx # txs) u = block_effect H h txs (tx_effect H h tx u)"

fun block_undo :: "hasher \<Rightarrow> int \<Rightarrow> CTransaction list \<Rightarrow> (COutPoint \<Rightarrow> Coin option) \<Rightarrow> CBlockUndo" where
  "block_undo H h [] u = []"
| "block_undo H h (tx # txs) u =
     (if IsCoinBase tx then [] else map (\<lambda>txin. the (u (prevout txin))) (vin tx)) # block_undo H h txs (tx_effect H h tx u)"

fun block_applies :: "hasher \<Rightarrow> int \<Rightarrow> CTransaction list \<Rightarrow> (COutPoint \<Rightarrow> Coin option) \<Rightarrow> bool" where
  "block_applies H h [] u = True"
| "block_applies H h (tx # txs) u \<longleftrightarrow> tx_applies H tx u \<and> block_applies H h txs (tx_effect H h tx u)"

fun spends_restorable :: "hasher \<Rightarrow> int \<Rightarrow> CTransaction list \<Rightarrow> (COutPoint \<Rightarrow> Coin option) \<Rightarrow> bool" where
  "spends_restorable H h [] u = True"
| "spends_restorable H h (tx # txs) u \<longleftrightarrow>
     (\<forall>k \<in> spent_by tx. \<forall>coin. u k = Some coin \<longrightarrow> restorable coin) \<and> spends_restorable H h txs (tx_effect H h tx u)"

lemma length_block_undo [simp]: "length (block_undo H h txs u) = length txs"
  by (induction txs arbitrary: u) auto

lemma block_nth:
  assumes "i < length txs"
  shows "block_effect H h (take (Suc i) txs) u = tx_effect H h (txs ! i) (block_effect H h (take i txs) u)"
    "block_undo H h txs u ! i = (if IsCoinBase (txs ! i) then []
       else map (\<lambda>txin. the (block_effect H h (take i txs) u (prevout txin))) (vin (txs ! i)))"
    "block_applies H h txs u \<Longrightarrow> tx_applies H (txs ! i) (block_effect H h (take i txs) u)"
    "spends_restorable H h txs u \<Longrightarrow> k \<in> spent_by (txs ! i) \<Longrightarrow> block_effect H h (take i txs) u k = Some coin \<Longrightarrow> restorable coin"
  using assms
proof (induction txs arbitrary: u i)
  case (Cons tx txs)
  { case 1 then show ?case using Cons.IH(1) [of "i - 1" "tx_effect H h tx u"] by (cases i) auto }
  { case 2 then show ?case using Cons.IH(2) [of "i - 1" "tx_effect H h tx u"] by (cases i) auto }
  { case 3 then show ?case using Cons.IH(3) [of "tx_effect H h tx u" "i - 1"] by (cases i) auto }
  { case 4 then show ?case using Cons.IH(4) [of "tx_effect H h tx u" "i - 1"] by (cases i) auto }
qed auto

lemma map_of_rev_distinct: "distinct (map fst xs) \<Longrightarrow> map_of (rev xs) = map_of xs"
proof (induction xs)
  case (Cons p xs)
  then have "fst p \<notin> dom (map_of xs)" by (simp add: dom_map_of_conv_image_fst)
  with Cons show ?case by (cases p) (auto simp: map_add_def fun_eq_iff split: option.split)
qed simp

lemma block_effect_unspent:
  assumes "block_applies H h txs u" "\<And>k coin. u k = Some coin \<Longrightarrow> \<not> IsSpent coin" "block_effect H h (take i txs) u k = Some coin"
  shows "\<not> IsSpent coin"
  using assms
proof (induction txs arbitrary: u i)
  case (Cons tx txs)
  have "\<not> IsSpent c" if "tx_effect H h tx u k = Some c" for k c
    using that Cons.prems(1,2) by (auto simp: tx_effect_def created_def tx_applies_def IsSpent_def Coin_of_def CTxOut_IsNull_def
      restrict_map_def split: if_splits)
  then show ?case using Cons.IH [of "tx_effect H h tx u" "i - 1"] Cons.prems by (cases i) auto
qed auto

lemma restore_inputs:
  assumes "distinct (map prevout ins)" "set (map prevout ins) \<subseteq> dom u"
  shows "u |` (- set (map prevout ins)) ++ map_of (rev (zip (map prevout ins) (map (\<lambda>txin. the (u (prevout txin))) ins))) = u"
proof -
  let ?z = "zip (map prevout ins) (map (\<lambda>txin. the (u (prevout txin))) ins)"
  have "map_of (rev ?z) = map_of ?z" using assms(1) by (intro map_of_rev_distinct) simp
  moreover have "map_of ?z k = (if k \<in> set (map prevout ins) then u k else None)" for k
    using assms(2) by (induction ins) auto
  ultimately show ?thesis by (auto simp: map_add_def restrict_map_def fun_eq_iff split: option.split)
qed

lemma uint_height: "0 \<le> h \<Longrightarrow> h < 2 ^ 31 \<Longrightarrow> uint (coin_nHeight (Coin_of out h cb)) = h"
  by (simp add: Coin_of_def uint_word_of_int)

context coins_view
begin

lemma UndoOutputs_spec:
  assumes "inv s" "i + length outs \<le> 2 ^ 32" "\<forall>n. u \<lparr>op_hash = txid, op_n = n\<rparr> = None" "0 \<le> h" "h < 2 ^ 31"
    and "view s = u ++ created txid h cb i outs"
  shows "\<exists>s'. UndoOutputs ops h txid cb i outs fClean s = (fClean, s') \<and> inv s' \<and> view s' = u"
  using assms
proof (induction outs arbitrary: s i)
  case (Cons out outs)
  let ?k = "\<lparr>op_hash = txid, op_n = of_nat i\<rparr>" and ?c = "Coin_of out h cb"
  have len: "i + 1 + length outs \<le> 2 ^ 32" using Cons.prems(2) by simp
  show ?case
  proof (cases "IsUnspendable (scriptPubKey out)")
    case True
    then have "view s = u ++ created txid h cb (i + 1) outs" using Cons.prems(6) created_Cons [OF Cons.prems(2)] by simp
    from Cons.IH [OF Cons.prems(1) len Cons.prems(3-5) this] True show ?thesis by simp
  next
    case False
    obtain b coin s1 where run: "op_SpendCoin ops s ?k = (b, coin, s1)" by (metis prod_cases3)
    have v: "view s = u ++ (created txid h cb (i + 1) outs)(?k \<mapsto> ?c)"
      using Cons.prems(6) False by (simp only: created_Cons [OF Cons.prems(2)] if_False)
    have below: "created txid h cb (i + 1) outs ?k = None" using Cons.prems(2) by (intro created_below) simp
    have "view s ?k = Some ?c" unfolding v by simp
    with spend [OF Cons.prems(1) run] have s1: "inv s1" "b" "coin = ?c" "view s1 = (view s)(?k := None)" by simp_all
    have "view s1 = u ++ created txid h cb (i + 1) outs"
      unfolding s1(4) v using below Cons.prems(3) by (auto simp: map_add_def fun_eq_iff split: option.split)
    from Cons.IH [OF s1(1) len Cons.prems(3-5) this] obtain s' where
      s': "UndoOutputs ops h txid cb (i + 1) outs fClean s1 = (fClean, s')" "inv s'" "view s' = u" by blast
    have ok: "coin_out ?c = out" "fCoinBase ?c = cb" "uint (coin_nHeight ?c) = h"
      using uint_height [OF Cons.prems(4,5)] by (simp_all add: Coin_of_def)
    show ?thesis using run False s1(2,3) s' ok by (simp add: Let_def)
  qed
qed simp

lemma ApplyTxInUndo_clean:
  assumes "inv s" "view s out = None" "\<not> IsSpent coin" "restorable coin"
  shows "\<exists>s'. ApplyTxInUndo ops coin s out = Some (DISCONNECT_OK, s') \<and> inv s' \<and> view s' = (view s)(out \<mapsto> coin)"
proof -
  obtain b s1 where run: "op_HaveCoin ops s out = (b, s1)" by fastforce
  have s1: "inv s1" "view s1 = view s" "\<not> b" using have_coin [OF assms(1) run] assms(2) by simp_all
  then obtain s' where "op_AddCoin ops s1 out coin False = Inr s'" "inv s'" "view s' = (view s)(out \<mapsto> coin)"
    using add [OF s1(1) assms(3), of False out] assms(2,4) by (auto simp: restorable_def)
  then show ?thesis using run s1(3) assms(4) by (simp add: ApplyTxInUndo_def restorable_def)
qed

text \<open>A coin created at height zero is brought back only if another output of its transaction is unspent.\<close>

lemma ApplyTxInUndo_height_0:
  assumes "inv s" "coin_nHeight coin = 0" "\<forall>n. view s \<lparr>op_hash = op_hash out, op_n = n\<rparr> = None"
  shows "\<exists>s'. ApplyTxInUndo ops coin s out = Some (DISCONNECT_FAILED, s')"
proof -
  obtain b s1 where run: "op_HaveCoin ops s out = (b, s1)" by fastforce
  have s1: "inv s1" "view s1 = view s" using have_coin [OF assms(1) run] by simp_all
  obtain alt s2 where "op_AccessByTxid ops s1 (op_hash out) = (alt, s2)" by fastforce
  moreover from by_txid [OF s1(1) this] have "IsSpent alt" using assms(3) s1(2) by simp
  ultimately show ?thesis using run assms(2) by (simp add: ApplyTxInUndo_def)
qed

lemma UndoInputs_spec:
  assumes "inv s" "distinct (map fst ps)" "\<forall>(out, coin) \<in> set ps. view s out = None \<and> \<not> IsSpent coin \<and> restorable coin"
  shows "\<exists>s'. UndoInputs ops ps fClean s = Some (Some fClean, s') \<and> inv s' \<and> view s' = view s ++ map_of ps"
  using assms
proof (induction ps arbitrary: s)
  case (Cons p ps)
  obtain out coin where p: "p = (out, coin)" by fastforce
  obtain s1 where s1: "ApplyTxInUndo ops coin s out = Some (DISCONNECT_OK, s1)" "inv s1" "view s1 = (view s)(out \<mapsto> coin)"
    using ApplyTxInUndo_clean [OF Cons.prems(1), of out coin] Cons.prems(3) p by auto
  have "\<forall>(out, coin) \<in> set ps. view s1 out = None \<and> \<not> IsSpent coin \<and> restorable coin"
    using Cons.prems(2,3) p s1(3) by (auto simp: rev_image_eqI)
  with Cons.IH [of s1] s1(2) Cons.prems(2) p obtain s' where
    s': "UndoInputs ops ps fClean s1 = Some (Some fClean, s')" "inv s'" "view s' = view s1 ++ map_of ps" by auto
  have "map_of ps out = None" using Cons.prems(2) p by (simp add: map_of_eq_None_iff)
  then have "view s' = view s ++ map_of (p # ps)"
    unfolding s'(3) s1(3) by (auto simp: p map_add_def fun_eq_iff split: option.split)
  then show ?case using s1(1) s'(1,2) unfolding p by (simp del: map_of.simps)
qed simp

lemma UndoTransactions_spec:
  assumes "n \<le> length txs" "0 \<le> h" "h < 2 ^ 31" "block_applies H h txs u" "spends_restorable H h txs u"
    and "list_all (\<lambda>tx. \<not> IsCoinBase tx) (tl txs)" "txs \<noteq> [] \<Longrightarrow> IsCoinBase (hd txs)"
    and "\<forall>k coin. u k = Some coin \<longrightarrow> \<not> IsSpent coin"
    and "inv s" "view s = block_effect H h (take n txs) u"
  shows "\<exists>s'. UndoTransactions ops H h txs (tl (block_undo H h txs u)) n fClean s = Some (Some fClean, s') \<and> inv s' \<and> view s' = u"
  using assms
proof (induction n arbitrary: s)
  case (Suc i)
  let ?tx = "txs ! i" and ?v = "block_effect H h (take i txs) u" and ?undo = "tl (block_undo H h txs u)"
  let ?id = "tx_GetHash H (txs ! i)"
  have i: "i < length txs" using Suc.prems(1) by simp
  note app = block_nth(3) [OF i Suc.prems(4)]
  have fresh: "\<forall>n. ?v \<lparr>op_hash = ?id, op_n = n\<rparr> = None" and len: "0 + length (vout ?tx) \<le> 2 ^ 32"
    using app by (auto simp: tx_applies_def)
  have fresh': "\<forall>n. (?v |` (- spent_by ?tx)) \<lparr>op_hash = ?id, op_n = n\<rparr> = None" using fresh by (simp add: restrict_map_def)
  have "view s = (?v |` (- spent_by ?tx)) ++ created ?id h (IsCoinBase ?tx) 0 (vout ?tx)"
    using Suc.prems(10) unfolding block_nth(1) [OF i] by (simp add: tx_effect_def)
  from UndoOutputs_spec [OF Suc.prems(9) len fresh' Suc.prems(2,3) this, of fClean] obtain s1 where
    s1: "UndoOutputs ops h ?id (IsCoinBase ?tx) 0 (vout ?tx) fClean s = (fClean, s1)" "inv s1" "view s1 = ?v |` (- spent_by ?tx)" by blast
  show ?case
  proof (cases "i = 0")
    case True
    then have "IsCoinBase ?tx" using Suc.prems(7) i by (simp add: hd_conv_nth)
    then have "view s1 = u" using s1(3) True by (simp add: spent_by_def)
    then show ?thesis using s1 True by simp
  next
    case False
    then have cb: "\<not> IsCoinBase ?tx"
      using Suc.prems(6) i by (auto simp: list_all_length nth_tl dest: spec [of _ "i - 1"])
    have undo: "?undo ! (i - 1) = map (\<lambda>txin. the (?v (prevout txin))) (vin ?tx)"
      using block_nth(2) [OF i, of H h u] cb False i by (simp add: nth_tl)
    let ?z = "zip (map prevout (vin ?tx)) (?undo ! (i - 1))"
    have dist: "distinct (map prevout (vin ?tx))" "set (map prevout (vin ?tx)) \<subseteq> dom ?v" "spent_by ?tx = set (map prevout (vin ?tx))"
      using app cb by (simp_all add: tx_applies_def spent_by_def)
    have unspent: "\<not> IsSpent coin" if "?v k = Some coin" "k \<in> spent_by ?tx" for k coin
      using block_effect_unspent [OF Suc.prems(4) _ that(1)] Suc.prems(8) by blast
    have "\<forall>(out, coin) \<in> set (rev ?z). view s1 out = None \<and> \<not> IsSpent coin \<and> restorable coin"
    proof (clarify, goal_cases)
      case (1 out coin)
      then obtain txin where "txin \<in> set (vin ?tx)" "out = prevout txin" "coin = the (?v out)"
        unfolding undo by (auto simp: zip_map1 zip_map2 zip_same_conv_map)
      then have "out \<in> spent_by ?tx" "?v out = Some coin" using dist(2,3) by auto
      with unspent block_nth(4) [OF i Suc.prems(5)] s1(3) show ?case by (auto simp: restrict_map_def)
    qed
    with UndoInputs_spec [OF s1(2), of "rev ?z" fClean] obtain s2 where
      s2: "UndoInputs ops (rev ?z) fClean s1 = Some (Some fClean, s2)" "inv s2" "view s2 = view s1 ++ map_of (rev ?z)"
      using dist(1) undo by (auto simp flip: rev_map)
    have "view s2 = ?v" unfolding s2(3) s1(3) undo dist(3) by (rule restore_inputs [OF dist(1,2)])
    with Suc.IH [of s2] Suc.prems s2(2) obtain s' where
      "UndoTransactions ops H h txs ?undo i fClean s2 = Some (Some fClean, s')" "inv s'" "view s' = u" by auto
    then show ?thesis using s1(1) s2(1) undo False by (simp add: Let_def)
  qed
qed simp

lemma DisconnectBlock_spec:
  assumes "0 \<le> h" "h < 2 ^ 31" "block_applies H h (vtx block) u" "spends_restorable H h (vtx block) u"
    and "vtx block \<noteq> []" "IsCoinBase (hd (vtx block))" "list_all (\<lambda>tx. \<not> IsCoinBase tx) (tl (vtx block))"
    and "\<forall>k coin. u k = Some coin \<longrightarrow> \<not> IsSpent coin" "inv s" "view s = block_effect H h (vtx block) u"
    and "int (nHeight pindex) = h" "(case pprev pindex of None \<Rightarrow> Some uint256_null | Some q \<Rightarrow> Option.bind (T q) GetBlockHash) = Some hash"
  shows "\<exists>s1. DisconnectBlock ops H T block pindex (Some (tl (block_undo H h (vtx block) u))) s =
      Some (DISCONNECT_OK, op_SetBestBlock ops s1 hash) \<and>
    inv (op_SetBestBlock ops s1 hash) \<and> view (op_SetBestBlock ops s1 hash) = u"
proof -
  obtain s1 where "UndoTransactions ops H h (vtx block) (tl (block_undo H h (vtx block) u)) (length (vtx block)) True s =
      Some (Some True, s1)" "inv s1" "view s1 = u"
    using UndoTransactions_spec [OF le_refl assms(1-4,7) _ assms(8,9), of True] assms(6,10) by auto
  then show ?thesis
    using assms(5,11,12) best_block [of s1 hash] by (cases "pprev pindex") (auto simp: DisconnectBlock_def)
qed

end

section \<open>The cache provides the interface\<close>

lemma from_next: "(n :: nat) < k \<Longrightarrow> (\<forall>m. n \<le> m \<and> m < k \<longrightarrow> P m) \<longleftrightarrow> P n \<and> (\<forall>m. Suc n \<le> m \<and> m < k \<longrightarrow> P m)"
  by (metis Suc_leD Suc_leI le_neq_implies_less order_refl)

lemma AccessByTxid_loop_spec:
  assumes "cache_inv c" "AccessByTxid_loop c txid n = (coin, c')"
  shows "same_view c c' \<and> (IsSpent coin \<longleftrightarrow> (\<forall>m. n \<le> m \<and> m < MAX_OUTPUTS_PER_BLOCK \<longrightarrow> utxo c \<lparr>op_hash = txid, op_n = of_nat m\<rparr> = None))"
  using assms
proof (induction c txid n rule: AccessByTxid_loop.induct)
  case (1 c txid n)
  show ?case
  proof (cases "n < MAX_OUTPUTS_PER_BLOCK")
    case True
    obtain a c1 where a: "AccessCoin c \<lparr>op_hash = txid, op_n = of_nat n\<rparr> = (a, c1)" by fastforce
    note s = AccessCoin_spec [OF 1(2) a]
    show ?thesis
    proof (cases "IsSpent a")
      case spent: True
      then have run: "AccessByTxid_loop c1 txid (n + 1) = (coin, c')"
        using 1(3) True a by (simp add: AccessByTxid_loop.simps [of c])
      have "same_view c1 c' \<and> (IsSpent coin \<longleftrightarrow>
          (\<forall>m. n + 1 \<le> m \<and> m < MAX_OUTPUTS_PER_BLOCK \<longrightarrow> utxo c1 \<lparr>op_hash = txid, op_n = of_nat m\<rparr> = None))"
        using 1(1) [OF True _ refl] a spent s(2) run by auto
      moreover have "(\<forall>m. n \<le> m \<and> m < MAX_OUTPUTS_PER_BLOCK \<longrightarrow> P m) \<longleftrightarrow>
          P n \<and> (\<forall>m. n + 1 \<le> m \<and> m < MAX_OUTPUTS_PER_BLOCK \<longrightarrow> P m)" for P
        using True from_next [of n MAX_OUTPUTS_PER_BLOCK P] by simp
      ultimately show ?thesis using s(1,3,4) spent by (auto intro: same_view_trans)
    next
      case False
      then have "coin = a" "c' = c1" using 1(3) True a by (simp_all add: AccessByTxid_loop.simps [of c])
      then show ?thesis using s(1,4) False True by auto
    qed
  next
    case False
    then show ?thesis using 1(2,3) by (auto simp: AccessByTxid_loop.simps [of c] same_view_def)
  qed
qed

text \<open>The operations leave the base of the cache alone.\<close>

lemma FetchCoin_base: "FetchCoin c k = (e, c') \<Longrightarrow> cv_base c' = cv_base c"
  by (auto simp: FetchCoin_def Let_def split: option.splits)

lemma SpendCoin_base: "SpendCoin c k = (b, coin, c') \<Longrightarrow> cv_base c' = cv_base c"
  by (auto simp: SpendCoin_def dest: FetchCoin_base split: prod.splits option.splits if_splits)

lemma AddCoin_base: "AddCoin c k coin b = Inr c' \<Longrightarrow> cv_base c' = cv_base c"
  by (auto simp: AddCoin_def Let_def split: if_splits)

definition cache_over :: "(COutPoint \<Rightarrow> Coin option) \<Rightarrow> CCoinsViewCache \<Rightarrow> bool" where
  "cache_over base c \<longleftrightarrow> cache_inv c \<and> cv_base c = base"

lemma same_view_over: "same_view c c' \<Longrightarrow> cache_over base c \<Longrightarrow> cache_over base c' \<and> utxo c' = utxo c"
  by (simp add: same_view_def cache_over_def)

interpretation cache: coins_view ops_cache "cache_over base" utxo for base
proof (unfold_locales, goal_cases)
  case (1 s k coin)
  then show ?case by (metis unspent_utxo unspent_simps(4))
next
  case (2 s k b s')
  then show ?case using lookup_spec(5,6) [of s k] by (simp add: ops_cache_def same_view_def cache_over_def)
next
  case (3 s coin overwrite k)
  then obtain s' where "AddCoin s k coin overwrite = Inr s'" "cache_inv s'"
    "utxo s' = (if IsUnspendable (scriptPubKey (coin_out coin)) then utxo s else (utxo s)(k \<mapsto> coin))"
    using AddCoin_spec [of s coin overwrite k] by (metis cache_over_def)
  with 3(1) AddCoin_base show ?case by (auto simp: ops_cache_def cache_over_def)
next
  case (4 s k b coin s')
  then show ?case using SpendCoin_spec [of s k b coin s'] SpendCoin_base [of s k b coin s'] by (simp add: ops_cache_def cache_over_def)
next
  case (5 s txid coin s')
  then show ?case using AccessByTxid_loop_spec [of s txid 0 coin s']
    by (simp add: ops_cache_def AccessByTxid_def same_view_def cache_over_def)
next
  case (6 s h)
  have "cache_inv (SetBestBlock s h) = cache_inv s" "utxo (SetBestBlock s h) = utxo s" "cv_base (SetBestBlock s h) = cv_base s"
    by (simp_all add: SetBestBlock_def cache_inv_def utxo_def fun_eq_iff split: option.split)
  with 6 show ?case by (simp add: ops_cache_def cache_over_def)
qed

end
