(* ===== verification/Pow.thy ===== *)
theory Pow
  imports Chain "HOL-Library.Signed_Division"
begin

text \<open>
  Proof of work and difficulty adjustment (\<open>pow.cpp\<close>), with the consensus parameters of
  \<open>consensus/params.h\<close> and their values for the networks of \<open>chainparams.cpp\<close>.
\<close>

section \<open>Consensus parameters\<close>

record BIP9Deployment =
  dep_bit :: int
  dep_nStartTime :: int
  dep_nTimeout :: int

definition NO_TIMEOUT :: int where "NO_TIMEOUT = 2 ^ 63 - 1"
definition ALWAYS_ACTIVE :: int where "ALWAYS_ACTIVE = - 1"

record Params =
  hashGenesisBlock :: uint256
  nSubsidyHalvingInterval :: int
  nRuleChangeActivationThreshold :: int
  nMinerConfirmationWindow :: int
  vDeployments :: "BIP9Deployment list"
  powLimit :: uint256
  fPowAllowMinDifficultyBlocks :: bool
  fPowNoRetargeting :: bool
  nPowTargetSpacing :: int
  nPowTargetTimespan :: int
  nMinimumChainWork :: uint256
  defaultAssumeValid :: uint256

definition DifficultyAdjustmentInterval :: "Params \<Rightarrow> int" where
  "DifficultyAdjustmentInterval params = nPowTargetTimespan params sdiv nPowTargetSpacing params"

section \<open>Retargeting\<close>

text \<open>\<open>bnNew *= nActualTimespan\<close> selects the overload for \<open>uint32_t\<close>; \<open>bnNew /= nPowTargetTimespan\<close>
  converts the divisor to a 256-bit integer.  The division by a zero timespan throws.\<close>

definition CalculateNextWorkRequired :: "CBlockIndex \<Rightarrow> int \<Rightarrow> Params \<Rightarrow> u32 option" where
  "CalculateNextWorkRequired pindexLast nFirstBlockTime params =
     (if fPowNoRetargeting params then Some (idx_nBits pindexLast)
      else let
        nActualTimespan = uint (idx_nTime pindexLast) - nFirstBlockTime;
        nActualTimespan = (if nActualTimespan < nPowTargetTimespan params sdiv 4
                           then nPowTargetTimespan params sdiv 4 else nActualTimespan);
        nActualTimespan = (if nActualTimespan > nPowTargetTimespan params * 4
                           then nPowTargetTimespan params * 4 else nActualTimespan);
        bnPowLimit = UintToArith256 (powLimit params);
        bnNew = fst (SetCompact (idx_nBits pindexLast));
        bnNew = bu_mul32 bnNew (word_of_int nActualTimespan)
      in case bu_div bnNew (bu_of_u64 WIDTH (word_of_int (nPowTargetTimespan params))) of
           Inl e \<Rightarrow> None
         | Inr bnNew \<Rightarrow> GetCompact False (if CompareTo bnNew bnPowLimit > 0 then bnPowLimit else bnNew))"

text \<open>The walk back over minimum-difficulty blocks.\<close>

partial_function (option) last_normal_bits :: "block_tree \<Rightarrow> Params \<Rightarrow> u32 \<Rightarrow> nat \<Rightarrow> u32 option" where
  "last_normal_bits T params nProofOfWorkLimit p = do {
     i \<leftarrow> T p;
     (case pprev i of
        Some q \<Rightarrow> if int (nHeight i) mod DifficultyAdjustmentInterval params \<noteq> 0 \<and> idx_nBits i = nProofOfWorkLimit
                  then last_normal_bits T params nProofOfWorkLimit q else Some (idx_nBits i)
      | None \<Rightarrow> Some (idx_nBits i)) }"

definition GetNextWorkRequired :: "block_tree \<Rightarrow> ptr \<Rightarrow> u32 \<Rightarrow> Params \<Rightarrow> u32 option" where
  "GetNextWorkRequired T pindexLast blockTime params = (case pindexLast of None \<Rightarrow> None | Some p \<Rightarrow> do {
     i \<leftarrow> T p;
     nProofOfWorkLimit \<leftarrow> GetCompact False (UintToArith256 (powLimit params));
     if (int (nHeight i) + 1) mod DifficultyAdjustmentInterval params \<noteq> 0
     then (if fPowAllowMinDifficultyBlocks params
           then (if uint blockTime > uint (idx_nTime i) + nPowTargetSpacing params * 2
                 then Some nProofOfWorkLimit
                 else last_normal_bits T params nProofOfWorkLimit p)
           else Some (idx_nBits i))
     else do {
       let nHeightFirst = int (nHeight i) - (DifficultyAdjustmentInterval params - 1);
       if nHeightFirst < 0 then None
       else do {
         first \<leftarrow> GetAncestor T p nHeightFirst;
         f \<leftarrow> first;
         j \<leftarrow> T f;
         CalculateNextWorkRequired i (uint (idx_nTime j)) params } } })"

section \<open>Checking work\<close>

definition CheckProofOfWork :: "uint256 \<Rightarrow> u32 \<Rightarrow> Params \<Rightarrow> bool" where
  "CheckProofOfWork hash nBits params =
     (let (bnTarget, fNegative, fOverflow) = SetCompact nBits
      in if fNegative \<or> EqualTo bnTarget 0 \<or> fOverflow \<or>
            CompareTo bnTarget (UintToArith256 (powLimit params)) > 0 then False
         else if CompareTo (UintToArith256 hash) bnTarget > 0 then False
         else True)"

text \<open>The verifier \<open>EhIsValidSolution\<close> for parameters \<open>n\<close>, \<open>k\<close> is the argument \<open>eh\<close>: it is given the
  bytes the hash state has absorbed and the solution.\<close>

definition CheckEquihashSolution ::
  "(nat \<Rightarrow> nat \<Rightarrow> bytes \<Rightarrow> bytes \<Rightarrow> bool) \<Rightarrow> nat \<Rightarrow> nat \<Rightarrow> 'a CBlockHeader_scheme \<Rightarrow> bool" where
  "CheckEquihashSolution eh n k pblock =
     (if \<not> eh n k (ser_CEquihashInput pblock @ ser_uint256 (nNonce pblock)) (nSolution pblock)
      then False else True)"

section \<open>The networks\<close>

definition mainnet_pow :: "Params \<Rightarrow> bool" where
  "mainnet_pow params \<longleftrightarrow>
     powLimit params = replicate 30 0xff @ [0x07, 0x00] \<and> nPowTargetTimespan params = 2 * 24 * 60 * 60 \<and>
     nPowTargetSpacing params = 10 * 60 \<and> \<not> fPowAllowMinDifficultyBlocks params \<and> \<not> fPowNoRetargeting params"

section \<open>Correctness\<close>

lemma CheckProofOfWork_iff:
  "CheckProofOfWork hash nBits params \<longleftrightarrow>
   (case SetCompact nBits of (t, neg, ovf) \<Rightarrow>
      \<not> neg \<and> \<not> ovf \<and> 0 < bu_val t \<and> bu_val t \<le> u256_val (powLimit params) \<and> u256_val hash \<le> bu_val t)"
proof -
  obtain t neg ovf where t: "SetCompact nBits = (t, neg, ovf)" by (metis prod_cases3)
  note len = SetCompact_spec(1) [OF t]
  show ?thesis
    by (auto simp: CheckProofOfWork_def t EqualTo_0 [OF len] value_simps length_simps len u256_val_def
        split: if_splits)
qed

definition clamp_timespan :: "int \<Rightarrow> int \<Rightarrow> int" where
  "clamp_timespan ts actual = min (max actual (ts sdiv 4)) (ts * 4)"

text \<open>The retarget is exact as long as the product fits 256 bits: the new target is the old one times
  the clamped time span over the intended one, capped at the limit and rounded to compact form.\<close>

lemma CalculateNextWorkRequired_exact:
  assumes re: "\<not> fPowNoRetargeting params" and ts: "0 < nPowTargetTimespan params" "nPowTargetTimespan params * 4 < 2 ^ 32"
    and t: "SetCompact (idx_nBits i) = (t, neg, ovf)"
    and fits: "bu_val t * nat (clamp_timespan (nPowTargetTimespan params) (uint (idx_nTime i) - first)) < 2 ^ 256"
  obtains a where "length a = WIDTH"
    "bu_val a = min (bu_val t * nat (clamp_timespan (nPowTargetTimespan params) (uint (idx_nTime i) - first))
                     div nat (nPowTargetTimespan params)) (u256_val (powLimit params))"
    "CalculateNextWorkRequired i first params = GetCompact False a"
proof -
  let ?ts = "nPowTargetTimespan params"
  let ?c = "clamp_timespan ?ts (uint (idx_nTime i) - first)"
  have c0: "0 \<le> ?c" using ts(1) by (simp add: clamp_timespan_def signed_divide_int_def) 
  have c1: "?c < 2 ^ 32" using ts(2) by (simp add: clamp_timespan_def min_def)
  have cw: "unat (word_of_int ?c :: u32) = nat ?c"
    using c0 c1 by (simp add: unsigned_of_int take_bit_int_eq_self)
  have tw: "unat (word_of_int ?ts :: u64) = nat ?ts"
    using ts by (simp add: unsigned_of_int take_bit_int_eq_self)
  note len = SetCompact_spec(1) [OF t]
  have num: "bu_val (bu_mul32 t (word_of_int ?c)) = bu_val t * nat ?c"
    using fits len by (simp add: value_simps cw WIDTH_def mult.commute)
  have den: "bu_val (bu_of_u64 WIDTH (word_of_int ?ts)) = nat ?ts" by (simp add: value_simps tw)
  obtain q where q: "bu_div (bu_mul32 t (word_of_int ?c)) (bu_of_u64 WIDTH (word_of_int ?ts)) = Inr q"
      "length q = WIDTH" "bu_val q = bu_val t * nat ?c div nat ?ts"
    using bu_val_div [of "bu_mul32 t (word_of_int ?c)" "bu_of_u64 WIDTH (word_of_int ?ts)"] num den len ts(1)
    by (auto simp: length_simps WIDTH_def)
  have clamp: "(let a = uint (idx_nTime i) - first; a = (if a < ?ts sdiv 4 then ?ts sdiv 4 else a)
      in if a > ?ts * 4 then ?ts * 4 else a) = ?c"
    by (simp add: clamp_timespan_def Let_def min_def max_def)
  let ?a = "if CompareTo q (UintToArith256 (powLimit params)) > 0 then UintToArith256 (powLimit params) else q"
  have "CalculateNextWorkRequired i first params = GetCompact False ?a"
    using re q(1) clamp by (simp add: CalculateNextWorkRequired_def t Let_def)
  then show ?thesis
    using q by (intro that [of ?a]) (auto simp: value_simps length_simps u256_val_def)
qed

lemma CalculateNextWorkRequired_cong:
  assumes "fPowNoRetargeting params = fPowNoRetargeting params'" "powLimit params = powLimit params'"
    and "nPowTargetTimespan params = nPowTargetTimespan params'"
  shows "CalculateNextWorkRequired i first params = CalculateNextWorkRequired i first params'"
  unfolding CalculateNextWorkRequired_def assms ..

end
