(* ===== verification/Merkle.thy ===== *)
theory Merkle
  imports Transaction
begin

text \<open>
  The constant-space Merkle tree computation of \<open>consensus/merkle.cpp\<close>, and its equivalence with the
  level-by-level definition of the tree.  The array \<open>inner\<close> is a list of 32 hashes; \<open>count\<close> is a
  \<open>uint32_t\<close>, modelled as a number with the wrap-around written out; testing bit 32 or higher (a shift
  by the width, undefined in C++) is \<open>None\<close>.  A null \<open>pbranch\<close> is \<open>want = False\<close>.
\<close>

section \<open>Computation\<close>

text \<open>The loop that climbs while the bit \<open>level\<close> of \<open>count\<close> is zero.  It returns the level, the hash,
  \<open>matchh\<close>, \<open>mutated\<close> and the branch.\<close>

function merkle_climb ::
  "hasher \<Rightarrow> bool \<Rightarrow> uint256 list \<Rightarrow> int \<Rightarrow> nat \<Rightarrow> nat \<Rightarrow> uint256 \<Rightarrow> bool \<Rightarrow> bool \<Rightarrow> uint256 list \<Rightarrow>
   (nat \<times> uint256 \<times> bool \<times> bool \<times> uint256 list) option" where
  "merkle_climb H want inner matchlevel count level h matchh mutated branch =
     (if \<not> level < 32 then None
      else if bit count level then Some (level, h, matchh, mutated, branch)
      else let
        branch' = (if want \<and> matchh then branch @ [inner ! level]
                   else if want \<and> matchlevel = int level then branch @ [h] else branch);
        matchh' = (if want \<and> \<not> matchh \<and> matchlevel = int level then True else matchh);
        mutated' = (mutated \<or> inner ! level = h)
      in merkle_climb H want inner matchlevel count (level + 1) (H (inner ! level @ h)) matchh' mutated' branch')"
  by pat_completeness auto
termination
  by (relation "measure (\<lambda>(H, want, inner, matchlevel, count, level, rest). 32 - level)") auto

declare merkle_climb.simps [simp del]

lemma merkle_climb_level:
  "merkle_climb H want inner matchlevel count level h matchh mutated branch = Some (level', r) \<Longrightarrow>
   level \<le> level' \<and> level' < 32 \<and> bit count level'"
proof (induction H want inner matchlevel count level h matchh mutated branch rule: merkle_climb.induct)
  case (1 H want inner matchlevel count level h matchh mutated branch)
  show ?case
  proof (cases "level < 32 \<and> \<not> bit count level")
    case True
    then show ?thesis using 1 by (subst (asm) (2) merkle_climb.simps) (auto simp: Let_def dest: Suc_leD)
  next
    case False
    then show ?thesis using 1(2) by (subst (asm) merkle_climb.simps) (auto split: if_splits)
  qed
qed

record merkle_state =
  mk_inner :: "uint256 list"
  mk_matchlevel :: int
  mk_mutated :: bool
  mk_branch :: "uint256 list"

text \<open>The first loop, over the leaves that are left; \<open>count\<close> have been processed.\<close>

fun merkle_leaves :: "hasher \<Rightarrow> bool \<Rightarrow> nat \<Rightarrow> nat \<Rightarrow> uint256 list \<Rightarrow> merkle_state \<Rightarrow> merkle_state option" where
  "merkle_leaves H want branchpos count [] s = Some s"
| "merkle_leaves H want branchpos count (leaf # leaves) s =
     (case merkle_climb H want (mk_inner s) (mk_matchlevel s) ((count + 1) mod 2 ^ 32) 0 leaf (count = branchpos)
             (mk_mutated s) (mk_branch s) of
        None \<Rightarrow> None
      | Some (level, h, matchh, mutated, branch) \<Rightarrow>
          merkle_leaves H want branchpos ((count + 1) mod 2 ^ 32) leaves
            \<lparr>mk_inner = (mk_inner s)[level := h], mk_matchlevel = (if matchh then int level else mk_matchlevel s),
             mk_mutated = mutated, mk_branch = branch\<rparr>)"

text \<open>The first set bit at or above \<open>level\<close>.\<close>

function merkle_first_level :: "nat \<Rightarrow> nat \<Rightarrow> nat option" where
  "merkle_first_level count level =
     (if \<not> level < 32 then None
      else if bit count level then Some level else merkle_first_level count (level + 1))"
  by pat_completeness auto
termination
  by (relation "measure (\<lambda>(count, level). 32 - level)") auto

declare merkle_first_level.simps [simp del]

text \<open>The final sweep; the inner loop does not record \<open>mutated\<close>.\<close>

function merkle_sweep ::
  "hasher \<Rightarrow> bool \<Rightarrow> uint256 list \<Rightarrow> int \<Rightarrow> nat \<Rightarrow> nat \<Rightarrow> uint256 \<Rightarrow> bool \<Rightarrow> uint256 list \<Rightarrow>
   (uint256 \<times> uint256 list) option" where
  "merkle_sweep H want inner matchlevel count level h matchh branch =
     (if \<not> level < 32 then None
      else if count = 2 ^ level then Some (h, branch)
      else case merkle_climb H want inner matchlevel ((count + 2 ^ level) mod 2 ^ 32) (level + 1) (H (h @ h)) matchh False
                  (if want \<and> matchh then branch @ [h] else branch) of
             None \<Rightarrow> None
           | Some (level', h', matchh', _, branch') \<Rightarrow>
               merkle_sweep H want inner matchlevel ((count + 2 ^ level) mod 2 ^ 32) level' h' matchh' branch')"
  by pat_completeness auto
termination
  by (relation "measure (\<lambda>(H, want, inner, matchlevel, count, level, rest). 32 - level)")
    (auto dest!: merkle_climb_level)

declare merkle_sweep.simps [simp del]

text \<open>The root, \<open>mutated\<close> and the branch.  From \<open>2 ^ 32\<close> leaves on the first loop does not end.\<close>

definition MerkleComputation :: "hasher \<Rightarrow> uint256 list \<Rightarrow> nat \<Rightarrow> bool \<Rightarrow> (uint256 \<times> bool \<times> uint256 list) option" where
  "MerkleComputation H leaves branchpos want =
     (if length leaves = 0 then Some (uint256_null, False, [])
      else if \<not> length leaves < 2 ^ 32 then None
      else case merkle_leaves H want branchpos 0 leaves
                  \<lparr>mk_inner = replicate 32 uint256_null, mk_matchlevel = - 1, mk_mutated = False, mk_branch = []\<rparr> of
             None \<Rightarrow> None
           | Some s \<Rightarrow>
               (case merkle_first_level (length leaves) 0 of None \<Rightarrow> None
                | Some level \<Rightarrow>
                    (case merkle_sweep H want (mk_inner s) (mk_matchlevel s) (length leaves) level (mk_inner s ! level)
                            (mk_matchlevel s = int level) (mk_branch s) of
                       None \<Rightarrow> None
                     | Some (h, branch) \<Rightarrow> Some (h, mk_mutated s, branch))))"

definition ComputeMerkleRoot :: "hasher \<Rightarrow> uint256 list \<Rightarrow> (uint256 \<times> bool) option" where
  "ComputeMerkleRoot H leaves =
     map_option (\<lambda>(root, mutated, branch). (root, mutated)) (MerkleComputation H leaves (2 ^ 32 - 1) False)"

definition ComputeMerkleBranch :: "hasher \<Rightarrow> uint256 list \<Rightarrow> nat \<Rightarrow> uint256 list option" where
  "ComputeMerkleBranch H leaves position =
     map_option (\<lambda>(root, mutated, branch). branch) (MerkleComputation H leaves position True)"

fun ComputeMerkleRootFromBranch :: "hasher \<Rightarrow> uint256 \<Rightarrow> uint256 list \<Rightarrow> nat \<Rightarrow> uint256" where
  "ComputeMerkleRootFromBranch H hash [] nIndex = hash"
| "ComputeMerkleRootFromBranch H hash (it # vMerkleBranch) nIndex =
     ComputeMerkleRootFromBranch H (if odd nIndex then H (it @ hash) else H (hash @ it)) vMerkleBranch (nIndex div 2)"

definition BlockMerkleRoot :: "hasher \<Rightarrow> CBlock \<Rightarrow> (uint256 \<times> bool) option" where
  "BlockMerkleRoot H block = ComputeMerkleRoot H (map (tx_GetHash H) (vtx block))"

text \<open>Writing \<open>leaves[0]\<close> of a block without transactions is out of bounds.\<close>

definition BlockWitnessMerkleRoot :: "hasher \<Rightarrow> CBlock \<Rightarrow> (uint256 \<times> bool) option" where
  "BlockWitnessMerkleRoot H block =
     (case vtx block of [] \<Rightarrow> None
      | tx # txs \<Rightarrow> ComputeMerkleRoot H (uint256_null # map (GetWitnessHash H) txs))"

definition BlockMerkleBranch :: "hasher \<Rightarrow> CBlock \<Rightarrow> nat \<Rightarrow> uint256 list option" where
  "BlockMerkleBranch H block position = ComputeMerkleBranch H (map (tx_GetHash H) (vtx block)) position"

section \<open>Specification\<close>

text \<open>The tree level by level: neighbours are hashed together, a last odd one with itself.\<close>

fun next_level :: "hasher \<Rightarrow> uint256 list \<Rightarrow> uint256 list" where
  "next_level H [] = []"
| "next_level H [a] = [H (a @ a)]"
| "next_level H (a # b # xs) = H (a @ b) # next_level H xs"

lemma length_next_level [length_simps]: "length (next_level H xs) = (length xs + 1) div 2"
  by (induction H xs rule: next_level.induct) simp_all

function merkle_root :: "hasher \<Rightarrow> uint256 list \<Rightarrow> uint256" where
  "merkle_root H xs =
     (if length xs = 0 then uint256_null else if length xs = 1 then hd xs else merkle_root H (next_level H xs))"
  by pat_completeness auto
termination
proof (relation "measure (\<lambda>(H, xs). length xs)")
  fix H :: hasher and xs :: "uint256 list"
  assume "length xs \<noteq> 0" "length xs \<noteq> 1"
  then have "(length xs + 1) div 2 < length xs" by arith
  then show "((H, next_level H xs), H, xs) \<in> measure (\<lambda>(H, xs). length xs)" by (simp add: length_simps)
qed simp

declare merkle_root.simps [simp del]

text \<open>The root of a subtree of height \<open>l\<close>, over at most \<open>2 ^ l\<close> leaves.\<close>

fun subtree :: "hasher \<Rightarrow> nat \<Rightarrow> uint256 list \<Rightarrow> uint256" where
  "subtree H 0 xs = hd xs"
| "subtree H (Suc l) xs =
     (if length xs \<le> 2 ^ l then H (subtree H l xs @ subtree H l xs)
      else H (subtree H l (take (2 ^ l) xs) @ subtree H l (drop (2 ^ l) xs)))"

text \<open>The \<open>k\<close>-th node of level \<open>l\<close>.\<close>

definition node :: "hasher \<Rightarrow> uint256 list \<Rightarrow> nat \<Rightarrow> nat \<Rightarrow> uint256" where
  "node H xs l k = subtree H l (take (2 ^ l) (drop (k * 2 ^ l) xs))"

lemma node_leaf: "k < length xs \<Longrightarrow> node H xs 0 k = xs ! k"
  by (simp add: node_def hd_drop_conv_nth take_Suc_conv_app_nth [symmetric] hd_conv_nth)

lemma node_pair:
  assumes "(2 * k + 1) * 2 ^ l < length xs"
  shows "node H xs (Suc l) k = H (node H xs l (2 * k) @ node H xs l (2 * k + 1))"
proof -
  have "2 ^ l < length xs - k * (2 * 2 ^ l)" using assms by (simp add: algebra_simps)
  then have "\<not> length (take (2 * 2 ^ l) (drop (k * (2 * 2 ^ l)) xs)) \<le> 2 ^ l" by (simp add: not_le)
  then show ?thesis by (simp add: node_def min_def take_drop algebra_simps)
qed

lemma node_single:
  assumes "length xs \<le> (2 * k + 1) * 2 ^ l"
  shows "node H xs (Suc l) k = H (node H xs l (2 * k) @ node H xs l (2 * k))"
proof -
  have len: "length (drop (k * (2 * 2 ^ l)) xs) \<le> 2 ^ l" using assms by (simp add: algebra_simps)
  then have "length (take (2 * 2 ^ l) (drop (k * (2 * 2 ^ l)) xs)) \<le> 2 ^ l" by simp
  moreover have "take (2 * 2 ^ l) (drop (k * (2 * 2 ^ l)) xs) = drop (k * (2 * 2 ^ l)) xs" using len by simp
  moreover have "take (2 ^ l) (drop (k * (2 * 2 ^ l)) xs) = drop (k * (2 * 2 ^ l)) xs" using len by simp
  ultimately show ?thesis by (simp add: node_def algebra_simps)
qed

lemma next_level_split:
  "next_level H (take (2 * n) xs) = take n (next_level H xs)" "next_level H (drop (2 * n) xs) = drop n (next_level H xs)"
  by (induction H xs arbitrary: n rule: next_level.induct; case_tac n; simp)+

lemma subtree_next_level:
  "0 < length xs \<Longrightarrow> length xs \<le> 2 ^ Suc l \<Longrightarrow> subtree H (Suc l) xs = subtree H l (next_level H xs)"
proof (induction l arbitrary: xs)
  case 0
  then consider a where "xs = [a]" | a b where "xs = [a, b]"
    by (cases xs; cases "tl xs") auto
  then show ?case by cases simp_all
next
  case (Suc l)
  have half: "length (next_level H xs) \<le> 2 ^ l \<longleftrightarrow> length xs \<le> 2 ^ Suc l" by (simp add: length_simps) linarith
  show ?case
  proof (cases "length xs \<le> 2 ^ Suc l")
    case True
    then have "subtree H (Suc (Suc l)) xs = H (subtree H (Suc l) xs @ subtree H (Suc l) xs)" by simp
    then show ?thesis using Suc.IH [of xs] Suc.prems True half by simp
  next
    case False
    let ?a = "take (2 ^ Suc l) xs" and ?b = "drop (2 ^ Suc l) xs"
    have "subtree H (Suc (Suc l)) xs = H (subtree H (Suc l) ?a @ subtree H (Suc l) ?b)" using False by simp
    also have "subtree H (Suc l) ?a = subtree H l (next_level H ?a)" using Suc.IH [of ?a] Suc.prems False by (simp del: subtree.simps)
    also have "subtree H (Suc l) ?b = subtree H l (next_level H ?b)" using Suc.IH [of ?b] Suc.prems False by (simp del: subtree.simps)
    also have "next_level H ?a = take (2 ^ l) (next_level H xs)" using next_level_split(1) [of H "2 ^ l" xs] by simp
    also have "next_level H ?b = drop (2 ^ l) (next_level H xs)" using next_level_split(2) [of H "2 ^ l" xs] by simp
    finally show ?thesis using False half by simp
  qed
qed

text \<open>The root is the subtree of the least sufficient height.\<close>

lemma merkle_root_subtree:
  "0 < length xs \<Longrightarrow> length xs \<le> 2 ^ l \<Longrightarrow> l = 0 \<or> 2 ^ (l - 1) < length xs \<Longrightarrow> merkle_root H xs = subtree H l xs"
proof (induction l arbitrary: xs)
  case 0
  then show ?case by (subst merkle_root.simps) (simp add: le_Suc_eq)
next
  case (Suc l)
  then have "1 < length xs" by (simp add: Suc_lessI)
  moreover have "merkle_root H (next_level H xs) = subtree H l (next_level H xs)"
  proof (rule Suc.IH)
    show "l = 0 \<or> 2 ^ (l - 1) < length (next_level H xs)" using Suc.prems(3) by (cases l) (auto simp: length_simps)
  qed (use Suc.prems in \<open>auto simp: length_simps\<close>)
  ultimately show ?case using Suc.prems subtree_next_level [of xs l H] by (subst merkle_root.simps) simp
qed

section \<open>Positions\<close>

text \<open>\<open>inner[j]\<close> holds the node before the last one of its level when bit \<open>j\<close> of the count \<open>c\<close> is set; that
  is the case \<open>covers c j p\<close> for the leaves \<open>p\<close> below it.\<close>

definition covers :: "nat \<Rightarrow> nat \<Rightarrow> nat \<Rightarrow> bool" where
  "covers c j p \<longleftrightarrow> odd (c div 2 ^ j) \<and> p div 2 ^ j = c div 2 ^ j - 1"

lemma div_pow_Suc: "(n :: nat) div 2 ^ Suc l = n div 2 ^ l div 2"
  by (simp only: power_Suc2 div_mult2_eq)

lemma covers_above:
  assumes "covers c i p" "i < j"
  shows "p div 2 ^ j = c div 2 ^ j"
proof -
  have "p div 2 ^ i div 2 = c div 2 ^ i div 2" using assms(1) by (auto simp: covers_def elim!: oddE)
  then have "p div 2 ^ Suc i = c div 2 ^ Suc i" by (simp only: div_pow_Suc)
  then have "p div 2 ^ Suc i div 2 ^ (j - Suc i) = c div 2 ^ Suc i div 2 ^ (j - Suc i)" by simp
  moreover have "(2 :: nat) ^ Suc i * 2 ^ (j - Suc i) = 2 ^ j" using assms(2) by (simp only: power_add [symmetric]) simp
  ultimately show ?thesis by (simp only: div_mult2_eq [symmetric])
qed

lemma covers_unique: "covers c i p \<Longrightarrow> covers c j p \<Longrightarrow> i = j"
proof (induction i j rule: linorder_wlog)
  case (le i j)
  show ?case
  proof (rule ccontr)
    assume "i \<noteq> j"
    then have "p div 2 ^ j = c div 2 ^ j" using covers_above le by simp
    then show False using le(3) by (auto simp: covers_def elim!: oddE)
  qed
qed simp

lemma div_below:
  fixes m c :: nat
  assumes "2 ^ l dvd m" "c < m" "m \<le> c + 2 ^ l"
  shows "c div 2 ^ l = m div 2 ^ l - 1"
proof -
  obtain q where q: "m = 2 ^ l * q" using assms(1) by blast
  then obtain r where r: "q = Suc r" using assms(2) by (cases q) auto
  have "2 ^ l * r \<le> c" "c < 2 ^ l * Suc r" using assms q r by auto
  then have "c div 2 ^ l = r" by (intro div_nat_eqI) (simp_all add: mult.commute)
  then show ?thesis using q r by simp
qed

lemma ComputeMerkleRootFromBranch_snoc:
  "ComputeMerkleRootFromBranch H h (B @ [x]) p =
     (if odd (p div 2 ^ length B) then H (x @ ComputeMerkleRootFromBranch H h B p)
      else H (ComputeMerkleRootFromBranch H h B p @ x))"
  by (induction B arbitrary: h p) (simp_all add: div_mult2_eq)

section \<open>Invariants\<close>

definition inner_inv :: "hasher \<Rightarrow> uint256 list \<Rightarrow> nat \<Rightarrow> uint256 list \<Rightarrow> bool" where
  "inner_inv H xs c inner \<longleftrightarrow> length inner = 32 \<and>
     (\<forall>l < 32. odd (c div 2 ^ l) \<longrightarrow> inner ! l = node H xs l (c div 2 ^ l - 1))"

text \<open>The branch of leaf \<open>p\<close> leads to the entry of \<open>inner\<close> at \<open>matchlevel\<close>.\<close>

definition branch_inv :: "hasher \<Rightarrow> uint256 list \<Rightarrow> nat \<Rightarrow> int \<Rightarrow> nat \<Rightarrow> uint256 list \<Rightarrow> bool" where
  "branch_inv H xs p matchlevel c branch \<longleftrightarrow>
     (p < c \<longrightarrow> (\<exists>j < 32. matchlevel = int j \<and> covers c j p \<and> length branch = j \<and>
        ComputeMerkleRootFromBranch H (xs ! p) branch p = node H xs j (c div 2 ^ j - 1))) \<and>
     (c \<le> p \<longrightarrow> matchlevel = - 1 \<and> branch = [])"

text \<open>While climbing to \<open>m\<close> from \<open>c\<close> leaves, the branch leads to \<open>h\<close> or is still that of \<open>inner\<close>.\<close>

definition climb_inv ::
  "hasher \<Rightarrow> uint256 list \<Rightarrow> nat \<Rightarrow> int \<Rightarrow> nat \<Rightarrow> nat \<Rightarrow> nat \<Rightarrow> uint256 \<Rightarrow> bool \<Rightarrow> uint256 list \<Rightarrow> bool" where
  "climb_inv H xs p matchlevel c m level h matchh branch \<longleftrightarrow>
     (if p div 2 ^ level = m div 2 ^ level - 1
      then matchh \<and> length branch = level \<and> ComputeMerkleRootFromBranch H (xs ! p) branch p = h
      else \<not> matchh \<and> branch_inv H xs p matchlevel c branch)"

lemma climb_inv_step:
  assumes m: "2 ^ level dvd m" "even (m div 2 ^ level)" "c < m" "m \<le> c + 2 ^ level"
    and inner: "x = node H xs level (m div 2 ^ level - 2)"
    and inv: "climb_inv H xs p matchlevel c m level h matchh branch"
  shows "climb_inv H xs p matchlevel c m (Suc level) (H (x @ h)) (matchh \<or> matchlevel = int level)
    (if matchh then branch @ [x] else if matchlevel = int level then branch @ [h] else branch)"
proof -
  define q where "q = m div 2 ^ level"
  have "q > 0" using m(1,3) by (auto simp: q_def div_greater_zero_iff dvd_imp_le)
  moreover obtain t where "q = 2 * t" using m(2) by (auto simp: q_def)
  ultimately obtain r where r: "q = 2 * r + 2" by (cases t) auto
  have c: "c div 2 ^ level = 2 * r + 1" using div_below [OF m(1,3,4)] r by (simp add: q_def)
  have mS: "m div 2 ^ Suc level - 1 = r" using r by (simp add: div_pow_Suc q_def [symmetric] del: power_Suc)
  have pS: "p div 2 ^ Suc level = p div 2 ^ level div 2" by (rule div_pow_Suc)
  have mq: "m div 2 ^ level - 1 = 2 * r + 1" unfolding q_def [symmetric] r by simp
  show ?thesis
  proof (cases "p div 2 ^ level = 2 * r + 1")
    case True
    then have "matchh" "length branch = level" "ComputeMerkleRootFromBranch H (xs ! p) branch p = h"
      using inv unfolding climb_inv_def mq by simp_all
    then show ?thesis using True unfolding climb_inv_def mS pS by (simp add: ComputeMerkleRootFromBranch_snoc)
  next
    case False
    then have nm: "\<not> matchh" and bi: "branch_inv H xs p matchlevel c branch" using inv unfolding climb_inv_def mq by simp_all
    show ?thesis
    proof (cases "covers c level p")
      case True
      then have "p < c" using div_le_mono [of c p "2 ^ level"] c by (auto simp: covers_def not_less [symmetric])
      then obtain j where "matchlevel = int j" "covers c j p" "length branch = j"
        "ComputeMerkleRootFromBranch H (xs ! p) branch p = node H xs j (c div 2 ^ j - 1)"
        using bi by (auto simp: branch_inv_def)
      moreover from this have "j = level" using True covers_unique by blast
      moreover have "p div 2 ^ level = 2 * r" using True c by (simp add: covers_def)
      ultimately show ?thesis using nm inner c r
        unfolding climb_inv_def mS pS by (simp add: ComputeMerkleRootFromBranch_snoc q_def [symmetric])
    next
      case nc: False
      have ml: "matchlevel \<noteq> int level"
      proof
        assume "matchlevel = int level"
        with bi have "p < c \<longrightarrow> covers c level p" "\<not> c \<le> p" by (auto simp: branch_inv_def)
        with nc show False by simp
      qed
      have "p div 2 ^ level div 2 \<noteq> r"
      proof
        assume "p div 2 ^ level div 2 = r"
        then have "p div 2 ^ level = 2 * r" using False by linarith
        with nc c show False by (simp add: covers_def)
      qed
      then show ?thesis using nm ml bi unfolding climb_inv_def mS pS by simp
    qed
  qed
qed


text \<open>Two nodes of one level that are both complete and equal.\<close>

definition equal_pair :: "hasher \<Rightarrow> uint256 list \<Rightarrow> nat \<Rightarrow> bool" where
  "equal_pair H xs c \<longleftrightarrow> (\<exists>l k. (2 * k + 2) * 2 ^ l \<le> c \<and> node H xs l (2 * k) = node H xs l (2 * k + 1))"

definition pair_at :: "hasher \<Rightarrow> uint256 list \<Rightarrow> nat \<Rightarrow> nat \<Rightarrow> bool" where
  "pair_at H xs m l \<longleftrightarrow> 2 ^ Suc l dvd m \<and> node H xs l (m div 2 ^ l - 2) = node H xs l (m div 2 ^ l - 1)"

lemma merkle_climb_spec:
  assumes inner: "inner_inv H xs c inner" and "c < m" "m < 2 ^ 32"
  shows "2 ^ level dvd m \<Longrightarrow> m \<le> c + 2 ^ level \<Longrightarrow> m < length xs + 2 ^ level \<Longrightarrow>
    h = node H xs level (m div 2 ^ level - 1) \<Longrightarrow>
    (want \<Longrightarrow> climb_inv H xs p matchlevel c m level h matchh branch) \<Longrightarrow>
    \<exists>level' h' matchh' mutated' branch'.
      merkle_climb H want inner matchlevel m level h matchh mutated branch = Some (level', h', matchh', mutated', branch') \<and>
      2 ^ level' dvd m \<and> odd (m div 2 ^ level') \<and> level \<le> level' \<and> level' < 32 \<and>
      h' = node H xs level' (m div 2 ^ level' - 1) \<and>
      (mutated' \<longleftrightarrow> mutated \<or> (\<exists>l \<ge> level. pair_at H xs m l)) \<and>
      (want \<longrightarrow> climb_inv H xs p matchlevel c m level' h' matchh' branch')"
proof (induction "32 - level" arbitrary: level h matchh mutated branch)
  case 0
  then have "(2 :: nat) ^ 32 dvd m" using power_le_dvd [of 2 level m 32] by simp
  then show ?case using assms(2,3) by (auto dest: dvd_imp_le)
next
  case (Suc d)
  then have l32: "level < 32" by simp
  show ?case
  proof (cases "bit m level")
    case True
    then have odd: "odd (m div 2 ^ level)" by (simp add: bit_iff_odd)
    have "\<not> 2 ^ Suc l dvd m" if "level \<le> l" for l
    proof
      assume "2 ^ Suc l dvd m"
      then have "2 ^ Suc level dvd m" using that by (meson Suc_le_mono power_le_dvd)
      then have "even (m div 2 ^ level)" by (auto simp: mult.assoc mult.left_commute)
      with odd show False by simp
    qed
    then have none: "(\<exists>l \<ge> level. pair_at H xs m l) \<longleftrightarrow> False" by (auto simp: pair_at_def)
    show ?thesis using True odd l32 Suc.prems by (subst merkle_climb.simps) (simp add: none)
  next
    case False
    define q where "q = m div 2 ^ level"
    have even: "even q" using False by (simp add: bit_iff_odd q_def)
    have m: "m = 2 ^ level * q" using Suc.prems(1) by (simp add: q_def)
    then have "q > 0" using assms(2) by (cases q) simp_all
    moreover obtain t where "q = 2 * t" using even by blast
    ultimately obtain r where r: "q = 2 * r + 2" by (cases t) auto
    have c: "c div 2 ^ level = q - 1" using div_below [OF Suc.prems(1) assms(2) Suc.prems(2)] by (simp add: q_def)
    have x: "inner ! level = node H xs level (q - 2)" using inner l32 c r by (auto simp: inner_inv_def)
    have dvd: "2 ^ Suc level dvd m" using m r by simp
    have mS: "m div 2 ^ Suc level - 1 = r" using r by (simp add: div_pow_Suc q_def [symmetric] del: power_Suc)
    have "(2 * r + 1) * 2 ^ level < length xs" using Suc.prems(3) m r by (simp add: algebra_simps)
    then have hS: "H (inner ! level @ h) = node H xs (Suc level) (m div 2 ^ Suc level - 1)"
      using node_pair [of r level xs H] Suc.prems(4) x r unfolding mS q_def [symmetric] by simp
    have mut: "(mutated \<or> inner ! level = h) \<or> (\<exists>l \<ge> Suc level. pair_at H xs m l) \<longleftrightarrow>
      mutated \<or> (\<exists>l \<ge> level. pair_at H xs m l)"
    proof -
      have "inner ! level = h \<longleftrightarrow> pair_at H xs m level"
        using dvd x Suc.prems(4) by (simp add: pair_at_def q_def del: power_Suc)
      moreover have "(\<exists>l \<ge> level. pair_at H xs m l) \<longleftrightarrow> pair_at H xs m level \<or> (\<exists>l \<ge> Suc level. pair_at H xs m l)"
        by (metis Suc_leD le_antisym not_less_eq_eq order_refl)
      ultimately show ?thesis by blast
    qed
    let ?branch = "if want \<and> matchh then branch @ [inner ! level]
      else if want \<and> matchlevel = int level then branch @ [h] else branch"
    let ?matchh = "if want \<and> \<not> matchh \<and> matchlevel = int level then True else matchh"
    have inv: "climb_inv H xs p matchlevel c m (Suc level) (H (inner ! level @ h)) ?matchh ?branch" if want
    proof -
      have "climb_inv H xs p matchlevel c m (Suc level) (H (inner ! level @ h)) (matchh \<or> matchlevel = int level)
        (if matchh then branch @ [inner ! level] else if matchlevel = int level then branch @ [h] else branch)"
        using climb_inv_step [OF Suc.prems(1) _ assms(2) Suc.prems(2)] even x Suc.prems(5) that by (simp add: q_def)
      then show ?thesis using that by (cases matchh; cases "matchlevel = int level"; simp)
    qed
    have run: "merkle_climb H want inner matchlevel m level h matchh mutated branch =
      merkle_climb H want inner matchlevel m (Suc level) (H (inner ! level @ h)) ?matchh (mutated \<or> inner ! level = h) ?branch"
      using False l32 by (subst merkle_climb.simps) (simp only: Let_def if_False if_True Suc_eq_plus1 not_True_eq_False)
    show ?thesis unfolding run using Suc.hyps(1) [of "Suc level" "H (inner ! level @ h)" ?matchh ?branch "mutated \<or> inner ! level = h"]
      dvd hS inv Suc.prems Suc.hyps(2) unfolding mut by (fastforce intro: Suc_leD)
  qed
qed

section \<open>The loops\<close>

definition leaves_inv :: "hasher \<Rightarrow> uint256 list \<Rightarrow> bool \<Rightarrow> nat \<Rightarrow> nat \<Rightarrow> merkle_state \<Rightarrow> bool" where
  "leaves_inv H xs want p c s \<longleftrightarrow> inner_inv H xs c (mk_inner s) \<and> (mk_mutated s \<longleftrightarrow> equal_pair H xs c) \<and>
     (want \<longrightarrow> branch_inv H xs p (mk_matchlevel s) c (mk_branch s))"

lemma div_same:
  fixes c :: nat
  assumes "2 ^ l' dvd Suc c" "odd (Suc c div 2 ^ l')" "l' < l"
  shows "Suc c div 2 ^ l = c div 2 ^ l"
proof -
  have "c div 2 ^ l' = Suc c div 2 ^ l' - 1" using assms(1) by (intro div_below) auto
  then have "c div 2 ^ l' div 2 = Suc c div 2 ^ l' div 2" using assms(2) by (auto elim!: oddE)
  then have "c div 2 ^ Suc l' div 2 ^ (l - Suc l') = Suc c div 2 ^ Suc l' div 2 ^ (l - Suc l')" by (simp only: div_pow_Suc)
  moreover have "(2 :: nat) ^ Suc l' * 2 ^ (l - Suc l') = 2 ^ l" using assms(3) by (simp only: power_add [symmetric]) simp
  ultimately show ?thesis by (simp only: div_mult2_eq [symmetric])
qed

lemma equal_pair_Suc: "equal_pair H xs (Suc c) \<longleftrightarrow> equal_pair H xs c \<or> (\<exists>l. pair_at H xs (Suc c) l)"
proof -
  have "pair_at H xs (Suc c) l \<longleftrightarrow> (\<exists>k. (2 * k + 2) * 2 ^ l = Suc c \<and> node H xs l (2 * k) = node H xs l (2 * k + 1))" for l
  proof
    assume p: "pair_at H xs (Suc c) l"
    then obtain t where "Suc c = 2 ^ Suc l * t" by (auto simp: pair_at_def)
    moreover from this obtain k where "t = Suc k" by (cases t) auto
    ultimately have "Suc c = (2 * k + 2) * 2 ^ l" by simp
    with p show "\<exists>k. (2 * k + 2) * 2 ^ l = Suc c \<and> node H xs l (2 * k) = node H xs l (2 * k + 1)"
      by (intro exI [of _ k]) (simp add: pair_at_def)
  next
    assume "\<exists>k. (2 * k + 2) * 2 ^ l = Suc c \<and> node H xs l (2 * k) = node H xs l (2 * k + 1)"
    then obtain k where k: "Suc c = (2 * k + 2) * 2 ^ l" "node H xs l (2 * k) = node H xs l (2 * k + 1)" by metis
    then have "2 ^ Suc l dvd Suc c" by (simp add: k(1))
    with k show "pair_at H xs (Suc c) l" by (simp add: pair_at_def)
  qed
  then show ?thesis unfolding equal_pair_def le_Suc_eq by blast
qed

text \<open>The state after one more leaf.\<close>

lemma leaves_inv_step:
  assumes inv: "leaves_inv H xs want p c s" and c: "Suc c < 2 ^ 32" "c < length xs"
  shows "\<exists>s'. merkle_leaves H want p c (xs ! c # rest) s = merkle_leaves H want p (Suc c) rest s' \<and> leaves_inv H xs want p (Suc c) s'"
proof -
  have i: "inner_inv H xs c (mk_inner s)" and mut: "mk_mutated s \<longleftrightarrow> equal_pair H xs c"
    and b: "want \<Longrightarrow> branch_inv H xs p (mk_matchlevel s) c (mk_branch s)"
    using inv by (simp_all add: leaves_inv_def)
  have start: "climb_inv H xs p (mk_matchlevel s) c (Suc c) 0 (xs ! c) (c = p) (mk_branch s)" if want
    using b [OF that] c by (auto simp: climb_inv_def branch_inv_def)
  obtain l h matchh mutated branch where
    run: "merkle_climb H want (mk_inner s) (mk_matchlevel s) (Suc c) 0 (xs ! c) (c = p) (mk_mutated s) (mk_branch s) =
      Some (l, h, matchh, mutated, branch)"
    and l: "2 ^ l dvd Suc c" "odd (Suc c div 2 ^ l)" "l < 32" and h: "h = node H xs l (Suc c div 2 ^ l - 1)"
    and m: "mutated \<longleftrightarrow> mk_mutated s \<or> (\<exists>l \<ge> 0. pair_at H xs (Suc c) l)"
    and ci: "want \<longrightarrow> climb_inv H xs p (mk_matchlevel s) c (Suc c) l h matchh branch"
    using merkle_climb_spec [OF i, of "Suc c" 0 "xs ! c" want p "mk_matchlevel s" "c = p" "mk_branch s" "mk_mutated s"] c start
    by (auto simp: node_leaf)
  let ?s = "\<lparr>mk_inner = (mk_inner s)[l := h], mk_matchlevel = (if matchh then int l else mk_matchlevel s),
    mk_mutated = mutated, mk_branch = branch\<rparr>"
  have "inner_inv H xs (Suc c) ((mk_inner s)[l := h])"
  proof -
    have "(mk_inner s)[l := h] ! j = node H xs j (Suc c div 2 ^ j - 1)" if "j < 32" "odd (Suc c div 2 ^ j)" for j
    proof (cases j l rule: linorder_cases)
      case less
      then have "2 ^ Suc j dvd Suc c" using l(1) by (meson Suc_leI power_le_dvd)
      then have "even (Suc c div 2 ^ j)" by (auto simp: mult.assoc)
      with that show ?thesis by simp
    next
      case equal
      then show ?thesis using h l(3) i by (simp add: inner_inv_def)
    next
      case greater
      then show ?thesis using div_same [OF l(1,2) greater] i that by (simp add: inner_inv_def)
    qed
    then show ?thesis using i by (simp add: inner_inv_def)
  qed
  moreover have "branch_inv H xs p (mk_matchlevel ?s) (Suc c) branch" if want
  proof (cases "p div 2 ^ l = Suc c div 2 ^ l - 1")
    case True
    then have "matchh" "length branch = l" "ComputeMerkleRootFromBranch H (xs ! p) branch p = h"
      using ci that unfolding climb_inv_def by auto
    moreover have "covers (Suc c) l p" using True l(2) by (simp add: covers_def)
    moreover have "p < Suc c"
    proof (rule ccontr)
      assume "\<not> p < Suc c"
      then have "Suc c div 2 ^ l \<le> p div 2 ^ l" by (intro div_le_mono) simp
      with True l(2) show False by (auto elim!: oddE)
    qed
    ultimately show ?thesis using h l(3) by (simp add: branch_inv_def)
  next
    case False
    then have nm: "\<not> matchh" and bi: "branch_inv H xs p (mk_matchlevel s) c branch"
      using ci that unfolding climb_inv_def by auto
    have cl: "c div 2 ^ l = Suc c div 2 ^ l - 1" using l(1) by (intro div_below) auto
    then have "p \<noteq> c" using False by auto
    moreover have "covers (Suc c) j p \<and> Suc c div 2 ^ j = c div 2 ^ j" if cv: "covers c j p" for j
    proof (cases j l rule: linorder_cases)
      case less
      then have "p div 2 ^ l = c div 2 ^ l" using covers_above [OF cv] by simp
      with False cl show ?thesis by simp
    next
      case equal
      then show ?thesis using cv cl l(2) by (auto simp: covers_def elim!: oddE)
    next
      case greater
      then show ?thesis using div_same [OF l(1,2) greater] cv by (simp add: covers_def)
    qed
    ultimately show ?thesis using bi nm by (auto simp: branch_inv_def less_Suc_eq)
  qed
  ultimately have "leaves_inv H xs want p (Suc c) ?s" using m mut by (simp add: leaves_inv_def equal_pair_Suc)
  then show ?thesis using run c(1) by (intro exI [of _ ?s]) simp
qed

lemma merkle_leaves_spec:
  assumes "length xs < 2 ^ 32"
  shows "leaves_inv H xs want p c s \<Longrightarrow> c \<le> length xs \<Longrightarrow>
    \<exists>s'. merkle_leaves H want p c (drop c xs) s = Some s' \<and> leaves_inv H xs want p (length xs) s'"
proof (induction "length xs - c" arbitrary: c s)
  case (Suc d)
  then have "drop c xs = xs ! c # drop (Suc c) xs" by (simp add: Cons_nth_drop_Suc)
  moreover have "Suc c < 2 ^ 32" "c < length xs" using Suc.hyps(2) assms by linarith+
  ultimately obtain s' where "merkle_leaves H want p c (drop c xs) s = merkle_leaves H want p (Suc c) (drop (Suc c) xs) s'"
    "leaves_inv H xs want p (Suc c) s'"
    using leaves_inv_step [OF Suc.prems(1)] by metis
  then show ?case using Suc.hyps(1) [of "Suc c" s'] Suc.hyps(2) Suc.prems(2) by simp
qed simp

lemma merkle_first_level_spec:
  "0 < n \<Longrightarrow> n < 2 ^ 32 \<Longrightarrow> 2 ^ level dvd n \<Longrightarrow>
   \<exists>l. merkle_first_level n level = Some l \<and> 2 ^ l dvd n \<and> odd (n div 2 ^ l) \<and> l < 32"
proof (induction "32 - level" arbitrary: level)
  case 0
  then have "(2 :: nat) ^ 32 dvd n" using power_le_dvd [of 2 level n 32] by simp
  then show ?case using 0 by (auto dest: dvd_imp_le)
next
  case (Suc d)
  show ?case
  proof (cases "bit n level")
    case True
    then show ?thesis using Suc by (subst merkle_first_level.simps) (simp add: bit_iff_odd)
  next
    case False
    then have "even (n div 2 ^ level)" by (simp add: bit_iff_odd)
    then obtain t where "n div 2 ^ level = 2 * t" by blast
    then have "2 ^ Suc level dvd n" using Suc.prems(3) by (metis dvd_mult_div_cancel dvd_triv_left mult.assoc power_Suc2)
    then show ?thesis using Suc.hyps(1) [of "Suc level"] Suc.hyps(2) Suc.prems False
      by (subst merkle_first_level.simps) simp
  qed
qed

text \<open>The sweep, from a count that is the number of leaves rounded up to the current level.\<close>

definition sweep_inv :: "nat \<Rightarrow> nat \<Rightarrow> nat \<Rightarrow> bool" where
  "sweep_inv n count level \<longleftrightarrow> 2 ^ level dvd count \<and> odd (count div 2 ^ level) \<and> n \<le> count \<and> count < n + 2 ^ level \<and>
     count \<le> 2 ^ 31 \<and> level < 32 \<and> (count = 2 ^ level \<longrightarrow> level = 0 \<or> 2 ^ (level - 1) < n)"

lemma sweep_inv_next:
  assumes "sweep_inv n count level" "count \<noteq> 2 ^ level"
  shows "2 ^ Suc level dvd count + 2 ^ level" "count + 2 ^ level \<le> 2 ^ 31" "4 * 2 ^ level \<le> count + 2 ^ level"
    "(count + 2 ^ level) div 2 ^ Suc level - 1 = (count div 2 ^ level - 1) div 2"
proof -
  obtain q where q: "count = 2 ^ level * q" using assms(1) by (auto simp: sweep_inv_def)
  then have "odd q" using assms(1) by (simp add: sweep_inv_def)
  then obtain r where r: "q = 2 * r + 1" by (auto elim!: oddE)
  have "r \<noteq> 0" using assms(2) q r by auto
  have m: "count + 2 ^ level = 2 ^ Suc level * (r + 1)" using q r by (simp add: algebra_simps)
  then show "2 ^ Suc level dvd count + 2 ^ level" by simp
  show "4 * 2 ^ level \<le> count + 2 ^ level" unfolding m using \<open>r \<noteq> 0\<close> by simp
  have "2 ^ level * (2 * r + 1) \<le> 2 ^ 31" using assms(1) q r by (simp add: sweep_inv_def)
  have l: "level < 31"
  proof (rule ccontr)
    assume "\<not> level < 31"
    then have "(2 :: nat) ^ 31 \<le> 2 ^ level" by (intro power_increasing) simp_all
    moreover have "2 ^ level * 3 \<le> 2 ^ level * (2 * r + 1)" using \<open>r \<noteq> 0\<close> by (intro mult_le_mono2) simp
    ultimately have "2 ^ 31 * 3 \<le> (2 :: nat) ^ 31"
      using \<open>2 ^ level * (2 * r + 1) \<le> 2 ^ 31\<close> by (meson le_trans mult_le_mono1)
    then show False by simp
  qed
  have e: "(2 :: nat) ^ 31 = 2 ^ level * (2 * 2 ^ (30 - level))"
    using l by (simp only: mult.left_commute power_Suc [symmetric] power_add [symmetric]) simp
  from \<open>2 ^ level * (2 * r + 1) \<le> 2 ^ 31\<close> have "2 * r + 1 \<le> 2 * 2 ^ (30 - level)"
    unfolding e by (rule mult_le_cancel1 [THEN iffD1, rule_format]) simp
  then have "r + 1 \<le> 2 ^ (30 - level)" by simp
  then have "2 ^ level * (2 * (r + 1)) \<le> 2 ^ level * (2 * 2 ^ (30 - level))" by (intro mult_le_mono2)
  then show "count + 2 ^ level \<le> 2 ^ 31" unfolding m e by simp
  show "(count + 2 ^ level) div 2 ^ Suc level - 1 = (count div 2 ^ level - 1) div 2"
    unfolding m by (simp add: q r del: power_Suc)
qed

lemma merkle_sweep_spec:
  assumes inner: "inner_inv H xs (length xs) inner" and n: "0 < length xs" and p: "want \<Longrightarrow> p < length xs"
  shows "sweep_inv (length xs) count level \<Longrightarrow> h = node H xs level (count div 2 ^ level - 1) \<Longrightarrow>
    (want \<Longrightarrow> climb_inv H xs p matchlevel (length xs) count level h matchh branch) \<Longrightarrow>
    \<exists>branch'. merkle_sweep H want inner matchlevel count level h matchh branch = Some (merkle_root H xs, branch') \<and>
      (want \<longrightarrow> ComputeMerkleRootFromBranch H (xs ! p) branch' p = merkle_root H xs)"
proof (induction "32 - level" arbitrary: level count h matchh branch rule: less_induct)
  case less
  have si: "2 ^ level dvd count" "odd (count div 2 ^ level)" "length xs \<le> count" "count < length xs + 2 ^ level"
    "count \<le> 2 ^ 31" "level < 32" using less.prems(1) by (simp_all add: sweep_inv_def)
  show ?case
  proof (cases "count = 2 ^ level")
    case True
    then have "h = subtree H level xs" using less.prems(2) si(3) by (simp add: node_def)
    moreover have "merkle_root H xs = subtree H level xs"
      using less.prems(1) True n by (intro merkle_root_subtree) (simp_all add: sweep_inv_def)
    ultimately have root: "h = merkle_root H xs" by simp
    have "ComputeMerkleRootFromBranch H (xs ! p) branch p = h" if want
      using less.prems(3) [OF that] True p [OF that] si(3) by (simp add: climb_inv_def)
    then show ?thesis using root True si(6) by (subst merkle_sweep.simps) simp
  next
    case False
    note nx = sweep_inv_next [OF less.prems(1) False]
    define m where "m = count + 2 ^ level"
    let ?branch = "if want \<and> matchh then branch @ [h] else branch"
    obtain r where r: "count div 2 ^ level = 2 * r + 1" using si(2) by (auto elim!: oddE)
    then have cr: "count = (2 * r + 1) * 2 ^ level" using si(1) by (metis dvd_div_mult_self)
    have mS: "m div 2 ^ Suc level - 1 = r" using nx(4) r by (simp add: m_def)
    have hS: "H (h @ h) = node H xs (Suc level) (m div 2 ^ Suc level - 1)"
      using node_single [of xs r level H] si(3) cr less.prems(2) r unfolding mS by simp
    have ci: "climb_inv H xs p matchlevel (length xs) m (Suc level) (H (h @ h)) matchh ?branch" if want
    proof (cases "p div 2 ^ level = 2 * r")
      case True
      then have "matchh" "length branch = level" "ComputeMerkleRootFromBranch H (xs ! p) branch p = h"
        using less.prems(3) [OF that] r by (simp_all add: climb_inv_def)
      then show ?thesis using that True unfolding climb_inv_def mS div_pow_Suc [of p]
        by (simp add: ComputeMerkleRootFromBranch_snoc)
    next
      case np: False
      have "p div 2 ^ level < 2 * r + 1"
        using p [OF that] si(3) cr by (metis less_le_trans less_mult_imp_div_less)
      then have "p div 2 ^ level div 2 \<noteq> r" using np by linarith
      then show ?thesis using less.prems(3) [OF that] np r unfolding climb_inv_def mS div_pow_Suc [of p] by simp
    qed
    have "m < 2 ^ 32" "length xs < m" "m \<le> length xs + 2 ^ Suc level" "m < length xs + 2 ^ Suc level"
      using nx(2) si by (simp_all add: m_def)
    then obtain l' h' matchh' mut' branch' where
      run: "merkle_climb H want inner matchlevel m (Suc level) (H (h @ h)) matchh False ?branch =
        Some (l', h', matchh', mut', branch')"
      and l': "2 ^ l' dvd m" "odd (m div 2 ^ l')" "Suc level \<le> l'" "l' < 32"
      and h': "h' = node H xs l' (m div 2 ^ l' - 1)"
      and ci': "want \<longrightarrow> climb_inv H xs p matchlevel (length xs) m l' h' matchh' branch'"
      using merkle_climb_spec [OF inner, of m "Suc level" "H (h @ h)" want p matchlevel matchh ?branch False] nx(1) hS ci
      by (auto simp: m_def [symmetric] simp del: power_Suc)
    have pw: "(2 :: nat) ^ Suc level \<le> 2 ^ l'" using l'(3) by (intro power_increasing) simp_all
    have "sweep_inv (length xs) m l'"
    proof -
      have "l' = 0 \<or> 2 ^ (l' - 1) < length xs" if "m = 2 ^ l'"
      proof -
        have "(2 :: nat) ^ Suc (Suc level) \<le> 2 ^ l'" using nx(3) that by (simp add: m_def)
        then have "Suc (Suc level) \<le> l'" by (simp only: power_increasing_iff one_less_numeral_iff semiring_norm)
        then have "(2 :: nat) ^ Suc level \<le> 2 ^ (l' - 1)" by (intro power_increasing) simp_all
        moreover have "(2 :: nat) ^ l' = 2 * 2 ^ (l' - 1)" using l'(3) by (cases l') simp_all
        ultimately show ?thesis using that \<open>m < length xs + 2 ^ Suc level\<close> by linarith
      qed
      moreover have "m < length xs + 2 ^ l'" using pw \<open>m < length xs + 2 ^ Suc level\<close> by linarith
      ultimately show ?thesis using l' \<open>length xs < m\<close> nx(2)
        by (simp add: sweep_inv_def m_def [symmetric] del: power_Suc)
    qed
    then have "\<exists>b. merkle_sweep H want inner matchlevel m l' h' matchh' branch' = Some (merkle_root H xs, b) \<and>
      (want \<longrightarrow> ComputeMerkleRootFromBranch H (xs ! p) b p = merkle_root H xs)"
      using less.hyps [of l' m h' matchh' branch'] l'(3,4) h' ci' by simp
    moreover have "(count + 2 ^ level) mod 2 ^ 32 = m" using \<open>m < 2 ^ 32\<close> by (simp add: m_def)
    ultimately show ?thesis using False si(6) run by (subst merkle_sweep.simps) simp
  qed
qed

lemma MerkleComputation_spec:
  assumes "0 < length xs" "length xs \<le> 2 ^ 31" "want \<Longrightarrow> p < length xs"
  shows "\<exists>branch. MerkleComputation H xs p want = Some (merkle_root H xs, equal_pair H xs (length xs), branch) \<and>
    (want \<longrightarrow> ComputeMerkleRootFromBranch H (xs ! p) branch p = merkle_root H xs)"
proof -
  let ?s = "\<lparr>mk_inner = replicate 32 uint256_null, mk_matchlevel = - 1, mk_mutated = False, mk_branch = []\<rparr>"
  have "leaves_inv H xs want p 0 ?s"
    by (simp add: leaves_inv_def inner_inv_def branch_inv_def equal_pair_def)
  then obtain s where s: "merkle_leaves H want p 0 xs ?s = Some s" "leaves_inv H xs want p (length xs) s"
    using merkle_leaves_spec [of xs H want p 0 ?s] assms(2) by auto
  obtain l where l: "merkle_first_level (length xs) 0 = Some l" "2 ^ l dvd length xs" "odd (length xs div 2 ^ l)" "l < 32"
    using merkle_first_level_spec [of "length xs" 0] assms by auto
  have i: "inner_inv H xs (length xs) (mk_inner s)" using s(2) by (simp add: leaves_inv_def)
  have "sweep_inv (length xs) (length xs) l"
    using l assms by (cases l) (auto simp: sweep_inv_def)
  moreover have node: "mk_inner s ! l = node H xs l (length xs div 2 ^ l - 1)" using i l by (simp add: inner_inv_def)
  moreover have "climb_inv H xs p (mk_matchlevel s) (length xs) (length xs) l (mk_inner s ! l) (mk_matchlevel s = int l) (mk_branch s)"
    if w: want
  proof -
    obtain j where j: "mk_matchlevel s = int j" "covers (length xs) j p" "length (mk_branch s) = j"
        "ComputeMerkleRootFromBranch H (xs ! p) (mk_branch s) p = node H xs j (length xs div 2 ^ j - 1)"
      using s(2) w assms(3) [OF w] by (auto simp: leaves_inv_def branch_inv_def)
    have "j = l \<longleftrightarrow> p div 2 ^ l = length xs div 2 ^ l - 1"
      using j(2) l(3) covers_unique [of "length xs" j p l] by (auto simp: covers_def)
    then show ?thesis using j node s(2) w by (auto simp: climb_inv_def leaves_inv_def)
  qed
  ultimately obtain b where "merkle_sweep H want (mk_inner s) (mk_matchlevel s) (length xs) l (mk_inner s ! l)
      (mk_matchlevel s = int l) (mk_branch s) = Some (merkle_root H xs, b)"
    "want \<longrightarrow> ComputeMerkleRootFromBranch H (xs ! p) b p = merkle_root H xs"
    using merkle_sweep_spec [OF i assms(1), of want p] assms(3) by blast
  then show ?thesis using assms s l(1) by (simp add: MerkleComputation_def leaves_inv_def)
qed

lemma ComputeMerkleRoot_spec:
  "0 < length xs \<Longrightarrow> length xs \<le> 2 ^ 31 \<Longrightarrow>
   ComputeMerkleRoot H xs = Some (merkle_root H xs, equal_pair H xs (length xs))"
  using MerkleComputation_spec [of xs False "2 ^ 32 - 1" H] by (auto simp: ComputeMerkleRoot_def)

lemma ComputeMerkleBranch_spec:
  assumes "p < length xs" "length xs \<le> 2 ^ 31"
  obtains branch where "ComputeMerkleBranch H xs p = Some branch"
    "ComputeMerkleRootFromBranch H (xs ! p) branch p = merkle_root H xs"
proof -
  have "0 < length xs" using assms(1) by linarith
  then show thesis using MerkleComputation_spec [of xs True p H] assms that by (auto simp: ComputeMerkleBranch_def)
qed

text \<open>Repeating the last leaf of an odd number of leaves keeps the root, and is flagged: the attack
  described at the head of the file.\<close>

lemma next_level_repeat: "odd (length xs) \<Longrightarrow> next_level H (xs @ [last xs]) = next_level H xs"
  by (induction H xs rule: next_level.induct) auto

lemma merkle_root_repeat:
  assumes "odd (length xs)" "1 < length xs"
  shows "merkle_root H (xs @ [last xs]) = merkle_root H xs"
proof -
  have "length xs \<noteq> 0" "length xs \<noteq> 1" using assms(2) by linarith+
  then show ?thesis using next_level_repeat [OF assms(1), of H] by (subst (1 2) merkle_root.simps) auto
qed

lemma equal_pair_repeat:
  assumes "odd (length xs)"
  shows "equal_pair H (xs @ [last xs]) (length (xs @ [last xs]))"
proof -
  obtain k where k: "length xs = 2 * k + 1" using assms by (auto elim!: oddE)
  then have "xs \<noteq> []" by auto
  then have "xs ! (2 * k) = last xs" using k by (simp add: last_conv_nth)
  then have "node H (xs @ [last xs]) 0 (2 * k) = node H (xs @ [last xs]) 0 (2 * k + 1)"
    using k by (simp add: node_leaf nth_append)
  then show ?thesis unfolding equal_pair_def using k by (intro exI [of _ 0] exI [of _ k]) simp
qed

end
