(* ===== verification/Check_Block.thy ===== *)
theory Check_Block
  imports Tx_Verify Pow Merkle
begin

text \<open>
  The checks of block headers and blocks (\<open>CheckBlockHeader\<close>, \<open>CheckBlock\<close>, \<open>ContextualCheckBlockHeader\<close>,
  \<open>ContextualCheckBlock\<close> and \<open>AcceptBlockHeader\<close> of \<open>validation.cpp\<close>, \<open>GetLastCheckpoint\<close> of
  \<open>checkpoints.cpp\<close>).  The verifier of Equihash solutions, the hash functions, the checkpoints and the
  adjusted time are arguments.  \<open>CheckBlockIndex\<close>, which only asserts, is left out.
\<close>

section \<open>The environment\<close>

record node_env =
  ne_H :: hasher
  ne_eh :: "nat \<Rightarrow> nat \<Rightarrow> bytes \<Rightarrow> bytes \<Rightarrow> bool"
  ne_EquihashN :: nat
  ne_EquihashK :: nat
  ne_params :: Params
  ne_checkpoints :: "(int \<times> uint256) list option"
  ne_AdjustedTime :: int
  ne_ed :: ed25519
  ne_hash :: hash_functions
  scriptExecutionCache :: "uint256 \<Rightarrow> u32 \<Rightarrow> bool"
  nScriptCheckThreads :: nat

section \<open>Checks without context\<close>

definition CheckBlockHeader :: "node_env \<Rightarrow> 'a CBlockHeader_scheme \<Rightarrow> bool \<Rightarrow> check" where
  "CheckBlockHeader env block fCheckPOW st =
     (if fCheckPOW \<and> \<not> CheckEquihashSolution (ne_eh env) (ne_EquihashN env) (ne_EquihashK env) block
      then DoS 100 False REJECT_INVALID ''invalid-solution'' False st
      else if fCheckPOW \<and> \<not> CheckProofOfWork (header_GetHash (ne_H env) block) (blk_nBits block) (ne_params env)
      then DoS 50 False REJECT_INVALID ''high-hash'' False st
      else (True, st))"

fun check_txs :: "CTransaction list \<Rightarrow> check" where
  "check_txs [] st = (True, st)"
| "check_txs (tx # txs) st =
     (let (ok, st) = CheckTransaction tx False st
      in if \<not> ok then Invalid False (chRejectCode st) (strRejectReason st) st else check_txs txs st)"

fun sum_LegacySigOps :: "u32 \<Rightarrow> CTransaction list \<Rightarrow> u32 option" where
  "sum_LegacySigOps nSigOps [] = Some nSigOps"
| "sum_LegacySigOps nSigOps (tx # txs) = do { n \<leftarrow> GetLegacySigOpCount tx; sum_LegacySigOps (nSigOps + n) txs }"

definition check_merkle :: "node_env \<Rightarrow> CBlock \<Rightarrow> CValidationState \<Rightarrow> (bool \<times> CValidationState) option" where
  "check_merkle env block st = do {
     (hashMerkleRoot2, mutated) \<leftarrow> BlockMerkleRoot (ne_H env) block;
     Some (if hashMerkleRoot block \<noteq> hashMerkleRoot2
           then DoS 100 False REJECT_INVALID ''bad-txnmrklroot'' True st
           else if mutated then DoS 100 False REJECT_INVALID ''bad-txns-duplicate'' True st
           else (True, st)) }"

text \<open>What follows the Merkle root: sizes, the place of the coinbase, the transactions, signature operations.\<close>

definition check_body :: "CBlock \<Rightarrow> CValidationState \<Rightarrow> (bool \<times> CValidationState) option" where
  "check_body block st =
     (if vtx block = [] \<or> length (vtx block) * WITNESS_SCALE_FACTOR > MAX_BLOCK_WEIGHT \<or>
         length (ser_CBlock False block) * WITNESS_SCALE_FACTOR > MAX_BLOCK_WEIGHT
      then Some (DoS 100 False REJECT_INVALID ''bad-blk-length'' False st)
      else if vtx block = [] \<or> \<not> IsCoinBase (vtx block ! 0)
      then Some (DoS 100 False REJECT_INVALID ''bad-cb-missing'' False st)
      else if list_ex IsCoinBase (tl (vtx block))
      then Some (DoS 100 False REJECT_INVALID ''bad-cb-multiple'' False st)
      else let (ok, st) = check_txs (vtx block) st
        in if \<not> ok then Some (False, st)
           else do {
             nSigOps \<leftarrow> sum_LegacySigOps 0 (vtx block);
             Some (if uint (nSigOps * of_nat WITNESS_SCALE_FACTOR) > MAX_BLOCK_SIGOPS_COST
                   then DoS 100 False REJECT_INVALID ''bad-blk-sigops'' False st
                   else (True, st)) })"

text \<open>The flag \<open>fChecked\<close> of the block is an argument, and returned last.\<close>

definition CheckBlock :: "node_env \<Rightarrow> CBlock \<Rightarrow> bool \<Rightarrow> bool \<Rightarrow> bool \<Rightarrow> CValidationState \<Rightarrow>
    ((bool \<times> CValidationState) \<times> bool) option" where
  "CheckBlock env block fChecked fCheckPOW fCheckMerkleRoot st =
     (if fChecked then Some ((True, st), fChecked)
      else let (ok, st) = CheckBlockHeader env block fCheckPOW st
        in if \<not> ok then Some ((False, st), fChecked)
           else do {
             (ok, st) \<leftarrow> (if fCheckMerkleRoot then check_merkle env block st else Some (True, st));
             if \<not> ok then Some ((False, st), fChecked)
             else do {
               (ok, st) \<leftarrow> check_body block st;
               Some ((ok, st), if ok \<and> fCheckPOW \<and> fCheckMerkleRoot then True else fChecked) } })"

section \<open>Checks against the previous blocks\<close>

fun GetLastCheckpoint :: "(uint256 \<Rightarrow> nat option) \<Rightarrow> (int \<times> uint256) list \<Rightarrow> ptr" where
  "GetLastCheckpoint m [] = None"
| "GetLastCheckpoint m ((h, hash) # checkpoints) =
     (case m hash of Some p \<Rightarrow> Some p | None \<Rightarrow> GetLastCheckpoint m checkpoints)"

definition MAX_FUTURE_BLOCK_TIME :: int where "MAX_FUTURE_BLOCK_TIME = 2 * 60 * 60"

text \<open>\<open>ne_checkpoints\<close> is \<open>None\<close> when checkpoints are disabled, and the map from heights, in its order,
  otherwise.\<close>

definition ContextualCheckBlockHeader :: "node_env \<Rightarrow> ChainState \<Rightarrow> 'a CBlockHeader_scheme \<Rightarrow> nat \<Rightarrow>
    CValidationState \<Rightarrow> (bool \<times> CValidationState) option" where
  "ContextualCheckBlockHeader env cs block pindexPrev st = do {
     prev \<leftarrow> cs_tree cs pindexPrev;
     bits \<leftarrow> GetNextWorkRequired (cs_tree cs) (Some pindexPrev) (blk_nTime block) (ne_params env);
     if blk_nBits block \<noteq> bits then Some (DoS 100 False REJECT_INVALID ''bad-diffbits'' False st)
     else do {
       forked \<leftarrow> (case ne_checkpoints env of None \<Rightarrow> Some False
         | Some checkpoints \<Rightarrow>
             (case GetLastCheckpoint (mapBlockIndex cs) (rev checkpoints) of None \<Rightarrow> Some False
              | Some q \<Rightarrow> do { c \<leftarrow> cs_tree cs q; Some (nHeight prev + 1 < nHeight c) }));
       if forked then Some (DoS 100 False REJECT_CHECKPOINT ''bad-fork-prior-to-checkpoint'' False st)
       else do {
         mtp \<leftarrow> GetMedianTimePast (cs_tree cs) pindexPrev;
         Some (if uint (blk_nTime block) \<le> mtp then Invalid False REJECT_INVALID ''time-too-old'' st
               else if uint (blk_nTime block) > ne_AdjustedTime env + MAX_FUTURE_BLOCK_TIME
               then Invalid False REJECT_INVALID ''time-too-new'' st
               else (True, st)) } } }"

definition IsWitnessEnabled :: "ptr \<Rightarrow> Params \<Rightarrow> bool" where
  "IsWitnessEnabled pindexPrev params = True"

definition is_commitment :: "CScript \<Rightarrow> bool" where
  "is_commitment s \<longleftrightarrow> length s \<ge> 38 \<and> s ! 0 = OP_RETURN \<and> s ! 1 = 0x24 \<and> s ! 2 = 0xaa \<and> s ! 3 = 0x21 \<and> s ! 4 = 0xa9 \<and> s ! 5 = 0xed"

fun commitment_loop :: "int \<Rightarrow> nat \<Rightarrow> CTxOut list \<Rightarrow> int" where
  "commitment_loop commitpos i [] = commitpos"
| "commitment_loop commitpos i (out # outs) =
     commitment_loop (if is_commitment (scriptPubKey out) then int i else commitpos) (i + 1) outs"

definition GetWitnessCommitmentIndex :: "CBlock \<Rightarrow> int" where
  "GetWitnessCommitmentIndex block = (if vtx block \<noteq> [] then commitment_loop (- 1) 0 (vout (vtx block ! 0)) else - 1)"

text \<open>The check of the witness commitment.  The merkle malleation flag is ignored, as in the code.\<close>

definition check_witness :: "node_env \<Rightarrow> CBlock \<Rightarrow> CValidationState \<Rightarrow> (bool \<times> CValidationState) option" where
  "check_witness env block st =
     (let commitpos = GetWitnessCommitmentIndex block
      in if commitpos \<noteq> - 1
         then do {
           (hashWitness, malleated) \<leftarrow> BlockWitnessMerkleRoot (ne_H env) block;
           let witness = scriptWitness (vin (vtx block ! 0) ! 0);
           Some (if length witness \<noteq> 1 \<or> length (witness ! 0) \<noteq> 32
                 then DoS 100 False REJECT_INVALID ''bad-witness-nonce-size'' True st
                 else if ne_H env (hashWitness @ witness ! 0) \<noteq>
                         take 32 (drop 6 (scriptPubKey (vout (vtx block ! 0) ! nat commitpos)))
                 then DoS 100 False REJECT_INVALID ''bad-witness-merkle-match'' True st
                 else (True, st)) }
         else Some (if list_ex HasWitness (vtx block)
                    then DoS 100 False REJECT_INVALID ''unexpected-witness'' True st else (True, st)))"

text \<open>A block without transactions, or a first transaction without inputs, is out of bounds.\<close>

definition ContextualCheckBlock :: "node_env \<Rightarrow> block_tree \<Rightarrow> CBlock \<Rightarrow> ptr \<Rightarrow> CValidationState \<Rightarrow>
    (bool \<times> CValidationState) option" where
  "ContextualCheckBlock env T block pindexPrev st = do {
     h \<leftarrow> (case pindexPrev of None \<Rightarrow> Some 0 | Some q \<Rightarrow> do { prev \<leftarrow> T q; Some (int (nHeight prev) + 1) });
     q \<leftarrow> pindexPrev;
     nLockTimeCutoff \<leftarrow> GetMedianTimePast T q;
     if list_ex (\<lambda>tx. \<not> IsFinalTx tx h nLockTimeCutoff) (vtx block)
     then Some (DoS 10 False REJECT_INVALID ''bad-txns-nonfinal'' False st)
     else if vtx block = [] \<or> vin (vtx block ! 0) = [] then None
     else let expect = push_int64 [] h; sig = scriptSig (vin (vtx block ! 0) ! 0)
       in if length sig < length expect \<or> take (length expect) sig \<noteq> expect
          then Some (DoS 100 False REJECT_INVALID ''bad-cb-height'' False st)
          else do {
            (ok, st) \<leftarrow> check_witness env block st;
            Some (if \<not> ok then (False, st)
                  else if GetBlockWeight block > MAX_BLOCK_WEIGHT
                  then DoS 100 False REJECT_INVALID ''bad-blk-weight'' False st
                  else (True, st)) } }"

section \<open>Accepting a header\<close>

text \<open>The walk that marks the descendants of an invalid block.\<close>

partial_function (option) mark_invalid :: "nat \<Rightarrow> ptr \<Rightarrow> ChainState \<Rightarrow> ChainState option" where
  "mark_invalid failedit invalid_walk cs =
     (if invalid_walk = Some failedit then Some cs
      else case invalid_walk of None \<Rightarrow> None
      | Some p \<Rightarrow> do {
          i \<leftarrow> cs_tree cs p;
          mark_invalid failedit (pprev i)
            (cs\<lparr>cs_tree := (cs_tree cs)(p \<mapsto> i\<lparr>nStatus := nStatus i OR BLOCK_FAILED_CHILD\<rparr>),
                setDirtyBlockIndex := insert p (setDirtyBlockIndex cs)\<rparr>) })"

text \<open>The loop over \<open>g_failed_blocks\<close>: whether one of them is an ancestor, and the state.\<close>

fun descends_from_failed :: "nat list \<Rightarrow> nat \<Rightarrow> ChainState \<Rightarrow> (bool \<times> ChainState) option" where
  "descends_from_failed [] pindexPrev cs = Some (False, cs)"
| "descends_from_failed (failedit # failed) pindexPrev cs = do {
     f \<leftarrow> cs_tree cs failedit;
     a \<leftarrow> GetAncestor (cs_tree cs) pindexPrev (int (nHeight f));
     if a = Some failedit
     then if nStatus f AND BLOCK_FAILED_VALID = 0 then None
          else do { cs \<leftarrow> mark_invalid failedit (Some pindexPrev) cs; Some (True, cs) }
     else descends_from_failed failed pindexPrev cs }"

definition AcceptBlockHeader :: "node_env \<Rightarrow> nat list \<Rightarrow> 'a CBlockHeader_scheme \<Rightarrow> CValidationState \<Rightarrow> ChainState \<Rightarrow>
    ((bool \<times> CValidationState) \<times> ptr \<times> ChainState) option" where
  "AcceptBlockHeader env g_failed_blocks block st cs =
     (let hash = header_GetHash (ne_H env) block;
          add = (\<lambda>cs. do { (p, cs) \<leftarrow> AddToBlockIndex (ne_H env) block cs; Some ((True, st), Some p, cs) })
      in if hash = hashGenesisBlock (ne_params env) then add cs
         else case mapBlockIndex cs hash of
           Some p \<Rightarrow> do {
             i \<leftarrow> cs_tree cs p;
             Some (if nStatus i AND BLOCK_FAILED_MASK \<noteq> 0 then Invalid False 0 ''duplicate'' st else (True, st), Some p, cs) }
         | None \<Rightarrow>
             let (ok, st) = CheckBlockHeader env block True st
             in if \<not> ok then Some ((False, st), None, cs)
                else case mapBlockIndex cs (hashPrevBlock block) of
                  None \<Rightarrow> Some (DoS 10 False 0 ''prev-blk-not-found'' False st, None, cs)
                | Some pindexPrev \<Rightarrow> do {
                    prev \<leftarrow> cs_tree cs pindexPrev;
                    if nStatus prev AND BLOCK_FAILED_MASK \<noteq> 0
                    then Some (DoS 100 False REJECT_INVALID ''bad-prevblk'' False st, None, cs)
                    else do {
                      (ok, st) \<leftarrow> ContextualCheckBlockHeader env cs block pindexPrev st;
                      if \<not> ok then Some ((False, st), None, cs)
                      else do {
                        valid \<leftarrow> IsValid BLOCK_VALID_SCRIPTS prev;
                        (failed, cs) \<leftarrow> (if \<not> valid then descends_from_failed g_failed_blocks pindexPrev cs else Some (False, cs));
                        if failed then Some (DoS 100 False REJECT_INVALID ''bad-prevblk'' False st, None, cs)
                        else add cs } } })"

end
