(* ===== verification/Connect_Block.thy ===== *)
theory Connect_Block
  imports Utxo_Update Check_Block
begin

text \<open>
  Connecting a block to the chain state (\<open>GetBlockSubsidy\<close>, \<open>CheckInputs\<close>, \<open>GetBlockScriptFlags\<close> and
  \<open>ConnectBlock\<close> of \<open>validation.cpp\<close>), after \<open>CheckBlock\<close> has passed (theory \<open>Check_Block\<close>).  Arguments of
  the model stand for what lies outside the chain state: the hash functions, the signature verification,
  the content of the cache of script executions, whether script checks run in other threads, and whether
  the undo data could be written.  The signature cache, which only saves verifications, is left out, and
  so are the measurements of time.
\<close>

section \<open>The subsidy\<close>

definition GetBlockSubsidy :: "int \<Rightarrow> Params \<Rightarrow> CAmount" where
  "GetBlockSubsidy h params =
     (if h = 0 then GENESIS_MONEY
      else let halvings = h sdiv nSubsidyHalvingInterval params
        in if halvings \<ge> 64 then 0 else drop_bit (nat halvings) INITIAL_SUBSIDY)"

section \<open>Script checks\<close>

definition MANDATORY_SCRIPT_VERIFY_FLAGS :: u32 where "MANDATORY_SCRIPT_VERIFY_FLAGS = SCRIPT_VERIFY_P2SH"

definition STANDARD_SCRIPT_VERIFY_FLAGS :: u32 where
  "STANDARD_SCRIPT_VERIFY_FLAGS = MANDATORY_SCRIPT_VERIFY_FLAGS OR SCRIPT_VERIFY_STRICTENC OR SCRIPT_VERIFY_MINIMALDATA OR
     SCRIPT_VERIFY_NULLDUMMY OR SCRIPT_VERIFY_DISCOURAGE_UPGRADABLE_NOPS OR SCRIPT_VERIFY_CLEANSTACK OR
     SCRIPT_VERIFY_MINIMALIF OR SCRIPT_VERIFY_NULLFAIL OR SCRIPT_VERIFY_CHECKLOCKTIMEVERIFY OR
     SCRIPT_VERIFY_CHECKSEQUENCEVERIFY OR SCRIPT_VERIFY_WITNESS OR
     SCRIPT_VERIFY_DISCOURAGE_UPGRADABLE_WITNESS_PROGRAM OR SCRIPT_VERIFY_WITNESS_PUBKEYTYPE"

definition STANDARD_NOT_MANDATORY_VERIFY_FLAGS :: u32 where
  "STANDARD_NOT_MANDATORY_VERIFY_FLAGS = STANDARD_SCRIPT_VERIFY_FLAGS AND NOT MANDATORY_SCRIPT_VERIFY_FLAGS"

record CScriptCheck =
  m_tx_out :: CTxOut
  ptxTo :: CTransaction
  sc_nIn :: nat
  nFlags :: u32
  sc_txdata :: PrecomputedTransactionData

definition run_CScriptCheck :: "node_env \<Rightarrow> CScriptCheck \<Rightarrow> unit exec" where
  "run_CScriptCheck env check =
     (let txin = vin (ptxTo check) ! sc_nIn check;
          checker = TransactionSignatureChecker (ne_ed env) (ne_H env)
            \<lparr>txTo = ptxTo check, nIn = sc_nIn check, tc_amount = nValue (m_tx_out check), txdata = Some (sc_txdata check)\<rparr>
      in VerifyScript \<lparr>ev_flags = nFlags check, ev_checker = checker, ev_sigversion = SIGVERSION_BASE, ev_hash = ne_hash env\<rparr>
           (scriptSig txin) (scriptPubKey (m_tx_out check)) (Some (scriptWitness txin)))"

definition script_reject :: "string \<Rightarrow> ScriptError \<Rightarrow> string" where
  "script_reject reason e = reason @ '' ('' @ ScriptErrorString e @ '')''"

text \<open>The loop over the inputs.  With \<open>queue\<close> (a non-null \<open>pvChecks\<close>) the checks are collected.\<close>

fun CheckInputs_loop :: "node_env \<Rightarrow> u32 \<Rightarrow> bool \<Rightarrow> PrecomputedTransactionData \<Rightarrow> CTransaction \<Rightarrow> nat \<Rightarrow> CTxIn list \<Rightarrow>
    CValidationState \<Rightarrow> CScriptCheck list \<Rightarrow> CCoinsViewCache \<Rightarrow>
    ((bool \<times> CValidationState) \<times> CScriptCheck list \<times> CCoinsViewCache) option" where
  "CheckInputs_loop env flags queue txdat tx i [] st pvChecks inputs = Some ((True, st), pvChecks, inputs)"
| "CheckInputs_loop env flags queue txdat tx i (txin # ins) st pvChecks inputs =
     (let (coin, inputs) = AccessCoin inputs (prevout txin);
          check = \<lparr>m_tx_out = coin_out coin, ptxTo = tx, sc_nIn = i, nFlags = flags, sc_txdata = txdat\<rparr>
      in if IsSpent coin then None
         else if queue then CheckInputs_loop env flags queue txdat tx (i + 1) ins st (pvChecks @ [check]) inputs
         else case run_CScriptCheck env check of
           Abort \<Rightarrow> None
         | Ok _ \<Rightarrow> CheckInputs_loop env flags queue txdat tx (i + 1) ins st pvChecks inputs
         | Err e \<Rightarrow>
             let mandatory = DoS 100 False REJECT_INVALID (script_reject ''mandatory-script-verify-flag-failed'' e) False st
             in if flags AND STANDARD_NOT_MANDATORY_VERIFY_FLAGS \<noteq> 0
                then (case run_CScriptCheck env (check\<lparr>nFlags := flags AND NOT STANDARD_NOT_MANDATORY_VERIFY_FLAGS\<rparr>) of
                   Abort \<Rightarrow> None
                 | Ok _ \<Rightarrow> Some (Invalid False REJECT_NONSTANDARD (script_reject ''non-mandatory-script-verify-flag'' e) st, pvChecks, inputs)
                 | Err _ \<Rightarrow> Some (mandatory, pvChecks, inputs))
                else Some (mandatory, pvChecks, inputs))"

definition CheckInputs :: "node_env \<Rightarrow> CTransaction \<Rightarrow> CValidationState \<Rightarrow> CCoinsViewCache \<Rightarrow> bool \<Rightarrow> u32 \<Rightarrow>
    PrecomputedTransactionData \<Rightarrow> bool \<Rightarrow> ((bool \<times> CValidationState) \<times> CScriptCheck list \<times> CCoinsViewCache) option" where
  "CheckInputs env tx st inputs fScriptChecks flags txdat queue =
     (if \<not> IsCoinBase tx \<and> fScriptChecks
      then if scriptExecutionCache env (GetWitnessHash (ne_H env) tx) flags then Some ((True, st), [], inputs)
           else CheckInputs_loop env flags queue txdat tx 0 (vin tx) st [] inputs
      else Some ((True, st), [], inputs))"

text \<open>\<open>control.Wait()\<close>: whether all collected checks succeed.\<close>

fun control_Wait :: "node_env \<Rightarrow> CScriptCheck list \<Rightarrow> bool option" where
  "control_Wait env [] = Some True"
| "control_Wait env (check # checks) =
     (case run_CScriptCheck env check of Abort \<Rightarrow> None | Err e \<Rightarrow> map_option (\<lambda>_. False) (control_Wait env checks)
      | Ok _ \<Rightarrow> control_Wait env checks)"

definition GetBlockScriptFlags :: "CBlockIndex \<Rightarrow> Params \<Rightarrow> u32" where
  "GetBlockScriptFlags pindex params =
     (let flags = SCRIPT_VERIFY_NONE;
          flags = flags OR SCRIPT_VERIFY_P2SH;
          flags = flags OR SCRIPT_VERIFY_CHECKLOCKTIMEVERIFY;
          flags = flags OR SCRIPT_VERIFY_CHECKSEQUENCEVERIFY
      in if IsWitnessEnabled (pprev pindex) params
         then flags OR SCRIPT_VERIFY_WITNESS OR SCRIPT_VERIFY_NULLDUMMY else flags)"

section \<open>The loop over the transactions\<close>

record connect_state =
  cn_view :: CCoinsViewCache
  cn_nFees :: CAmount
  cn_nSigOpsCost :: int
  cn_vtxundo :: CBlockUndo
  cn_control :: "CScriptCheck list"

fun prev_heights :: "CTxIn list \<Rightarrow> CCoinsViewCache \<Rightarrow> int list \<times> CCoinsViewCache" where
  "prev_heights [] view = ([], view)"
| "prev_heights (txin # ins) view =
     (let (coin, view) = AccessCoin view (prevout txin); (hs, view) = prev_heights ins view
      in (uint (coin_nHeight coin) # hs, view))"

text \<open>The checks of a transaction that is not the coinbase, up to its relative lock times.  The result is
  the state after them or the rejection.\<close>

definition connect_inputs :: "node_env \<Rightarrow> block_tree \<Rightarrow> nat \<Rightarrow> int \<Rightarrow> CTransaction \<Rightarrow> CValidationState \<Rightarrow> connect_state \<Rightarrow>
    (connect_state + bool \<times> CValidationState) option" where
  "connect_inputs env T p h tx st s = do {
     (r, txfee, view) \<leftarrow> CheckTxInputs tx st (cn_view s) h 0;
     if \<not> fst r then Some (Inr r)
     else do {
       let nFees = cn_nFees s + txfee;
       if \<not> MoneyRange nFees
       then Some (Inr (DoS 100 False REJECT_INVALID ''bad-txns-accumulated-fee-outofrange'' False st))
       else do {
         let (prevheights, view) = prev_heights (vin tx) view;
         (ok, _) \<leftarrow> SequenceLocks T tx LOCKTIME_VERIFY_SEQUENCE prevheights p;
         if \<not> ok then Some (Inr (DoS 100 False REJECT_INVALID ''bad-txns-nonfinal'' False st))
         else Some (Inl (s\<lparr>cn_view := view, cn_nFees := nFees\<rparr>)) } } }"

definition connect_tx :: "node_env \<Rightarrow> block_tree \<Rightarrow> nat \<Rightarrow> int \<Rightarrow> u32 \<Rightarrow> bool \<Rightarrow> nat \<Rightarrow> CTransaction \<Rightarrow> CValidationState \<Rightarrow>
    connect_state \<Rightarrow> (connect_state + bool \<times> CValidationState) option" where
  "connect_tx env T p h flags fScriptChecks i tx st s = do {
     r \<leftarrow> (if \<not> IsCoinBase tx then connect_inputs env T p h tx st s else Some (Inl s));
     (case r of Inr failed \<Rightarrow> Some (Inr failed)
      | Inl s \<Rightarrow> do {
          (cost, view) \<leftarrow> GetTransactionSigOpCost tx (cn_view s) flags;
          let nSigOpsCost = cn_nSigOpsCost s + cost;
          if nSigOpsCost > MAX_BLOCK_SIGOPS_COST
          then Some (Inr (DoS 100 False REJECT_INVALID ''bad-blk-sigops'' False st))
          else do {
            let txdat = PrecomputedTransactionData_of (ne_H env) tx;
            (r, vChecks, view) \<leftarrow>
              (if \<not> IsCoinBase tx
               then CheckInputs env tx st view fScriptChecks flags txdat (nScriptCheckThreads env \<noteq> 0)
               else Some ((True, st), [], view));
            if \<not> fst r then Some (Inr r)
            else do {
              (txundo, view) \<leftarrow> UpdateCoins ops_cache (ne_H env) tx view h;
              Some (Inl \<lparr>cn_view = view, cn_nFees = cn_nFees s, cn_nSigOpsCost = nSigOpsCost,
                cn_vtxundo = (if i > 0 then cn_vtxundo s @ [txundo] else cn_vtxundo s),
                cn_control = cn_control s @ vChecks\<rparr>) } } }) }"

fun connect_txs :: "node_env \<Rightarrow> block_tree \<Rightarrow> nat \<Rightarrow> int \<Rightarrow> u32 \<Rightarrow> bool \<Rightarrow> nat \<Rightarrow> CTransaction list \<Rightarrow> CValidationState \<Rightarrow>
    connect_state \<Rightarrow> (connect_state + bool \<times> CValidationState) option" where
  "connect_txs env T p h flags fScriptChecks i [] st s = Some (Inl s)"
| "connect_txs env T p h flags fScriptChecks i (tx # txs) st s = do {
     r \<leftarrow> connect_tx env T p h flags fScriptChecks i tx st s;
     (case r of Inr failed \<Rightarrow> Some (Inr failed)
      | Inl s \<Rightarrow> connect_txs env T p h flags fScriptChecks (i + 1) txs st s) }"

section \<open>Connecting a block\<close>

text \<open>Scripts are not checked in the buried part of the chain that leads to the block assumed valid.\<close>

definition script_checks :: "ChainState \<Rightarrow> uint256 \<Rightarrow> uint256 \<Rightarrow> Params \<Rightarrow> nat \<Rightarrow> CBlockIndex \<Rightarrow> bool option" where
  "script_checks cs hashAssumeValid minimumChainWork params p pindex =
     (if uint256_IsNull hashAssumeValid then Some True
      else case mapBlockIndex cs hashAssumeValid of None \<Rightarrow> Some True
      | Some it \<Rightarrow> do {
          a \<leftarrow> GetAncestor (cs_tree cs) it (int (nHeight pindex));
          if a \<noteq> Some p then Some True
          else do {
            best \<leftarrow> pindexBestHeader cs;
            b \<leftarrow> GetAncestor (cs_tree cs) best (int (nHeight pindex));
            header \<leftarrow> cs_tree cs best;
            if b = Some p \<and> CompareTo (nChainWork header) (UintToArith256 minimumChainWork) \<ge> 0
            then (case GetBlockProofEquivalentTime header pindex header (word_of_int (nPowTargetSpacing params)) of
                    Inl e \<Rightarrow> None | Inr t \<Rightarrow> Some (t \<le> 60 * 60 * 24 * 7 * 2))
            else Some True } })"

text \<open>\<open>written\<close> is the position the undo data was written to, or the message of the failure.\<close>

definition WriteUndoDataForBlock :: "string + u32 \<Rightarrow> nat \<Rightarrow> CBlockIndex \<Rightarrow> ChainState \<Rightarrow> string + CBlockIndex \<times> ChainState" where
  "WriteUndoDataForBlock written p pindex cs =
     (if pos_nFile (GetUndoPos pindex) = - 1
      then case written of Inl e \<Rightarrow> Inl e
        | Inr pos \<Rightarrow>
            let pindex = pindex\<lparr>nUndoPos := pos, nStatus := nStatus pindex OR BLOCK_HAVE_UNDO\<rparr>
            in Inr (pindex, cs\<lparr>cs_tree := (cs_tree cs)(p \<mapsto> pindex), setDirtyBlockIndex := insert p (setDirtyBlockIndex cs)\<rparr>)
      else Inr (pindex, cs))"

record connect_args =
  ca_hashAssumeValid :: uint256
  ca_nMinimumChainWork :: uint256
  ca_fJustCheck :: bool
  ca_undo_written :: "string + u32"
  ca_index_written :: bool

text \<open>What follows the loop: the reward, the script checks that were queued and, unless the block is only
  checked, the block index.\<close>

definition finish_block :: "node_env \<Rightarrow> connect_args \<Rightarrow> ChainState \<Rightarrow> CBlock \<Rightarrow> nat \<Rightarrow> CBlockIndex \<Rightarrow> CValidationState \<Rightarrow> connect_state \<Rightarrow>
    ((bool \<times> CValidationState) \<times> (CCoinsViewCache \<times> CBlockUndo \<times> ChainState)) option" where
  "finish_block env args cs block p pindex st s = do {
     let blockReward = cn_nFees s + GetBlockSubsidy (int (nHeight pindex)) (ne_params env);
     value_out \<leftarrow> or_abort (GetValueOut (vtx block ! 0));
     let unchanged = (cn_view s, cn_vtxundo s, cs);
     if value_out > blockReward then Some (DoS 100 False REJECT_INVALID ''bad-cb-amount'' False st, unchanged)
     else do {
       ok \<leftarrow> control_Wait env (cn_control s);
       if \<not> ok then Some (DoS 100 False REJECT_INVALID ''block-validation-failed'' False st, unchanged)
       else if ca_fJustCheck args then Some ((True, st), unchanged)
       else case WriteUndoDataForBlock (ca_undo_written args) p pindex cs of
         Inl e \<Rightarrow> Some (state_Error e st, unchanged)
       | Inr (pindex, cs) \<Rightarrow> do {
           valid \<leftarrow> IsValid BLOCK_VALID_SCRIPTS pindex;
           (pindex, cs) \<leftarrow>
             (if \<not> valid
              then do { (_, pindex) \<leftarrow> RaiseValidity BLOCK_VALID_SCRIPTS pindex;
                        Some (pindex, cs\<lparr>cs_tree := (cs_tree cs)(p \<mapsto> pindex), setDirtyBlockIndex := insert p (setDirtyBlockIndex cs)\<rparr>) }
              else Some (pindex, cs));
           if \<not> ca_index_written args
           then Some (state_Error ''Failed to write transaction index'' st, (cn_view s, cn_vtxundo s, cs))
           else do {
             hash \<leftarrow> phashBlock pindex;
             Some ((True, st), (SetBestBlock (cn_view s) hash, cn_vtxundo s, cs)) } } } }"

text \<open>The result is the return value and the state, and, when the loop completes, the view, the undo data
  and the block index.\<close>

definition ConnectBlock :: "node_env \<Rightarrow> connect_args \<Rightarrow> ChainState \<Rightarrow> CBlock \<Rightarrow> bool \<Rightarrow> nat \<Rightarrow> CValidationState \<Rightarrow> CCoinsViewCache \<Rightarrow>
    ((bool \<times> CValidationState) \<times> (CCoinsViewCache \<times> CBlockUndo \<times> ChainState) option) option" where
  "ConnectBlock env args cs block fChecked p st view = do {
     pindex \<leftarrow> cs_tree cs p;
     if phashBlock pindex \<noteq> Some (header_GetHash (ne_H env) block) then None
     else do {
       ((ok, st), _) \<leftarrow> CheckBlock env block fChecked (\<not> ca_fJustCheck args) (\<not> ca_fJustCheck args) st;
       if \<not> ok then Some ((False, st), None)
       else do {
         hashPrev \<leftarrow> (case pprev pindex of None \<Rightarrow> Some uint256_null | Some q \<Rightarrow> do { j \<leftarrow> cs_tree cs q; GetBlockHash j });
         let (best, view) = GetBestBlock view;
         if hashPrev \<noteq> best then None
         else do {
           fScriptChecks \<leftarrow> script_checks cs (ca_hashAssumeValid args) (ca_nMinimumChainWork args) (ne_params env) p pindex;
           if best \<noteq> uint256_null \<and> pprev pindex = None \<or> vtx block = [] then None
           else do {
             let h = int (nHeight pindex);
             r \<leftarrow> connect_txs env (cs_tree cs) p h (GetBlockScriptFlags pindex (ne_params env)) fScriptChecks 0 (vtx block) st
                   \<lparr>cn_view = view, cn_nFees = 0, cn_nSigOpsCost = 0, cn_vtxundo = [], cn_control = []\<rparr>;
             (case r of Inr failed \<Rightarrow> Some (failed, None)
              | Inl s \<Rightarrow> do {
                  (r, result) \<leftarrow> finish_block env args cs block p pindex st s;
                  Some (r, Some result) }) } } } } }"

end
