(* ===== verification/Connect_Props.thy ===== *)
theory Connect_Props
  imports Connect_Block
begin

text \<open>
  What an accepted block does to the set of unspent outputs: the effect of \<open>ConnectBlock\<close>, its inverse,
  and the conservation of value.
\<close>

section \<open>Look-ups leave the set alone\<close>

lemma same_view_refl: "cache_inv c \<Longrightarrow> same_view c c"
  by (simp add: same_view_def)

lemma same_view_inv: "same_view c c' \<Longrightarrow> cache_inv c' \<and> utxo c' = utxo c"
  by (simp add: same_view_def)

lemma p2sh_SigOps_view:
  "p2sh_SigOps ins n c = Some (r, c') \<Longrightarrow> cache_inv c \<Longrightarrow> same_view c c'"
proof (induction ins arbitrary: n c)
  case (Cons txin ins)
  obtain coin c1 where a: "AccessCoin c (prevout txin) = (coin, c1)" by fastforce
  note s = AccessCoin_spec [OF Cons.prems(2) a]
  from Cons.prems(1) a obtain m where "p2sh_SigOps ins m c1 = Some (r, c')"
    by (auto split: if_splits bind_splits)
  from Cons.IH [OF this s(2)] s(1) show ?case by (rule same_view_trans [rotated])
qed (simp add: same_view_refl)

lemma witness_SigOps_view:
  "witness_SigOps flags ins n c = Some (r, c') \<Longrightarrow> cache_inv c \<Longrightarrow> same_view c c'"
proof (induction ins arbitrary: n c)
  case (Cons txin ins)
  obtain coin c1 where a: "AccessCoin c (prevout txin) = (coin, c1)" by fastforce
  note s = AccessCoin_spec [OF Cons.prems(2) a]
  from Cons.prems(1) a obtain m where "witness_SigOps flags ins m c1 = Some (r, c')"
    by (auto split: if_splits bind_splits)
  from Cons.IH [OF this s(2)] s(1) show ?case by (rule same_view_trans [rotated])
qed (simp add: same_view_refl)

lemma GetTransactionSigOpCost_view:
  assumes "GetTransactionSigOpCost tx c flags = Some (n, c')" "cache_inv c"
  shows "same_view c c'"
proof (cases "IsCoinBase tx")
  case True
  then show ?thesis using assms by (auto simp: GetTransactionSigOpCost_def same_view_refl split: bind_splits)
next
  case False
  then obtain m c1 where "c1 = c \<or> (\<exists>k. p2sh_SigOps (vin tx) 0 c = Some (k, c1))" "witness_SigOps flags (vin tx) m c1 = Some (n, c')"
    using assms(1) by (auto simp: GetTransactionSigOpCost_def GetP2SHSigOpCount_def Let_def split: bind_splits if_splits)
  moreover from this(1) have "same_view c c1" using assms(2) p2sh_SigOps_view by (auto intro: same_view_refl)
  ultimately show ?thesis using witness_SigOps_view same_view_inv same_view_trans by metis
qed

lemma prev_heights_view: "prev_heights ins c = (hs, c') \<Longrightarrow> cache_inv c \<Longrightarrow> same_view c c'"
proof (induction ins arbitrary: c hs)
  case (Cons txin ins)
  obtain coin c1 where a: "AccessCoin c (prevout txin) = (coin, c1)" by fastforce
  note s = AccessCoin_spec [OF Cons.prems(2) a]
  obtain hs1 where "prev_heights ins c1 = (hs1, c')" using Cons.prems(1) a by (auto split: prod.splits)
  from Cons.IH [OF this s(2)] s(1) show ?case by (rule same_view_trans [rotated])
qed (simp add: same_view_refl)

lemma CheckInputs_loop_view:
  "CheckInputs_loop env flags q td tx i ins st cs c = Some (r, cs', c') \<Longrightarrow> cache_inv c \<Longrightarrow> same_view c c' \<and> (fst r \<longrightarrow> snd r = st)"
proof (induction ins arbitrary: i cs c)
  case (Cons txin ins)
  obtain coin c1 where a: "AccessCoin c (prevout txin) = (coin, c1)" by fastforce
  note s = AccessCoin_spec [OF Cons.prems(2) a]
  from Cons.prems(1) a consider (more) j cs1 where "CheckInputs_loop env flags q td tx j ins st cs1 c1 = Some (r, cs', c')"
    | (fail) "c' = c1" "\<not> fst r"
    by (fastforce simp: Let_def split: if_splits exec.splits)
  then show ?case
  proof cases
    case more
    from Cons.IH [OF this s(2)] s(1) show ?thesis using same_view_trans by blast
  qed (use s(1) in auto)
qed (auto simp: same_view_refl)

lemma CheckInputs_view:
  "CheckInputs env tx st c f flags td q = Some (r, cs', c') \<Longrightarrow> cache_inv c \<Longrightarrow> same_view c c' \<and> (fst r \<longrightarrow> snd r = st)"
  using CheckInputs_loop_view [of env flags q td tx 0 "vin tx" st "[]" c r cs' c']
  by (auto simp: CheckInputs_def same_view_refl split: if_splits)

section \<open>Connecting a transaction\<close>

lemma length_concat_map: "(\<And>x. 0 < length (f x)) \<Longrightarrow> length xs \<le> length (concat (map f xs))"
proof (induction xs)
  case (Cons x xs)
  then have "0 < length (f x)" "length xs \<le> length (concat (map f xs))" by blast+
  then show ?case by (cases "f x") auto
qed simp

lemma few_outputs:
  assumes "fst (CheckTransaction tx dup st)"
  shows "length (vout tx) < 2 ^ 32"
proof -
  have "length (vout tx) \<le> length (concat (map ser_CTxOut (vout tx)))"
    by (rule length_concat_map) (simp add: ser_CTxOut_def ser_int64_def ser_writedata64_def WriteLE64_def length_le_write)
  also have "\<dots> \<le> length (SerializeTransaction False tx)"
    by (simp add: SerializeTransaction_def ser_vector_def)
  finally show ?thesis using assms by (simp add: CheckTransaction_iff MAX_BLOCK_WEIGHT_def)
qed

text \<open>The fees of a transaction on a set of unspent outputs.\<close>

definition tx_fee :: "(COutPoint \<Rightarrow> Coin option) \<Rightarrow> CTransaction \<Rightarrow> CAmount" where
  "tx_fee u tx = (if IsCoinBase tx then 0 else in_value u (vin tx) - sum_list (map nValue (vout tx)))"

text \<open>The side conditions the code leaves to other parts: no input is listed twice, and no unspent output
  carries the hash of the new transaction.\<close>

definition tx_fresh :: "hasher \<Rightarrow> CTransaction \<Rightarrow> (COutPoint \<Rightarrow> Coin option) \<Rightarrow> bool" where
  "tx_fresh H tx u \<longleftrightarrow> (\<not> IsCoinBase tx \<longrightarrow> distinct (map prevout (vin tx))) \<and> (\<forall>n. u \<lparr>op_hash = tx_GetHash H tx, op_n = n\<rparr> = None)"

lemma connect_inputs_spec:
  assumes "connect_inputs env T p h tx st s = Some (Inl s')" "cache_inv (cn_view s)" "\<not> IsCoinBase tx"
    and "fst (CheckTransaction tx dup st0)"
  shows "same_view (cn_view s) (cn_view s') \<and> s' = s\<lparr>cn_view := cn_view s', cn_nFees := cn_nFees s + tx_fee (utxo (cn_view s)) tx\<rparr> \<and>
    MoneyRange (cn_nFees s') \<and> (\<forall>txin \<in> set (vin tx). spendable h (utxo (cn_view s)) txin) \<and> 0 \<le> tx_fee (utxo (cn_view s)) tx"
proof -
  note out = GetValueOut_checked [OF assms(4)]
  from CheckTxInputs_spec [OF assms(2,3) out, of st h 0] obtain r fee c' where
    r: "CheckTxInputs tx st (cn_view s) h 0 = Some (r, fee, c')" "same_view (cn_view s) c'"
      "fst r \<longleftrightarrow> (\<forall>txin \<in> set (vin tx). spendable h (utxo (cn_view s)) txin) \<and>
        sum_list (map nValue (vout tx)) \<le> in_value (utxo (cn_view s)) (vin tx) \<and> in_value (utxo (cn_view s)) (vin tx) \<le> MAX_MONEY"
      "fst r \<longrightarrow> snd r = st \<and> fee = in_value (utxo (cn_view s)) (vin tx) - sum_list (map nValue (vout tx))" by blast
  obtain hs c2 where h: "prev_heights (vin tx) c' = (hs, c2)" by fastforce
  have "same_view (cn_view s) c2"
    using prev_heights_view [OF h] r(2) same_view_inv [OF r(2)] same_view_trans by blast
  with assms(1,3) r h show ?thesis
    by (auto simp: connect_inputs_def tx_fee_def Let_def split: if_splits bind_splits)
qed

lemma connect_tx_spec:
  assumes run: "connect_tx env T p h flags sc i tx st s = Some (Inl s')" and over: "cache_over base (cn_view s)"
    and ok: "fst (CheckTransaction tx dup st0)" and fresh: "tx_fresh (ne_H env) tx (utxo (cn_view s))"
  shows "tx_applies (ne_H env) tx (utxo (cn_view s)) \<and> cache_over base (cn_view s') \<and>
    utxo (cn_view s') = tx_effect (ne_H env) h tx (utxo (cn_view s)) \<and>
    cn_nFees s' = cn_nFees s + tx_fee (utxo (cn_view s)) tx \<and> 0 \<le> tx_fee (utxo (cn_view s)) tx \<and>
    cn_vtxundo s' = cn_vtxundo s @ (if i > 0 then block_undo (ne_H env) h [tx] (utxo (cn_view s)) else [])"
proof -
  have inv: "cache_inv (cn_view s)" using over by (simp add: cache_over_def)
  obtain s1 where s1: "(if \<not> IsCoinBase tx then connect_inputs env T p h tx st s else Some (Inl s)) = Some (Inl s1)"
    using run by (auto simp: connect_tx_def split: bind_splits sum.splits)
  have v1: "same_view (cn_view s) (cn_view s1)" "cn_vtxundo s1 = cn_vtxundo s"
    "cn_nFees s1 = cn_nFees s + tx_fee (utxo (cn_view s)) tx" "0 \<le> tx_fee (utxo (cn_view s)) tx"
    "\<not> IsCoinBase tx \<Longrightarrow> \<forall>txin \<in> set (vin tx). spendable h (utxo (cn_view s)) txin"
  proof (goal_cases)
    case 1 show ?case using s1 inv connect_inputs_spec [OF _ inv _ ok] by (auto simp: same_view_refl split: if_splits)
  next
    case 2 show ?case using s1 inv connect_inputs_spec [OF _ inv _ ok] by (auto split: if_splits) (metis connect_state.select_convs(4) connect_state.surjective connect_state.update_convs(1,2))
  next
    case 3 show ?case using s1 connect_inputs_spec [OF _ inv _ ok] by (auto simp: tx_fee_def split: if_splits) (metis connect_state.select_convs(2) connect_state.surjective connect_state.update_convs(1,2))
  next
    case 4 show ?case using s1 connect_inputs_spec [OF _ inv _ ok] by (auto simp: tx_fee_def split: if_splits)
  next
    case 5 then show ?case using s1 connect_inputs_spec [OF _ inv _ ok] by (auto split: if_splits)
  qed
  obtain cost c2 c3 undo c4 where
    c2: "GetTransactionSigOpCost tx (cn_view s1) flags = Some (cost, c2)" and
    c3: "c3 = c2 \<or> (\<exists>st3 checks. CheckInputs env tx st c2 sc flags (PrecomputedTransactionData_of (ne_H env) tx)
      (nScriptCheckThreads env \<noteq> 0) = Some ((True, st3), checks, c3))" and
    c4: "UpdateCoins ops_cache (ne_H env) tx c3 h = Some (undo, c4)" and
    s': "cn_view s' = c4" "cn_nFees s' = cn_nFees s1" "cn_vtxundo s' = (if i > 0 then cn_vtxundo s1 @ [undo] else cn_vtxundo s1)"
    using run s1 by (cases "IsCoinBase tx") (fastforce simp: connect_tx_def Let_def split: bind_splits if_splits)+
  have v3: "same_view (cn_view s) c3"
    using v1(1) GetTransactionSigOpCost_view [OF c2] CheckInputs_view c3 same_view_inv same_view_trans by metis
  have applies: "tx_applies (ne_H env) tx (utxo (cn_view s))"
    using v1(5) fresh few_outputs [OF ok] ok by (auto simp: tx_applies_def tx_fresh_def spent_by_def spendable_def CheckTransaction_iff)
  with cache.UpdateCoins_spec [of base c3 "ne_H env" tx h] same_view_over [OF v3 over] c4 s' v1 show ?thesis
    by auto
qed

section \<open>Connecting a block\<close>

fun block_fresh :: "hasher \<Rightarrow> int \<Rightarrow> CTransaction list \<Rightarrow> (COutPoint \<Rightarrow> Coin option) \<Rightarrow> bool" where
  "block_fresh H h [] u = True"
| "block_fresh H h (tx # txs) u \<longleftrightarrow> tx_fresh H tx u \<and> block_fresh H h txs (tx_effect H h tx u)"

fun block_fees :: "hasher \<Rightarrow> int \<Rightarrow> CTransaction list \<Rightarrow> (COutPoint \<Rightarrow> Coin option) \<Rightarrow> CAmount" where
  "block_fees H h [] u = 0"
| "block_fees H h (tx # txs) u = tx_fee u tx + block_fees H h txs (tx_effect H h tx u)"

lemma connect_txs_spec:
  assumes "connect_txs env T p h flags sc i txs st s = Some (Inl s')" "cache_over base (cn_view s)"
    and "\<forall>tx \<in> set txs. fst (CheckTransaction tx False st0)" "block_fresh (ne_H env) h txs (utxo (cn_view s))"
  shows "block_applies (ne_H env) h txs (utxo (cn_view s)) \<and> cache_over base (cn_view s') \<and>
    utxo (cn_view s') = block_effect (ne_H env) h txs (utxo (cn_view s)) \<and>
    cn_nFees s' = cn_nFees s + block_fees (ne_H env) h txs (utxo (cn_view s)) \<and>
    cn_vtxundo s' = cn_vtxundo s @ (if i > 0 then block_undo (ne_H env) h txs (utxo (cn_view s))
      else tl (block_undo (ne_H env) h txs (utxo (cn_view s))))"
  using assms
proof (induction txs arbitrary: i s)
  case (Cons tx txs)
  obtain s1 where s1: "connect_tx env T p h flags sc i tx st s = Some (Inl s1)"
    "connect_txs env T p h flags sc (i + 1) txs st s1 = Some (Inl s')"
    using Cons.prems(1) by (auto split: bind_splits sum.splits)
  have "fst (CheckTransaction tx False st0)" "tx_fresh (ne_H env) tx (utxo (cn_view s))" using Cons.prems(3,4) by simp_all
  note step = connect_tx_spec [OF s1(1) Cons.prems(2) this]
  have "block_fresh (ne_H env) h txs (utxo (cn_view s1))" "\<forall>tx \<in> set txs. fst (CheckTransaction tx False st0)"
    using step Cons.prems(3,4) by simp_all
  with Cons.IH [OF s1(2)] step show ?case by (cases "IsCoinBase tx") auto
qed simp

lemma check_txs_True: "fst (check_txs txs st) \<Longrightarrow> \<forall>tx \<in> set txs. fst (CheckTransaction tx False st0)"
proof (induction txs arbitrary: st)
  case (Cons tx txs)
  then have "fst (CheckTransaction tx False st)" by (auto simp: Let_def split: if_splits prod.splits)
  then have "fst (CheckTransaction tx False st0)" by (simp add: CheckTransaction_iff)
  with Cons show ?case by (auto simp: Let_def split: if_splits prod.splits)
qed simp

lemma CheckBlock_True:
  assumes "CheckBlock env block False pow merkle st = Some ((True, st'), checked)"
  shows "vtx block \<noteq> []" "IsCoinBase (hd (vtx block))" "list_all (\<lambda>tx. \<not> IsCoinBase tx) (tl (vtx block))"
    "\<forall>tx \<in> set (vtx block). fst (CheckTransaction tx False st0)"
proof -
  obtain st1 st2 where "check_body block st1 = Some (True, st2)"
    using assms by (auto simp: CheckBlock_def split: if_splits prod.splits bind_splits)
  then have body: "vtx block \<noteq> [] \<and> IsCoinBase (vtx block ! 0) \<and> \<not> list_ex IsCoinBase (tl (vtx block)) \<and> fst (check_txs (vtx block) st1)"
    by (auto simp: check_body_def split: if_splits prod.splits)
  then show "vtx block \<noteq> []" "IsCoinBase (hd (vtx block))" "list_all (\<lambda>tx. \<not> IsCoinBase tx) (tl (vtx block))"
    by (auto simp: hd_conv_nth list_all_iff list_ex_iff)
  show "\<forall>tx \<in> set (vtx block). fst (CheckTransaction tx False st0)" using body check_txs_True by blast
qed

lemma SetBestBlock_view [simp]: "utxo (SetBestBlock c h) = utxo c" "cache_over base (SetBestBlock c h) = cache_over base c"
  by (auto simp: SetBestBlock_def utxo_def cache_inv_def cache_over_def fun_eq_iff split: option.split)

lemma finish_block_True:
  assumes "finish_block env args cs block p i st s = Some ((True, st'), (view', undo, cs'))"
  shows "utxo view' = utxo (cn_view s)" "cache_over base view' = cache_over base (cn_view s)" "undo = cn_vtxundo s"
    "\<exists>w. GetValueOut (vtx block ! 0) = Inr w \<and> w \<le> cn_nFees s + GetBlockSubsidy (int (nHeight i)) (ne_params env)"
  using assms
  by (cases "GetValueOut (vtx block ! 0)";
      auto simp: finish_block_def Let_def state_Error_def split: if_splits bind_splits sum.splits)+

text \<open>What an accepted block has passed.  A block with the flag \<open>fChecked\<close> passed the check before.\<close>

definition passed_CheckBlock :: "node_env \<Rightarrow> CBlock \<Rightarrow> bool" where
  "passed_CheckBlock env block \<longleftrightarrow> (\<exists>pow merkle st st' checked. CheckBlock env block False pow merkle st = Some ((True, st'), checked))"

lemma ConnectBlock_True:
  assumes run: "ConnectBlock env args cs block fChecked p st view = Some ((True, st'), Some (view', undo, cs'))"
    and passed: "fChecked \<longrightarrow> passed_CheckBlock env block"
    and over: "cache_over base view" and i: "cs_tree cs p = Some i"
    and fresh: "block_fresh (ne_H env) (int (nHeight i)) (vtx block) (utxo view)"
  shows "vtx block \<noteq> []" "IsCoinBase (hd (vtx block))" "list_all (\<lambda>tx. \<not> IsCoinBase tx) (tl (vtx block))"
    "\<forall>tx \<in> set (vtx block). fst (CheckTransaction tx False st)"
    "block_applies (ne_H env) (int (nHeight i)) (vtx block) (utxo view)" "cache_over base view'"
    "utxo view' = block_effect (ne_H env) (int (nHeight i)) (vtx block) (utxo view)"
    "undo = tl (block_undo (ne_H env) (int (nHeight i)) (vtx block) (utxo view))"
    "sum_list (map nValue (vout (hd (vtx block)))) \<le>
      block_fees (ne_H env) (int (nHeight i)) (vtx block) (utxo view) + GetBlockSubsidy (int (nHeight i)) (ne_params env)"
    "\<exists>hash. (case pprev i of None \<Rightarrow> Some uint256_null | Some q \<Rightarrow> Option.bind (cs_tree cs q) GetBlockHash) = Some hash"
proof -
  obtain st1 checked where check: "CheckBlock env block fChecked (\<not> ca_fJustCheck args) (\<not> ca_fJustCheck args) st = Some ((True, st1), checked)"
    using run i by (auto simp: ConnectBlock_def split: if_splits bind_splits)
  have "passed_CheckBlock env block"
  proof (cases fChecked)
    case False
    with check show ?thesis unfolding passed_CheckBlock_def by metis
  qed (use passed in simp)
  then obtain pow merkle st2 st3 checked2 where "CheckBlock env block False pow merkle st2 = Some ((True, st3), checked2)"
    by (auto simp: passed_CheckBlock_def)
  note cb = CheckBlock_True [OF this]
  then show "vtx block \<noteq> []" "IsCoinBase (hd (vtx block))" "list_all (\<lambda>tx. \<not> IsCoinBase tx) (tl (vtx block))"
    "\<forall>tx \<in> set (vtx block). fst (CheckTransaction tx False st)" by blast+
  obtain best v0 where v0: "GetBestBlock view = (best, v0)" by fastforce
  have v: "cache_over base v0" "utxo v0 = utxo view"
    using v0 over by (auto simp: GetBestBlock_def Let_def cache_inv_def cache_over_def utxo_def fun_eq_iff split: option.split)
  show "\<exists>hash. (case pprev i of None \<Rightarrow> Some uint256_null | Some q \<Rightarrow> Option.bind (cs_tree cs q) GetBlockHash) = Some hash"
    using run i check by (auto simp: ConnectBlock_def split: if_splits bind_splits option.splits)
  obtain sc s where
    loop: "connect_txs env (cs_tree cs) p (int (nHeight i)) (GetBlockScriptFlags i (ne_params env)) sc 0 (vtx block) st1
      \<lparr>cn_view = v0, cn_nFees = 0, cn_nSigOpsCost = 0, cn_vtxundo = [], cn_control = []\<rparr> = Some (Inl s)" and
    fin: "finish_block env args cs block p i st1 s = Some ((True, st'), (view', undo, cs'))"
    using run i check v0 by (auto simp: ConnectBlock_def Let_def split: if_splits bind_splits sum.splits)
  note spec = connect_txs_spec [OF loop, simplified v connect_state.select_convs, OF v(1) cb(4) fresh]
  note fin' = finish_block_True [OF fin]
  show "block_applies (ne_H env) (int (nHeight i)) (vtx block) (utxo view)" "cache_over base view'"
    "utxo view' = block_effect (ne_H env) (int (nHeight i)) (vtx block) (utxo view)"
    "undo = tl (block_undo (ne_H env) (int (nHeight i)) (vtx block) (utxo view))"
    using spec fin'(1-3) by simp_all
  have "GetValueOut (vtx block ! 0) = Inr (sum_list (map nValue (vout (hd (vtx block)))))"
    using GetValueOut_checked(1) [of "hd (vtx block)" False st] cb(1) cb(4) [of st] by (simp add: hd_conv_nth)
  with fin'(4) spec show "sum_list (map nValue (vout (hd (vtx block)))) \<le>
      block_fees (ne_H env) (int (nHeight i)) (vtx block) (utxo view) + GetBlockSubsidy (int (nHeight i)) (ne_params env)"
    by simp
qed

section \<open>Conservation of value\<close>

definition total_value :: "(COutPoint \<Rightarrow> Coin option) \<Rightarrow> CAmount" where
  "total_value u = (\<Sum>k \<in> dom u. nValue (coin_out (the (u k))))"

lemma total_value_upd:
  assumes "finite (dom u)" "u k = None"
  shows "total_value (u(k \<mapsto> c)) = nValue (coin_out c) + total_value u"
proof -
  have "k \<notin> dom u" using assms(2) by auto
  then have "(\<Sum>j \<in> dom u. nValue (coin_out (the ((u(k \<mapsto> c)) j)))) = total_value u"
    unfolding total_value_def by (intro sum.cong) auto
  then show ?thesis using assms \<open>k \<notin> dom u\<close> by (simp add: total_value_def)
qed

lemma total_value_disjoint:
  assumes "finite (dom u)" "finite (dom v)" "dom u \<inter> dom v = {}"
  shows "total_value (u ++ v) = total_value u + total_value v"
proof -
  have "total_value (u ++ v) = (\<Sum>k \<in> dom u. nValue (coin_out (the ((u ++ v) k)))) + (\<Sum>k \<in> dom v. nValue (coin_out (the ((u ++ v) k))))"
    unfolding total_value_def using assms by (simp add: sum.union_disjoint Un_commute)
  moreover have "(\<Sum>k \<in> dom u. nValue (coin_out (the ((u ++ v) k)))) = total_value u"
    unfolding total_value_def using assms(3) by (intro sum.cong) (auto simp: map_add_def split: option.split)
  moreover have "(\<Sum>k \<in> dom v. nValue (coin_out (the ((u ++ v) k)))) = total_value v"
    unfolding total_value_def by (intro sum.cong) (auto simp: map_add_def)
  ultimately show ?thesis by simp
qed

lemma total_value_restrict:
  assumes "finite (dom u)" "distinct (map prevout ins)" "set (map prevout ins) \<subseteq> dom u"
  shows "total_value (u |` (- set (map prevout ins))) = total_value u - in_value u ins"
proof -
  let ?S = "set (map prevout ins)" and ?f = "\<lambda>k. nValue (coin_out (the (u k)))"
  have "sum ?f ?S = in_value u ins"
    using assms(2) unfolding in_value_def by (simp only: sum.set_conv_list distinct_remdups_id map_map comp_def)
  moreover have "sum ?f (dom u) = sum ?f ?S + sum ?f (dom u - ?S)" using assms(1,3) by (rule sum.subset_diff [rotated, THEN trans]) simp
  moreover have "total_value (u |` (- ?S)) = sum ?f (dom u - ?S)"
    unfolding total_value_def by (intro sum.cong) (auto simp: restrict_map_def split: if_splits)
  ultimately show ?thesis by (simp add: total_value_def)
qed

lemma created_value:
  assumes "i + length outs \<le> 2 ^ 32" "\<forall>out \<in> set outs. 0 \<le> nValue out"
  shows "finite (dom (created txid h cb i outs)) \<and> total_value (created txid h cb i outs) \<le> sum_list (map nValue outs)"
  using assms
proof (induction outs arbitrary: i)
  case (Cons out outs)
  have "created txid h cb (i + 1) outs \<lparr>op_hash = txid, op_n = of_nat i\<rparr> = None" using Cons.prems(1) by (intro created_below) simp
  with Cons.IH [of "i + 1"] Cons.prems show ?case
    by (simp add: created_Cons total_value_upd Coin_of_def del: fun_upd_apply)
qed (simp add: total_value_def)

lemma tx_effect_value:
  assumes "finite (dom u)" "tx_applies H tx u" "\<forall>out \<in> set (vout tx). 0 \<le> nValue out"
  shows "finite (dom (tx_effect H h tx u)) \<and>
    total_value (tx_effect H h tx u) \<le> total_value u - tx_fee u tx + (if IsCoinBase tx then sum_list (map nValue (vout tx)) else 0)"
proof -
  let ?c = "created (tx_GetHash H tx) h (IsCoinBase tx) 0 (vout tx)" and ?u = "u |` (- spent_by tx)"
  have c: "finite (dom ?c)" "total_value ?c \<le> sum_list (map nValue (vout tx))"
    using created_value [of 0 "vout tx"] assms(2,3) by (auto simp: tx_applies_def)
  have "u k = None" if "op_hash k = tx_GetHash H tx" for k
    using that assms(2) by (cases k) (auto simp: tx_applies_def)
  then have "dom ?u \<inter> dom ?c = {}" by (auto simp: created_def restrict_map_def split: if_splits)
  moreover have "finite (dom ?u)" using assms(1) by simp
  ultimately have "total_value (tx_effect H h tx u) = total_value ?u + total_value ?c"
    unfolding tx_effect_def using c(1) by (intro total_value_disjoint)
  moreover have "total_value ?u = total_value u - (if IsCoinBase tx then 0 else in_value u (vin tx))"
    using total_value_restrict [OF assms(1), of "vin tx"] assms(2) by (auto simp: tx_applies_def spent_by_def)
  ultimately show ?thesis using c assms(1) by (auto simp: tx_fee_def tx_effect_def)
qed

lemma block_effect_value:
  assumes "finite (dom u)" "block_applies H h txs u" "\<forall>tx \<in> set txs. \<forall>out \<in> set (vout tx). 0 \<le> nValue out"
  shows "finite (dom (block_effect H h txs u)) \<and> total_value (block_effect H h txs u) \<le>
    total_value u - block_fees H h txs u + sum_list (map (\<lambda>tx. if IsCoinBase tx then sum_list (map nValue (vout tx)) else 0) txs)"
  using assms
proof (induction txs arbitrary: u)
  case (Cons tx txs)
  have "finite (dom (tx_effect H h tx u)) \<and>
    total_value (tx_effect H h tx u) \<le> total_value u - tx_fee u tx + (if IsCoinBase tx then sum_list (map nValue (vout tx)) else 0)"
    using Cons.prems by (intro tx_effect_value) auto
  with Cons.IH [of "tx_effect H h tx u"] Cons.prems show ?case by fastforce
qed simp

lemma no_coinbase_values:
  "list_all (\<lambda>tx. \<not> IsCoinBase tx) txs \<Longrightarrow>
   sum_list (map (\<lambda>tx. if IsCoinBase tx then sum_list (map nValue (vout tx)) else (0 :: int)) txs) = 0"
  by (induction txs) auto

lemma ConnectBlock_value:
  assumes run: "ConnectBlock env args cs block fChecked p st view = Some ((True, st'), Some (view', undo, cs'))"
    and passed: "fChecked \<longrightarrow> passed_CheckBlock env block"
    and inv: "cache_inv view" and i: "cs_tree cs p = Some i" "finite (dom (utxo view))"
    and fresh: "block_fresh (ne_H env) (int (nHeight i)) (vtx block) (utxo view)"
  shows "finite (dom (utxo view'))" "total_value (utxo view') \<le> total_value (utxo view) + GetBlockSubsidy (int (nHeight i)) (ne_params env)"
proof -
  have over: "cache_over (cv_base view) view" using inv by (simp add: cache_over_def)
  note c = ConnectBlock_True [OF run passed over i(1) fresh]
  have "\<forall>tx \<in> set (vtx block). \<forall>out \<in> set (vout tx). 0 \<le> nValue out" using c(4) by (simp add: CheckTransaction_iff)
  note e = block_effect_value [OF i(2) c(5) this, folded c(7)]
  obtain cb txs where b: "vtx block = cb # txs" using c(1) by (cases "vtx block") auto
  from c(3) b have "sum_list (map (\<lambda>tx. if IsCoinBase tx then sum_list (map nValue (vout tx)) else 0) txs) = 0"
    by (simp add: no_coinbase_values)
  then have "sum_list (map (\<lambda>tx. if IsCoinBase tx then sum_list (map nValue (vout tx)) else 0) (vtx block)) =
      sum_list (map nValue (vout (hd (vtx block))))" using c(2) b by simp
  with e c(9) show "finite (dom (utxo view'))"
    "total_value (utxo view') \<le> total_value (utxo view) + GetBlockSubsidy (int (nHeight i)) (ne_params env)" by linarith+
qed

section \<open>Taking a block back\<close>

lemma DisconnectBlock_undoes:
  assumes c: "vtx block \<noteq> []" "IsCoinBase (hd (vtx block))" "list_all (\<lambda>tx. \<not> IsCoinBase tx) (tl (vtx block))"
    and u: "block_applies H (int (nHeight i)) (vtx block) u" "spends_restorable H (int (nHeight i)) (vtx block) u"
      "\<forall>k coin. u k = Some coin \<longrightarrow> \<not> IsSpent coin"
    and view: "cache_over base view" "utxo view = block_effect H (int (nHeight i)) (vtx block) u"
    and i: "int (nHeight i) < 2 ^ 31" "(case pprev i of None \<Rightarrow> Some uint256_null | Some q \<Rightarrow> Option.bind (T q) GetBlockHash) = Some hash"
  shows "\<exists>view'. DisconnectBlock ops_cache H T block i (Some (tl (block_undo H (int (nHeight i)) (vtx block) u))) view =
      Some (DISCONNECT_OK, view') \<and> cache_over base view' \<and> utxo view' = u"
  using cache.DisconnectBlock_spec [OF _ i(1) u(1,2) c u(3) view refl i(2)] by auto

lemma ConnectBlock_DisconnectBlock:
  assumes run: "ConnectBlock env args cs block fChecked p st view = Some ((True, st'), Some (view', undo, cs'))"
    and passed: "fChecked \<longrightarrow> passed_CheckBlock env block"
    and inv: "cache_inv view" and i: "cs_tree cs p = Some i" "int (nHeight i) < 2 ^ 31"
    and fresh: "block_fresh (ne_H env) (int (nHeight i)) (vtx block) (utxo view)"
    and restorable: "spends_restorable (ne_H env) (int (nHeight i)) (vtx block) (utxo view)"
  shows "\<exists>view''. DisconnectBlock ops_cache (ne_H env) (cs_tree cs) block i (Some undo) view' = Some (DISCONNECT_OK, view'') \<and>
    cache_inv view'' \<and> utxo view'' = utxo view"
proof -
  have over: "cache_over (cv_base view) view" using inv by (simp add: cache_over_def)
  note c = ConnectBlock_True [OF run passed over i(1) fresh]
  from c(10) obtain hash where hash:
    "(case pprev i of None \<Rightarrow> Some uint256_null | Some q \<Rightarrow> Option.bind (cs_tree cs q) GetBlockHash) = Some hash" by blast
  have live: "\<forall>k coin. utxo view k = Some coin \<longrightarrow> \<not> IsSpent coin" using cache.view_unspent by blast
  from DisconnectBlock_undoes [OF c(1-3,5) restorable live c(6,7) i(2) hash] show ?thesis
    unfolding c(8) by (auto simp: cache_over_def)
qed

end
