(* ===== verification/Chain_Tip.thy ===== *)
theory Chain_Tip
  imports Connect_Props
begin

text \<open>
  Moving the tip of the active chain by one block: the parts of \<open>ConnectTip\<close> and \<open>DisconnectTip\<close>
  (\<open>validation.cpp\<close>) that work on the coins, and the states that sequences of these steps reach from the
  empty set of coins.  Reading blocks and undo data from disk is taken to return what was written; \<open>None\<close>
  is a failed assertion or an exception.
\<close>

section \<open>The steps\<close>

text \<open>\<open>CCoinsViewCache view(pcoinsTip.get())\<close>: an empty cache on top of the tip's.\<close>

definition child_view :: "CCoinsViewCache \<Rightarrow> CCoinsViewCache" where
  "child_view tip = CCoinsViewCache_of (utxo tip) (fst (GetBestBlock tip))"

text \<open>The result is the state of the rejection, or the tip's cache, the undo data and the block index.\<close>

definition connect_to_tip :: "node_env \<Rightarrow> connect_args \<Rightarrow> ChainState \<Rightarrow> CBlock \<Rightarrow> bool \<Rightarrow> nat \<Rightarrow> CValidationState \<Rightarrow> CCoinsViewCache \<Rightarrow>
    (CValidationState + CCoinsViewCache \<times> CBlockUndo \<times> ChainState) option" where
  "connect_to_tip env args cs block fChecked pindexNew st tip = do {
     ((rv, st), result) \<leftarrow> ConnectBlock env args cs block fChecked pindexNew st (child_view tip);
     if \<not> rv then Some (Inl st)
     else do {
       (view, undo, cs) \<leftarrow> result;
       (tip, _) \<leftarrow> or_abort (Flush tip view);
       Some (Inr (tip, undo, cs)) } }"

text \<open>The result is \<open>None\<close> inside when the block cannot be disconnected cleanly; the view is then thrown away.\<close>

definition disconnect_from_tip :: "hasher \<Rightarrow> block_tree \<Rightarrow> CBlock \<Rightarrow> CBlockIndex \<Rightarrow> CBlockUndo option \<Rightarrow> CCoinsViewCache \<Rightarrow>
    CCoinsViewCache option option" where
  "disconnect_from_tip H T block pindexDelete blockUndo tip =
     (let (best, view) = GetBestBlock (child_view tip)
      in if Some best \<noteq> GetBlockHash pindexDelete then None
         else do {
           (res, view) \<leftarrow> DisconnectBlock ops_cache H T block pindexDelete blockUndo view;
           if res \<noteq> DISCONNECT_OK then Some None
           else do {
             (tip, _) \<leftarrow> or_abort (Flush tip view);
             Some (Some tip) } })"

lemma child_view_spec: "cache_over (utxo tip) (child_view tip)" "utxo (child_view tip) = utxo tip"
proof -
  have c: "cacheCoins (child_view tip) = []" "cv_base (child_view tip) = utxo tip"
    by (simp_all add: child_view_def CCoinsViewCache_of_def)
  then show "cache_over (utxo tip) (child_view tip)" by (simp add: cache_over_def cache_inv_def)
  have "unspent (utxo tip k) = utxo tip k" for k by (simp add: utxo_def split: option.split)
  then show "utxo (child_view tip) = utxo tip" using c by (simp add: utxo_def [of "child_view tip"] fun_eq_iff)
qed

section \<open>Chains\<close>

record connected =
  tip_block :: CBlock
  tip_index :: CBlockIndex
  tip_undo :: CBlockUndo

text \<open>The coins of a chain, the tip first: the effects of its blocks, one after the other, on no coins.\<close>

fun chain_utxo :: "hasher \<Rightarrow> connected list \<Rightarrow> COutPoint \<Rightarrow> Coin option" where
  "chain_utxo H [] = Map.empty"
| "chain_utxo H (c # chain) = block_effect H (int (length chain)) (vtx (tip_block c)) (chain_utxo H chain)"

text \<open>The states that connecting and disconnecting blocks at the tip reach.\<close>

inductive chain_run :: "node_env \<Rightarrow> connected list \<Rightarrow> CCoinsViewCache \<Rightarrow> bool" for env where
  start: "cache_inv tip \<Longrightarrow> utxo tip = Map.empty \<Longrightarrow> chain_run env [] tip"
| connect: "chain_run env chain tip \<Longrightarrow> cs_tree cs p = Some i \<Longrightarrow> nHeight i = length chain \<Longrightarrow> length chain < 2 ^ 31 \<Longrightarrow>
    fChecked \<longrightarrow> passed_CheckBlock env block \<Longrightarrow>
    block_fresh (ne_H env) (int (length chain)) (vtx block) (utxo tip) \<Longrightarrow>
    connect_to_tip env args cs block fChecked p st tip = Some (Inr (tip', undo, cs')) \<Longrightarrow>
    chain_run env (\<lparr>tip_block = block, tip_index = i, tip_undo = undo\<rparr> # chain) tip'"
| disconnect: "chain_run env (c # chain) tip \<Longrightarrow>
    spends_restorable (ne_H env) (int (length chain)) (vtx (tip_block c)) (chain_utxo (ne_H env) chain) \<Longrightarrow>
    disconnect_from_tip (ne_H env) T (tip_block c) (tip_index c) (Some (tip_undo c)) tip = Some (Some tip') \<Longrightarrow>
    chain_run env chain tip'"

inductive_cases chain_run_Cons: "chain_run env (c # chain) tip"

text \<open>What every block of a chain satisfies on the coins of the blocks below it.\<close>

fun chain_ok_utxo :: "node_env \<Rightarrow> connected list \<Rightarrow> bool" where
  "chain_ok_utxo env [] = True"
| "chain_ok_utxo env (c # chain) \<longleftrightarrow>
     (let u = chain_utxo (ne_H env) chain; h = int (length chain); txs = vtx (tip_block c)
      in chain_ok_utxo env chain \<and> h < 2 ^ 31 \<and> int (nHeight (tip_index c)) = h \<and> txs \<noteq> [] \<and> IsCoinBase (hd txs) \<and>
         list_all (\<lambda>tx. \<not> IsCoinBase tx) (tl txs) \<and> block_applies (ne_H env) h txs u \<and> tip_undo c = tl (block_undo (ne_H env) h txs u) \<and>
         finite (dom (block_effect (ne_H env) h txs u)) \<and>
         total_value (block_effect (ne_H env) h txs u) \<le> total_value u + GetBlockSubsidy h (ne_params env))"

lemma connect_to_tip_spec:
  assumes run: "connect_to_tip env args cs block fChecked p st tip = Some (Inr (tip', undo, cs'))"
  obtains view c st' where "ConnectBlock env args cs block fChecked p st (child_view tip) = Some ((True, st'), Some (view, undo, cs'))"
    "Flush tip view = Inr (tip', c)"
proof -
  obtain r st' result where r: "ConnectBlock env args cs block fChecked p st (child_view tip) = Some ((r, st'), result)" "r"
    "Option.bind result (\<lambda>(view, undo, cs). Option.bind (or_abort (Flush tip view)) (\<lambda>(tip, _). Some (Inr (tip, undo, cs)))) =
      Some (Inr (tip', undo, cs') :: CValidationState + CCoinsViewCache \<times> CBlockUndo \<times> ChainState)"
    using run by (auto simp: connect_to_tip_def split: bind_splits if_splits)
  then obtain view where "result = Some (view, undo, cs')"
    "Option.bind (or_abort (Flush tip view)) (\<lambda>(tip, _). Some (Inr (tip, undo, cs'))) =
      Some (Inr (tip', undo, cs') :: CValidationState + CCoinsViewCache \<times> CBlockUndo \<times> ChainState)"
    by (auto split: bind_splits)
  with that r show thesis by (cases "Flush tip view") auto
qed


lemma Flush_child:
  assumes "cache_inv tip" "cache_over (utxo tip) view" "Flush tip view = Inr (tip', c)"
  shows "cache_inv tip' \<and> utxo tip' = utxo view"
  using Flush_spec [of tip view] assms by (auto simp: cache_over_def)

lemma GetBestBlock_over: "GetBestBlock c = (best, c') \<Longrightarrow> cache_over base c' = cache_over base c \<and> utxo c' = utxo c"
  by (auto simp: GetBestBlock_def Let_def cache_over_def cache_inv_def utxo_def fun_eq_iff split: option.split)

lemma disconnect_from_tip_spec:
  assumes run: "disconnect_from_tip H T block i (Some (tl (block_undo H (int (nHeight i)) (vtx block) u))) tip = Some (Some tip')"
    and inv: "cache_inv tip" "utxo tip = block_effect H (int (nHeight i)) (vtx block) u"
    and c: "vtx block \<noteq> []" "IsCoinBase (hd (vtx block))" "list_all (\<lambda>tx. \<not> IsCoinBase tx) (tl (vtx block))"
    and u: "block_applies H (int (nHeight i)) (vtx block) u" "spends_restorable H (int (nHeight i)) (vtx block) u"
      "\<forall>k coin. u k = Some coin \<longrightarrow> \<not> IsSpent coin" and i: "int (nHeight i) < 2 ^ 31"
  shows "cache_inv tip' \<and> utxo tip' = u"
proof -
  let ?undo = "Some (tl (block_undo H (int (nHeight i)) (vtx block) u))"
  obtain best view where v: "GetBestBlock (child_view tip) = (best, view)" by fastforce
  have view: "cache_over (utxo tip) view" "utxo view = block_effect H (int (nHeight i)) (vtx block) u"
    using GetBestBlock_over [OF v] child_view_spec [of tip] inv(2) by simp_all
  obtain view' c where d: "DisconnectBlock ops_cache H T block i ?undo view = Some (DISCONNECT_OK, view')" "Flush tip view' = Inr (tip', c)"
    using run v by (auto simp: disconnect_from_tip_def split: bind_splits if_splits elim!: or_abort.elims)
  then obtain hash where "(case pprev i of None \<Rightarrow> Some uint256_null | Some q \<Rightarrow> Option.bind (T q) GetBlockHash) = Some hash"
    by (auto simp: DisconnectBlock_def split: bind_splits if_splits option.splits)
  from DisconnectBlock_undoes [OF c u view i this] d(1) have "cache_over (utxo tip) view'" "utxo view' = u" by auto
  with Flush_child [OF inv(1) _ d(2)] show ?thesis by simp
qed

lemma chain_utxo_unspent:
  "chain_ok_utxo env chain \<Longrightarrow> chain_utxo (ne_H env) chain k = Some coin \<Longrightarrow> \<not> IsSpent coin"
proof (induction chain arbitrary: k coin)
  case (Cons c chain)
  let ?txs = "vtx (tip_block c)"
  have "block_applies (ne_H env) (int (length chain)) ?txs (chain_utxo (ne_H env) chain)" "chain_ok_utxo env chain"
    using Cons.prems(1) by (simp_all add: Let_def)
  from block_effect_unspent [OF this(1), of "length ?txs"] Cons.IH [OF this(2)] Cons.prems(2) show ?case by simp
qed simp

lemma chain_run_spec:
  "chain_run env chain tip \<Longrightarrow> cache_inv tip \<and> utxo tip = chain_utxo (ne_H env) chain \<and> chain_ok_utxo env chain"
proof (induction rule: chain_run.induct)
  case (connect chain tip cs p i fChecked block args st tip' undo cs')
  obtain view c st' where run: "ConnectBlock env args cs block fChecked p st (child_view tip) = Some ((True, st'), Some (view, undo, cs'))"
    and flush: "Flush tip view = Inr (tip', c)" using connect_to_tip_spec [OF connect.hyps(7)] by blast
  have h: "int (nHeight i) = int (length chain)" using connect.hyps(3) by simp
  note child = child_view_spec [of tip]
  note fresh = connect.hyps(6) [folded h child(2)]
  note spec = ConnectBlock_True [OF run connect.hyps(5) child(1) connect.hyps(2) fresh]
  have "finite (dom (chain_utxo (ne_H env) chain))" using connect.IH by (cases chain) (auto simp: Let_def)
  then have fin: "finite (dom (utxo (child_view tip)))" using connect.IH child(2) by simp
  have "cache_inv (child_view tip)" using child(1) by (simp add: cache_over_def)
  note worth = ConnectBlock_value [OF run connect.hyps(5) this connect.hyps(2) fin fresh]
  have "cache_inv tip' \<and> utxo tip' = utxo view" using Flush_child [OF _ spec(6) flush] connect.IH by simp
  with spec worth h connect.IH connect.hyps(4) child(2) show ?case by (simp add: Let_def)
next
  case (disconnect c chain tip T tip')
  have ok: "chain_ok_utxo env (c # chain)" and inv: "cache_inv tip" "utxo tip = chain_utxo (ne_H env) (c # chain)"
    using disconnect.IH by blast+
  have h: "int (nHeight (tip_index c)) = int (length chain)" using ok by (simp add: Let_def)
  have live: "\<forall>k coin. chain_utxo (ne_H env) chain k = Some coin \<longrightarrow> \<not> IsSpent coin"
    using chain_utxo_unspent ok by (auto simp: Let_def)
  have "cache_inv tip' \<and> utxo tip' = chain_utxo (ne_H env) chain"
    using disconnect_from_tip_spec [of "ne_H env" T "tip_block c" "tip_index c" "chain_utxo (ne_H env) chain" tip tip', unfolded h]
      ok inv live disconnect.hyps by (simp add: Let_def)
  then show ?case using ok by (simp add: Let_def)
qed simp

section \<open>The money supply\<close>

text \<open>Halving: the amounts of the first \<open>m\<close> intervals stay below twice the first one.\<close>

lemma halvings_sum: "(\<Sum>j<m. S div 2 ^ j) + 2 * (S div 2 ^ m) \<le> 2 * (S :: nat)"
proof (induction m)
  case (Suc m)
  have "S div 2 ^ Suc m = S div 2 ^ m div 2" by (simp only: power_Suc2 div_mult2_eq)
  then have "2 * (S div 2 ^ Suc m) \<le> S div 2 ^ m" by simp
  with Suc show ?case by simp
qed simp

lemma intervals_sum: "(\<Sum>h<K * m. S div 2 ^ (h div K)) = K * (\<Sum>j<m. S div 2 ^ j :: nat)" if "0 < K"
proof (induction m)
  case (Suc m)
  have "(\<Sum>h<K * Suc m. S div 2 ^ (h div K)) = (\<Sum>h<K * m. S div 2 ^ (h div K)) + (\<Sum>h = K * m..<K * Suc m. S div 2 ^ (h div K))"
    by (metis (no_types, lifting) Suc_n_not_le_n atLeast0LessThan le_add2 le_eq_less_or_eq mult_Suc_right nat_mult_le_cancel_disj sum.atLeastLessThan_concat zero_le)
  moreover have "h div K = m" if "h \<in> {K * m..<K * Suc m}" for h
    using that \<open>0 < K\<close> by (auto intro!: div_nat_eqI simp: mult.commute)
  ultimately show ?case using Suc by (simp add: distrib_left)
qed simp

lemma sdiv_nat: "int h sdiv int K = int (h div K)"
  by (simp add: signed_divide_int_def zdiv_int sgn_if)

lemma GetBlockSubsidy_div:
  assumes "nSubsidyHalvingInterval params = int K" "0 < K" "0 < h"
  shows "GetBlockSubsidy (int h) params \<le> int (500000000 div 2 ^ (h div K))"
proof -
  have "drop_bit (h div K) (500000000 :: int) = 500000000 div 2 ^ (h div K)" by (rule drop_bit_eq_div)
  also have "\<dots> = int (500000000 div 2 ^ (h div K))" by (simp only: of_nat_div of_nat_numeral of_nat_power)
  finally have "drop_bit (h div K) (500000000 :: int) = int (500000000 div 2 ^ (h div K))" .
  then show ?thesis using assms by (simp add: GetBlockSubsidy_def INITIAL_SUBSIDY_def COIN_def sdiv_nat Let_def del: of_nat_div)
qed

lemma supply_bounded:
  assumes "nSubsidyHalvingInterval params = 200000"
  shows "(\<Sum>h<n. GetBlockSubsidy (int h) params) \<le> MAX_MONEY"
proof -
  let ?f = "\<lambda>h. 500000000 div 2 ^ (h div 200000) :: nat"
  have "(\<Sum>h<n. GetBlockSubsidy (int h) params) \<le> (\<Sum>h<n. (if h = 0 then GENESIS_MONEY else 0) + int (?f h))"
    using GetBlockSubsidy_div [of params 200000] assms
    by (intro sum_mono) (auto simp: GetBlockSubsidy_def)
  also have "\<dots> = (\<Sum>h<n. if h = 0 then GENESIS_MONEY else 0) + int (sum ?f {..<n})" by (simp add: sum.distrib)
  also have "\<dots> \<le> GENESIS_MONEY + int (sum ?f {..<n})" by (simp add: GENESIS_MONEY_def COIN_def)
  also have "sum ?f {..<n} \<le> sum ?f {..<200000 * n}" by (intro sum_mono2) auto
  also have "sum ?f {..<200000 * n} = 200000 * (\<Sum>j<n. 500000000 div 2 ^ j)" by (rule intervals_sum) simp
  also have "\<dots> \<le> 200000 * (2 * 500000000)" using halvings_sum [of "500000000" n] by simp
  finally show ?thesis by (simp add: GENESIS_MONEY_def MAX_MONEY_def COIN_def)
qed

lemma chain_supply: "chain_ok_utxo env chain \<Longrightarrow>
   total_value (chain_utxo (ne_H env) chain) \<le> (\<Sum>h<length chain. GetBlockSubsidy (int h) (ne_params env))"
  by (induction chain) (auto simp: Let_def total_value_def)

end
