(* ===== verification/Examples.thy ===== *)
theory Examples
  imports Pow Verify_Script Merkle Coins
begin

text \<open>
  Concrete values on which the properties of the development are instantiated: a coin and a cache
  holding it, a script environment without flags, a transaction, a block, a header and a block tree
  of two blocks.
\<close>

section \<open>Coins\<close>

definition ex_coin :: Coin where
  "ex_coin = Coin_of \<lparr>nValue = 5000, scriptPubKey = []\<rparr> 7 False"

definition ex_child :: "CCoinsViewCache \<Rightarrow> CCoinsViewCache" where
  "ex_child p = p\<lparr>cv_base := utxo p, cacheCoins := [(COutPoint_null, \<lparr>ce_coin = ex_coin, ce_flags = DIRTY OR FRESH\<rparr>)]\<rparr>"

lemma ex_coin_unspent: "\<not> IsSpent ex_coin"
  by (simp add: ex_coin_def Coin_of_def IsSpent_def CTxOut_IsNull_def)

lemma ex_coin_spendable: "\<not> IsUnspendable (scriptPubKey (coin_out ex_coin))"
  by (simp add: ex_coin_def Coin_of_def IsUnspendable_def)

section \<open>Scripts\<close>

definition ex_hashes :: hash_functions where
  "ex_hashes = \<lparr>hf_RIPEMD160 = (\<lambda>b. replicate 20 0), hf_SHA1 = (\<lambda>b. replicate 20 0), hf_SHA3_256 = (\<lambda>b. replicate 32 0),
     hf_HASH160 = (\<lambda>b. replicate 20 0), hf_HASH256 = (\<lambda>b. replicate 32 0)\<rparr>"

definition ex_env :: eval_env where
  "ex_env = \<lparr>ev_flags = 0, ev_checker = BaseSignatureChecker, ev_sigversion = SIGVERSION_BASE, ev_hash = ex_hashes\<rparr>"

lemmas eval_simps = EvalScript_def eval_loop.simps [of _ "_ # _"] eval_loop.simps [of _ "[]"] read_operand_def eval_switch_def
  eval_instruction_def disabled_opcode_def Let_def MAX_SCRIPT_SIZE_def MAX_SCRIPT_ELEMENT_SIZE_def MAX_STACK_SIZE_def
  MAX_OPS_PER_SCRIPT_def fRequireMinimal_def has_flag_def SCRIPT_VERIFY_P2SH_def SCRIPT_VERIFY_MINIMALDATA_def

text \<open>A spend of a pay-to-script-hash output whose script pushes the number one.\<close>

lemma ex_p2sh_accepted:
  "VerifyScript (ex_env\<lparr>ev_flags := SCRIPT_VERIFY_P2SH\<rparr>) [1, 0x51] (0xa9 # 0x14 # replicate 20 0 @ [0x87]) None = Ok ()"
proof -
  let ?e = "ex_env\<lparr>ev_flags := SCRIPT_VERIFY_P2SH\<rparr>"
  let ?s = "0xa9 # 0x14 # replicate 20 0 @ [0x87] :: bytes"
  have e: "?e\<lparr>ev_sigversion := SIGVERSION_BASE\<rparr> = ?e" by (simp add: ex_env_def)
  have 1: "EvalScript ?e [] [1, 0x51] = Ok [[0x51]]" by (simp add: eval_simps ex_env_def del: ebind_Ok)
  have 2: "eval_true ?e [[0x51]] ?s = Ok [[1]]"
    by (simp add: eval_true_def eval_simps ex_env_def op_digest_def ex_hashes_def op_equal_def set_stack_def vchTrue_def del: ebind_Ok)
  have 3: "eval_true ?e [] [0x51] = Ok [[1]]"
    by (simp add: eval_true_def eval_simps op_small_int_def scriptnum_serialize_def abs_bytes.simps del: ebind_Ok)
  have "IsPayToScriptHash ?s" by (simp add: IsPayToScriptHash_def nth_append)
  moreover have "IsPushOnly [1, 0x51]" by (simp add: IsPushOnly.simps read_operand_def)
  moreover have "has_flag ?e SCRIPT_VERIFY_P2SH" "\<not> has_flag ?e SCRIPT_VERIFY_WITNESS" "\<not> has_flag ?e SCRIPT_VERIFY_CLEANSTACK"
    "\<not> has_flag ?e SCRIPT_VERIFY_SIGPUSHONLY"
    by (simp_all add: has_flag_def SCRIPT_VERIFY_P2SH_def SCRIPT_VERIFY_WITNESS_def SCRIPT_VERIFY_CLEANSTACK_def SCRIPT_VERIFY_SIGPUSHONLY_def)
  ultimately show ?thesis
    using 1 2 3 by (simp add: VerifyScript_def e run_witness_def verify_p2sh_def verify_final_def del: ebind_Ok)
qed

section \<open>Transactions and blocks\<close>

definition ex_tx :: CTransaction where
  "ex_tx = \<lparr>vin = [\<lparr>prevout = \<lparr>op_hash = replicate 32 1, op_n = 0\<rparr>, scriptSig = [], nSequence = 0, scriptWitness = [[1, 2]]\<rparr>],
     vout = [\<lparr>nValue = 5000, scriptPubKey = [0x51]\<rparr>], tx_nVersion = 1, tx_nLockTime = 0\<rparr>"

lemma ex_tx_valid: "valid_CTransaction ex_tx"
  by (simp add: ex_tx_def valid_CTransaction_def valid_CTxIn_def valid_witness_def valid_CTxOut_def valid_COutPoint_def
    valid_int_def MAX_SIZE_def)

definition ex_header :: CBlockHeader where
  "ex_header = \<lparr>blk_nVersion = 1, hashPrevBlock = uint256_null, hashMerkleRoot = uint256_null, blk_nTime = 7,
     blk_nBits = 0x1f07ffff, nNonce = uint256_null, nSolution = []\<rparr>"

definition ex_block :: CBlock where
  "ex_block = \<lparr>blk_nVersion = 1, hashPrevBlock = uint256_null, hashMerkleRoot = uint256_null, blk_nTime = 7,
     blk_nBits = 0x1f07ffff, nNonce = uint256_null, nSolution = [], vtx = [ex_tx]\<rparr>"

lemma ex_block_valid: "valid_CBlock ex_block"
  using ex_tx_valid by (simp add: ex_block_def valid_CBlock_def valid_CBlockHeader_def valid_int_def uint256_null_def MAX_SIZE_def)

definition ex_tree :: block_tree where
  "ex_tree = [0 \<mapsto> CBlockIndex_SetNull, 1 \<mapsto> CBlockIndex_SetNull\<lparr>pprev := Some 0, nHeight := 1\<rparr>]"

lemma ex_tree_wf: "wf_tree ex_tree"
  by (auto simp: wf_tree_def wf_entry_def ex_tree_def CBlockIndex_SetNull_def split: if_splits)

section \<open>Proof of work\<close>

definition ex_params :: Params where
  "ex_params = \<lparr>hashGenesisBlock = uint256_null, nSubsidyHalvingInterval = 200000, nRuleChangeActivationThreshold = 274,
     nMinerConfirmationWindow = 288, vDeployments = [], powLimit = replicate 30 0xff @ [0x07, 0x00],
     fPowAllowMinDifficultyBlocks = False, fPowNoRetargeting = False, nPowTargetSpacing = 600,
     nPowTargetTimespan = 172800, nMinimumChainWork = uint256_null, defaultAssumeValid = uint256_null\<rparr>"

text \<open>The target of the easiest difficulty, its product with the time span and the quotient.\<close>

lemma ex_retarget:
  "CalculateNextWorkRequired (CBlockIndex_SetNull\<lparr>idx_nBits := 0x1f07ffff, idx_nTime := 172800\<rparr>) 0 ex_params = Some 0x1e09192b"
proof -
  let ?t = "[0, 0, 0, 0, 0, 0, 0, 524287] :: limbs" and ?p = "[0, 0, 0, 0, 0, 0, 0, 402480384] :: limbs"
    and ?q = "[3302352632, 2157028019, 1011703407, 4161346091, 3016021478, 1870696866, 725372254, 2329] :: limbs" and ?d = "bu_of_u64 WIDTH 172800"
  have t: "fst (SetCompact 0x1f07ffff) = ?t" by code_simp
  have p: "bu_mul32 ?t 172800 = ?p" by code_simp
  have d: "bu_val ?d = 172800" "length ?d = 8" by (simp_all add: value_simps length_simps WIDTH_def)
  obtain q where q: "bu_div ?p ?d = Inr q" "length q = 8" "bu_val q = bu_val ?p div 172800"
    using bu_val_div [of ?p ?d] d by auto
  have "q = ?q" by (rule bu_val_inj) (simp_all add: q)
  moreover have "CompareTo ?q (UintToArith256 (powLimit ex_params)) \<le> 0" by code_simp
  moreover have "GetCompact False ?q = Some 0x1e09192b" by code_simp
  ultimately show ?thesis
    using q(1) by (simp add: CalculateNextWorkRequired_def ex_params_def CBlockIndex_SetNull_def t p Let_def)
qed

end
