(* ===== verification/Connect_Examples.thy ===== *)
theory Connect_Examples
  imports Chain_Tip Examples
begin

text \<open>
  A block of two transactions and a chain state in which it connects: the values the properties of
  \<open>ConnectBlock\<close> are instantiated with.  The hash function of the example tells serializations apart by
  their length.
\<close>

section \<open>Values\<close>

definition ex_hasher :: hasher where
  "ex_hasher b = of_nat (length b) # replicate 31 0"

definition ex_node :: node_env where
  "ex_node = \<lparr>ne_H = ex_hasher, ne_eh = (\<lambda>n k input soln. True), ne_EquihashN = 200, ne_EquihashK = 9, ne_params = ex_params,
     ne_checkpoints = None, ne_AdjustedTime = 0, ne_ed = (\<lambda>sig m key. True), ne_hash = ex_hashes,
     scriptExecutionCache = (\<lambda>h flags. False), nScriptCheckThreads = 0\<rparr>"

definition ex_funding :: COutPoint where
  "ex_funding = \<lparr>op_hash = replicate 32 1, op_n = 0\<rparr>"

definition ex_funded :: CCoinsViewCache where
  "ex_funded = CCoinsViewCache_of [ex_funding \<mapsto> Coin_of \<lparr>nValue = 5000, scriptPubKey = [0x51]\<rparr> 7 False] (9 # replicate 31 0)"

definition ex_coinbase :: CTransaction where
  "ex_coinbase = \<lparr>vin = [\<lparr>prevout = COutPoint_null, scriptSig = [0x58, 0, 0], nSequence = 0, scriptWitness = []\<rparr>],
     vout = [\<lparr>nValue = 500001000, scriptPubKey = [0x51]\<rparr>], tx_nVersion = 1, tx_nLockTime = 0\<rparr>"

definition ex_spend :: CTransaction where
  "ex_spend = \<lparr>vin = [\<lparr>prevout = ex_funding, scriptSig = [], nSequence = 0, scriptWitness = []\<rparr>],
     vout = [\<lparr>nValue = 4000, scriptPubKey = [0x51]\<rparr>], tx_nVersion = 1, tx_nLockTime = 0\<rparr>"

definition ex_connected :: CBlock where
  "ex_connected = \<lparr>blk_nVersion = 1, hashPrevBlock = 9 # replicate 31 0, hashMerkleRoot = 64 # replicate 31 0, blk_nTime = 7,
     blk_nBits = 0x1f07ffff, nNonce = uint256_null, nSolution = [], vtx = [ex_coinbase, ex_spend]\<rparr>"

definition ex_index :: CBlockIndex where
  "ex_index = CBlockIndex_SetNull\<lparr>phashBlock := Some (109 # replicate 31 0), pprev := Some 0, nHeight := 8\<rparr>"

definition ex_chain :: ChainState where
  "ex_chain = \<lparr>cs_tree = [0 \<mapsto> CBlockIndex_SetNull\<lparr>phashBlock := Some (9 # replicate 31 0), nHeight := 7, idx_nTime := 1\<rparr>, 1 \<mapsto> ex_index],
     cs_next = 2, mapBlockIndex = Map.empty, pindexBestHeader = Some 1, setDirtyBlockIndex = {}\<rparr>"

definition ex_args :: connect_args where
  "ex_args = \<lparr>ca_hashAssumeValid = uint256_null, ca_nMinimumChainWork = uint256_null, ca_fJustCheck = False,
     ca_undo_written = Inr 8, ca_index_written = True\<rparr>"

section \<open>The block passes its checks\<close>

lemma ex_ids:
  "tx_GetHash ex_hasher ex_coinbase = 64 # replicate 31 0" "tx_GetHash ex_hasher ex_spend = 61 # replicate 31 0"
  "header_GetHash ex_hasher ex_connected = 109 # replicate 31 0"
  by code_simp+

lemma ex_sizes:
  "length (SerializeTransaction False ex_coinbase) = 64" "length (SerializeTransaction False ex_spend) = 61"
  "length (ser_CBlock False ex_connected) = 235"
  by code_simp+

lemma ex_coinbases: "IsCoinBase ex_coinbase" "\<not> IsCoinBase ex_spend"
  by code_simp+

lemma ex_sigops:
  "sum_LegacySigOps 0 [ex_coinbase, ex_spend] = Some 0" "GetLegacySigOpCount ex_coinbase = Some 0" "GetLegacySigOpCount ex_spend = Some 0"
  by code_simp+

lemma ex_pow: "CheckProofOfWork (109 # replicate 31 0) 0x1f07ffff ex_params"
  by code_simp

lemma ex_merkle: "BlockMerkleRoot ex_hasher ex_connected = Some (64 # replicate 31 0, False)"
  by (simp add: BlockMerkleRoot_def ComputeMerkleRoot_def MerkleComputation_def merkle_climb.simps merkle_first_level.simps
      merkle_sweep.simps ex_ids ex_connected_def bit_iff_odd Let_def) (simp add: ex_hasher_def)

lemma ex_txs_checked:
  "CheckTransaction ex_coinbase False st = (True, st)" "CheckTransaction ex_spend False st = (True, st)"
  by (simp_all add: CheckTransaction_def ex_sizes ex_coinbases MAX_BLOCK_WEIGHT_def WITNESS_SCALE_FACTOR_def)
    (simp_all add: ex_coinbase_def ex_spend_def ex_funding_def MAX_MONEY_def MoneyRange_def COIN_def COutPoint_IsNull_def)

lemma ex_checked: "CheckBlock ex_node ex_connected False True True st = Some ((True, st), True)"
  by (simp add: CheckBlock_def CheckBlockHeader_def CheckEquihashSolution_def ex_node_def ex_pow ex_ids check_merkle_def ex_merkle
      Let_def check_body_def ex_sizes)
    (simp add: ex_connected_def ex_pow ex_coinbases ex_txs_checked MAX_BLOCK_WEIGHT_def ex_sigops MAX_BLOCK_SIGOPS_COST_def WITNESS_SCALE_FACTOR_def)

section \<open>Its transactions connect\<close>

lemmas cache_eval = ops_cache_def AddCoin_def SpendCoin_def AccessCoin_def HaveInputs_def HaveCoin_def FetchCoin_def GetCoin_def
  Coin_of_def IsSpent_def CTxOut_IsNull_def IsUnspendable_def MAX_SCRIPT_SIZE_def CCoinsViewCache_of_def coinEmpty_def
  CTxOut_SetNull_def is_dirty_def is_fresh_def DIRTY_def FRESH_def Let_def

text \<open>The view after the coinbase and the one after the spend.\<close>

definition ex_view1 :: CCoinsViewCache where
  "ex_view1 = ex_funded\<lparr>cv_hashBlock := 9 # replicate 31 0,
     cacheCoins := [(\<lparr>op_hash = 64 # replicate 31 0, op_n = 0\<rparr>,
       \<lparr>ce_coin = Coin_of \<lparr>nValue = 500001000, scriptPubKey = [0x51]\<rparr> 8 True, ce_flags = DIRTY\<rparr>)]\<rparr>"

definition ex_view2 :: CCoinsViewCache where
  "ex_view2 = ex_view1\<lparr>cacheCoins := cacheCoins ex_view1 @
     [(ex_funding, \<lparr>ce_coin = Coin_of \<lparr>nValue = 5000, scriptPubKey = [0x51]\<rparr> 7 False, ce_flags = 0\<rparr>)]\<rparr>"

definition ex_view3 :: CCoinsViewCache where
  "ex_view3 = ex_view1\<lparr>cacheCoins := cacheCoins ex_view1 @
     [(ex_funding, \<lparr>ce_coin = coinEmpty, ce_flags = DIRTY\<rparr>),
      (\<lparr>op_hash = 61 # replicate 31 0, op_n = 0\<rparr>,
       \<lparr>ce_coin = Coin_of \<lparr>nValue = 4000, scriptPubKey = [0x51]\<rparr> 8 False, ce_flags = DIRTY OR FRESH\<rparr>)]\<rparr>"

lemma ex_best: "GetBestBlock ex_funded = (9 # replicate 31 0, ex_funded\<lparr>cv_hashBlock := 9 # replicate 31 0\<rparr>)"
  by (simp add: GetBestBlock_def ex_funded_def CCoinsViewCache_of_def uint256_IsNull_def uint256_null_def Let_def list_all_iff)

lemma ex_cb_connects:
  "connect_tx ex_node (cs_tree ex_chain) 1 8 flags True 0 ex_coinbase st
   \<lparr>cn_view = ex_funded\<lparr>cv_hashBlock := 9 # replicate 31 0\<rparr>, cn_nFees = 0, cn_nSigOpsCost = 0, cn_vtxundo = [], cn_control = []\<rparr> =
   Some (Inl \<lparr>cn_view = ex_view1, cn_nFees = 0, cn_nSigOpsCost = 0, cn_vtxundo = [], cn_control = []\<rparr>)"
  by (simp add: connect_tx_def ex_coinbases GetTransactionSigOpCost_def ex_sigops Let_def MAX_BLOCK_SIGOPS_COST_def UpdateCoins_def
    AddCoins_def ex_node_def ex_ids)
   (simp add: ex_coinbase_def ex_view1_def ex_funded_def cache_eval)

lemma ex_view2_look:
  "ex_funding \<noteq> \<lparr>op_hash = 64 # replicate 31 0, op_n = 0\<rparr>" "ex_funding \<noteq> \<lparr>op_hash = 61 # replicate 31 0, op_n = 0\<rparr>"
proof -
  have "ex_funding \<noteq> \<lparr>op_hash = b # replicate 31 0, op_n = 0\<rparr>" if "b \<noteq> 1" for b :: u8
  proof
    assume "ex_funding = \<lparr>op_hash = b # replicate 31 0, op_n = 0\<rparr>"
    from arg_cong [OF this, of "\<lambda>k. hd (op_hash k)"] have "hd (op_hash ex_funding) = b" by simp
    then show False using that by (simp add: ex_funding_def)
  qed
  then show "ex_funding \<noteq> \<lparr>op_hash = 64 # replicate 31 0, op_n = 0\<rparr>" "ex_funding \<noteq> \<lparr>op_hash = 61 # replicate 31 0, op_n = 0\<rparr>"
    by simp_all
qed

lemma ex_spend_access:
  "AccessCoin ex_view1 ex_funding = (Coin_of \<lparr>nValue = 5000, scriptPubKey = [0x51]\<rparr> 7 False, ex_view2)"
  "AccessCoin ex_view2 ex_funding = (Coin_of \<lparr>nValue = 5000, scriptPubKey = [0x51]\<rparr> 7 False, ex_view2)"
  "HaveCoin ex_view1 ex_funding = (True, ex_view2)"
  using ex_view2_look by (simp_all add: ex_view1_def ex_view2_def ex_funded_def cache_eval)

lemma ex_spend_inputs: "CheckTxInputs ex_spend st ex_view1 8 0 = Some ((True, st), 1000, ex_view2)"
  by (simp add: CheckTxInputs_def HaveInputs_def ex_coinbases)
    (simp add: ex_spend_def ex_spend_access Coin_of_def IsSpent_def CTxOut_IsNull_def MoneyRange_def MAX_MONEY_def COIN_def GetValueOut_def)

lemma ex_spend_lock: "SequenceLocks (cs_tree ex_chain) ex_spend LOCKTIME_VERIFY_SEQUENCE hs 1 = (if length hs = 1 then Some (True, hs) else None)"
proof -
  have "GetMedianTimePast (cs_tree ex_chain) 0 = Some 1"
    by (simp add: GetMedianTimePast_def nMedianTimeSpan_def ex_chain_def CBlockIndex_SetNull_def numeral_eq_Suc)
  then show ?thesis
    by (simp add: SequenceLocks_def CalculateSequenceLocks_def EvaluateSequenceLocks_def ex_spend_def Let_def)
      (simp add: ex_chain_def ex_index_def word_le_nat_alt)
qed

lemma ex_anyone_can_spend:
  assumes "\<not> has_flag env SCRIPT_VERIFY_SIGPUSHONLY" "\<not> has_flag env SCRIPT_VERIFY_CLEANSTACK" "has_flag env SCRIPT_VERIFY_P2SH"
  shows "VerifyScript env [] [0x51] (Some []) = Ok ()"
proof -
  let ?e = "env\<lparr>ev_sigversion := SIGVERSION_BASE\<rparr>"
  have 1: "EvalScript ?e [] [] = Ok []" by (simp add: eval_simps del: ebind_Ok)
  have 2: "eval_true ?e [] [0x51] = Ok [[1]]"
    by (simp add: eval_true_def eval_simps op_small_int_def scriptnum_serialize_def abs_bytes.simps del: ebind_Ok)
  have "has_flag ?e f = has_flag env f" for f by (simp add: has_flag_def)
  moreover have "IsWitnessProgram [0x51] = Some None" "\<not> IsPayToScriptHash [0x51]"
    by (simp_all add: IsWitnessProgram_def IsPayToScriptHash_def)
  ultimately show ?thesis using assms 1 2
    by (simp add: VerifyScript_def run_witness_def verify_p2sh_def verify_final_def del: ebind_Ok)
qed

lemma ex_flags:
  "GetBlockScriptFlags i params = SCRIPT_VERIFY_P2SH OR SCRIPT_VERIFY_CHECKLOCKTIMEVERIFY OR SCRIPT_VERIFY_CHECKSEQUENCEVERIFY OR
     SCRIPT_VERIFY_WITNESS OR SCRIPT_VERIFY_NULLDUMMY"
  by (simp add: GetBlockScriptFlags_def IsWitnessEnabled_def SCRIPT_VERIFY_NONE_def or.assoc)

lemma ex_spend_script:
  "run_CScriptCheck ex_node \<lparr>m_tx_out = \<lparr>nValue = 5000, scriptPubKey = [0x51]\<rparr>, ptxTo = ex_spend, sc_nIn = 0,
     nFlags = GetBlockScriptFlags i params, sc_txdata = d\<rparr> = Ok ()"
  unfolding run_CScriptCheck_def Let_def
  by (simp add: ex_spend_def, rule ex_anyone_can_spend)
   (simp_all add: has_flag_def ex_flags SCRIPT_VERIFY_P2SH_def SCRIPT_VERIFY_CHECKLOCKTIMEVERIFY_def SCRIPT_VERIFY_CHECKSEQUENCEVERIFY_def
     SCRIPT_VERIFY_WITNESS_def SCRIPT_VERIFY_NULLDUMMY_def SCRIPT_VERIFY_SIGPUSHONLY_def SCRIPT_VERIFY_CLEANSTACK_def)

lemma ex_flags_set:
  "GetBlockScriptFlags i params AND SCRIPT_VERIFY_WITNESS \<noteq> 0" "GetBlockScriptFlags i params AND SCRIPT_VERIFY_P2SH \<noteq> 0"
  by (simp_all add: ex_flags SCRIPT_VERIFY_P2SH_def SCRIPT_VERIFY_CHECKLOCKTIMEVERIFY_def SCRIPT_VERIFY_CHECKSEQUENCEVERIFY_def
     SCRIPT_VERIFY_WITNESS_def SCRIPT_VERIFY_NULLDUMMY_def)

lemma ex_spend_cost:
  "GetTransactionSigOpCost ex_spend ex_view2 (GetBlockScriptFlags i params) = Some (0, ex_view2)"
  by (simp add: GetTransactionSigOpCost_def ex_coinbases ex_sigops GetP2SHSigOpCount_def Let_def ex_flags_set)
   (simp add: ex_spend_def ex_spend_access Coin_of_def IsSpent_def CTxOut_IsNull_def IsPayToScriptHash_def CountWitnessSigOps_def
     IsWitnessProgram_def ex_flags_set)

lemma ex_spend_updates:
  "UpdateCoins ops_cache ex_hasher ex_spend ex_view2 8 = Some ([Coin_of \<lparr>nValue = 5000, scriptPubKey = [0x51]\<rparr> 7 False], ex_view3)"
  using ex_view2_look
  by (simp add: UpdateCoins_def ex_coinbases AddCoins_def ex_ids)
   (simp add: ex_spend_def ex_view2_def ex_view1_def ex_view3_def ex_funded_def cache_eval)

lemma ex_spend_prev: "prev_heights (vin ex_spend) ex_view2 = ([7], ex_view2)"
  by (simp add: ex_spend_def ex_spend_access Coin_of_def)

lemma ex_spend_scripts:
  "CheckInputs ex_node ex_spend st ex_view2 True (GetBlockScriptFlags i params) d False = Some ((True, st), [], ex_view2)"
proof -
  have "vin ex_spend = [\<lparr>prevout = ex_funding, scriptSig = [], nSequence = 0, scriptWitness = []\<rparr>]" by (simp add: ex_spend_def)
  moreover have "\<not> scriptExecutionCache ex_node h f" for h f by (simp add: ex_node_def)
  ultimately show ?thesis
    using ex_spend_script [of i params d]
    by (simp add: CheckInputs_def ex_coinbases ex_spend_access Let_def Coin_of_def IsSpent_def CTxOut_IsNull_def)
qed

lemma ex_spend_connects:
  "connect_tx ex_node (cs_tree ex_chain) 1 8 (GetBlockScriptFlags i params) True 1 ex_spend st
   \<lparr>cn_view = ex_view1, cn_nFees = 0, cn_nSigOpsCost = 0, cn_vtxundo = [], cn_control = []\<rparr> =
   Some (Inl \<lparr>cn_view = ex_view3, cn_nFees = 1000, cn_nSigOpsCost = 0,
     cn_vtxundo = [[Coin_of \<lparr>nValue = 5000, scriptPubKey = [0x51]\<rparr> 7 False]], cn_control = []\<rparr>)"
proof -
  have "ne_H ex_node = ex_hasher" "nScriptCheckThreads ex_node = 0" by (simp_all add: ex_node_def)
  moreover have "SequenceLocks (cs_tree ex_chain) ex_spend LOCKTIME_VERIFY_SEQUENCE [7] (Suc 0) = Some (True, [7])"
    using ex_spend_lock [of "[7]"] by simp
  ultimately show ?thesis
    by (simp add: connect_tx_def ex_coinbases connect_inputs_def ex_spend_inputs Let_def MoneyRange_def MAX_MONEY_def COIN_def
        ex_spend_prev ex_spend_cost MAX_BLOCK_SIGOPS_COST_def ex_spend_scripts ex_spend_updates)
qed

section \<open>The block connects\<close>

text \<open>What follows the loop, for an entry without status.\<close>

lemma ex_finish:
  assumes "phashBlock i = Some h" "nStatus i = 0" "cn_control s = []"
    and "GetValueOut (vtx block ! 0) = Inr w" "w \<le> cn_nFees s + GetBlockSubsidy (int (nHeight i)) ex_params"
  shows "\<exists>cs'. finish_block ex_node ex_args cs block p i st s = Some ((True, st), (SetBestBlock (cn_view s) h, cn_vtxundo s, cs'))"
proof -
  let ?i = "i\<lparr>nUndoPos := 8, nStatus := BLOCK_HAVE_UNDO\<rparr>"
  have n: "ne_params ex_node = ex_params" "ca_fJustCheck ex_args = False" "ca_undo_written ex_args = Inr 8" "ca_index_written ex_args"
    by (simp_all add: ex_node_def ex_args_def)
  have undo: "\<exists>cs'. WriteUndoDataForBlock (Inr 8) p i cs = Inr (?i, cs')"
    using assms(2) by (simp add: WriteUndoDataForBlock_def GetUndoPos_def CDiskBlockPos_SetNull_def Let_def)
  have valid: "IsValid BLOCK_VALID_SCRIPTS ?i = Some False"
    "\<exists>b j. RaiseValidity BLOCK_VALID_SCRIPTS ?i = Some (b, j) \<and> phashBlock j = phashBlock i"
    by (auto simp: IsValid_def RaiseValidity_def BLOCK_VALID_SCRIPTS_def BLOCK_VALID_MASK_def BLOCK_HAVE_UNDO_def BLOCK_FAILED_MASK_def
      BLOCK_FAILED_VALID_def BLOCK_FAILED_CHILD_def BLOCK_VALID_HEADER_def BLOCK_VALID_TREE_def BLOCK_VALID_TRANSACTIONS_def BLOCK_VALID_CHAIN_def)
  then obtain c j where "RaiseValidity BLOCK_VALID_SCRIPTS ?i = Some (c, j)" "phashBlock j = Some h" using assms(1) by auto
  with undo valid(1) assms n show ?thesis by (auto simp: finish_block_def Let_def)
qed

lemma ex_scripts_checked: "script_checks cs uint256_null m ex_params p i = Some True"
  by (simp add: script_checks_def uint256_IsNull_def uint256_null_def list_all_iff)

lemma ex_cb_value: "GetValueOut ex_coinbase = Inr 500001000"
  by (simp add: ex_coinbase_def GetValueOut_def MoneyRange_def MAX_MONEY_def COIN_def)

lemma ex_connects:
  "\<exists>cs'. ConnectBlock ex_node ex_args ex_chain ex_connected False 1 st ex_funded =
     Some ((True, st), Some (SetBestBlock ex_view3 (109 # replicate 31 0), [[Coin_of \<lparr>nValue = 5000, scriptPubKey = [0x51]\<rparr> 7 False]], cs'))"
proof -
  let ?s = "\<lparr>cn_view = ex_view3, cn_nFees = 1000, cn_nSigOpsCost = 0,
     cn_vtxundo = [[Coin_of \<lparr>nValue = 5000, scriptPubKey = [0x51]\<rparr> 7 False]], cn_control = []\<rparr>"
  have T: "cs_tree ex_chain 1 = Some ex_index"
    "cs_tree ex_chain 0 = Some (CBlockIndex_SetNull\<lparr>phashBlock := Some (9 # replicate 31 0), nHeight := 7, idx_nTime := 1\<rparr>)"
    by (simp_all add: ex_chain_def)
  have i: "phashBlock ex_index = Some (109 # replicate 31 0)" "pprev ex_index = Some 0" "nHeight ex_index = 8" "nStatus ex_index = 0"
    by (simp_all add: ex_index_def CBlockIndex_SetNull_def)
  have n: "ne_H ex_node = ex_hasher" "ne_params ex_node = ex_params" by (simp_all add: ex_node_def)
  have b: "vtx ex_connected = [ex_coinbase, ex_spend]" by (simp add: ex_connected_def)
  have a: "ca_hashAssumeValid ex_args = uint256_null" "ca_fJustCheck ex_args = False" by (simp_all add: ex_args_def)
  have subsidy: "GetBlockSubsidy 8 ex_params = 500000000"
    by (simp add: GetBlockSubsidy_def ex_params_def INITIAL_SUBSIDY_def COIN_def)
  have loop: "connect_txs ex_node (cs_tree ex_chain) 1 8 (GetBlockScriptFlags ex_index ex_params) True 0 [ex_coinbase, ex_spend] st
      \<lparr>cn_view = ex_funded\<lparr>cv_hashBlock := 9 # replicate 31 0\<rparr>, cn_nFees = 0, cn_nSigOpsCost = 0, cn_vtxundo = [], cn_control = []\<rparr> = Some (Inl ?s)"
    by (simp add: ex_cb_connects [simplified] ex_spend_connects [simplified])
  have "\<exists>cs'. finish_block ex_node ex_args ex_chain ex_connected (Suc 0) ex_index st ?s = Some ((True, st),
      (SetBestBlock ex_view3 (109 # replicate 31 0), [[Coin_of \<lparr>nValue = 5000, scriptPubKey = [0x51]\<rparr> 7 False]], cs'))"
    using ex_finish [of ex_index "109 # replicate 31 0" ?s ex_connected 500001000 ex_chain "Suc 0" st] i b ex_cb_value subsidy by simp
  then show ?thesis
    by (auto simp: ConnectBlock_def T [simplified] i n ex_ids a ex_checked ex_best GetBlockHash_def b loop [unfolded One_nat_def]
      ex_scripts_checked simp del: connect_txs.simps)
qed

section \<open>A first block\<close>

definition ex_first :: CBlock where
  "ex_first = ex_connected\<lparr>hashPrevBlock := uint256_null, vtx := [ex_coinbase]\<rparr>"

definition ex_first_index :: CBlockIndex where
  "ex_first_index = CBlockIndex_SetNull\<lparr>phashBlock := Some (109 # replicate 31 0)\<rparr>"

definition ex_first_chain :: ChainState where
  "ex_first_chain = ex_chain\<lparr>cs_tree := [0 \<mapsto> ex_first_index]\<rparr>"

definition ex_empty :: CCoinsViewCache where
  "ex_empty = CCoinsViewCache_of Map.empty uint256_null"

lemma ex_first_facts:
  "header_GetHash ex_hasher ex_first = 109 # replicate 31 0" "length (ser_CBlock False ex_first) = 174"
  by code_simp+

lemma ex_first_checked: "CheckBlock ex_node ex_first False True True st = Some ((True, st), True)"
proof -
  have "BlockMerkleRoot ex_hasher ex_first = Some (64 # replicate 31 0, False)"
    by (simp add: BlockMerkleRoot_def ComputeMerkleRoot_def MerkleComputation_def merkle_climb.simps merkle_first_level.simps
      merkle_sweep.simps ex_ids ex_first_def bit_iff_odd Let_def)
  then show ?thesis
    by (simp add: CheckBlock_def CheckBlockHeader_def CheckEquihashSolution_def ex_node_def ex_pow ex_first_facts check_merkle_def
        Let_def check_body_def)
      (simp add: ex_first_def ex_connected_def ex_pow ex_coinbases ex_txs_checked MAX_BLOCK_WEIGHT_def ex_sigops MAX_BLOCK_SIGOPS_COST_def
        WITNESS_SCALE_FACTOR_def)
qed

lemma ex_first_connects:
  "\<exists>view undo cs'. ConnectBlock ex_node ex_args ex_first_chain ex_first False 0 st ex_empty = Some ((True, st), Some (view, undo, cs'))"
proof -
  have T: "cs_tree ex_first_chain 0 = Some ex_first_index" by (simp add: ex_first_chain_def)
  have i: "phashBlock ex_first_index = Some (109 # replicate 31 0)" "pprev ex_first_index = None" "nHeight ex_first_index = 0"
    "nStatus ex_first_index = 0" by (simp_all add: ex_first_index_def CBlockIndex_SetNull_def)
  have n: "ne_H ex_node = ex_hasher" "ne_params ex_node = ex_params" by (simp_all add: ex_node_def)
  have b: "vtx ex_first = [ex_coinbase]" by (simp add: ex_first_def)
  have a: "ca_hashAssumeValid ex_args = uint256_null" "ca_fJustCheck ex_args = False" by (simp_all add: ex_args_def)
  have best: "GetBestBlock ex_empty = (uint256_null, ex_empty)"
    by (simp add: ex_empty_def GetBestBlock_def CCoinsViewCache_of_def Let_def)
  obtain s where s: "connect_tx ex_node (cs_tree ex_first_chain) 0 0 (GetBlockScriptFlags ex_first_index ex_params) True 0 ex_coinbase st
      \<lparr>cn_view = ex_empty, cn_nFees = 0, cn_nSigOpsCost = 0, cn_vtxundo = [], cn_control = []\<rparr> = Some (Inl s)"
    "cn_nFees s = 0" "cn_control s = []"
    by (simp add: connect_tx_def ex_coinbases GetTransactionSigOpCost_def ex_sigops Let_def MAX_BLOCK_SIGOPS_COST_def UpdateCoins_def
        AddCoins_def n ex_ids)
      (simp add: ex_coinbase_def ex_empty_def cache_eval)
  obtain cs' where "finish_block ex_node ex_args ex_first_chain ex_first 0 ex_first_index st s = Some ((True, st),
      (SetBestBlock (cn_view s) (109 # replicate 31 0), cn_vtxundo s, cs'))"
    using ex_finish [of ex_first_index "109 # replicate 31 0" s ex_first 500001000 ex_first_chain 0 st] i s b ex_cb_value
    by (auto simp: GetBlockSubsidy_def GENESIS_MONEY_def COIN_def)
  then show ?thesis
    by (simp add: ConnectBlock_def T i n ex_first_facts a ex_first_checked best b ex_scripts_checked s)
qed

section \<open>The side conditions\<close>

lemma ex_funded_utxo: "utxo ex_funded = [ex_funding \<mapsto> Coin_of \<lparr>nValue = 5000, scriptPubKey = [0x51]\<rparr> 7 False]"
  by (auto simp: fun_eq_iff utxo_def ex_funded_def CCoinsViewCache_of_def IsSpent_def Coin_of_def CTxOut_IsNull_def unspent_def)

lemma ex_funded_inv: "cache_inv ex_funded"
  by (simp add: cache_inv_def ex_funded_def CCoinsViewCache_of_def)

lemma ex_not_funded: "\<lparr>op_hash = b # replicate 31 0, op_n = n\<rparr> \<noteq> ex_funding" if "b \<noteq> 1"
proof
  assume "\<lparr>op_hash = b # replicate 31 0, op_n = n\<rparr> = ex_funding"
  from arg_cong [OF this, of "\<lambda>k. hd (op_hash k)"] have "b = 1" by (simp add: ex_funding_def)
  then show False using that by simp
qed

lemma ex_fresh: "block_fresh ex_hasher 8 (vtx ex_connected) (utxo ex_funded)"
proof -
  have "distinct (map prevout (vin ex_spend))" by (simp add: ex_spend_def)
  then show ?thesis
    using ex_not_funded
    by (simp add: ex_connected_def tx_fresh_def ex_coinbases ex_ids tx_effect_def spent_by_def ex_funded_utxo map_add_def created_def)
qed

lemma ex_restorable: "spends_restorable ex_hasher 8 (vtx ex_connected) (utxo ex_funded)"
proof -
  have "\<not> IsUnspendable [0x51]" by (simp add: IsUnspendable_def MAX_SCRIPT_SIZE_def)
  moreover have "op_hash ex_funding \<noteq> 64 # replicate 31 0" using ex_not_funded [of 64 "op_n ex_funding"] by auto
  ultimately show ?thesis
    by (simp add: ex_connected_def tx_effect_def spent_by_def ex_coinbases ex_ids ex_funded_utxo restorable_def Coin_of_def
      map_add_def created_def ex_spend_def)
qed

lemma ex_first_fresh: "block_fresh ex_hasher 0 (vtx ex_first) Map.empty"
  by (simp add: ex_first_def tx_fresh_def ex_coinbases)

lemma ex_first_tip:
  "\<exists>tip undo cs'. connect_to_tip ex_node ex_args ex_first_chain ex_first False 0 st ex_empty = Some (Inr (tip, undo, cs'))"
proof -
  have e: "cacheCoins ex_empty = []" "cv_base ex_empty = Map.empty" by (simp_all add: ex_empty_def CCoinsViewCache_of_def)
  then have u: "utxo ex_empty = Map.empty" "cache_inv ex_empty" by (simp_all add: utxo_def cache_inv_def fun_eq_iff)
  then have child: "child_view ex_empty = ex_empty"
    by (simp add: child_view_def ex_empty_def GetBestBlock_def CCoinsViewCache_of_def Let_def)
  obtain view undo cs' where run: "ConnectBlock ex_node ex_args ex_first_chain ex_first False 0 st ex_empty = Some ((True, st), Some (view, undo, cs'))"
    using ex_first_connects by blast
  have "cache_over Map.empty ex_empty" using u e by (simp add: cache_over_def)
  moreover have "cs_tree ex_first_chain 0 = Some ex_first_index" "int (nHeight ex_first_index) = 0" "ne_H ex_node = ex_hasher"
    by (simp_all add: ex_first_chain_def ex_first_index_def CBlockIndex_SetNull_def ex_node_def)
  ultimately have "cache_over Map.empty view" using ConnectBlock_True(6) [OF run] ex_first_fresh u by simp
  then have "cache_inv view" "cv_base view = utxo ex_empty" using u by (simp_all add: cache_over_def)
  from Flush_spec [OF u(2) this] obtain tip c where "Flush ex_empty view = Inr (tip, c)" by blast
  then show ?thesis using run child by (auto simp: connect_to_tip_def)
qed

lemma ex_first_run: "\<exists>tip undo. chain_run ex_node [\<lparr>tip_block = ex_first, tip_index = ex_first_index, tip_undo = undo\<rparr>] tip"
proof -
  have "cacheCoins ex_empty = []" "cv_base ex_empty = Map.empty" by (simp_all add: ex_empty_def CCoinsViewCache_of_def)
  then have u: "utxo ex_empty = Map.empty" "cache_inv ex_empty" by (simp_all add: utxo_def cache_inv_def fun_eq_iff)
  have i: "cs_tree ex_first_chain 0 = Some ex_first_index" "nHeight ex_first_index = length ([] :: connected list)" "ne_H ex_node = ex_hasher"
    by (simp_all add: ex_first_chain_def ex_first_index_def CBlockIndex_SetNull_def ex_node_def)
  from ex_first_tip obtain tip undo cs' where
    "connect_to_tip ex_node ex_args ex_first_chain ex_first False 0 CValidationState_init ex_empty = Some (Inr (tip, undo, cs'))" by blast
  from chain_run.connect [OF chain_run.start [OF u(2,1)] i(1,2) _ _ _ this] ex_first_fresh u i show ?thesis by auto
qed

section \<open>A transaction that lists an input twice\<close>

definition ex_double :: CTransaction where
  "ex_double = ex_spend\<lparr>vin := vin ex_spend @ vin ex_spend, vout := [\<lparr>nValue = 9000, scriptPubKey = [0x51]\<rparr>]\<rparr>"

definition ex_inflating :: CBlock where
  "ex_inflating = ex_connected\<lparr>vtx := [ex_coinbase, ex_double]\<rparr>"

definition ex_view4 :: CCoinsViewCache where
  "ex_view4 = ex_view1\<lparr>cacheCoins := cacheCoins ex_view1 @
     [(ex_funding, \<lparr>ce_coin = coinEmpty, ce_flags = DIRTY\<rparr>),
      (\<lparr>op_hash = 102 # replicate 31 0, op_n = 0\<rparr>,
       \<lparr>ce_coin = Coin_of \<lparr>nValue = 9000, scriptPubKey = [0x51]\<rparr> 8 False, ce_flags = DIRTY OR FRESH\<rparr>)]\<rparr>"

lemma ex_double_vin: "vin ex_double = [\<lparr>prevout = ex_funding, scriptSig = [], nSequence = 0, scriptWitness = []\<rparr>,
    \<lparr>prevout = ex_funding, scriptSig = [], nSequence = 0, scriptWitness = []\<rparr>]" "tx_nVersion ex_double = 1"
  by (simp_all add: ex_double_def ex_spend_def)

lemma ex_double_facts:
  "tx_GetHash ex_hasher ex_double = 102 # replicate 31 0" "length (SerializeTransaction False ex_double) = 102"
  "\<not> IsCoinBase ex_double" "sum_LegacySigOps 0 [ex_coinbase, ex_double] = Some 0" "GetLegacySigOpCount ex_double = Some 0"
  "length (ser_CBlock False ex_inflating) = 276" "header_GetHash ex_hasher ex_inflating = 109 # replicate 31 0"
  by code_simp+

lemma ex_double_checked: "CheckTransaction ex_double False st = (True, st)"
  by (simp add: CheckTransaction_def ex_double_facts MAX_BLOCK_WEIGHT_def WITNESS_SCALE_FACTOR_def)
    (simp add: ex_double_def ex_spend_def ex_funding_def MAX_MONEY_def MoneyRange_def COIN_def COutPoint_IsNull_def)

lemma ex_inflating_checked: "CheckBlock ex_node ex_inflating False True True st = Some ((True, st), True)"
proof -
  have "BlockMerkleRoot ex_hasher ex_inflating = Some (64 # replicate 31 0, False)"
    by (simp add: BlockMerkleRoot_def ComputeMerkleRoot_def MerkleComputation_def merkle_climb.simps merkle_first_level.simps
      merkle_sweep.simps ex_ids ex_double_facts ex_inflating_def bit_iff_odd Let_def) (simp add: ex_hasher_def)
  then show ?thesis
    by (simp add: CheckBlock_def CheckBlockHeader_def CheckEquihashSolution_def ex_node_def ex_pow ex_double_facts check_merkle_def
        Let_def check_body_def)
      (simp add: ex_inflating_def ex_connected_def ex_pow ex_coinbases ex_sigops ex_double_facts ex_txs_checked ex_double_checked MAX_BLOCK_WEIGHT_def
        MAX_BLOCK_SIGOPS_COST_def WITNESS_SCALE_FACTOR_def)
qed

lemma ex_double_inputs: "CheckTxInputs ex_double st ex_view1 8 0 = Some ((True, st), 1000, ex_view2)"
proof -
  have "GetValueOut ex_double = Inr 9000" by (simp add: ex_double_def GetValueOut_def MoneyRange_def MAX_MONEY_def COIN_def)
  moreover have "HaveCoin ex_view2 ex_funding = (True, ex_view2)"
    using ex_view2_look by (simp add: ex_view1_def ex_view2_def ex_funded_def cache_eval)
  ultimately show ?thesis
    by (simp add: CheckTxInputs_def HaveInputs_def ex_double_facts ex_double_vin)
      (simp add: ex_double_vin ex_spend_access Coin_of_def IsSpent_def CTxOut_IsNull_def MoneyRange_def MAX_MONEY_def COIN_def)
qed

lemma ex_double_lock:
  "SequenceLocks (cs_tree ex_chain) ex_double LOCKTIME_VERIFY_SEQUENCE [7, 7] (Suc 0) = Some (True, [7, 7])"
  using ex_spend_lock [of "[7]"]
  by (auto simp: SequenceLocks_def CalculateSequenceLocks_def Let_def ex_double_vin ex_spend_def word_le_nat_alt split: bind_splits if_splits)

lemma ex_double_cost:
  "GetTransactionSigOpCost ex_double ex_view2 (GetBlockScriptFlags i params) = Some (0, ex_view2)"
  by (simp add: GetTransactionSigOpCost_def ex_double_facts GetP2SHSigOpCount_def Let_def ex_flags_set)
   (simp add: ex_double_vin ex_spend_access Coin_of_def IsSpent_def CTxOut_IsNull_def IsPayToScriptHash_def CountWitnessSigOps_def
     IsWitnessProgram_def ex_flags_set)

lemma ex_double_script:
  assumes "n < 2"
  shows "run_CScriptCheck ex_node \<lparr>m_tx_out = \<lparr>nValue = 5000, scriptPubKey = [0x51]\<rparr>, ptxTo = ex_double, sc_nIn = n,
     nFlags = GetBlockScriptFlags i params, sc_txdata = d\<rparr> = Ok ()"
proof -
  have "vin ex_double ! n = \<lparr>prevout = ex_funding, scriptSig = [], nSequence = 0, scriptWitness = []\<rparr>"
    using assms by (cases n) (auto simp: ex_double_vin)
  then show ?thesis
    unfolding run_CScriptCheck_def Let_def
    by (simp, intro ex_anyone_can_spend)
     (simp_all add: has_flag_def ex_flags SCRIPT_VERIFY_P2SH_def SCRIPT_VERIFY_CHECKLOCKTIMEVERIFY_def SCRIPT_VERIFY_CHECKSEQUENCEVERIFY_def
       SCRIPT_VERIFY_WITNESS_def SCRIPT_VERIFY_NULLDUMMY_def SCRIPT_VERIFY_SIGPUSHONLY_def SCRIPT_VERIFY_CLEANSTACK_def)
qed

lemma ex_double_scripts:
  "CheckInputs ex_node ex_double st ex_view2 True (GetBlockScriptFlags i params) d False = Some ((True, st), [], ex_view2)"
proof -
  have "\<not> scriptExecutionCache ex_node h f" for h f by (simp add: ex_node_def)
  then show ?thesis
    using ex_double_script [of 0 i params d] ex_double_script [of 1 i params d]
    by (simp add: CheckInputs_def ex_double_facts ex_double_vin ex_spend_access Let_def Coin_of_def IsSpent_def CTxOut_IsNull_def)
qed

lemma ex_double_updates:
  "\<exists>undo. UpdateCoins ops_cache ex_hasher ex_double ex_view2 8 = Some (undo, ex_view4)"
proof -
  have "ex_funding \<noteq> \<lparr>op_hash = 102 # replicate 31 0, op_n = 0\<rparr>" using ex_not_funded [of 102 0] by fastforce
  then show ?thesis using ex_view2_look
    by (simp add: UpdateCoins_def ex_double_facts AddCoins_def ex_double_vin)
     (simp add: ex_double_def ex_view2_def ex_view1_def ex_view4_def ex_funded_def cache_eval)
qed

lemma ex_double_connects:
  "\<exists>undo. connect_tx ex_node (cs_tree ex_chain) 1 8 (GetBlockScriptFlags i params) True 1 ex_double st
   \<lparr>cn_view = ex_view1, cn_nFees = 0, cn_nSigOpsCost = 0, cn_vtxundo = [], cn_control = []\<rparr> =
   Some (Inl \<lparr>cn_view = ex_view4, cn_nFees = 1000, cn_nSigOpsCost = 0, cn_vtxundo = undo, cn_control = []\<rparr>)"
proof -
  have "ne_H ex_node = ex_hasher" "nScriptCheckThreads ex_node = 0" by (simp_all add: ex_node_def)
  moreover have "prev_heights (vin ex_double) ex_view2 = ([7, 7], ex_view2)"
    by (simp add: ex_double_vin ex_spend_access Coin_of_def)
  ultimately show ?thesis
    using ex_double_updates
    by (auto simp: connect_tx_def ex_double_facts connect_inputs_def ex_double_inputs Let_def MoneyRange_def MAX_MONEY_def COIN_def
        ex_double_cost MAX_BLOCK_SIGOPS_COST_def ex_double_scripts ex_double_lock)
qed

lemma ex_inflating_connects:
  "\<exists>undo cs'. ConnectBlock ex_node ex_args ex_chain ex_inflating False 1 st ex_funded =
     Some ((True, st), Some (SetBestBlock ex_view4 (109 # replicate 31 0), undo, cs'))"
proof -
  have T: "cs_tree ex_chain 1 = Some ex_index"
    "cs_tree ex_chain 0 = Some (CBlockIndex_SetNull\<lparr>phashBlock := Some (9 # replicate 31 0), nHeight := 7, idx_nTime := 1\<rparr>)"
    by (simp_all add: ex_chain_def)
  have i: "phashBlock ex_index = Some (109 # replicate 31 0)" "pprev ex_index = Some 0" "nHeight ex_index = 8" "nStatus ex_index = 0"
    by (simp_all add: ex_index_def CBlockIndex_SetNull_def)
  have n: "ne_H ex_node = ex_hasher" "ne_params ex_node = ex_params" by (simp_all add: ex_node_def)
  have b: "vtx ex_inflating = [ex_coinbase, ex_double]" by (simp add: ex_inflating_def)
  have a: "ca_hashAssumeValid ex_args = uint256_null" "ca_fJustCheck ex_args = False" by (simp_all add: ex_args_def)
  have subsidy: "GetBlockSubsidy 8 ex_params = 500000000"
    by (simp add: GetBlockSubsidy_def ex_params_def INITIAL_SUBSIDY_def COIN_def)
  obtain undo where loop: "connect_txs ex_node (cs_tree ex_chain) 1 8 (GetBlockScriptFlags ex_index ex_params) True 0 [ex_coinbase, ex_double] st
      \<lparr>cn_view = ex_funded\<lparr>cv_hashBlock := 9 # replicate 31 0\<rparr>, cn_nFees = 0, cn_nSigOpsCost = 0, cn_vtxundo = [], cn_control = []\<rparr> =
      Some (Inl \<lparr>cn_view = ex_view4, cn_nFees = 1000, cn_nSigOpsCost = 0, cn_vtxundo = undo, cn_control = []\<rparr>)"
    using ex_double_connects [of ex_index ex_params st] by (auto simp: ex_cb_connects [simplified])
  let ?s = "\<lparr>cn_view = ex_view4, cn_nFees = 1000, cn_nSigOpsCost = 0, cn_vtxundo = undo, cn_control = []\<rparr>"
  have "\<exists>cs'. finish_block ex_node ex_args ex_chain ex_inflating (Suc 0) ex_index st ?s = Some ((True, st),
      (SetBestBlock ex_view4 (109 # replicate 31 0), undo, cs'))"
    using ex_finish [of ex_index "109 # replicate 31 0" ?s ex_inflating 500001000 ex_chain "Suc 0" st] i b ex_cb_value subsidy by simp
  then show ?thesis
    by (auto simp: ConnectBlock_def T [simplified] i n ex_double_facts a ex_inflating_checked ex_best GetBlockHash_def b
      loop [unfolded One_nat_def] ex_scripts_checked simp del: connect_txs.simps)
qed

lemma ex_inflated: "total_value (utxo ex_funded) = 5000" "total_value (utxo ex_view4) = 500010000"
proof -
  show "total_value (utxo ex_funded) = 5000" by (simp add: ex_funded_utxo total_value_def Coin_of_def)
  have "ex_funding \<noteq> \<lparr>op_hash = 102 # replicate 31 0, op_n = 0\<rparr>" using ex_not_funded [of 102 0] by fastforce
  then have "utxo ex_view4 = [\<lparr>op_hash = 64 # replicate 31 0, op_n = 0\<rparr> \<mapsto> Coin_of \<lparr>nValue = 500001000, scriptPubKey = [0x51]\<rparr> 8 True,
      \<lparr>op_hash = 102 # replicate 31 0, op_n = 0\<rparr> \<mapsto> Coin_of \<lparr>nValue = 9000, scriptPubKey = [0x51]\<rparr> 8 False]"
    using ex_view2_look by (auto simp: fun_eq_iff utxo_def ex_view4_def ex_view1_def ex_funded_def cache_eval)
  then show "total_value (utxo ex_view4) = 500010000" by (simp add: total_value_def Coin_of_def)
qed

end
