(* ===== verification/Header_Props.thy ===== *)
theory Header_Props
  imports Check_Block
begin

text \<open>
  What \<open>AcceptBlockHeader\<close> guarantees: every outcome keeps the invariant of the block index, the walk that
  marks descendants of a failed block ends, and a header that is newly accepted has passed its checks.
\<close>

section \<open>Changing the status of an entry\<close>

definition set_status :: "nat \<Rightarrow> u32 \<Rightarrow> ChainState \<Rightarrow> ChainState" where
  "set_status p v cs = (case cs_tree cs p of None \<Rightarrow> cs | Some i \<Rightarrow>
     cs\<lparr>cs_tree := (cs_tree cs)(p \<mapsto> i\<lparr>nStatus := v\<rparr>), setDirtyBlockIndex := insert p (setDirtyBlockIndex cs)\<rparr>)"

lemma prev_n_status:
  assumes "T p = Some i"
  shows "prev_n (T(p \<mapsto> i\<lparr>nStatus := v\<rparr>)) k q = prev_n T k q"
proof (induction k arbitrary: q)
  case (Suc k)
  have "prev_n (T(p \<mapsto> i\<lparr>nStatus := v\<rparr>)) k = prev_n T k" using Suc.IH by blast
  then have "prev_n (T(p \<mapsto> i\<lparr>nStatus := v\<rparr>)) (Suc k) q = (T(p \<mapsto> i\<lparr>nStatus := v\<rparr>)) q \<bind> (\<lambda>i. pprev i \<bind> prev_n T k)"
    by (simp only: prev_n.simps)
  also have "\<dots> = prev_n T (Suc k) q" using assms by (cases "q = p") simp_all
  finally show ?case .
qed simp

lemma wf_tree_status:
  assumes "wf_tree T" "T p = Some i"
  shows "wf_tree (T(p \<mapsto> i\<lparr>nStatus := v\<rparr>))"
proof -
  let ?T = "T(p \<mapsto> i\<lparr>nStatus := v\<rparr>)"
  have prev: "prev_n ?T k q = prev_n T k q" for k q using assms(2) by (rule prev_n_status)
  have entry: "wf_entry ?T q j" if "wf_entry T q j" for q j
  proof -
    have "\<exists>k'. ?T q' = Some k' \<and> nHeight j = Suc (nHeight k')" if "\<exists>k'. T q' = Some k' \<and> nHeight j = Suc (nHeight k')" for q'
      using that assms(2) by (cases "q' = p") auto
    then show ?thesis using that unfolding wf_entry_def prev by (auto split: option.splits simp del: fun_upd_apply)
  qed
  have "wf_entry ?T p (i\<lparr>nStatus := v\<rparr>) = wf_entry ?T p i" by (cases "pprev i") (simp_all add: wf_entry_def)
  then show ?thesis using assms entry by (auto simp: wf_tree_def)
qed

lemma cs_inv_status:
  assumes "cs_inv cs"
  shows "cs_inv (set_status p v cs)"
proof (cases "cs_tree cs p")
  case (Some i)
  let ?T = "(cs_tree cs)(p \<mapsto> i\<lparr>nStatus := v\<rparr>)"
  have "totals_ok ?T j" if "totals_ok (cs_tree cs) j" for j
    using that Some by (auto simp: totals_ok_def)
  moreover have "totals_ok (cs_tree cs) i" using assms Some by (auto simp: cs_inv_def)
  moreover have "totals_ok ?T (i\<lparr>nStatus := v\<rparr>) = totals_ok ?T i" by (simp add: totals_ok_def)
  ultimately show ?thesis
    using assms wf_tree_status [of "cs_tree cs" p i v] Some by (auto simp: cs_inv_def set_status_def) fastforce
qed (use assms in \<open>simp add: set_status_def\<close>)

lemma set_status_frame [simp]:
  "mapBlockIndex (set_status p v cs) = mapBlockIndex cs" "cs_next (set_status p v cs) = cs_next cs"
  by (simp_all add: set_status_def split: option.split)

lemma mark_invalid_step:
  "mark_invalid f (Some p) cs = (if p = f then Some cs else do {
     i \<leftarrow> cs_tree cs p;
     mark_invalid f (pprev i) (set_status p (nStatus i OR BLOCK_FAILED_CHILD) cs) })"
  by (subst mark_invalid.simps) (cases "cs_tree cs p"; simp add: set_status_def)

lemma mark_invalid_None: "mark_invalid f None cs = None"
  by (subst mark_invalid.simps) simp

text \<open>The walk from a descendant ends at the failed block.\<close>

lemma mark_invalid_total:
  "prev_n (cs_tree cs) k p = Some f \<Longrightarrow> \<exists>cs'. mark_invalid f (Some p) cs = Some cs'"
proof (induction k arbitrary: p cs)
  case 0
  then show ?case by (simp add: mark_invalid_step)
next
  case (Suc k)
  then obtain i q where i: "cs_tree cs p = Some i" "pprev i = Some q" "prev_n (cs_tree cs) k q = Some f"
    by (auto split: bind_splits)
  have "prev_n (cs_tree (set_status p v cs)) k q = Some f" for v
    using i prev_n_status [where T = "cs_tree cs", OF i(1)] by (simp add: set_status_def)
  from Suc.IH [OF this] i show ?case by (simp add: mark_invalid_step [of f p])
qed

lemma mark_invalid_inv:
  assumes "mark_invalid f p cs = Some cs'"
  shows "cs_inv cs \<longrightarrow> cs_inv cs' \<and> mapBlockIndex cs' = mapBlockIndex cs"
  using assms
proof (induction f p cs cs' rule: mark_invalid.raw_induct [rotated 1, consumes 1])
  case (1 walk f p cs cs')
  show ?case
  proof (cases "p = Some f")
    case False
    then obtain q i where i: "p = Some q" "cs_tree cs q = Some i"
      "walk f (pprev i) (set_status q (nStatus i OR BLOCK_FAILED_CHILD) cs) = Some cs'"
      using 1(2) by (auto simp: set_status_def split: option.splits bind_splits)
    from 1(1) [OF i(3)] show ?thesis using cs_inv_status by auto
  qed (use 1(2) in simp)
qed

lemma descends_from_failed_inv:
  "descends_from_failed failed p cs = Some (b, cs') \<Longrightarrow> cs_inv cs \<Longrightarrow>
   cs_inv cs' \<and> mapBlockIndex cs' = mapBlockIndex cs \<and> (\<not> b \<longrightarrow> cs' = cs)"
  using mark_invalid_inv by (induction failed) (auto split: bind_splits if_splits)

section \<open>Accepting a header\<close>

lemma ContextualCheckBlockHeader_True:
  assumes "ContextualCheckBlockHeader env cs block p st = Some (True, st')"
  obtains prev mtp where "cs_tree cs p = Some prev" "GetNextWorkRequired (cs_tree cs) (Some p) (blk_nTime block) (ne_params env) = Some (blk_nBits block)"
    "GetMedianTimePast (cs_tree cs) p = Some mtp" "mtp < uint (blk_nTime block)" "uint (blk_nTime block) \<le> ne_AdjustedTime env + MAX_FUTURE_BLOCK_TIME"
  using assms by (auto simp: ContextualCheckBlockHeader_def split: bind_splits if_splits)

text \<open>What a header has to satisfy to enter the index on top of the block \<open>p\<close>.\<close>

definition header_passes :: "node_env \<Rightarrow> ChainState \<Rightarrow> 'a CBlockHeader_scheme \<Rightarrow> nat \<Rightarrow> bool" where
  "header_passes env cs block p \<longleftrightarrow>
     CheckEquihashSolution (ne_eh env) (ne_EquihashN env) (ne_EquihashK env) block \<and>
     CheckProofOfWork (header_GetHash (ne_H env) block) (blk_nBits block) (ne_params env) \<and>
     mapBlockIndex cs (hashPrevBlock block) = Some p \<and>
     (\<exists>prev mtp. cs_tree cs p = Some prev \<and> nStatus prev AND BLOCK_FAILED_MASK = 0 \<and>
        GetNextWorkRequired (cs_tree cs) (Some p) (blk_nTime block) (ne_params env) = Some (blk_nBits block) \<and>
        GetMedianTimePast (cs_tree cs) p = Some mtp \<and> mtp < uint (blk_nTime block)) \<and>
     uint (blk_nTime block) \<le> ne_AdjustedTime env + MAX_FUTURE_BLOCK_TIME"

lemma CheckBlockHeader_True:
  "CheckBlockHeader env block True st = (True, st') \<Longrightarrow>
   st' = st \<and> CheckEquihashSolution (ne_eh env) (ne_EquihashN env) (ne_EquihashK env) block \<and>
   CheckProofOfWork (header_GetHash (ne_H env) block) (blk_nBits block) (ne_params env)"
  by (auto simp: CheckBlockHeader_def split: if_splits)

text \<open>A header that is not known yet is refused without effect, refused with the marks on the descendants of
  a failed block, or added.\<close>

lemma AcceptBlockHeader_new:
  assumes run: "AcceptBlockHeader env failed block st cs = Some ((ok, st'), p, cs')" and inv: "cs_inv cs"
    and new: "header_GetHash (ne_H env) block \<noteq> hashGenesisBlock (ne_params env)" "mapBlockIndex cs (header_GetHash (ne_H env) block) = None"
  shows "\<not> ok \<and> cs_inv cs' \<or> (\<exists>q. header_passes env cs block q) \<and>
    AddToBlockIndex (ne_H env) block cs \<bind> (\<lambda>(p, cs). Some ((True, st), Some p, cs)) = Some ((ok, st'), p, cs')"
proof (cases "fst (CheckBlockHeader env block True st) \<and> mapBlockIndex cs (hashPrevBlock block) \<noteq> None")
  case False
  then have "cs' = cs" "\<not> ok" using run new
    by (auto simp: AcceptBlockHeader_def Let_def split: bind_splits if_splits prod.splits option.splits)
  then show ?thesis using inv by simp
next
  case True
  then obtain q st1 where q: "mapBlockIndex cs (hashPrevBlock block) = Some q" and h: "CheckBlockHeader env block True st = (True, st1)"
    by (cases "CheckBlockHeader env block True st") auto
  then have st1: "st1 = st" using CheckBlockHeader_True by blast
  obtain prev where prev: "cs_tree cs q = Some prev" using run new q h by (auto simp: AcceptBlockHeader_def Let_def split: bind_splits)
  note header = q h prev st1
  consider (dead) "nStatus prev AND BLOCK_FAILED_MASK \<noteq> 0"
    | (refused) st2 where "nStatus prev AND BLOCK_FAILED_MASK = 0" "ContextualCheckBlockHeader env cs block q st = Some (False, st2)"
    | (pass) st2 where "nStatus prev AND BLOCK_FAILED_MASK = 0" "ContextualCheckBlockHeader env cs block q st = Some (True, st2)"
    using run new header by (auto simp: AcceptBlockHeader_def Let_def split: bind_splits if_splits)
  then show ?thesis
  proof cases
    case dead
    then have "cs' = cs" "\<not> ok" using run new header by (auto simp: AcceptBlockHeader_def Let_def)
    then show ?thesis using inv by simp
  next
    case refused
    then have "cs' = cs" "\<not> ok" using run new header by (auto simp: AcceptBlockHeader_def Let_def)
    then show ?thesis using inv by simp
  next
    case pass
    then have passes: "header_passes env cs block q"
      using CheckBlockHeader_True [OF h] q prev ContextualCheckBlockHeader_True [OF pass(2)] by (fastforce simp: header_passes_def)
    obtain b cs1 where d: "cs1 = cs \<and> \<not> b \<or> (\<exists>f. descends_from_failed f q cs = Some (b, cs1))"
      "(if b then Some (DoS 100 False REJECT_INVALID ''bad-prevblk'' False st2, None, cs1)
        else AddToBlockIndex (ne_H env) block cs1 \<bind> (\<lambda>(p, cs). Some ((True, st), Some p, cs))) = Some ((ok, st'), p, cs')"
      using run new header pass by (auto simp: AcceptBlockHeader_def Let_def split: bind_splits if_splits)
    then have "cs_inv cs1" "\<not> b \<longrightarrow> cs1 = cs" using inv descends_from_failed_inv by blast+
    with d(2) passes show ?thesis by (cases b) auto
  qed
qed

lemma AcceptBlockHeader_spec:
  assumes run: "AcceptBlockHeader env failed block st cs = Some ((ok, st'), p, cs')"
    and inv: "cs_inv cs" and ne: "hashPrevBlock block \<noteq> header_GetHash (ne_H env) block"
  shows "cs_inv cs' \<and> (ok \<longrightarrow> (\<exists>q. p = Some q \<and> mapBlockIndex cs' (header_GetHash (ne_H env) block) = Some q) \<and>
    (header_GetHash (ne_H env) block = hashGenesisBlock (ne_params env) \<or> mapBlockIndex cs (header_GetHash (ne_H env) block) \<noteq> None \<or>
     (\<exists>q. header_passes env cs block q)))"
proof -
  let ?hash = "header_GetHash (ne_H env) block"
  let ?add = "AddToBlockIndex (ne_H env) block cs \<bind> (\<lambda>(p, cs). Some ((True, st), Some p, cs))"
  have add: "cs_inv cs' \<and> ok \<and> (\<exists>q. p = Some q \<and> mapBlockIndex cs' ?hash = Some q)" if "?add = Some ((ok, st'), p, cs')"
  proof -
    obtain q s where "AddToBlockIndex (ne_H env) block cs = Some (q, s)" "cs_inv s" "mapBlockIndex s = (mapBlockIndex cs)(?hash \<mapsto> q)"
      by (rule AddToBlockIndex_inv [OF inv ne])
    with that show ?thesis by auto
  qed
  consider (genesis) "?hash = hashGenesisBlock (ne_params env)" | (known) q where "?hash \<noteq> hashGenesisBlock (ne_params env)" "mapBlockIndex cs ?hash = Some q"
    | (new) "?hash \<noteq> hashGenesisBlock (ne_params env)" "mapBlockIndex cs ?hash = None" by blast
  then show ?thesis
  proof cases
    case genesis
    then have "?add = Some ((ok, st'), p, cs')" using run by (simp add: AcceptBlockHeader_def Let_def)
    from add [OF this] genesis show ?thesis by blast
  next
    case known
    then have "cs' = cs" "p = Some q" using run by (auto simp: AcceptBlockHeader_def Let_def split: bind_splits)
    then show ?thesis using inv known by simp
  next
    case new
    with AcceptBlockHeader_new [OF run inv] add show ?thesis by blast
  qed
qed

end
