(* ===== verification/Versionbits.thy ===== *)
theory Versionbits
  imports Pow
begin

text \<open>
  The deployment of rule changes by version bits (\<open>versionbits.h\<close>, \<open>versionbits.cpp\<close>): the state of a
  deployment, computed period by period through a cache, and its equality with the state machine of BIP 9.
  The virtual functions of \<open>AbstractThresholdConditionChecker\<close> are the fields of a record.  A pointer to a
  block is \<open>None\<close> when null; a result \<open>None\<close> means that a null pointer is followed or an assertion fails.
\<close>

section \<open>Checkers\<close>

definition VERSIONBITS_TOP_BITS :: int where "VERSIONBITS_TOP_BITS = 0x20000000"
definition VERSIONBITS_TOP_MASK :: u32 where "VERSIONBITS_TOP_MASK = 0xE0000000"

datatype ThresholdState =
  THRESHOLD_DEFINED | THRESHOLD_STARTED | THRESHOLD_LOCKED_IN | THRESHOLD_ACTIVE | THRESHOLD_FAILED

type_synonym ThresholdConditionCache = "ptr \<Rightarrow> ThresholdState option"

record BIP9Stats =
  st_period :: int
  st_threshold :: int
  st_elapsed :: int
  st_count :: int
  st_possible :: bool

record checker =
  Condition :: "CBlockIndex \<Rightarrow> bool"
  BeginTime :: int
  EndTime :: int
  Period :: int
  Threshold :: int

section \<open>The state of a deployment\<close>

text \<open>The last block of the previous period: the block before the first one of \<open>pindexPrev\<close>'s successor's period.\<close>

definition period_parent :: "block_tree \<Rightarrow> checker \<Rightarrow> ptr \<Rightarrow> ptr option" where
  "period_parent T c pindexPrev =
     (case pindexPrev of None \<Rightarrow> Some None
      | Some p \<Rightarrow> do { i \<leftarrow> T p; GetAncestor T p (int (nHeight i) - (int (nHeight i) + 1) smod Period c) })"

text \<open>The walk back; the list of blocks to compute is a stack, the last pushed first.\<close>

partial_function (option) walk_back :: "block_tree \<Rightarrow> checker \<Rightarrow> ptr \<Rightarrow> ThresholdConditionCache \<Rightarrow> nat list \<Rightarrow>
    (ptr \<times> ThresholdConditionCache \<times> nat list) option" where
  "walk_back T c pindexPrev cache vToCompute =
     (if cache pindexPrev \<noteq> None then Some (pindexPrev, cache, vToCompute)
      else case pindexPrev of None \<Rightarrow> Some (None, cache(None \<mapsto> THRESHOLD_DEFINED), vToCompute)
      | Some p \<Rightarrow> do {
          mtp \<leftarrow> GetMedianTimePast T p;
          if mtp < BeginTime c then Some (Some p, cache(Some p \<mapsto> THRESHOLD_DEFINED), vToCompute)
          else do {
            i \<leftarrow> T p;
            q \<leftarrow> GetAncestor T p (int (nHeight i) - Period c);
            walk_back T c q cache (p # vToCompute) } })"

text \<open>The loop that counts the blocks of a period that signal.\<close>

fun count_conditions :: "block_tree \<Rightarrow> checker \<Rightarrow> nat \<Rightarrow> ptr \<Rightarrow> int \<Rightarrow> int option" where
  "count_conditions T c 0 pindexCount count = Some count"
| "count_conditions T c (Suc n) pindexCount count = do {
     p \<leftarrow> pindexCount;
     i \<leftarrow> T p;
     count_conditions T c n (pprev i) (if Condition c i then count + 1 else count) }"

definition next_state :: "block_tree \<Rightarrow> checker \<Rightarrow> ThresholdState \<Rightarrow> nat \<Rightarrow> ThresholdState option" where
  "next_state T c state p =
     (case state of
        THRESHOLD_DEFINED \<Rightarrow> do {
          mtp \<leftarrow> GetMedianTimePast T p;
          Some (if mtp \<ge> EndTime c then THRESHOLD_FAILED else if mtp \<ge> BeginTime c then THRESHOLD_STARTED else state) }
      | THRESHOLD_STARTED \<Rightarrow> do {
          mtp \<leftarrow> GetMedianTimePast T p;
          if mtp \<ge> EndTime c then Some THRESHOLD_FAILED
          else do {
            count \<leftarrow> count_conditions T c (nat (Period c)) (Some p) 0;
            Some (if count \<ge> Threshold c then THRESHOLD_LOCKED_IN else state) } }
      | THRESHOLD_LOCKED_IN \<Rightarrow> Some THRESHOLD_ACTIVE
      | THRESHOLD_ACTIVE \<Rightarrow> Some state
      | THRESHOLD_FAILED \<Rightarrow> Some state)"

fun walk_forward :: "block_tree \<Rightarrow> checker \<Rightarrow> ThresholdState \<Rightarrow> nat list \<Rightarrow> ThresholdConditionCache \<Rightarrow>
    (ThresholdState \<times> ThresholdConditionCache) option" where
  "walk_forward T c state [] cache = Some (state, cache)"
| "walk_forward T c state (p # vToCompute) cache = do {
     stateNext \<leftarrow> next_state T c state p;
     walk_forward T c stateNext vToCompute (cache(Some p \<mapsto> stateNext)) }"

definition GetStateFor :: "block_tree \<Rightarrow> checker \<Rightarrow> ptr \<Rightarrow> ThresholdConditionCache \<Rightarrow>
    (ThresholdState \<times> ThresholdConditionCache) option" where
  "GetStateFor T c pindexPrev cache =
     (if BeginTime c = ALWAYS_ACTIVE then Some (THRESHOLD_ACTIVE, cache)
      else do {
        pindexPrev \<leftarrow> period_parent T c pindexPrev;
        (pindexPrev, cache, vToCompute) \<leftarrow> walk_back T c pindexPrev cache [];
        state \<leftarrow> cache pindexPrev;
        walk_forward T c state vToCompute cache })"

section \<open>Statistics and the height of the last change\<close>

partial_function (option) count_back :: "block_tree \<Rightarrow> checker \<Rightarrow> nat \<Rightarrow> ptr \<Rightarrow> int \<Rightarrow> int option" where
  "count_back T c h currentIndex count = do {
     p \<leftarrow> currentIndex;
     i \<leftarrow> T p;
     if h \<noteq> nHeight i then count_back T c h (pprev i) (if Condition c i then count + 1 else count)
     else Some count }"

text \<open>In a chain's first period the end of the previous period is a null pointer, which the code follows.\<close>

definition GetStateStatisticsFor :: "block_tree \<Rightarrow> checker \<Rightarrow> ptr \<Rightarrow> BIP9Stats option" where
  "GetStateStatisticsFor T c pindex =
     (let stats = \<lparr>st_period = Period c, st_threshold = Threshold c, st_elapsed = 0, st_count = 0, st_possible = False\<rparr>
      in case pindex of None \<Rightarrow> Some stats
      | Some p \<Rightarrow> do {
          i \<leftarrow> T p;
          a \<leftarrow> GetAncestor T p (int (nHeight i) - (int (nHeight i) + 1) smod st_period stats);
          q \<leftarrow> a;
          j \<leftarrow> T q;
          let stats = stats\<lparr>st_elapsed := int (nHeight i) - int (nHeight j)\<rparr>;
          count \<leftarrow> count_back T c (nHeight j) (Some p) 0;
          Some (stats\<lparr>st_count := count,
            st_possible := (st_period stats - st_threshold stats \<ge> st_elapsed stats - count)\<rparr>) })"

partial_function (option) since_loop :: "block_tree \<Rightarrow> checker \<Rightarrow> ThresholdState \<Rightarrow> nat \<Rightarrow> ptr \<Rightarrow> ThresholdConditionCache \<Rightarrow>
    (nat \<times> ThresholdConditionCache) option" where
  "since_loop T c initialState p previousPeriodParent cache =
     (case previousPeriodParent of None \<Rightarrow> Some (p, cache)
      | Some q \<Rightarrow> do {
          (s, cache) \<leftarrow> GetStateFor T c (Some q) cache;
          if s = initialState
          then do {
            j \<leftarrow> T q;
            a \<leftarrow> GetAncestor T q (int (nHeight j) - Period c);
            since_loop T c initialState q a cache }
          else Some (p, cache) })"

definition GetStateSinceHeightFor :: "block_tree \<Rightarrow> checker \<Rightarrow> ptr \<Rightarrow> ThresholdConditionCache \<Rightarrow> (int \<times> ThresholdConditionCache) option" where
  "GetStateSinceHeightFor T c pindexPrev cache =
     (if BeginTime c = ALWAYS_ACTIVE then Some (0, cache)
      else do {
        (initialState, cache) \<leftarrow> GetStateFor T c pindexPrev cache;
        if initialState = THRESHOLD_DEFINED then Some (0, cache)
        else do {
          p \<leftarrow> pindexPrev;
          i \<leftarrow> T p;
          a \<leftarrow> GetAncestor T p (int (nHeight i) - (int (nHeight i) + 1) smod Period c);
          q \<leftarrow> a;
          j \<leftarrow> T q;
          previousPeriodParent \<leftarrow> GetAncestor T q (int (nHeight j) - Period c);
          (r, cache) \<leftarrow> since_loop T c initialState q previousPeriodParent cache;
          k \<leftarrow> T r;
          Some (int (nHeight k) + 1, cache) } })"

section \<open>Version bits\<close>

definition VersionBitsMask :: "Params \<Rightarrow> nat \<Rightarrow> u32" where
  "VersionBitsMask params pos = push_bit (nat (dep_bit (vDeployments params ! pos))) 1"

definition VersionBitsConditionChecker :: "Params \<Rightarrow> nat \<Rightarrow> checker" where
  "VersionBitsConditionChecker params pos =
     \<lparr>Condition = (\<lambda>i. (word_of_int (idx_nVersion i) :: u32) AND VERSIONBITS_TOP_MASK = word_of_int VERSIONBITS_TOP_BITS \<and>
        (word_of_int (idx_nVersion i) :: u32) AND VersionBitsMask params pos \<noteq> 0),
      BeginTime = dep_nStartTime (vDeployments params ! pos),
      EndTime = dep_nTimeout (vDeployments params ! pos),
      Period = nMinerConfirmationWindow params,
      Threshold = nRuleChangeActivationThreshold params\<rparr>"

type_synonym VersionBitsCache = "ThresholdConditionCache list"

definition VersionBitsState :: "block_tree \<Rightarrow> ptr \<Rightarrow> Params \<Rightarrow> nat \<Rightarrow> VersionBitsCache \<Rightarrow> (ThresholdState \<times> VersionBitsCache) option" where
  "VersionBitsState T pindexPrev params pos caches = do {
     (s, cache) \<leftarrow> GetStateFor T (VersionBitsConditionChecker params pos) pindexPrev (caches ! pos);
     Some (s, caches[pos := cache]) }"

definition VersionBitsStatistics :: "block_tree \<Rightarrow> ptr \<Rightarrow> Params \<Rightarrow> nat \<Rightarrow> BIP9Stats option" where
  "VersionBitsStatistics T pindexPrev params pos = GetStateStatisticsFor T (VersionBitsConditionChecker params pos) pindexPrev"

definition VersionBitsStateSinceHeight :: "block_tree \<Rightarrow> ptr \<Rightarrow> Params \<Rightarrow> nat \<Rightarrow> VersionBitsCache \<Rightarrow> (int \<times> VersionBitsCache) option" where
  "VersionBitsStateSinceHeight T pindexPrev params pos caches = do {
     (h, cache) \<leftarrow> GetStateSinceHeightFor T (VersionBitsConditionChecker params pos) pindexPrev (caches ! pos);
     Some (h, caches[pos := cache]) }"

definition VersionBitsCache_Clear :: "VersionBitsCache \<Rightarrow> VersionBitsCache" where
  "VersionBitsCache_Clear caches = map (\<lambda>cache. Map.empty) caches"

text \<open>The loop over the deployments from number \<open>pos\<close>; the version is returned as the bits of an \<open>int32_t\<close>.\<close>

fun ComputeBlockVersion_loop :: "block_tree \<Rightarrow> ptr \<Rightarrow> Params \<Rightarrow> nat \<Rightarrow> nat \<Rightarrow> u32 \<Rightarrow> VersionBitsCache \<Rightarrow> (u32 \<times> VersionBitsCache) option" where
  "ComputeBlockVersion_loop T pindexPrev params pos 0 v caches = Some (v, caches)"
| "ComputeBlockVersion_loop T pindexPrev params pos (Suc n) v caches = do {
     (state, caches) \<leftarrow> VersionBitsState T pindexPrev params pos caches;
     ComputeBlockVersion_loop T pindexPrev params (pos + 1) n
       (if state = THRESHOLD_LOCKED_IN \<or> state = THRESHOLD_STARTED then v OR VersionBitsMask params pos else v) caches }"

definition ComputeBlockVersion :: "block_tree \<Rightarrow> ptr \<Rightarrow> Params \<Rightarrow> VersionBitsCache \<Rightarrow> (u32 \<times> VersionBitsCache) option" where
  "ComputeBlockVersion T pindexPrev params caches =
     ComputeBlockVersion_loop T pindexPrev params 0 (length (vDeployments params)) (word_of_int VERSIONBITS_TOP_BITS) caches"

section \<open>The state machine without a cache\<close>

text \<open>The state after \<open>j\<close> periods of the chain that leads to \<open>p\<close>: from \<open>THRESHOLD_DEFINED\<close>, one transition
  at the last block of each period.\<close>

fun bip9 :: "block_tree \<Rightarrow> checker \<Rightarrow> nat \<Rightarrow> nat \<Rightarrow> ThresholdState option" where
  "bip9 T c p 0 = Some THRESHOLD_DEFINED"
| "bip9 T c p (Suc j) = do {
     s \<leftarrow> bip9 T c p j;
     q \<leftarrow> ancestor_at T p (Suc j * nat (Period c) - 1);
     next_state T c s q }"

definition bip9_of :: "block_tree \<Rightarrow> checker \<Rightarrow> ptr \<Rightarrow> nat \<Rightarrow> ThresholdState option" where
  "bip9_of T c ptr j = (case ptr of None \<Rightarrow> Some THRESHOLD_DEFINED | Some p \<Rightarrow> bip9 T c p j)"

text \<open>The conditions on a tree and a deployment: the tree is well formed, every block is later than the median
  time of its predecessor (a rule of \<open>ContextualCheckBlockHeader\<close>), and the period and the times make sense.\<close>

definition deployment_ok :: "block_tree \<Rightarrow> checker \<Rightarrow> bool" where
  "deployment_ok T c \<longleftrightarrow> wf_tree T \<and> 0 < Period c \<and> BeginTime c \<le> EndTime c \<and>
     (\<forall>p i q m. T p = Some i \<longrightarrow> pprev i = Some q \<longrightarrow> GetMedianTimePast T q = Some m \<longrightarrow> m < uint (idx_nTime i))"

text \<open>A cache that holds right answers, for ends of periods only.\<close>

definition cache_ok :: "block_tree \<Rightarrow> checker \<Rightarrow> ThresholdConditionCache \<Rightarrow> bool" where
  "cache_ok T c cache \<longleftrightarrow> (\<forall>s. cache None = Some s \<longrightarrow> s = THRESHOLD_DEFINED) \<and>
     (\<forall>q s. cache (Some q) = Some s \<longrightarrow> (\<exists>i j. T q = Some i \<and> nHeight i + 1 = j * nat (Period c) \<and> bip9 T c q j = Some s))"

lemma cache_ok_upd:
  assumes "cache_ok T c cache" "T p = Some i" "nHeight i + 1 = j * nat (Period c)" "bip9 T c p j = Some s"
  shows "cache_ok T c (cache(Some p \<mapsto> s))"
  unfolding cache_ok_def
proof (intro conjI allI impI)
  fix q s'
  assume "(cache(Some p \<mapsto> s)) (Some q) = Some s'"
  then show "\<exists>i j. T q = Some i \<and> nHeight i + 1 = j * nat (Period c) \<and> bip9 T c q j = Some s'"
    using assms unfolding cache_ok_def by (cases "q = p") auto
qed (use assms(1) in \<open>simp add: cache_ok_def\<close>)

lemma median_times_total:
  assumes "wf_tree T"
  shows "T p = Some i \<Longrightarrow> \<exists>ts. median_times T n (Some p) = Some ts"
proof (induction n arbitrary: p i)
  case (Suc n)
  show ?case
  proof (cases "pprev i")
    case None
    then show ?thesis using Suc.prems by (cases n) auto
  next
    case (Some q)
    then obtain j where "T q = Some j" using wf_prev [OF assms Suc.prems Some] by blast
    from Suc.IH [OF this] Some Suc.prems show ?thesis by auto
  qed
qed simp

lemma GetMedianTimePast_total:
  assumes "wf_tree T" "T p = Some i"
  obtains m where "GetMedianTimePast T p = Some m"
  using median_times_total [OF assms, of nMedianTimeSpan] by (auto simp: GetMedianTimePast_def)

text \<open>The median of a window does not fall when a later time enters and the oldest one leaves.\<close>

lemma sorted_nth_ge:
  fixes m :: int
  assumes "sorted xs" "k < length xs"
  shows "m \<le> xs ! k \<longleftrightarrow> length (filter (\<lambda>x. x < m) xs) \<le> k"
  using assms
proof (induction xs arbitrary: k)
  case (Cons x xs)
  show ?case
  proof (cases "x < m")
    case True
    with Cons show ?thesis by (cases k) auto
  next
    case False
    then have "filter (\<lambda>y. y < m) (x # xs) = []" using Cons.prems(1) by (auto simp: filter_empty_conv)
    moreover have "m \<le> (x # xs) ! k" using False Cons.prems by (cases k) (auto dest!: nth_mem)
    ultimately show ?thesis by simp
  qed
qed simp

lemma length_filter_sort: "length (filter P (sort xs)) = length (filter P xs)"
  by (simp add: filter_sort)

lemma median_step:
  fixes t :: int
  assumes "sort ts ! (length ts div 2) < t" "ts \<noteq> []" "length ts \<le> Suc n"
  shows "sort ts ! (length ts div 2) \<le> sort (t # take n ts) ! (length (t # take n ts) div 2)"
proof -
  let ?m = "sort ts ! (length ts div 2)"
  have "length (filter (\<lambda>x. x < ?m) (t # take n ts)) = length (filter (\<lambda>x. x < ?m) (take n ts))" using assms(1) by simp
  also have "\<dots> \<le> length (filter (\<lambda>x. x < ?m) ts)"
    by (subst (2) append_take_drop_id [of n, symmetric], subst filter_append) simp
  also have "\<dots> \<le> length ts div 2"
    using sorted_nth_ge [of "sort ts" "length ts div 2" ?m] assms(2) by (simp add: length_filter_sort)
  also have "\<dots> \<le> length (t # take n ts) div 2" using assms(3) by simp
  finally have "length (filter (\<lambda>x. x < ?m) (sort (t # take n ts))) \<le> length (t # take n ts) div 2"
    by (simp only: length_filter_sort)
  moreover have "length (t # take n ts) div 2 < length (sort (t # take n ts))" by (simp only: length_sort) simp
  ultimately show ?thesis using sorted_nth_ge [OF sorted_sort] by blast
qed

lemma median_times_take: "median_times T n p = Some ts \<Longrightarrow> k \<le> n \<Longrightarrow> median_times T k p = Some (take k ts)"
proof (induction T n p arbitrary: ts k rule: median_times.induct)
  case (3 T n p)
  from 3(2) obtain i ts' where i: "T p = Some i" "median_times T n (pprev i) = Some ts'" "ts = uint (idx_nTime i) # ts'"
    by (auto split: bind_splits)
  show ?case
  proof (cases k)
    case (Suc l)
    then show ?thesis using 3(1) [OF i(1,2), of l] 3(3) i by simp
  qed simp
next
  case (2 T n)
  then show ?case by (cases k) simp_all
qed simp

lemma median_times_length: "median_times T n p = Some ts \<Longrightarrow> length ts \<le> n"
  by (induction T n p arbitrary: ts rule: median_times.induct) (auto split: bind_splits)

lemma GetMedianTimePast_step:
  assumes "T p = Some i" "pprev i = Some q" "GetMedianTimePast T q = Some m" "GetMedianTimePast T p = Some m'" "m < uint (idx_nTime i)"
  shows "m \<le> m'"
proof -
  have n: "nMedianTimeSpan = Suc 10" by (simp add: nMedianTimeSpan_def)
  from assms(3) obtain ts where ts: "median_times T (Suc 10) (Some q) = Some ts" "m = sort ts ! (length ts div 2)"
    unfolding GetMedianTimePast_def n by (auto split: bind_splits)
  have "median_times T 10 (Some q) = Some (take 10 ts)" by (rule median_times_take [OF ts(1)]) simp
  then have "m' = sort (uint (idx_nTime i) # take 10 ts) ! (length (uint (idx_nTime i) # take 10 ts) div 2)"
    using assms(1,2,4) median_times.simps(3) [of T 10 p] unfolding GetMedianTimePast_def n by simp
  moreover have "ts \<noteq> []" using ts(1) unfolding median_times.simps by (auto split: bind_splits)
  ultimately show ?thesis using median_step [of ts "uint (idx_nTime i)" 10] median_times_length [OF ts(1)] ts(2) assms(5) by simp
qed

lemma prev_n_mtp:
  assumes ok: "deployment_ok T c"
  shows "prev_n T k p = Some q \<Longrightarrow> T p = Some i \<Longrightarrow> GetMedianTimePast T q = Some m \<Longrightarrow> GetMedianTimePast T p = Some m' \<Longrightarrow> m \<le> m'"
proof (induction k arbitrary: p i m')
  case (Suc k)
  have wf: "wf_tree T" using ok by (simp add: deployment_ok_def)
  from Suc.prems(1,2) obtain r where r: "pprev i = Some r" "prev_n T k r = Some q" by (auto split: bind_splits)
  obtain j where j: "T r = Some j" using wf_prev [OF wf Suc.prems(2) r(1)] by blast
  obtain mr where mr: "GetMedianTimePast T r = Some mr" using GetMedianTimePast_total [OF wf j] .
  have "m \<le> mr" using Suc.IH [OF r(2) j Suc.prems(3) mr] .
  also have "mr < uint (idx_nTime i)" using ok Suc.prems(2) r(1) mr unfolding deployment_ok_def by blast
  then have "mr \<le> m'" using GetMedianTimePast_step [OF Suc.prems(2) r(1) mr Suc.prems(4)] by blast
  finally show ?case .
qed simp

lemma count_conditions_total:
  assumes "wf_tree T"
  shows "T p = Some i \<Longrightarrow> n \<le> nHeight i + 1 \<Longrightarrow> \<exists>r. count_conditions T c n (Some p) count = Some r"
proof (induction n arbitrary: p i count)
  case (Suc n)
  show ?case
  proof (cases n)
    case 0
    then show ?thesis using Suc.prems by simp
  next
    case (Suc m)
    then have "pprev i \<noteq> None" using Suc.prems wf_root [OF assms Suc.prems(1)] by auto
    then obtain q j where "pprev i = Some q" "T q = Some j" "nHeight i = Suc (nHeight j)"
      using wf_prev [OF assms Suc.prems(1)] by blast
    with Suc.IH [of q j] Suc.prems show ?thesis by auto
  qed
qed simp

lemma next_state_total:
  assumes "wf_tree T" "T q = Some i" "nat (Period c) \<le> nHeight i + 1"
  shows "\<exists>s'. next_state T c s q = Some s'"
proof -
  obtain m where "GetMedianTimePast T q = Some m" using GetMedianTimePast_total [OF assms(1,2)] .
  moreover obtain r where "count_conditions T c (nat (Period c)) (Some q) 0 = Some r"
    using count_conditions_total [OF assms] by blast
  ultimately show ?thesis by (simp add: next_state_def split: ThresholdState.split)
qed

lemma bip9_ancestor:
  assumes "wf_tree T" "T p = Some i" "ancestor_at T p k = Some q" "j * nat (Period c) \<le> k + 1" "0 < Period c"
  shows "bip9 T c q j = bip9 T c p j"
  using assms(4)
proof (induction j)
  case (Suc j)
  have "Suc j * nat (Period c) - 1 \<le> k" using Suc.prems by simp
  from ancestor_at_trans [OF assms(1-3) this] Suc show ?case by simp
qed simp

text \<open>Before the start time nothing has happened.\<close>

lemma bip9_early:
  assumes ok: "deployment_ok T c" and p: "T p = Some i" "GetMedianTimePast T p = Some m" "m < BeginTime c"
  shows "j * nat (Period c) \<le> nHeight i + 1 \<Longrightarrow> bip9 T c p j = Some THRESHOLD_DEFINED"
proof (induction j)
  case (Suc j)
  have wf: "wf_tree T" and P: "0 < Period c" and times: "BeginTime c \<le> EndTime c" using ok by (simp_all add: deployment_ok_def)
  have "Suc j * nat (Period c) - 1 \<le> nHeight i" using Suc.prems by simp
  then obtain q jq where q: "ancestor_at T p (Suc j * nat (Period c) - 1) = Some q" "T q = Some jq"
    using ancestor_at_ex [OF wf p(1)] by metis
  obtain mq where mq: "GetMedianTimePast T q = Some mq" using GetMedianTimePast_total [OF wf q(2)] .
  have "mq \<le> m" using q(1) prev_n_mtp [OF ok _ p(1) mq p(2)] p(1) by (auto simp: ancestor_at_def split: if_splits)
  then show ?case using Suc q(1) mq p(3) times by (simp add: next_state_def)
qed simp

section \<open>The cached computation is right\<close>

lemma walk_forward_append:
  "walk_forward T c s (xs @ ys) cache = walk_forward T c s xs cache \<bind> (\<lambda>(s, cache). walk_forward T c s ys cache)"
  by (induction xs arbitrary: s cache) (auto simp: bind_assoc)

definition period_end :: "block_tree \<Rightarrow> checker \<Rightarrow> nat \<Rightarrow> ptr \<Rightarrow> bool" where
  "period_end T c j ptr \<longleftrightarrow> (case ptr of None \<Rightarrow> j = 0 | Some p \<Rightarrow> \<exists>i. T p = Some i \<and> nHeight i + 1 = j * nat (Period c))"

lemma period_end_ancestor:
  assumes "wf_tree T" "0 < Period c" "T p = Some i" "j * nat (Period c) \<le> nHeight i + 1"
  shows "\<exists>q. GetAncestor T p (int (j * nat (Period c)) - 1) = Some q \<and> period_end T c j q \<and> bip9_of T c q j = bip9 T c p j"
proof (cases j)
  case 0
  then show ?thesis using GetAncestor_spec [OF assms(1,3)] by (simp add: period_end_def bip9_of_def)
next
  case (Suc k)
  let ?h = "j * nat (Period c) - 1"
  have pos: "1 \<le> j * nat (Period c)" using Suc assms(2) by simp
  then have int: "int (j * nat (Period c)) - 1 = int ?h" by simp
  obtain q jq where q: "ancestor_at T p ?h = Some q" "T q = Some jq" "nHeight jq = ?h"
    by (rule ancestor_at_ex [OF assms(1,3), of ?h]) (use assms(4) in auto)
  have "bip9 T c q j = bip9 T c p j" using bip9_ancestor [OF assms(1,3) q(1)] pos assms(2) by simp
  have "GetAncestor T p (int ?h) = Some (Some q)" unfolding GetAncestor_spec [OF assms(1,3)] using q by simp
  moreover have "nHeight jq + 1 = j * nat (Period c)" using q(3) pos by linarith
  ultimately show ?thesis unfolding int using q(2) \<open>bip9 T c q j = bip9 T c p j\<close> by (simp add: period_end_def bip9_of_def)
qed

text \<open>The walk back from the end \<open>ptr\<close> of period \<open>j\<close>, and forth again, gives the state after that period.\<close>

definition walk_ok :: "block_tree \<Rightarrow> checker \<Rightarrow> nat \<Rightarrow> ptr \<Rightarrow> ThresholdConditionCache \<Rightarrow> nat list \<Rightarrow> bool" where
  "walk_ok T c j ptr cache v \<longleftrightarrow> (\<exists>ptr' cache1 us s0 s cache2.
     walk_back T c ptr cache v = Some (ptr', cache1, us @ v) \<and> cache1 ptr' = Some s0 \<and>
     walk_forward T c s0 us cache1 = Some (s, cache2) \<and> bip9_of T c ptr j = Some s \<and> cache_ok T c cache2)"

lemma walk_cached:
  assumes cache: "cache_ok T c cache" "cache (Some p) = Some s" and p: "T p = Some i"
    and h: "nHeight i + 1 = Suc j * nat (Period c)" and P: "0 < Period c"
  shows "walk_ok T c (Suc j) (Some p) cache v"
proof -
  obtain i' k where k: "T p = Some i'" "nHeight i' + 1 = k * nat (Period c)" "bip9 T c p k = Some s"
    using cache unfolding cache_ok_def by blast
  then have "k * nat (Period c) = Suc j * nat (Period c)" using p h by simp
  then have "k = Suc j" using P mult_right_cancel [of "nat (Period c)" k "Suc j"] by simp
  then have "bip9_of T c (Some p) (Suc j) = Some s" using k(3) by (simp add: bip9_of_def)
  moreover have "walk_back T c (Some p) cache v = Some (Some p, cache, [] @ v)"
    using cache(2) by (simp add: walk_back.simps [of T c "Some p"])
  moreover have "walk_forward T c s [] cache = Some (s, cache)" by simp
  ultimately show ?thesis using cache unfolding walk_ok_def by blast
qed

lemma walk_early:
  assumes ok: "deployment_ok T c" and cache: "cache_ok T c cache" "cache (Some p) = None" and p: "T p = Some i"
    and h: "nHeight i + 1 = Suc j * nat (Period c)" and m: "GetMedianTimePast T p = Some m" "m < BeginTime c"
  shows "walk_ok T c (Suc j) (Some p) cache v"
proof -
  let ?cache = "cache(Some p \<mapsto> THRESHOLD_DEFINED)"
  have "bip9 T c p (Suc j) = Some THRESHOLD_DEFINED" using bip9_early [OF ok p m, of "Suc j"] h by simp
  then have "bip9_of T c (Some p) (Suc j) = Some THRESHOLD_DEFINED" "cache_ok T c ?cache"
    using cache_ok_upd [OF cache(1) p h] by (simp_all add: bip9_of_def del: bip9.simps)
  moreover have "walk_back T c (Some p) cache v = Some (Some p, ?cache, [] @ v)"
    using cache(2) m p by (simp add: walk_back.simps [of T c "Some p"])
  moreover have "walk_forward T c THRESHOLD_DEFINED [] ?cache = Some (THRESHOLD_DEFINED, ?cache)" by simp
  ultimately show ?thesis unfolding walk_ok_def by (metis fun_upd_same)
qed

lemma walk_step:
  assumes ok: "deployment_ok T c" and cache: "cache (Some p) = None" and p: "T p = Some i"
    and h: "nHeight i + 1 = Suc j * nat (Period c)" and m: "GetMedianTimePast T p = Some m" "\<not> m < BeginTime c"
    and q: "GetAncestor T p (int (nHeight i) - Period c) = Some q" "bip9_of T c q j = bip9 T c p j"
    and walk: "walk_ok T c j q cache (p # v)"
  shows "walk_ok T c (Suc j) (Some p) cache v"
proof -
  have wf: "wf_tree T" using ok by (simp add: deployment_ok_def)
  from walk obtain ptr' cache1 us s0 s cache2 where
    r: "walk_back T c q cache (p # v) = Some (ptr', cache1, us @ p # v)" "cache1 ptr' = Some s0"
      "walk_forward T c s0 us cache1 = Some (s, cache2)" "bip9 T c p j = Some s" "cache_ok T c cache2"
    unfolding walk_ok_def q(2) by blast
  obtain s' where s': "next_state T c s p = Some s'" using next_state_total [OF wf p, of c s] h by auto
  have "Suc j * nat (Period c) - 1 = nHeight i" using h by simp
  then have b: "bip9 T c p (Suc j) = Some s'" using r(4) s' ancestor_at_self [of T p i, OF p] by simp
  then have "cache_ok T c (cache2(Some p \<mapsto> s'))" using cache_ok_upd [OF r(5) p h] by simp
  moreover have "walk_back T c (Some p) cache v = Some (ptr', cache1, (us @ [p]) @ v)"
    using cache p m q(1) r(1) by (simp add: walk_back.simps [of T c "Some p"])
  moreover have "walk_forward T c s0 (us @ [p]) cache1 = Some (s', cache2(Some p \<mapsto> s'))"
    using r(3) s' by (simp add: walk_forward_append)
  moreover have "bip9_of T c (Some p) (Suc j) = Some s'" using b by (simp add: bip9_of_def del: bip9.simps)
  ultimately show ?thesis using r(2) unfolding walk_ok_def by blast
qed

lemma walk_spec:
  assumes ok: "deployment_ok T c" and cache: "cache_ok T c cache"
  shows "period_end T c j ptr \<Longrightarrow> walk_ok T c j ptr cache v"
proof (induction j arbitrary: ptr v)
  case (0 ptr)
  then have "ptr = None" by (auto simp: period_end_def split: option.splits)
  then show ?case using cache
    by (cases "cache None") (auto simp: walk_back.simps [of T c None] bip9_of_def cache_ok_def walk_ok_def)
next
  case (Suc j ptr)
  have wf: "wf_tree T" and P: "0 < Period c" using ok by (simp_all add: deployment_ok_def)
  obtain p i where p: "ptr = Some p" "T p = Some i" and h: "nHeight i + 1 = Suc j * nat (Period c)"
    using Suc.prems by (auto simp: period_end_def split: option.splits)
  obtain m where m: "GetMedianTimePast T p = Some m" using GetMedianTimePast_total [OF wf p(2)] .
  have step: "int (nHeight i) - Period c = int (j * nat (Period c)) - 1"
    using arg_cong [OF h, of int] P by (simp add: algebra_simps)
  obtain q where q: "GetAncestor T p (int (nHeight i) - Period c) = Some q" "period_end T c j q" "bip9_of T c q j = bip9 T c p j"
    using period_end_ancestor [OF wf P p(2), of j] h unfolding step by auto
  show ?case
    using walk_cached [OF cache _ p(2) h P] walk_early [OF ok cache _ p(2) h m] walk_step [OF ok _ p(2) h m _ q(1,3) Suc.IH [OF q(2)]]
    unfolding p(1) by (cases "cache (Some p)"; cases "m < BeginTime c") blast+
qed

lemma period_parent_spec:
  assumes ok: "deployment_ok T c" and p: "T p = Some i"
  obtains q where "period_parent T c (Some p) = Some q" "period_end T c ((nHeight i + 1) div nat (Period c)) q"
    "bip9_of T c q ((nHeight i + 1) div nat (Period c)) = bip9 T c p ((nHeight i + 1) div nat (Period c))"
proof -
  let ?P = "nat (Period c)" and ?n = "nHeight i + 1"
  have wf: "wf_tree T" and P: "0 < Period c" using ok by (simp_all add: deployment_ok_def)
  have "(int (nHeight i) + 1) smod Period c = (int (nHeight i) + 1) mod Period c"
    using P by (simp add: signed_modulo_int_def sgn_if)
  also have "\<dots> = int ?n mod int ?P" using P by (simp add: add.commute)
  also have "\<dots> = int (?n mod ?P)" by (rule zmod_int [symmetric])
  finally have "(int (nHeight i) + 1) smod Period c = int (?n mod ?P)" .
  moreover have "?n = ?n div ?P * ?P + ?n mod ?P" by simp
  ultimately have "int (nHeight i) - (int (nHeight i) + 1) smod Period c = int (?n div ?P * ?P) - 1"
    by linarith
  with period_end_ancestor [OF wf P p, of "?n div ?P"] that show thesis by (auto simp: period_parent_def p)
qed

lemma period_parent_ancestor:
  assumes "wf_tree T" "T p = Some i" "period_parent T c (Some p) = Some (Some q)" "T q = Some k"
  shows "ancestor_at T p (nHeight k) = Some q"
proof -
  let ?h = "int (nHeight i) - (int (nHeight i) + 1) smod Period c"
  have h: "ancestor_at T p (nat ?h) = Some q"
    using assms(3) unfolding period_parent_def by (simp add: assms(2) GetAncestor_spec [OF assms(1,2)] split: if_splits)
  then have "nat ?h \<le> nHeight i" using assms(2) by (auto simp: ancestor_at_def split: if_splits)
  then have "nHeight k = nat ?h" using ancestor_at_ex [OF assms(1,2)] h assms(4) by (metis option.inject)
  with h show ?thesis by simp
qed

lemma GetStateFor_spec:
  assumes "deployment_ok T c" "cache_ok T c cache" "T p = Some i" "BeginTime c \<noteq> ALWAYS_ACTIVE"
  shows "\<exists>s cache'. GetStateFor T c (Some p) cache = Some (s, cache') \<and> cache_ok T c cache' \<and>
    bip9 T c p ((nHeight i + 1) div nat (Period c)) = Some s"
proof -
  obtain q where q: "period_parent T c (Some p) = Some q" "period_end T c ((nHeight i + 1) div nat (Period c)) q"
    "bip9_of T c q ((nHeight i + 1) div nat (Period c)) = bip9 T c p ((nHeight i + 1) div nat (Period c))"
    by (rule period_parent_spec [OF assms(1,3)])
  from walk_spec [OF assms(1,2) q(2), of "[]"] q(1,3) assms(4) show ?thesis by (auto simp: GetStateFor_def walk_ok_def)
qed

section \<open>What the states mean\<close>

lemma bip9_stays:
  assumes wf: "wf_tree T" and p: "T p = Some i" and final: "s = THRESHOLD_ACTIVE \<or> s = THRESHOLD_FAILED" and P: "0 < Period c"
  shows "bip9 T c p j = Some s \<Longrightarrow> (j + n) * nat (Period c) \<le> nHeight i + 1 \<Longrightarrow> bip9 T c p (j + n) = Some s"
proof (induction n)
  case (Suc n)
  then have "(j + Suc n) * nat (Period c) - 1 \<le> nHeight i" and "bip9 T c p (j + n) = Some s" by simp_all
  moreover obtain q where "ancestor_at T p ((j + Suc n) * nat (Period c) - 1) = Some q"
    using ancestor_at_ex [OF wf p calculation(1)] by metis
  ultimately show ?case using final by (auto simp: next_state_def)
qed simp

text \<open>A state other than the first is reached by one of these transitions.\<close>

lemma bip9_LOCKED_IN:
  assumes "bip9 T c p (Suc j) = Some THRESHOLD_LOCKED_IN"
  obtains q m n where "bip9 T c p j = Some THRESHOLD_STARTED" "ancestor_at T p (Suc j * nat (Period c) - 1) = Some q"
    "GetMedianTimePast T q = Some m" "m < EndTime c" "count_conditions T c (nat (Period c)) (Some q) 0 = Some n" "Threshold c \<le> n"
  using assms by (auto simp: next_state_def split: bind_splits ThresholdState.splits if_splits)

lemma bip9_ACTIVE:
  "bip9 T c p (Suc j) = Some THRESHOLD_ACTIVE \<Longrightarrow> bip9 T c p j = Some THRESHOLD_LOCKED_IN \<or> bip9 T c p j = Some THRESHOLD_ACTIVE"
  by (auto simp: next_state_def split: bind_splits ThresholdState.splits if_splits)

text \<open>An active deployment was locked in before.\<close>

lemma bip9_was_locked_in:
  "bip9 T c p j = Some THRESHOLD_ACTIVE \<Longrightarrow> \<exists>k < j. bip9 T c p k = Some THRESHOLD_LOCKED_IN"
proof (induction j)
  case (Suc j)
  then show ?case using bip9_ACTIVE less_SucI by blast
qed simp

lemma GetStateFor_descendant:
  assumes ok: "deployment_ok T c" "BeginTime c \<noteq> ALWAYS_ACTIVE" and cache: "cache_ok T c cache" "cache_ok T c cache2"
    and p: "T p = Some i" "ancestor_at T p k = Some q" and final: "s = THRESHOLD_ACTIVE \<or> s = THRESHOLD_FAILED"
    and run: "GetStateFor T c (Some q) cache = Some (s, cache')"
  shows "\<exists>cache3. GetStateFor T c (Some p) cache2 = Some (s, cache3)"
proof -
  let ?P = "nat (Period c)"
  have wf: "wf_tree T" and P: "0 < Period c" using ok by (simp_all add: deployment_ok_def)
  have k: "k \<le> nHeight i" using p by (auto simp: ancestor_at_def split: if_splits)
  obtain j where j: "T q = Some j" "nHeight j = k" using ancestor_at_ex [OF wf p(1) k] p(2) by (metis option.inject)
  have "bip9 T c q ((k + 1) div ?P) = Some s" using GetStateFor_spec [OF ok(1) cache(1) j(1) ok(2)] run j(2) by auto
  then have "bip9 T c p ((k + 1) div ?P) = Some s"
    using bip9_ancestor [OF wf p, of "(k + 1) div ?P" c] P by (simp add: mult.commute)
  moreover obtain n where "(nHeight i + 1) div ?P = (k + 1) div ?P + n" using k by (metis add_le_cancel_right div_le_mono le_Suc_ex)
  moreover have "(nHeight i + 1) div ?P * ?P \<le> nHeight i + 1" by (rule div_times_less_eq_dividend)
  ultimately have "bip9 T c p ((nHeight i + 1) div ?P) = Some s" using bip9_stays [OF wf p(1) final P] by metis
  then show ?thesis using GetStateFor_spec [OF ok(1) cache(2) p(1) ok(2)] by auto
qed

section \<open>The height of the last change\<close>

lemma since_loop_spec:
  assumes ok: "deployment_ok T c" "BeginTime c \<noteq> ALWAYS_ACTIVE" and s: "s \<noteq> THRESHOLD_DEFINED"
  shows "T q = Some i \<Longrightarrow> nHeight i + 1 = Suc j * nat (Period c) \<Longrightarrow> GetAncestor T q (int (nHeight i) - Period c) = Some prev \<Longrightarrow>
    cache_ok T c cache \<Longrightarrow> bip9 T c q (Suc j) = Some s \<Longrightarrow>
    \<exists>r k J cache'. since_loop T c s q prev cache = Some (r, cache') \<and> cache_ok T c cache' \<and> T r = Some k \<and>
      nHeight k + 1 = Suc J * nat (Period c) \<and> J \<le> j \<and> (\<forall>m. J < m \<and> m \<le> Suc j \<longrightarrow> bip9 T c q m = Some s) \<and> bip9 T c q J \<noteq> Some s"
proof (induction j arbitrary: q i prev cache)
  case (0 q i prev cache)
  have wf: "wf_tree T" and P: "0 < Period c" using ok by (simp_all add: deployment_ok_def)
  have "int (nHeight i) - Period c < 0" using arg_cong [OF 0(2), of int] P by simp
  then have "prev = None" using 0(1,3) GetAncestor_spec [OF wf] by simp
  then have "since_loop T c s q prev cache = Some (q, cache)" by (simp add: since_loop.simps)
  moreover have "bip9 T c q m = Some s" if "0 < m \<and> m \<le> Suc 0" for m
    using 0(5) that by (cases "m = Suc 0") (simp_all del: bip9.simps)
  moreover have "bip9 T c q 0 \<noteq> Some s" using s by simp
  ultimately show ?case using 0(1,2,4)
    by (intro exI [of _ q] exI [of _ i] exI [of _ "0 :: nat"] exI [of _ cache]) (simp del: bip9.simps)
next
  case (Suc j q i prev cache)
  let ?P = "nat (Period c)"
  have wf: "wf_tree T" and P: "0 < Period c" using ok by (simp_all add: deployment_ok_def)
  have h: "int (nHeight i) - Period c = int (Suc j * ?P) - 1" using arg_cong [OF Suc.prems(2), of int] P by (simp add: algebra_simps)
  obtain r where r: "prev = Some r" "ancestor_at T q (Suc j * ?P - 1) = Some r"
  proof -
    have "Suc j * ?P - 1 \<le> nHeight i" using Suc.prems(2) by simp
    then obtain r where "ancestor_at T q (Suc j * ?P - 1) = Some r" using ancestor_at_ex [OF wf Suc.prems(1)] by metis
    moreover have "1 \<le> Suc j * ?P" using P by simp
    then have "int (Suc j * ?P) - 1 = int (Suc j * ?P - 1)" by linarith
    then have "prev = ancestor_at T q (Suc j * ?P - 1)"
      using Suc.prems(3) unfolding h GetAncestor_spec [OF wf Suc.prems(1)] by (simp only: of_nat_0_le_iff if_True nat_int option.inject)
    ultimately show thesis using that by simp
  qed
  obtain k where k: "T r = Some k" "nHeight k + 1 = Suc j * ?P"
    using ancestor_at_ex [OF wf Suc.prems(1), of "Suc j * ?P - 1"] r(2) Suc.prems(2) P by force
  have same: "bip9 T c r m = bip9 T c q m" if "m \<le> Suc j" for m
    using bip9_ancestor [OF wf Suc.prems(1) r(2), of m c] that P k(2) mult_le_mono1 [OF that, of ?P] by simp
  have "(nHeight k + 1) div ?P = Suc j" using k(2) P by simp
  then obtain s' cache' where s': "GetStateFor T c (Some r) cache = Some (s', cache')" "cache_ok T c cache'" "bip9 T c r (Suc j) = Some s'"
    using GetStateFor_spec [OF ok(1) Suc.prems(4) k(1) ok(2)] by auto
  have step: "since_loop T c s q prev cache = (if s' = s then do {
      a \<leftarrow> GetAncestor T r (int (nHeight k) - Period c);
      since_loop T c s r a cache' } else Some (q, cache'))"
    using r(1) s'(1) k(1) by (simp add: since_loop.simps [of T c s q])
  show ?case
  proof (cases "s' = s")
    case False
    then have "bip9 T c q (Suc j) \<noteq> Some s" using s'(3) same [of "Suc j"] by (simp del: bip9.simps)
    moreover have "bip9 T c q m = Some s" if "Suc j < m \<and> m \<le> Suc (Suc j)" for m
      using that Suc.prems(5) by (cases "m = Suc (Suc j)") (simp_all del: bip9.simps)
    moreover have "since_loop T c s q prev cache = Some (q, cache')" using step False by simp
    ultimately show ?thesis using s'(2) Suc.prems(1,2) by blast
  next
    case True
    have "int (nHeight k) - Period c = int (j * ?P) - 1" using arg_cong [OF k(2), of int] P by (simp add: algebra_simps)
    moreover have "j * ?P \<le> nHeight k + 1" using k(2) by simp
    ultimately obtain a where a: "GetAncestor T r (int (nHeight k) - Period c) = Some a"
      using period_end_ancestor [OF wf P k(1), of j] by metis
    have "bip9 T c r (Suc j) = Some s" using s'(3) True by simp
    from Suc.IH [OF k(1,2) a s'(2) this] obtain r' k' J cache'' where
      l: "since_loop T c s r a cache' = Some (r', cache'')" "cache_ok T c cache''" "T r' = Some k'"
        "nHeight k' + 1 = Suc J * ?P" "J \<le> j" "\<forall>m. J < m \<and> m \<le> Suc j \<longrightarrow> bip9 T c r m = Some s" "bip9 T c r J \<noteq> Some s"
      by blast
    have "bip9 T c q m = Some s" if "J < m \<and> m \<le> Suc (Suc j)" for m
      using that l(6) same [of m] Suc.prems(5) by (cases "m = Suc (Suc j)") (auto simp del: bip9.simps)
    moreover have "bip9 T c q J \<noteq> Some s" using l(5,7) same [of J] by simp
    ultimately show ?thesis using step True a l(1-5) by (intro exI [of _ r'] exI [of _ k'] exI [of _ J] exI [of _ cache'']) simp
  qed
qed


text \<open>The height is that of the first block of the period from which on the state has been the present one.\<close>

lemma GetStateSinceHeightFor_spec:
  assumes ok: "deployment_ok T c" "BeginTime c \<noteq> ALWAYS_ACTIVE" and cache: "cache_ok T c cache" and p: "T p = Some i"
    and n: "n = (nHeight i + 1) div nat (Period c)"
  shows "\<exists>s h cache'. bip9 T c p n = Some s \<and> GetStateSinceHeightFor T c (Some p) cache = Some (int h, cache') \<and> cache_ok T c cache' \<and>
    (if s = THRESHOLD_DEFINED then h = 0
     else \<exists>J < n. h = Suc J * nat (Period c) \<and> (\<forall>m. J < m \<and> m \<le> n \<longrightarrow> bip9 T c p m = Some s) \<and> bip9 T c p J \<noteq> Some s)"
proof -
  let ?P = "nat (Period c)"
  have wf: "wf_tree T" and P: "0 < Period c" using ok by (simp_all add: deployment_ok_def)
  obtain s cache1 where s: "GetStateFor T c (Some p) cache = Some (s, cache1)" "cache_ok T c cache1" "bip9 T c p n = Some s"
    using GetStateFor_spec [OF ok(1) cache p ok(2)] n by auto
  show ?thesis
  proof (cases "s = THRESHOLD_DEFINED")
    case True
    then show ?thesis using s ok(2) by (intro exI [of _ s] exI [of _ "0 :: nat"] exI [of _ cache1]) (simp add: GetStateSinceHeightFor_def)
  next
    case False
    then obtain j where j: "n = Suc j" using s(3) by (cases n) auto
    obtain a where a: "period_parent T c (Some p) = Some a" "period_end T c n a" "bip9_of T c a n = bip9 T c p n"
      using period_parent_spec [OF ok(1) p] n by metis
    obtain q k where q: "a = Some q" "T q = Some k" "nHeight k + 1 = Suc j * ?P"
      using a(2) P unfolding period_end_def j by (auto split: option.splits if_splits)
    have h: "int (nHeight k) - Period c = int (j * ?P) - 1" using arg_cong [OF q(3), of int] P by (simp add: algebra_simps)
    obtain prev where prev: "GetAncestor T q (int (nHeight k) - Period c) = Some prev"
      using period_end_ancestor [OF wf P q(2), of j] q(3) unfolding h by auto
    have "bip9 T c q (Suc j) = Some s" using a(3) s(3) q(1) j by (simp add: bip9_of_def del: bip9.simps)
    from since_loop_spec [OF ok False q(2,3) prev s(2) this] obtain r l J cache' where
      r: "since_loop T c s q prev cache1 = Some (r, cache')" "cache_ok T c cache'" "T r = Some l"
        "nHeight l + 1 = Suc J * ?P" "J \<le> j" "\<forall>m. J < m \<and> m \<le> Suc j \<longrightarrow> bip9 T c q m = Some s" "bip9 T c q J \<noteq> Some s" by blast
    have "GetStateSinceHeightFor T c (Some p) cache = Some (int (nHeight l) + 1, cache')"
      using s(1) False ok(2) p a(1) q(1,2) prev r(1,3) by (simp add: GetStateSinceHeightFor_def period_parent_def)
    moreover have "int (nHeight l) + 1 = int (Suc J * ?P)" using arg_cong [OF r(4), of int] by simp
    moreover have "ancestor_at T p (nHeight k) = Some q" using period_parent_ancestor [OF wf p _ q(2)] a(1) q(1) by blast
    then have "bip9 T c q m = bip9 T c p m" if "m \<le> n" for m
      using bip9_ancestor [OF wf p, of "nHeight k" q m c] P q(3) j mult_le_mono1 [OF that, of ?P] by simp
    ultimately have "GetStateSinceHeightFor T c (Some p) cache = Some (int (Suc J * ?P), cache')"
      and same: "\<And>m. m \<le> n \<Longrightarrow> bip9 T c q m = bip9 T c p m" by (metis, blast)
    moreover have "\<exists>J' < n. Suc J * ?P = Suc J' * ?P \<and> (\<forall>m. J' < m \<and> m \<le> n \<longrightarrow> bip9 T c p m = Some s) \<and> bip9 T c p J' \<noteq> Some s"
      using r(5-7) j same by (intro exI [of _ J]) (simp del: bip9.simps mult_Suc)
    ultimately show ?thesis using s(3) r(2) False
      by (intro exI [of _ s] exI [of _ "Suc J * ?P"] exI [of _ cache']) (simp only: if_False simp_thms)
  qed
qed

section \<open>An example\<close>

text \<open>A chain of four blocks, and a deployment with periods of one block that every block signals.\<close>

definition ex_dep_tree :: block_tree where
  "ex_dep_tree p = (if p < 4 then Some (CBlockIndex_SetNull\<lparr>nHeight := p, pprev := (if p = 0 then None else Some (p - 1)),
     idx_nTime := of_nat p + 1\<rparr>) else None)"

definition ex_dep :: checker where
  "ex_dep = \<lparr>Condition = (\<lambda>i. True), BeginTime = 0, EndTime = 100, Period = 1, Threshold = 1\<rparr>"

lemma ex_dep_times:
  "GetMedianTimePast ex_dep_tree 0 = Some 1" "GetMedianTimePast ex_dep_tree (Suc 0) = Some 2"
  "GetMedianTimePast ex_dep_tree (Suc (Suc 0)) = Some 2" "GetMedianTimePast ex_dep_tree (Suc (Suc (Suc 0))) = Some 3"
  by code_simp+

lemma ex_dep_ok: "deployment_ok ex_dep_tree ex_dep"
proof -
  have "m < uint (idx_nTime i)" if "ex_dep_tree p = Some i" "pprev i = Some q" "GetMedianTimePast ex_dep_tree q = Some m" for p i q m
  proof -
    have p: "p = 1 \<or> p = 2 \<or> p = 3" "q = p - 1" "i = the (ex_dep_tree p)"
      using that(1,2) by (auto simp: ex_dep_tree_def CBlockIndex_SetNull_def split: if_splits)
    have "uint (idx_nTime (the (ex_dep_tree 1))) = 2" "uint (idx_nTime (the (ex_dep_tree 2))) = 3"
      "uint (idx_nTime (the (ex_dep_tree 3))) = 4" by code_simp+
    with p that(3) ex_dep_times show ?thesis by (auto simp: numeral_2_eq_2)
  qed
  moreover have "wf_tree ex_dep_tree"
    by (auto simp: wf_tree_def wf_entry_def ex_dep_tree_def CBlockIndex_SetNull_def split: if_splits)
  ultimately show ?thesis unfolding deployment_ok_def by (auto simp: ex_dep_def)
qed

lemma ex_dep_bip9: "bip9 ex_dep_tree ex_dep 2 (Suc (Suc (Suc 0))) = Some THRESHOLD_ACTIVE"
  by code_simp

end
