(* ===== verification/Eh_Arrays.thy ===== *)
theory Eh_Arrays
  imports Transaction "HOL-Library.Monad_Syntax"
begin

text \<open>
  The packing of Equihash indices (\<open>crypto/equihash.cpp\<close>): \<open>ExpandArray\<close> cuts a byte string into
  groups of \<open>bit_len\<close> bits, \<open>CompressArray\<close> joins them again, and solutions are lists of indices packed this way.
  Both keep the bits they have not yet used in a 32-bit accumulator.  The proofs read a byte string as one
  number in base 256 and the groups as the same number in base \<open>2 ^ bit_len\<close>.
\<close>

section \<open>The code\<close>

text \<open>Each function returns the output bytes; what it does not write keeps the content of the buffer \<open>out\<close>.\<close>

fun expand_loop :: "nat \<Rightarrow> nat \<Rightarrow> u32 \<Rightarrow> nat \<Rightarrow> u32 \<Rightarrow> bytes \<Rightarrow> bytes" where
  "expand_loop bit_len byte_pad bit_len_mask acc_bits acc_value [] = []"
| "expand_loop bit_len byte_pad bit_len_mask acc_bits acc_value (b # bs) =
     (let out_width = (bit_len + 7) div 8 + byte_pad;
          acc_value = push_bit 8 acc_value OR ucast b;
          acc_bits = acc_bits + 8
      in if acc_bits \<ge> bit_len
         then let acc_bits = acc_bits - bit_len
           in replicate byte_pad 0 @
              map (\<lambda>x. ucast (drop_bit (acc_bits + 8 * (out_width - x - 1)) acc_value AND
                              (drop_bit (8 * (out_width - x - 1)) bit_len_mask AND 0xFF))) [byte_pad ..< out_width] @
              expand_loop bit_len byte_pad bit_len_mask acc_bits acc_value bs
         else expand_loop bit_len byte_pad bit_len_mask acc_bits acc_value bs)"

definition ExpandArray :: "bytes \<Rightarrow> bytes \<Rightarrow> nat \<Rightarrow> nat \<Rightarrow> bytes option" where
  "ExpandArray inp out bit_len byte_pad =
     (if \<not> (bit_len \<ge> 8) then None
      else if \<not> (8 * 4 \<ge> 7 + bit_len) then None
      else let out_width = (bit_len + 7) div 8 + byte_pad
        in if length out \<noteq> 8 * out_width * length inp div bit_len then None
           else let bit_len_mask = push_bit bit_len (1 :: u32) - 1;
                    written = expand_loop bit_len byte_pad bit_len_mask 0 0 inp
             in Some (written @ drop (length written) out))"

text \<open>The inner loop of \<open>CompressArray\<close> reads one element; a read past the end of the input is \<open>None\<close>.\<close>

definition read_element :: "nat \<Rightarrow> nat \<Rightarrow> u32 \<Rightarrow> u32 \<Rightarrow> bytes \<Rightarrow> u32" where
  "read_element in_width byte_pad bit_len_mask acc_value inp =
     foldl (\<lambda>acc_value x. acc_value OR
       push_bit (8 * (in_width - x - 1)) (ucast (inp ! x) AND (drop_bit (8 * (in_width - x - 1)) bit_len_mask AND 0xFF)))
       acc_value [byte_pad ..< in_width]"

fun compress_loop :: "nat \<Rightarrow> nat \<Rightarrow> u32 \<Rightarrow> nat \<Rightarrow> nat \<Rightarrow> u32 \<Rightarrow> bytes \<Rightarrow> bytes option" where
  "compress_loop bit_len byte_pad bit_len_mask 0 acc_bits acc_value inp = Some []"
| "compress_loop bit_len byte_pad bit_len_mask (Suc n) acc_bits acc_value inp =
     (let in_width = (bit_len + 7) div 8 + byte_pad
      in if acc_bits < 8
         then if length inp < in_width then None
           else let acc_value = read_element in_width byte_pad bit_len_mask (push_bit bit_len acc_value) inp;
                    acc_bits = acc_bits + bit_len - 8
             in map_option ((#) (ucast (drop_bit acc_bits acc_value AND 0xFF)))
                  (compress_loop bit_len byte_pad bit_len_mask n acc_bits acc_value (drop in_width inp))
         else let acc_bits = acc_bits - 8
           in map_option ((#) (ucast (drop_bit acc_bits acc_value AND 0xFF)))
                (compress_loop bit_len byte_pad bit_len_mask n acc_bits acc_value inp))"

definition CompressArray :: "bytes \<Rightarrow> nat \<Rightarrow> nat \<Rightarrow> nat \<Rightarrow> bytes option" where
  "CompressArray inp out_len bit_len byte_pad =
     (if \<not> (bit_len \<ge> 8) then None
      else if \<not> (8 * 4 \<ge> 7 + bit_len) then None
      else let in_width = (bit_len + 7) div 8 + byte_pad
        in if out_len \<noteq> bit_len * length inp div (8 * in_width) then None
           else let bit_len_mask = push_bit bit_len (1 :: u32) - 1
             in compress_loop bit_len byte_pad bit_len_mask out_len 0 0 inp)"

definition EhIndexToArray :: "u32 \<Rightarrow> bytes" where
  "EhIndexToArray i = rev (WriteLE32 i)"

definition ArrayToEhIndex :: "bytes \<Rightarrow> u32" where
  "ArrayToEhIndex a = ReadLE32 (rev (take 4 a))"

definition GetIndicesFromMinimal :: "bytes \<Rightarrow> nat \<Rightarrow> u32 list option" where
  "GetIndicesFromMinimal minimal cBitLen =
     (if \<not> (((cBitLen + 1) + 7) div 8 \<le> 4) then None
      else let lenIndices = 8 * 4 * length minimal div (cBitLen + 1);
               bytePad = 4 - ((cBitLen + 1) + 7) div 8
        in do {
             a \<leftarrow> ExpandArray minimal (replicate lenIndices 0) (cBitLen + 1) bytePad;
             if lenIndices mod 4 \<noteq> 0 then None
             else Some (map (\<lambda>i. ArrayToEhIndex (drop (4 * i) a)) [0 ..< lenIndices div 4]) })"

definition GetMinimalFromIndices :: "u32 list \<Rightarrow> nat \<Rightarrow> bytes option" where
  "GetMinimalFromIndices indices cBitLen =
     (if \<not> (((cBitLen + 1) + 7) div 8 \<le> 4) then None
      else let lenIndices = length indices * 4;
               minLen = (cBitLen + 1) * lenIndices div (8 * 4);
               bytePad = 4 - ((cBitLen + 1) + 7) div 8
        in CompressArray (concat (map EhIndexToArray indices)) minLen (cBitLen + 1) bytePad)"

section \<open>Numbers in a base\<close>

text \<open>The number that the digits \<open>ds\<close> continue from \<open>v\<close>, most significant digit first.\<close>

definition horner :: "nat \<Rightarrow> nat \<Rightarrow> nat list \<Rightarrow> nat" where
  "horner B v ds = foldl (\<lambda>v d. v * B + d) v ds"

lemma horner_simps [simp]: "horner B v [] = v" "horner B v (d # ds) = horner B (v * B + d) ds"
  by (simp_all add: horner_def)

lemma horner_inj:
  "horner B v xs = horner B w ys \<Longrightarrow> length xs = length ys \<Longrightarrow> list_all (\<lambda>d. d < B) xs \<Longrightarrow> list_all (\<lambda>d. d < B) ys \<Longrightarrow>
   v = w \<and> xs = ys"
proof (induction xs arbitrary: v w ys)
  case (Cons x xs)
  then obtain y ys' where y: "ys = y # ys'" by (cases ys) auto
  with Cons.IH [of "v * B + x" "w * B + y" ys'] Cons.prems have e: "v * B + x = w * B + y" "xs = ys'" by auto
  have "x < B" "y < B" using Cons.prems y by auto
  then have "v = w" using arg_cong [OF e(1), of "\<lambda>z. z div B"] by (cases "B = 0") auto
  with e y show ?case by simp
qed simp

text \<open>The \<open>k\<close> low bytes of a number.\<close>

definition be_bytes :: "nat \<Rightarrow> nat \<Rightarrow> bytes" where
  "be_bytes k v = map (\<lambda>q. of_nat (v div 256 ^ q)) (rev [0 ..< k])"

lemma length_be_bytes [simp]: "length (be_bytes k v) = k"
  by (simp add: be_bytes_def)

section \<open>Groups of bits as numbers\<close>

text \<open>The pending \<open>a\<close> bits are the number \<open>p\<close>.\<close>

fun group_bits :: "nat \<Rightarrow> nat \<Rightarrow> nat \<Rightarrow> nat list \<Rightarrow> nat list" where
  "group_bits L a p [] = []"
| "group_bits L a p (b # bs) =
     (if L \<le> a + 8 then (p * 256 + b) div 2 ^ (a + 8 - L) # group_bits L (a + 8 - L) ((p * 256 + b) mod 2 ^ (a + 8 - L)) bs
      else group_bits L (a + 8) (p * 256 + b) bs)"

fun ungroup_bits :: "nat \<Rightarrow> nat \<Rightarrow> nat \<Rightarrow> nat \<Rightarrow> nat list \<Rightarrow> nat list" where
  "ungroup_bits L 0 a p vs = []"
| "ungroup_bits L (Suc n) a p vs =
     (if a < 8 then (p * 2 ^ L + hd vs) div 2 ^ (a + L - 8) # ungroup_bits L n (a + L - 8) ((p * 2 ^ L + hd vs) mod 2 ^ (a + L - 8)) (tl vs)
      else p div 2 ^ (a - 8) # ungroup_bits L n (a - 8) (p mod 2 ^ (a - 8)) vs)"

lemma power_split: "b \<le> a \<Longrightarrow> (2 :: nat) ^ a = 2 ^ b * 2 ^ (a - b)"
  by (simp flip: power_add)

lemma group_bits_spec:
  "8 \<le> L \<Longrightarrow> p < 2 ^ a \<Longrightarrow> a < L \<Longrightarrow> list_all (\<lambda>b. b < 256) bs \<Longrightarrow> a + 8 * length bs = L * m \<Longrightarrow>
    length (group_bits L a p bs) = m \<and> list_all (\<lambda>v. v < 2 ^ L) (group_bits L a p bs) \<and>
    horner 256 (e * 2 ^ a + p) bs = horner (2 ^ L) e (group_bits L a p bs)"
proof (induction L a p bs arbitrary: m e rule: group_bits.induct)
  case (1 L a p)
  then show ?case by (cases m) auto
next
  case (2 L a p b bs)
  let ?p = "p * 256 + b" and ?a = "a + 8 - L"
  have p8: "?p < 2 ^ (a + 8)"
  proof -
    have "?p < Suc p * 256" using 2 by simp
    also have "\<dots> \<le> 2 ^ a * 256" using 2 by (intro mult_le_mono1) simp
    finally show ?thesis by (simp add: power_add)
  qed
  have t: "(e * 2 ^ a + p) * 256 + b = e * 2 ^ (a + 8) + ?p" by (simp add: power_add algebra_simps)
  show ?case
  proof (cases "L \<le> a + 8")
    case True
    then obtain k where m: "m = Suc k" using 2 by (cases m) auto
    have pw: "(2 :: nat) ^ (a + 8) = 2 ^ L * 2 ^ ?a" using True by (rule power_split)
    have "e * 2 ^ (a + 8) + ?p = (e * 2 ^ L + ?p div 2 ^ ?a) * 2 ^ ?a + ?p mod 2 ^ ?a"
      by (simp add: pw algebra_simps)
    moreover have "?p div 2 ^ ?a < 2 ^ L" using p8 pw by (simp add: less_mult_imp_div_less)
    moreover have "?a + 8 * length bs = L * k" using 2 True m by simp
    moreover have "?a < L" using 2 True by simp
    ultimately show ?thesis using 2(1) [OF True, of k "e * 2 ^ L + ?p div 2 ^ ?a"] 2 True m t by simp
  next
    case False
    have "horner 256 (e * 2 ^ a + p) (b # bs) = horner 256 (e * 2 ^ (a + 8) + ?p) bs" by (simp only: horner_simps t)
    then show ?thesis using 2(2) [OF False _ p8, of m e] 2 False by simp
  qed
qed

lemma ungroup_bits_spec:
  assumes L: "8 \<le> L"
  shows "p < 2 ^ a \<Longrightarrow> list_all (\<lambda>v. v < 2 ^ L) vs \<Longrightarrow> L * length vs + a = 8 * n \<Longrightarrow>
    length (ungroup_bits L n a p vs) = n \<and> list_all (\<lambda>b. b < 256) (ungroup_bits L n a p vs) \<and>
    horner (2 ^ L) (e * 2 ^ a + p) vs = horner 256 e (ungroup_bits L n a p vs)"
proof (induction n arbitrary: a p vs e)
  case 0
  then have "vs = []" "a = 0" using L by auto
  with 0 show ?case by simp
next
  case (Suc n)
  have step: "length (ungroup_bits L n b (P mod 2 ^ b) ws) = n \<and> list_all (\<lambda>b. b < 256) (ungroup_bits L n b (P mod 2 ^ b) ws) \<and>
      P div 2 ^ b < 256 \<and>
      horner (2 ^ L) (e * 2 ^ (b + 8) + P) ws = horner 256 (e * 256 + P div 2 ^ b) (ungroup_bits L n b (P mod 2 ^ b) ws)"
    if "P < 2 ^ (b + 8)" "list_all (\<lambda>v. v < 2 ^ L) ws" "L * length ws + b = 8 * n" for b P ws
  proof -
    have "e * 2 ^ (b + 8) + P = (e * 256 + P div 2 ^ b) * 2 ^ b + P mod 2 ^ b" by (simp add: power_add algebra_simps)
    moreover have "P div 2 ^ b < 256" using that(1) by (simp add: power_add less_mult_imp_div_less mult.commute)
    ultimately show ?thesis using Suc.IH [of "P mod 2 ^ b" b ws "e * 256 + P div 2 ^ b"] that by simp
  qed
  show ?case
  proof (cases "a < 8")
    case True
    then obtain v ws where vs: "vs = v # ws" using Suc.prems by (cases vs) auto
    let ?P = "p * 2 ^ L + v"
    have "?P < Suc p * 2 ^ L" using Suc.prems vs by simp
    also have "\<dots> \<le> 2 ^ a * 2 ^ L" using Suc.prems by (intro mult_le_mono1) simp
    finally have P: "?P < 2 ^ (a + L - 8 + 8)" using L by (simp add: power_add)
    have "(e * 2 ^ a + p) * 2 ^ L + v = e * 2 ^ (a + L) + ?P" by (simp add: power_add algebra_simps)
    then have "horner (2 ^ L) (e * 2 ^ a + p) vs = horner (2 ^ L) (e * 2 ^ (a + L - 8 + 8) + ?P) ws"
      using vs L by (simp add: add.assoc)
    then show ?thesis using step [OF P, of ws] Suc.prems vs True L by simp
  next
    case False
    then have a: "a - 8 + 8 = a" by simp
    show ?thesis using step [of p "a - 8" vs] Suc.prems False unfolding a by simp
  qed
qed

section \<open>The loops compute the groups\<close>

lemma mask_push: "push_bit L (1 :: u32) - 1 = mask L"
  by (simp add: mask_eq_decr_exp)

lemma emitted_byte:
  "(ucast (drop_bit (a + 8 * q) (acc :: u32) AND (drop_bit (8 * q) (mask L) AND 0xFF)) :: u8) =
   of_nat (unat acc mod 2 ^ (a + L) div 2 ^ a div 256 ^ q)" if "L \<le> 32"
proof (rule bit_word_eqI)
  fix n assume n: "n < LENGTH(8)"
  have v: "unat acc mod 2 ^ (a + L) div 2 ^ a = take_bit L (drop_bit a (unat acc))"
    by (simp add: take_bit_drop_bit add.commute flip: take_bit_eq_mod drop_bit_eq_div)
  have w: "m div 256 ^ q = drop_bit (8 * q) m" for m :: nat by (simp add: drop_bit_eq_div power_mult)
  have f: "(0xFF :: u32) = mask 8" by (simp add: mask_eq_exp_minus_1)
  show "bit (ucast (drop_bit (a + 8 * q) acc AND (drop_bit (8 * q) (mask L) AND 0xFF)) :: u8) n =
      bit (of_nat (unat acc mod 2 ^ (a + L) div 2 ^ a div 256 ^ q) :: u8) n"
    unfolding v w f using n that by (auto simp: bit_simps bit_unat algebra_simps dest: bit_imp_le_length)
qed

lemma read_value:
  assumes "a + L \<le> 32" "v < 2 ^ L"
  shows "unat (push_bit L (acc :: u32) OR of_nat v) mod 2 ^ (a + L) = unat acc mod 2 ^ a * 2 ^ L + v"
proof -
  have "(2 :: nat) ^ L \<le> 2 ^ 32" using assms(1) by (intro power_increasing) simp_all
  then have "v < 2 ^ 32" using assms(2) by linarith
  then have v: "unat (of_nat v :: u32) = v" by (simp add: unsigned_of_nat take_bit_nat_eq_self)
  have high: "n < L" if "bit v n" for n using that assms(2) by (metis bit_take_bit_iff take_bit_nat_eq_self)
  have "push_bit L acc OR of_nat v = push_bit L acc + of_nat v"
    by (rule disjunctive_add [symmetric]) (use high in \<open>auto simp: bit_simps dest!: high\<close>)
  then have "unat (push_bit L acc OR of_nat v) = (unat acc * 2 ^ L mod 2 ^ 32 + v) mod 2 ^ 32"
    by (simp add: unat_word_ariths unat_push_bit v)
  moreover have "x mod 2 ^ 32 mod 2 ^ (a + L) = x mod 2 ^ (a + L)" for x :: nat
    using assms by (intro mod_mod_cancel le_imp_power_dvd)
  ultimately have "unat (push_bit L acc OR of_nat v) mod 2 ^ (a + L) = (unat acc * 2 ^ L + v) mod 2 ^ (a + L)"
    by (metis mod_add_left_eq)
  also have "\<dots> = (unat acc * 2 ^ L + v) mod (2 ^ L * 2 ^ a)" by (simp add: power_add mult.commute)
  also have "\<dots> = 2 ^ L * ((unat acc * 2 ^ L + v) div 2 ^ L mod 2 ^ a) + (unat acc * 2 ^ L + v) mod 2 ^ L" by (rule mod_mult2_eq)
  also have "\<dots> = unat acc mod 2 ^ a * 2 ^ L + v" using assms(2) by simp
  finally show ?thesis .
qed

lemma fed_value:
  assumes "a + 8 \<le> 32"
  shows "unat (push_bit 8 (acc :: u32) OR ucast (b :: u8)) mod 2 ^ (a + 8) = unat acc mod 2 ^ a * 256 + unat b"
  using read_value [OF assms, of "unat b" acc] unat_bound_u8 [of b] by simp

definition element_bytes :: "nat \<Rightarrow> nat \<Rightarrow> nat \<Rightarrow> bytes" where
  "element_bytes L pad v = replicate pad 0 @ be_bytes ((L + 7) div 8) v"

lemma length_element_bytes [simp]: "length (element_bytes L pad v) = (L + 7) div 8 + pad"
  by (simp add: element_bytes_def)

lemma map_upt_rev: "map (\<lambda>x. f (w + pad - x - 1)) [pad ..< w + pad] = map f (rev [0 ..< w])"
proof (rule nth_equalityI)
  fix i assume i: "i < length (map (\<lambda>x. f (w + pad - x - 1)) [pad ..< w + pad])"
  have "w + pad - (pad + i) - 1 = w - Suc i" by simp
  with i show "map (\<lambda>x. f (w + pad - x - 1)) [pad ..< w + pad] ! i = map f (rev [0 ..< w]) ! i" by (simp add: rev_nth)
qed simp

lemma emitted_bytes:
  assumes "L \<le> 32"
  shows "map (\<lambda>x. ucast (drop_bit (a + 8 * ((L + 7) div 8 + pad - x - 1)) (acc :: u32) AND
        (drop_bit (8 * ((L + 7) div 8 + pad - x - 1)) (mask L) AND 0xFF)) :: u8) [pad ..< (L + 7) div 8 + pad] =
      be_bytes ((L + 7) div 8) (unat acc mod 2 ^ (a + L) div 2 ^ a)"
  unfolding be_bytes_def
  using map_upt_rev [of "\<lambda>q. ucast (drop_bit (a + 8 * q) acc AND (drop_bit (8 * q) (mask L) AND 0xFF)) :: u8" "(L + 7) div 8" pad]
  by (simp only: emitted_byte [OF assms])

lemma expand_loop_groups:
  assumes "8 \<le> L" "7 + L \<le> 32"
  shows "a < L \<Longrightarrow> expand_loop L pad (mask L) a acc bs =
    concat (map (element_bytes L pad) (group_bits L a (unat acc mod 2 ^ a) (map unat bs)))"
proof (induction bs arbitrary: a acc)
  case (Cons b bs)
  let ?acc = "push_bit 8 acc OR ucast b" and ?p = "unat acc mod 2 ^ a * 256 + unat b"
  have p: "unat ?acc mod 2 ^ (a + 8) = ?p" using Cons.prems assms by (intro fed_value) simp
  show ?case
  proof (cases "L \<le> a + 8")
    case True
    let ?a = "a + 8 - L"
    note emitted_bytes [of L ?a pad ?acc]
    moreover have "unat ?acc mod 2 ^ ?a = ?p mod 2 ^ ?a"
      unfolding p [symmetric] using assms by (intro mod_mod_cancel [symmetric] le_imp_power_dvd) simp
    moreover have "?a + L = a + 8" "?a < L" using True assms Cons.prems by simp_all
    ultimately show ?thesis using Cons.IH [of ?a ?acc] True p assms by (simp add: Let_def element_bytes_def)
  next
    case False
    then show ?thesis using Cons.IH [of "a + 8" ?acc] p by (simp add: Let_def)
  qed
qed simp

lemma bit_foldl_or:
  "bit (foldl (\<lambda>acc x. acc OR f x) acc xs) n \<longleftrightarrow> bit acc n \<or> (\<exists>x \<in> set xs. bit (f x) n)" for acc :: u32
  by (induction xs arbitrary: acc) (auto simp: bit_simps)

lemma nth_element_bytes:
  assumes "q < (L + 7) div 8"
  shows "(element_bytes L pad v @ rest) ! ((L + 7) div 8 + pad - q - 1) = of_nat (v div 256 ^ q)"
proof -
  have "(L + 7) div 8 - Suc ((L + 7) div 8 + pad - q - 1 - pad) = q" using assms by simp
  then show ?thesis using assms by (simp add: element_bytes_def be_bytes_def nth_append rev_nth)
qed

lemma read_element_value:
  assumes L: "L \<le> 32" and v: "v < 2 ^ L"
  shows "read_element ((L + 7) div 8 + pad) pad (mask L) acc (element_bytes L pad v @ rest) = acc OR of_nat v"
proof (rule bit_word_eqI)
  let ?w = "(L + 7) div 8" and ?in = "element_bytes L pad v @ rest"
  let ?f = "\<lambda>x. push_bit (8 * (?w + pad - x - 1)) (ucast (?in ! x) AND (drop_bit (8 * (?w + pad - x - 1)) (mask L) AND 0xFF)) :: u32"
  fix n assume n: "n < LENGTH(32)"
  have f: "(0xFF :: u32) = mask 8" by (simp add: mask_eq_exp_minus_1)
  have at: "bit (?f (?w + pad - q - 1)) n \<longleftrightarrow> 8 * q \<le> n \<and> n < 8 * q + 8 \<and> n < L \<and> bit v n" if "q < ?w" for q
  proof -
    have "?w + pad - (?w + pad - q - 1) - 1 = q" using that by simp
    moreover have "v div 256 ^ q = drop_bit (8 * q) v" by (simp add: drop_bit_eq_div power_mult)
    ultimately show ?thesis using n L
      unfolding nth_element_bytes [OF that] f by (auto simp: bit_simps dest: bit_imp_le_length)
  qed
  have high: "n < L" if "bit v n" using v that by (metis bit_take_bit_iff take_bit_nat_eq_self)
  have "(\<exists>x \<in> set [pad ..< ?w + pad]. bit (?f x) n) \<longleftrightarrow> bit v n"
  proof
    assume "\<exists>x \<in> set [pad ..< ?w + pad]. bit (?f x) n"
    then obtain x where x: "pad \<le> x" "x < ?w + pad" "bit (?f x) n" by auto
    then have "x = ?w + pad - (?w + pad - x - 1) - 1" "?w + pad - x - 1 < ?w" by simp_all
    with at [of "?w + pad - x - 1"] x(3) show "bit v n" by metis
  next
    assume b: "bit v n"
    have q: "n div 8 < ?w" using high [OF b] by simp
    have "8 * (n div 8) \<le> n" "n < 8 * (n div 8) + 8" by simp_all
    then have "bit (?f (?w + pad - n div 8 - 1)) n" using at [OF q] high [OF b] b by blast
    moreover have "?w + pad - n div 8 - 1 \<in> set [pad ..< ?w + pad]" using q by simp
    ultimately show "\<exists>x \<in> set [pad ..< ?w + pad]. bit (?f x) n" by blast
  qed
  then show "bit (read_element (?w + pad) pad (mask L) acc ?in) n = bit (acc OR of_nat v) n"
    using n unfolding read_element_def bit_foldl_or by (auto simp: bit_simps)
qed

lemma compressed_byte: "(ucast (drop_bit a (acc :: u32) AND 0xFF) :: u8) = of_nat (unat acc mod 2 ^ (a + 8) div 2 ^ a)"
  using emitted_byte [of 8 a 0 acc] by (simp add: mask_eq_exp_minus_1)

lemma compress_loop_groups:
  assumes L: "8 \<le> L" "7 + L \<le> 32"
  shows "a < L \<Longrightarrow> list_all (\<lambda>v. v < 2 ^ L) vs \<Longrightarrow> L * length vs + a = 8 * n \<Longrightarrow>
    compress_loop L pad (mask L) n a acc (concat (map (element_bytes L pad) vs)) =
    Some (map of_nat (ungroup_bits L n a (unat acc mod 2 ^ a) vs))"
proof (induction n arbitrary: a acc vs)
  case (Suc n)
  have cancel: "x mod 2 ^ (b + 8) mod 2 ^ b = x mod 2 ^ b" for x b :: nat by (intro mod_mod_cancel le_imp_power_dvd) simp
  show ?case
  proof (cases "a < 8")
    case True
    then obtain v ws where vs: "vs = v # ws" using Suc.prems by (cases vs) auto
    let ?acc = "push_bit L acc OR of_nat v" and ?a = "a + L - 8" and ?P = "unat acc mod 2 ^ a * 2 ^ L + v"
    have a: "?a + 8 = a + L" using L by simp
    have P: "unat ?acc mod 2 ^ (?a + 8) = ?P" unfolding a using True L vs Suc.prems by (intro read_value) simp_all
    then have q: "unat ?acc mod 2 ^ ?a = ?P mod 2 ^ ?a" by (metis cancel)
    have "compress_loop L pad (mask L) n ?a ?acc (concat (map (element_bytes L pad) ws)) =
        Some (map of_nat (ungroup_bits L n ?a (?P mod 2 ^ ?a) ws))"
      using Suc.IH [of ?a ws ?acc] Suc.prems vs True L q by simp
    moreover have "read_element ((L + 7) div 8 + pad) pad (mask L) (push_bit L acc) (concat (map (element_bytes L pad) vs)) = ?acc"
      using read_element_value [of L v pad] vs L Suc.prems by simp
    ultimately show ?thesis using True vs P by (simp add: Let_def compressed_byte)
  next
    case False
    have "unat acc mod 2 ^ (a - 8 + 8) = unat acc mod 2 ^ a" using False by simp
    moreover from this have "unat acc mod 2 ^ (a - 8) = unat acc mod 2 ^ a mod 2 ^ (a - 8)" by (metis cancel)
    ultimately show ?thesis using Suc.IH [of "a - 8" vs acc] Suc.prems False by (simp add: Let_def compressed_byte)
  qed
qed simp

section \<open>Indices and their packed form\<close>

lemma be_bytes_append: "v < 256 ^ k \<Longrightarrow> be_bytes (k + m) v = replicate m 0 @ be_bytes k v"
proof (induction m)
  case (Suc m)
  have "v < 256 ^ (k + m)" using Suc.prems power_increasing [of k "k + m" "256 :: nat"] by linarith
  with Suc show ?case by (simp add: be_bytes_def)
qed simp

lemma EhIndexToArray_be: "EhIndexToArray i = be_bytes 4 (unat i)"
proof -
  have "(ucast (drop_bit (8 * k) i) :: u8) = of_nat (unat i div 256 ^ k)" for k
  proof -
    have "unat i div 256 ^ k = unat (drop_bit (8 * k) i)" by (simp add: unat_drop_bit power_mult)
    then show ?thesis by simp
  qed
  then show ?thesis by (simp add: EhIndexToArray_def WriteLE32_def le_write_def be_bytes_def rev_map)
qed

lemma EhIndexToArray_element:
  assumes "L \<le> 32" "unat i < 2 ^ L"
  shows "EhIndexToArray i = element_bytes L (4 - (L + 7) div 8) (unat i)"
proof -
  have "(2 :: nat) ^ L \<le> 2 ^ (8 * ((L + 7) div 8))" by (intro power_increasing) linarith+
  then have "unat i < 256 ^ ((L + 7) div 8)" using assms(2) by (simp add: power_mult)
  moreover have "(L + 7) div 8 + (4 - (L + 7) div 8) = 4" using assms(1) by simp
  ultimately show ?thesis using be_bytes_append by (metis EhIndexToArray_be element_bytes_def)
qed

lemma ArrayToEhIndex_append: "ArrayToEhIndex (EhIndexToArray i @ rest) = i"
proof -
  have "take 4 (EhIndexToArray i @ rest) = EhIndexToArray i" by (simp add: EhIndexToArray_be)
  then show ?thesis by (simp add: ArrayToEhIndex_def EhIndexToArray_def ReadLE32_def WriteLE32_def length_simps le_read_write)
qed

lemma ArrayToEhIndex_element:
  assumes "L \<le> 32" "v < 2 ^ L"
  shows "ArrayToEhIndex (element_bytes L (4 - (L + 7) div 8) v @ rest) = of_nat v"
proof -
  have "(2 :: nat) ^ L \<le> 2 ^ 32" using assms(1) by (intro power_increasing) simp_all
  then have "v < 2 ^ 32" using assms(2) by linarith
  then have "unat (of_nat v :: u32) = v" by (simp add: unsigned_of_nat take_bit_nat_eq_self)
  with EhIndexToArray_element [of L "of_nat v"] assms show ?thesis by (metis ArrayToEhIndex_append)
qed

lemma map_drop_concat:
  "\<forall>x \<in> set xs. length (f x) = w \<Longrightarrow> i < length xs \<Longrightarrow> drop (w * i) (concat (map f xs)) = f (xs ! i) @ concat (map f (drop (Suc i) xs))"
proof (induction xs arbitrary: i)
  case (Cons x xs)
  then show ?case by (cases i) simp_all
qed simp

lemma read_elements:
  assumes L: "L \<le> 32" and vs: "list_all (\<lambda>v. v < 2 ^ L) vs"
  shows "map (\<lambda>i. ArrayToEhIndex (drop (4 * i) (concat (map (element_bytes L (4 - (L + 7) div 8)) vs)))) [0 ..< length vs] = map of_nat vs"
proof (rule nth_equalityI)
  fix i assume "i < length (map (\<lambda>i. ArrayToEhIndex (drop (4 * i) (concat (map (element_bytes L (4 - (L + 7) div 8)) vs)))) [0 ..< length vs])"
  then have i: "i < length vs" by simp
  have "drop (4 * i) (concat (map (element_bytes L (4 - (L + 7) div 8)) vs)) =
      element_bytes L (4 - (L + 7) div 8) (vs ! i) @ concat (map (element_bytes L (4 - (L + 7) div 8)) (drop (Suc i) vs))"
    using L i by (intro map_drop_concat) simp_all
  moreover have "vs ! i < 2 ^ L" using vs i by (simp add: list_all_length)
  ultimately show "map (\<lambda>i. ArrayToEhIndex (drop (4 * i) (concat (map (element_bytes L (4 - (L + 7) div 8)) vs)))) [0 ..< length vs] ! i =
      map of_nat vs ! i" using i ArrayToEhIndex_element [OF L] by simp
qed simp

lemma width_4: "L \<le> 32 \<Longrightarrow> (L + 7) div 8 + (4 - (L + 7) div 8) = (4 :: nat)"
  by simp

lemma length_concat_elements: "length (concat (map (element_bytes L pad) vs)) = ((L + 7) div 8 + pad) * length vs"
  by (induction vs) simp_all

lemma ExpandArray_groups:
  assumes L: "8 \<le> L" "7 + L \<le> 32" and n: "8 * length inp = L * m" and out: "length out = ((L + 7) div 8 + pad) * m"
  shows "ExpandArray inp out L pad = Some (concat (map (element_bytes L pad) (group_bits L 0 0 (map unat inp))))"
proof -
  let ?vs = "group_bits L 0 0 (map unat inp)" and ?w = "(L + 7) div 8 + pad"
  have w: "expand_loop L pad (push_bit L 1 - 1) 0 0 inp = concat (map (element_bytes L pad) ?vs)"
    unfolding mask_push using expand_loop_groups [OF L, of 0 pad 0 inp] L by simp
  have "length ?vs = m" using group_bits_spec [of L 0 0 "map unat inp" m 0] L n unat_bound_u8 by (simp add: list_all_iff)
  then have "length (concat (map (element_bytes L pad) ?vs)) = length out" by (simp add: length_concat_elements out)
  moreover have "8 * ?w * length inp div L = length out"
  proof -
    have "8 * ?w * length inp = L * (?w * m)" using n by (metis mult.assoc mult.left_commute)
    then show ?thesis using L out by simp
  qed
  ultimately show ?thesis using L w by (simp add: ExpandArray_def Let_def)
qed

lemma GetIndicesFromMinimal_groups:
  assumes c: "7 \<le> c" "c \<le> 24" and n: "8 * length minimal = (c + 1) * m"
  shows "GetIndicesFromMinimal minimal c = Some (map of_nat (group_bits (c + 1) 0 0 (map unat minimal)))"
proof -
  let ?L = "c + 1"
  let ?vs = "group_bits ?L 0 0 (map unat minimal)"
  have vs: "length ?vs = m" "list_all (\<lambda>v. v < 2 ^ ?L) ?vs"
    using group_bits_spec [of ?L 0 0 "map unat minimal" m 0] c n unat_bound_u8 by (simp_all add: list_all_iff)
  have len: "8 * 4 * length minimal div ?L = 4 * m"
  proof -
    have "8 * 4 * length minimal = ?L * (4 * m)" using n by simp
    then show ?thesis by (metis add_gr_0 nonzero_mult_div_cancel_left less_numeral_extra(1) less_irrefl)
  qed
  have "ExpandArray minimal (replicate (4 * m) 0) ?L (4 - (?L + 7) div 8) = Some (concat (map (element_bytes ?L (4 - (?L + 7) div 8)) ?vs))"
    using c n width_4 [of ?L] by (intro ExpandArray_groups) simp_all
  then show ?thesis
    using len read_elements [OF _ vs(2)] c vs(1) by (simp add: GetIndicesFromMinimal_def Let_def)
qed

lemma GetMinimalFromIndices_groups:
  assumes c: "7 \<le> c" "c \<le> 24" and idx: "list_all (\<lambda>i. unat i < 2 ^ (c + 1)) indices" and n: "(c + 1) * length indices = 8 * n"
  shows "GetMinimalFromIndices indices c = Some (map of_nat (ungroup_bits (c + 1) n 0 0 (map unat indices)))"
proof -
  let ?L = "c + 1"
  have e: "map EhIndexToArray indices = map (element_bytes ?L (4 - (?L + 7) div 8)) (map unat indices)"
    unfolding map_map comp_def using idx c by (intro map_cong EhIndexToArray_element refl) (auto simp: list_all_iff)
  have w: "(?L + 7) div 8 + (4 - (?L + 7) div 8) = 4" using c by (intro width_4) simp
  have len: "?L * (length indices * 4) div (8 * 4) = n"
  proof -
    have "?L * (length indices * 4) = 8 * 4 * n" using n by (metis mult.assoc mult.commute)
    then show ?thesis by simp
  qed
  have "compress_loop ?L (4 - (?L + 7) div 8) (mask ?L) n 0 0 (concat (map EhIndexToArray indices)) =
      Some (map of_nat (ungroup_bits ?L n 0 0 (map unat indices)))"
    unfolding e using compress_loop_groups [of ?L 0 "map unat indices" n _ 0] c idx n by (simp add: list_all_iff)
  moreover have "length (concat (map EhIndexToArray indices)) = length indices * 4"
    unfolding e length_concat_elements w by simp
  moreover have "(?L + 7) div 8 \<le> 4" using c by simp
  ultimately show ?thesis using c w len
    unfolding GetMinimalFromIndices_def CompressArray_def Let_def mask_push by simp
qed

lemma map_unat_of_nat: "list_all (\<lambda>v. v < 2 ^ LENGTH('a::len)) vs \<Longrightarrow> map unat (map of_nat vs :: 'a word list) = vs"
  by (induction vs) (simp_all add: unsigned_of_nat take_bit_nat_eq_self)

lemma map_of_nat_unat: "map (of_nat \<circ> unat) (xs :: 'a::len word list) = xs"
  by (induction xs) simp_all

lemma list_all_unat: "list_all P (map unat xs) = list_all (\<lambda>x. P (unat x)) xs"
  by (induction xs) simp_all

text \<open>Unpacking a solution and packing it again, and the other way round.\<close>

lemma GetMinimal_GetIndices:
  assumes c: "7 \<le> c" "c \<le> 24" and n: "8 * length minimal = (c + 1) * m"
  shows "\<exists>indices. GetIndicesFromMinimal minimal c = Some indices \<and> length indices = m \<and>
    list_all (\<lambda>i. unat i < 2 ^ (c + 1)) indices \<and> GetMinimalFromIndices indices c = Some minimal"
proof -
  let ?L = "c + 1"
  let ?vs = "group_bits ?L 0 0 (map unat minimal)"
  have vs: "length ?vs = m" "list_all (\<lambda>v. v < 2 ^ ?L) ?vs" "horner 256 0 (map unat minimal) = horner (2 ^ ?L) 0 ?vs"
    using group_bits_spec [of ?L 0 0 "map unat minimal" m 0] c n unat_bound_u8 by (simp_all add: list_all_iff)
  have "(2 :: nat) ^ ?L \<le> 2 ^ 32" using c by (intro power_increasing) simp_all
  then have u: "map unat (map of_nat ?vs :: u32 list) = ?vs" using vs(2) by (intro map_unat_of_nat) (auto simp: list_all_iff)
  then have small: "list_all (\<lambda>i. unat i < 2 ^ ?L) (map of_nat ?vs :: u32 list)"
    using vs(2) list_all_unat [of "\<lambda>v. v < 2 ^ ?L" "map of_nat ?vs :: u32 list"] by (simp only:)
  let ?bs = "ungroup_bits ?L (length minimal) 0 0 ?vs"
  have bs: "length ?bs = length minimal" "list_all (\<lambda>b. b < 256) ?bs" "horner (2 ^ ?L) 0 ?vs = horner 256 0 ?bs"
    using ungroup_bits_spec [of ?L 0 0 ?vs "length minimal" 0] c n vs by simp_all
  have "list_all (\<lambda>b. b < 256) (map unat minimal)" using unat_bound_u8 by (simp add: list_all_iff)
  then have b: "?bs = map unat minimal"
    using horner_inj [OF trans [OF bs(3) [symmetric] vs(3) [symmetric]] _ bs(2)] bs(1) by simp
  have len: "?L * length (map of_nat ?vs :: u32 list) = 8 * length minimal" using vs(1) n by simp
  have "GetMinimalFromIndices (map of_nat ?vs) c = Some minimal"
    unfolding GetMinimalFromIndices_groups [OF c small len] u b by (simp add: map_of_nat_unat)
  then show ?thesis using GetIndicesFromMinimal_groups [OF c n] vs(1) small by simp
qed

lemma GetIndices_GetMinimal:
  assumes c: "7 \<le> c" "c \<le> 24" and idx: "list_all (\<lambda>i. unat i < 2 ^ (c + 1)) indices" and n: "(c + 1) * length indices = 8 * n"
  shows "\<exists>minimal. GetMinimalFromIndices indices c = Some minimal \<and> length minimal = n \<and> GetIndicesFromMinimal minimal c = Some indices"
proof -
  let ?L = "c + 1"
  let ?bs = "ungroup_bits ?L n 0 0 (map unat indices)"
  have bs: "length ?bs = n" "list_all (\<lambda>b. b < 256) ?bs" "horner (2 ^ ?L) 0 (map unat indices) = horner 256 0 ?bs"
    using ungroup_bits_spec [of ?L 0 0 "map unat indices" n 0] c n idx by (simp_all add: list_all_iff)
  have u: "map unat (map of_nat ?bs :: bytes) = ?bs" using bs(2) by (intro map_unat_of_nat) simp
  let ?vs = "group_bits ?L 0 0 ?bs"
  have vs: "length ?vs = length indices" "list_all (\<lambda>v. v < 2 ^ ?L) ?vs" "horner 256 0 ?bs = horner (2 ^ ?L) 0 ?vs"
    using group_bits_spec [of ?L 0 0 ?bs "length indices" 0] c n bs by simp_all
  have "list_all (\<lambda>v. v < 2 ^ ?L) (map unat indices)" using idx by (simp only: list_all_unat)
  then have v: "?vs = map unat indices"
    using horner_inj [OF trans [OF vs(3) [symmetric] bs(3) [symmetric]] _ vs(2)] vs(1) by simp
  have len: "8 * length (map of_nat ?bs :: bytes) = ?L * length indices" using bs(1) n by simp
  have "GetIndicesFromMinimal (map of_nat ?bs) c = Some indices"
    unfolding GetIndicesFromMinimal_groups [OF c len] u v by (simp add: map_of_nat_unat)
  then show ?thesis using GetMinimalFromIndices_groups [OF c idx n] bs(1) by simp
qed

end
