(* ===== verification/Equihash.thy ===== *)
theory Equihash
  imports Eh_Arrays Pow
begin

text \<open>
  The verifier of Equihash solutions (\<open>crypto/equihash.h\<close>, \<open>equihash.cpp\<close>, \<open>equihash.tcc\<close>) and a proof that
  it accepts exactly the solutions of the generalised birthday problem.  BLAKE2b of libsodium is the argument
  \<open>blake\<close>: from the length of the digest, the personalisation and the message it gives the digest.
  A row of the table is the part of its buffer that the code has written: the remaining hash bytes and then
  the indices.  A result \<open>None\<close> means a failed assertion or an access outside a buffer.
\<close>

section \<open>Parameters\<close>

type_synonym blake2b = "nat \<Rightarrow> bytes \<Rightarrow> bytes \<Rightarrow> bytes"

definition IndicesPerHashOutput :: "nat \<Rightarrow> nat" where "IndicesPerHashOutput N = 512 div N"
definition HashOutput :: "nat \<Rightarrow> nat" where "HashOutput N = IndicesPerHashOutput N * N div 8"
definition CollisionBitLength :: "nat \<Rightarrow> nat \<Rightarrow> nat" where "CollisionBitLength N K = N div (K + 1)"
definition CollisionByteLength :: "nat \<Rightarrow> nat \<Rightarrow> nat" where "CollisionByteLength N K = (CollisionBitLength N K + 7) div 8"
definition HashLength :: "nat \<Rightarrow> nat \<Rightarrow> nat" where "HashLength N K = (K + 1) * CollisionByteLength N K"
definition FullWidth :: "nat \<Rightarrow> nat \<Rightarrow> nat" where "FullWidth N K = 2 * CollisionByteLength N K + 4 * 2 ^ (K - 1)"
definition FinalFullWidth :: "nat \<Rightarrow> nat \<Rightarrow> nat" where "FinalFullWidth N K = 2 * CollisionByteLength N K + 4 * 2 ^ K"
definition SolutionWidth :: "nat \<Rightarrow> nat \<Rightarrow> nat" where "SolutionWidth N K = 2 ^ K * (CollisionBitLength N K + 1) div 8"
definition equihash_solution_size :: "nat \<Rightarrow> nat \<Rightarrow> nat" where "equihash_solution_size N K = 2 ^ K * (N div (K + 1) + 1) div 8"

section \<open>Hashing\<close>

record eh_HashState =
  hs_outlen :: nat
  hs_personal :: bytes
  hs_absorbed :: bytes

text \<open>The personalisation is \<open>ZcashPoW\<close> and the two parameters.\<close>

definition InitialiseState :: "nat \<Rightarrow> nat \<Rightarrow> eh_HashState" where
  "InitialiseState N K =
     \<lparr>hs_outlen = (512 div N) * N div 8,
      hs_personal = [0x5a, 0x63, 0x61, 0x73, 0x68, 0x50, 0x6f, 0x57] @ WriteLE32 (of_nat N) @ WriteLE32 (of_nat K),
      hs_absorbed = []\<rparr>"

definition blake2b_update :: "eh_HashState \<Rightarrow> bytes \<Rightarrow> eh_HashState" where
  "blake2b_update st m = st\<lparr>hs_absorbed := hs_absorbed st @ m\<rparr>"

definition GenerateHash :: "blake2b \<Rightarrow> eh_HashState \<Rightarrow> u32 \<Rightarrow> nat \<Rightarrow> bytes" where
  "GenerateHash blake base_state g hLen =
     (let state = blake2b_update base_state (WriteLE32 g)
      in take hLen (blake (hs_outlen state) (hs_personal state) (hs_absorbed state)))"

section \<open>Rows\<close>

definition StepRow_init :: "nat \<Rightarrow> bytes \<Rightarrow> nat \<Rightarrow> nat \<Rightarrow> nat \<Rightarrow> bytes option" where
  "StepRow_init width hashIn hInLen hLen cBitLen =
     (if \<not> hLen \<le> width then None
      else if length hashIn < hInLen then None
      else ExpandArray (take hInLen hashIn) (replicate hLen 0) cBitLen 0)"

definition FullStepRow_init :: "nat \<Rightarrow> bytes \<Rightarrow> nat \<Rightarrow> nat \<Rightarrow> nat \<Rightarrow> u32 \<Rightarrow> bytes option" where
  "FullStepRow_init width hashIn hInLen hLen cBitLen i = do {
     hash \<leftarrow> StepRow_init width hashIn hInLen hLen cBitLen;
     if width < hLen + 4 then None else Some (hash @ EhIndexToArray i) }"

definition IndicesBefore :: "bytes \<Rightarrow> bytes \<Rightarrow> nat \<Rightarrow> nat \<Rightarrow> bool" where
  "IndicesBefore hash a len lenIndices \<longleftrightarrow> bytes_compare (take lenIndices (drop len hash)) (take lenIndices (drop len a)) < 0"

text \<open>Joining two rows; a \<open>trim\<close> above \<open>len\<close> wraps around and fails the second assertion.\<close>

definition FullStepRow_join :: "nat \<Rightarrow> nat \<Rightarrow> bytes \<Rightarrow> bytes \<Rightarrow> nat \<Rightarrow> nat \<Rightarrow> nat \<Rightarrow> bytes option" where
  "FullStepRow_join W width a b len lenIndices trim =
     (if \<not> (len + lenIndices \<le> W) then None
      else if len < trim \<or> \<not> (len - trim + 2 * lenIndices \<le> width) then None
      else Some (map2 (XOR) (drop trim (take len a)) (drop trim (take len b)) @
        (if IndicesBefore a b len lenIndices
         then take lenIndices (drop len a) @ take lenIndices (drop len b)
         else take lenIndices (drop len b) @ take lenIndices (drop len a))))"

definition IsZero :: "bytes \<Rightarrow> nat \<Rightarrow> bool" where
  "IsZero hash len = list_all (\<lambda>i. hash ! i = 0) [0 ..< len]"

definition HasCollision :: "bytes \<Rightarrow> bytes \<Rightarrow> nat \<Rightarrow> bool" where
  "HasCollision a b l = list_all (\<lambda>j. a ! j = b ! j) [0 ..< l]"

definition DistinctIndices :: "bytes \<Rightarrow> bytes \<Rightarrow> nat \<Rightarrow> nat \<Rightarrow> bool" where
  "DistinctIndices a b len lenIndices =
     (let offsets = map ((*) 4) [0 ..< (lenIndices + 3) div 4]
      in list_all (\<lambda>i. list_all (\<lambda>j. take 4 (drop (len + i) a) \<noteq> take 4 (drop (len + j) b)) offsets) offsets)"

section \<open>The verifier\<close>

text \<open>The row of index \<open>i\<close>, in a buffer of \<open>width\<close> bytes; \<open>tmpHash\<close> holds the digest of block \<open>i / IndicesPerHashOutput\<close>.\<close>

definition index_row :: "nat \<Rightarrow> nat \<Rightarrow> nat \<Rightarrow> bytes \<Rightarrow> nat \<Rightarrow> u32 \<Rightarrow> bytes option" where
  "index_row N K width tmpHash k i =
     FullStepRow_init width (drop (k * N div 8) tmpHash) (N div 8) (HashLength N K) (CollisionBitLength N K) i"

fun solution_rows :: "blake2b \<Rightarrow> nat \<Rightarrow> nat \<Rightarrow> eh_HashState \<Rightarrow> u32 list \<Rightarrow> bytes list option" where
  "solution_rows blake N K base_state [] = Some []"
| "solution_rows blake N K base_state (i # is) = do {
     let tmpHash = GenerateHash blake base_state (i div of_nat (IndicesPerHashOutput N)) (HashOutput N);
     row \<leftarrow> index_row N K (FinalFullWidth N K) tmpHash (unat (i mod of_nat (IndicesPerHashOutput N))) i;
     rows \<leftarrow> solution_rows blake N K base_state is;
     Some (row # rows) }"

text \<open>One round over the rows: \<open>Some None\<close> is the answer false, \<open>Some (Some Xc)\<close> the joined rows.\<close>

fun verify_round :: "nat \<Rightarrow> nat \<Rightarrow> nat \<Rightarrow> nat \<Rightarrow> bytes list \<Rightarrow> bytes list option option" where
  "verify_round N K hashLen lenIndices [] = Some (Some [])"
| "verify_round N K hashLen lenIndices [a] = None"
| "verify_round N K hashLen lenIndices (a # b # X) =
     (if \<not> HasCollision a b (CollisionByteLength N K) then Some None
      else if IndicesBefore b a hashLen lenIndices then Some None
      else if \<not> DistinctIndices a b hashLen lenIndices then Some None
      else do {
        row \<leftarrow> FullStepRow_join (FinalFullWidth N K) (FinalFullWidth N K) a b hashLen lenIndices (CollisionByteLength N K);
        Xc \<leftarrow> verify_round N K hashLen lenIndices X;
        Some (map_option ((#) row) Xc) })"

lemma verify_round_length: "verify_round N K l li X = Some (Some Xc) \<Longrightarrow> length X = 2 * length Xc"
  by (induction N K l li X arbitrary: Xc rule: verify_round.induct) (auto split: if_splits Option.bind_splits)

function verify_loop :: "nat \<Rightarrow> nat \<Rightarrow> nat \<Rightarrow> nat \<Rightarrow> bytes list \<Rightarrow> bool option" where
  "verify_loop N K hashLen lenIndices X =
     (if length X > 1
      then case verify_round N K hashLen lenIndices X of
          None \<Rightarrow> None
        | Some None \<Rightarrow> Some False
        | Some (Some Xc) \<Rightarrow> verify_loop N K (hashLen - CollisionByteLength N K) (lenIndices * 2) Xc
      else if length X \<noteq> 1 then None
      else Some (IsZero (X ! 0) hashLen))"
  by pat_completeness auto
termination
  by (relation "measure (\<lambda>(N, K, hashLen, lenIndices, X). length X)") (auto dest!: verify_round_length)

definition IsValidSolution :: "blake2b \<Rightarrow> nat \<Rightarrow> nat \<Rightarrow> eh_HashState \<Rightarrow> bytes \<Rightarrow> bool option" where
  "IsValidSolution blake N K base_state soln =
     (if length soln \<noteq> SolutionWidth N K then Some False
      else do {
        indices \<leftarrow> GetIndicesFromMinimal soln (CollisionBitLength N K);
        X \<leftarrow> solution_rows blake N K base_state indices;
        verify_loop N K (HashLength N K) 4 X })"

text \<open>The macro \<open>EhIsValidSolution\<close> throws for other parameters.\<close>

definition EhIsValidSolution :: "blake2b \<Rightarrow> nat \<Rightarrow> nat \<Rightarrow> eh_HashState \<Rightarrow> bytes \<Rightarrow> bool option" where
  "EhIsValidSolution blake n k base_state soln =
     (if n = 96 \<and> k = 3 then IsValidSolution blake 96 3 base_state soln
      else if n = 200 \<and> k = 9 then IsValidSolution blake 200 9 base_state soln
      else if n = 96 \<and> k = 5 then IsValidSolution blake 96 5 base_state soln
      else if n = 48 \<and> k = 5 then IsValidSolution blake 48 5 base_state soln
      else None)"

section \<open>The generalised birthday problem\<close>

text \<open>The exclusive or of the hashes of a list of indices, each \<open>w\<close> bytes long.\<close>

fun xors :: "nat \<Rightarrow> (u32 \<Rightarrow> bytes) \<Rightarrow> u32 list \<Rightarrow> bytes" where
  "xors w f [] = replicate w 0"
| "xors w f (i # is) = map2 (XOR) (f i) (xors w f is)"

text \<open>A node of height \<open>h + 1\<close>: chunk \<open>h\<close> of the exclusive or vanishes, the left half starts with the smaller
  index, and the halves have no index in common.\<close>

definition node_ok :: "(u32 \<Rightarrow> bytes) \<Rightarrow> nat \<Rightarrow> nat \<Rightarrow> nat \<Rightarrow> u32 list \<Rightarrow> u32 list \<Rightarrow> bool" where
  "node_ok f w c h l r \<longleftrightarrow>
     take c (drop (h * c) (xors w f (l @ r))) = replicate c 0 \<and> hd l < hd r \<and> set l \<inter> set r = {}"

fun eh_tree :: "(u32 \<Rightarrow> bytes) \<Rightarrow> nat \<Rightarrow> nat \<Rightarrow> nat \<Rightarrow> u32 list \<Rightarrow> bool" where
  "eh_tree f w c 0 is = True"
| "eh_tree f w c (Suc h) is =
     (eh_tree f w c h (take (2 ^ h) is) \<and> eh_tree f w c h (drop (2 ^ h) is) \<and>
      node_ok f w c h (take (2 ^ h) is) (drop (2 ^ h) is))"

definition eh_solution :: "(u32 \<Rightarrow> bytes) \<Rightarrow> nat \<Rightarrow> nat \<Rightarrow> u32 list \<Rightarrow> bool" where
  "eh_solution f c K is \<longleftrightarrow>
     length is = 2 ^ K \<and> eh_tree f ((K + 1) * c) c K is \<and>
     drop (K * c) (xors ((K + 1) * c) f is) = replicate c 0"

section \<open>Comparing indices\<close>

lemma horner_bounds: "list_all (\<lambda>d. d < B) ds \<Longrightarrow> v * B ^ length ds \<le> horner B v ds \<and> horner B v ds < Suc v * B ^ length ds"
proof (induction ds arbitrary: v)
  case (Cons d ds)
  have "v * B ^ length (d # ds) \<le> (v * B + d) * B ^ length ds" by (simp add: algebra_simps)
  moreover have "Suc (v * B + d) * B ^ length ds \<le> Suc v * B ^ length (d # ds)"
  proof -
    have "Suc (v * B + d) \<le> Suc v * B" using Cons.prems by simp
    then have "Suc (v * B + d) * B ^ length ds \<le> Suc v * B * B ^ length ds" by (rule mult_le_mono1)
    then show ?thesis by (simp add: algebra_simps)
  qed
  moreover have "list_all (\<lambda>d. d < B) ds" using Cons.prems by simp
  ultimately show ?case using Cons.IH [of "v * B + d"] unfolding horner_simps by linarith
qed simp

lemma list_all_unat_u8: "list_all (\<lambda>d. d < 256) (map unat (xs :: bytes))"
  using unat_bound_u8 by (simp add: list_all_iff)

lemma bytes_compare_horner:
  "length xs = length ys \<Longrightarrow> bytes_compare xs ys < 0 \<longleftrightarrow> horner 256 v (map unat xs) < horner 256 v (map unat ys)"
proof (induction xs ys arbitrary: v rule: bytes_compare.induct)
  case (1 x xs y ys)
  have less: "horner 256 (v * 256 + unat a) (map unat as) < horner 256 (v * 256 + unat b) (map unat bs)"
    if "a < b" "length as = length bs" for a b and as bs :: bytes
  proof -
    have "horner 256 (v * 256 + unat a) (map unat as) < Suc (v * 256 + unat a) * 256 ^ length as"
      using horner_bounds [OF list_all_unat_u8] by (metis length_map)
    also have "\<dots> \<le> (v * 256 + unat b) * 256 ^ length bs"
      using that by (intro mult_le_mono) (simp_all add: Suc_le_eq word_less_nat_alt)
    also have "\<dots> \<le> horner 256 (v * 256 + unat b) (map unat bs)"
      using horner_bounds [OF list_all_unat_u8] by (metis length_map)
    finally show ?thesis .
  qed
  show ?case using 1 less [of x y xs ys] less [of y x ys xs]
    by (cases "x < y"; cases "y < x") (auto simp: not_less)
qed auto

lemma horner_be_bytes: "horner 256 e (map unat (be_bytes k v)) = e * 256 ^ k + v mod 256 ^ k"
proof (induction k arbitrary: e)
  case (Suc k)
  have "v mod (256 ^ k * 256) = 256 ^ k * (v div 256 ^ k mod 256) + v mod 256 ^ k" by (rule mod_mult2_eq)
  moreover have "unat (of_nat (v div 256 ^ k) :: u8) = v div 256 ^ k mod 256"
    by (simp add: unsigned_of_nat take_bit_eq_mod)
  ultimately show ?case using Suc [of "e * 256 + v div 256 ^ k mod 256"]
    by (simp add: be_bytes_def algebra_simps)
qed (simp add: be_bytes_def)

lemma length_EhIndexToArray [simp]: "length (EhIndexToArray i) = 4"
  by (simp add: EhIndexToArray_be)

lemma EhIndexToArray_inject [simp]: "EhIndexToArray i = EhIndexToArray j \<longleftrightarrow> i = j"
  by (metis ArrayToEhIndex_append)

lemma EhIndexToArray_less: "bytes_compare (EhIndexToArray i) (EhIndexToArray j) < 0 \<longleftrightarrow> i < j"
proof -
  have "horner 256 0 (map unat (EhIndexToArray i)) = unat i" for i
    using unat_bound_u32 [of i] by (simp add: EhIndexToArray_be horner_be_bytes)
  then show ?thesis using bytes_compare_horner [of "EhIndexToArray i" "EhIndexToArray j" 0] by (simp add: word_less_nat_alt)
qed

lemma bytes_compare_append:
  "length a = length b \<Longrightarrow> a \<noteq> b \<Longrightarrow> bytes_compare (a @ x) (b @ y) = bytes_compare a b"
  by (induction a b rule: bytes_compare.induct) auto

abbreviation index_bytes :: "u32 list \<Rightarrow> bytes" where
  "index_bytes is \<equiv> concat (map EhIndexToArray is)"

lemma length_index_bytes: "length (index_bytes is) = 4 * length is"
  by (induction "is") simp_all

lemma index_bytes_less:
  assumes "is \<noteq> []" "js \<noteq> []" "hd is \<noteq> hd js"
  shows "bytes_compare (index_bytes is) (index_bytes js) < 0 \<longleftrightarrow> hd is < hd js"
  using assms by (cases "is"; cases js) (simp_all add: bytes_compare_append EhIndexToArray_less)

lemma index_bytes_at: "k < length is \<Longrightarrow> take 4 (drop (4 * k) (index_bytes is)) = EhIndexToArray (is ! k)"
  by (simp add: map_drop_concat [of _ EhIndexToArray 4])

section \<open>Exclusive or\<close>

lemma length_xors: "(\<And>i. length (f i) = w) \<Longrightarrow> length (xors w f is) = w"
  by (induction "is") simp_all

lemma map2_xor_zero: "length a = w \<Longrightarrow> map2 (XOR) (replicate w 0) a = (a :: bytes)"
  by (induction a arbitrary: w) auto

lemma map2_xor_assoc:
  "length a = length b \<Longrightarrow> length b = length c \<Longrightarrow> map2 (XOR) (map2 (XOR) a b) c = map2 (XOR) a (map2 (XOR) b (c :: bytes))"
  by (induction a b c rule: list_induct3) (simp_all add: ac_simps)

lemma xors_append:
  assumes "\<And>i. length (f i) = w"
  shows "xors w f (is @ js) = map2 (XOR) (xors w f is) (xors w f js)"
  using assms by (induction "is") (simp_all add: map2_xor_zero map2_xor_assoc length_xors)

lemma xor_eq_0: "a XOR b = 0 \<longleftrightarrow> a = b" for a b :: "'a::len word"
  by (metis xor.assoc xor.left_neutral xor.right_neutral xor_self_eq)

lemma map2_xor_cancel: "length a = length b \<Longrightarrow> map2 (XOR) a b = replicate (length a) 0 \<longleftrightarrow> a = (b :: bytes)"
  by (induction a b rule: list_induct2) (simp_all add: xor_eq_0)

lemma take_map2: "take n (map2 g a b) = map2 g (take n a) (take n b)"
  by (simp add: take_map take_zip)

lemma drop_map2: "drop n (map2 g a b) = map2 g (drop n a) (drop n b)"
  by (simp add: drop_map drop_zip)

section \<open>A round of the verifier\<close>

text \<open>The row of a subtree of height \<open>h\<close> with the indices \<open>is\<close>.\<close>

definition row :: "(u32 \<Rightarrow> bytes) \<Rightarrow> nat \<Rightarrow> nat \<Rightarrow> nat \<Rightarrow> u32 list \<Rightarrow> bytes" where
  "row f w c h is = drop (h * c) (xors w f is) @ index_bytes is"

lemma HasCollision_take: "l \<le> length a \<Longrightarrow> l \<le> length b \<Longrightarrow> HasCollision a b l \<longleftrightarrow> take l a = take l b"
  by (auto simp: HasCollision_def list_all_iff list_eq_iff_nth_eq)

lemma list_all_upt_map: "list_all P (map g [0 ..< n]) \<longleftrightarrow> (\<forall>i < n. P (g i))"
  by (auto simp: list_all_iff)

text \<open>Rows with \<open>len\<close> hash bytes.\<close>

lemma row_split:
  assumes "\<And>i. length (f i) = w" "len = w - h * c"
  shows "take len (row f w c h is) = drop (h * c) (xors w f is)" "drop len (row f w c h is) = index_bytes is"
    "length (row f w c h is) = len + 4 * length is"
  using assms by (simp_all add: row_def length_xors length_index_bytes)

lemma row_collision:
  assumes f: "\<And>i. length (f i) = w" and c: "h * c + c \<le> w"
  shows "HasCollision (row f w c h l) (row f w c h r) c \<longleftrightarrow> take c (drop (h * c) (xors w f (l @ r))) = replicate c 0"
proof -
  let ?a = "take c (drop (h * c) (xors w f l))" and ?b = "take c (drop (h * c) (xors w f r))"
  have len: "length ?a = c" "length ?b = c" using c by (simp_all add: length_xors f)
  have "HasCollision (row f w c h l) (row f w c h r) c \<longleftrightarrow> ?a = ?b"
    using c by (simp add: HasCollision_take row_def length_xors f)
  also have "\<dots> \<longleftrightarrow> map2 (XOR) ?a ?b = replicate c 0" using map2_xor_cancel [of ?a ?b] len by simp
  finally show ?thesis by (simp add: xors_append f take_map2 drop_map2)
qed

lemma row_distinct:
  assumes f: "\<And>i. length (f i) = w" and len: "len = w - h * c" and n: "length l = n" "length r = n"
  shows "DistinctIndices (row f w c h l) (row f w c h r) len (4 * n) \<longleftrightarrow> set l \<inter> set r = {}"
proof -
  have at: "take 4 (drop (len + 4 * i) (row f w c h is)) = EhIndexToArray (is ! i)" if "length is = n" "i < n" for "is" i
  proof -
    have "drop (len + 4 * i) (row f w c h is) = drop (4 * i) (drop len (row f w c h is))" by (simp add: add.commute)
    then show ?thesis using that index_bytes_at [of i "is"] by (simp only: row_split [where f = f, OF f len])
  qed
  have "(4 * n + 3) div 4 = n" by simp
  then have "DistinctIndices (row f w c h l) (row f w c h r) len (4 * n) \<longleftrightarrow> (\<forall>i < n. \<forall>j < n. l ! i \<noteq> r ! j)"
    using at n by (auto simp: DistinctIndices_def Let_def list_all_upt_map)
  also have "\<dots> \<longleftrightarrow> set l \<inter> set r = {}" using n by (auto simp: set_conv_nth)
  finally show ?thesis .
qed

lemma row_before:
  assumes f: "\<And>i. length (f i) = w" and len: "len = w - h * c" and n: "length l = n" "length r = n" "0 < n" "hd l \<noteq> hd r"
  shows "IndicesBefore (row f w c h l) (row f w c h r) len (4 * n) \<longleftrightarrow> hd l < hd r"
proof -
  have "take (4 * n) (index_bytes l) = index_bytes l" "take (4 * n) (index_bytes r) = index_bytes r"
    using n by (simp_all add: length_index_bytes)
  then show ?thesis unfolding IndicesBefore_def row_split [where f = f, OF f len]
    using index_bytes_less [of l r] n by (metis length_greater_0_conv)
qed

text \<open>The test of one pair of rows, and the row made from it.\<close>

lemma row_pair_ok:
  assumes f: "\<And>i. length (f i) = w" and len: "len = w - h * c" and n: "length l = n" "length r = n" "0 < n" and c: "h * c + c \<le> w"
  shows "HasCollision (row f w c h l) (row f w c h r) c \<and> \<not> IndicesBefore (row f w c h r) (row f w c h l) len (4 * n) \<and>
      DistinctIndices (row f w c h l) (row f w c h r) len (4 * n) \<longleftrightarrow> node_ok f w c h l r"
proof (cases "set l \<inter> set r = {}")
  case True
  then have "hd l \<noteq> hd r" using n hd_in_set [of l] hd_in_set [of r] by fastforce
  then show ?thesis
    using row_collision [where f = f and l = l and r = r, OF f c] row_distinct [where f = f, OF f len n(1,2)] row_before [where f = f, OF f len n(2,1,3)]
    by (auto simp: node_ok_def)
next
  case False
  then show ?thesis using row_distinct [where f = f, OF f len n(1,2)] by (simp add: node_ok_def)
qed

lemma row_join:
  assumes f: "\<And>i. length (f i) = w" and len: "len = w - h * c" and n: "length l = n" "length r = n" "0 < n" and c: "h * c + c \<le> w"
    and less: "hd l < hd r" and W: "len + 4 * n \<le> W" "len - c + 8 * n \<le> width"
  shows "FullStepRow_join W width (row f w c h l) (row f w c h r) len (4 * n) c = Some (row f w c (Suc h) (l @ r))"
proof -
  have "take (4 * n) (index_bytes l) = index_bytes l" "take (4 * n) (index_bytes r) = index_bytes r"
    using n by (simp_all add: length_index_bytes)
  moreover have "IndicesBefore (row f w c h l) (row f w c h r) len (4 * n)"
    using row_before [where f = f, OF f len n] less by auto
  moreover have "map2 (XOR) (drop c (drop (h * c) (xors w f l))) (drop c (drop (h * c) (xors w f r))) = drop (Suc h * c) (xors w f (l @ r))"
    by (simp add: xors_append f drop_map2 add.commute)
  ultimately show ?thesis unfolding FullStepRow_join_def row_split [where f = f, OF f len]
    using W c len by (simp add: row_def)
qed

section \<open>All rounds\<close>

text \<open>The blocks of indices of a round, two by two.\<close>

fun pair_up :: "'a list list \<Rightarrow> 'a list list" where
  "pair_up (l # r # Bs) = (l @ r) # pair_up Bs"
| "pair_up Bs = []"

fun pairs_ok :: "('a \<Rightarrow> 'a \<Rightarrow> bool) \<Rightarrow> 'a list \<Rightarrow> bool" where
  "pairs_ok P (l # r # Bs) = (P l r \<and> pairs_ok P Bs)"
| "pairs_ok P Bs = True"

text \<open>The buffers are large enough for every round.\<close>

lemma round_fits:
  fixes c :: nat
  assumes "h < K" "c \<le> 4"
  shows "(K + 1) * c - h * c + 4 * 2 ^ h \<le> 2 * c + 4 * 2 ^ K" "(K + 1) * c - h * c - c + 8 * 2 ^ h \<le> 2 * c + 4 * 2 ^ K"
    "h * c + c \<le> (K + 1) * c"
proof -
  obtain d where d: "K = Suc (h + d)" using assms(1) less_iff_Suc_add by auto
  have p: "2 ^ h * Suc n \<le> (2 :: nat) ^ (h + n)" for n
  proof (induction n)
    case (Suc n)
    have "1 * Suc n \<le> (2 :: nat) ^ h * Suc n" by (intro mult_le_mono1) simp
    with Suc have "2 ^ h * Suc n + 2 ^ h \<le> (2 :: nat) ^ (h + n) + 2 ^ (h + n)"
      by (intro add_mono) (simp_all add: power_increasing)
    then show ?case by simp
  qed simp
  have dc: "d * c \<le> 4 * d" using assms(2) by simp
  have one: "d \<le> 2 ^ h * d" by simp
  have "2 ^ h * Suc (Suc d) \<le> (2 :: nat) ^ K" using p [of "Suc d"] d by simp
  then have q: "2 * 2 ^ h + 2 ^ h * d \<le> (2 :: nat) ^ K" by simp
  have a: "(K + 1) * c - h * c = 2 * c + d * c" by (simp add: d algebra_simps)
  show "(K + 1) * c - h * c + 4 * 2 ^ h \<le> 2 * c + 4 * 2 ^ K" unfolding a using dc one q by linarith
  show "(K + 1) * c - h * c - c + 8 * 2 ^ h \<le> 2 * c + 4 * 2 ^ K" unfolding a using dc one q by linarith
  show "h * c + c \<le> (K + 1) * c" by (simp add: d algebra_simps)
qed

lemma verify_round_spec:
  assumes f: "\<And>i. length (f i) = (K + 1) * CollisionByteLength N K" and c: "CollisionByteLength N K \<le> 4" and h: "h < K"
  shows "even (length Bs) \<Longrightarrow> list_all (\<lambda>B. length B = 2 ^ h) Bs \<Longrightarrow>
    verify_round N K ((K + 1) * CollisionByteLength N K - h * CollisionByteLength N K) (4 * 2 ^ h)
      (map (row f ((K + 1) * CollisionByteLength N K) (CollisionByteLength N K) h) Bs) =
    Some (if pairs_ok (node_ok f ((K + 1) * CollisionByteLength N K) (CollisionByteLength N K) h) Bs
      then Some (map (row f ((K + 1) * CollisionByteLength N K) (CollisionByteLength N K) (Suc h)) (pair_up Bs)) else None)"
proof (induction Bs rule: pair_up.induct)
  case (1 l r Bs)
  let ?c = "CollisionByteLength N K"
  let ?w = "(K + 1) * ?c"
  let ?len = "?w - h * ?c"
  note fits = round_fits [OF h c]
  have n: "length l = 2 ^ h" "length r = 2 ^ h" "0 < (2 :: nat) ^ h" using 1 by simp_all
  note ok = row_pair_ok [where f = f, OF f refl n fits(3)]
  have W: "?len + 4 * 2 ^ h \<le> FinalFullWidth N K" "?len - ?c + 8 * 2 ^ h \<le> FinalFullWidth N K"
    using fits by (simp_all add: FinalFullWidth_def)
  note IH = 1(1)
  show ?case
  proof (cases "node_ok f ?w ?c h l r")
    case True
    then have "hd l < hd r" by (simp add: node_ok_def)
    from row_join [where f = f, OF f refl n fits(3) this W] ok True IH 1(2,3) show ?thesis by simp
  next
    case False
    then show ?thesis using ok by auto
  qed
qed simp_all

text \<open>The tree over blocks, as a recursion on its height.\<close>

fun eh_blocks :: "(nat \<Rightarrow> u32 list \<Rightarrow> u32 list \<Rightarrow> bool) \<Rightarrow> nat \<Rightarrow> nat \<Rightarrow> u32 list list \<Rightarrow> bool" where
  "eh_blocks P h 0 Bs = True"
| "eh_blocks P h (Suc n) Bs =
     (eh_blocks P h n (take (2 ^ n) Bs) \<and> eh_blocks P h n (drop (2 ^ n) Bs) \<and>
      P (h + n) (concat (take (2 ^ n) Bs)) (concat (drop (2 ^ n) Bs)))"

lemma take_pair_up: "take m (pair_up Bs) = pair_up (take (2 * m) Bs)"
proof (induction m arbitrary: Bs)
  case (Suc m)
  then show ?case by (cases Bs rule: pair_up.cases) simp_all
qed simp

lemma drop_pair_up: "drop m (pair_up Bs) = pair_up (drop (2 * m) Bs)"
proof (induction m arbitrary: Bs)
  case (Suc m)
  then show ?case by (cases Bs rule: pair_up.cases) simp_all
qed simp

lemma concat_pair_up: "even (length Bs) \<Longrightarrow> concat (pair_up Bs) = concat Bs"
  by (induction Bs rule: pair_up.induct) simp_all

lemma length_pair_up: "length (pair_up Bs) = length Bs div 2"
  by (induction Bs rule: pair_up.induct) simp_all

lemma pairs_ok_append: "even (length as) \<Longrightarrow> pairs_ok P (as @ bs) \<longleftrightarrow> pairs_ok P as \<and> pairs_ok P bs"
  by (induction P as rule: pairs_ok.induct) simp_all

lemma eh_blocks_round:
  "length Bs = 2 ^ Suc n \<Longrightarrow> eh_blocks P h (Suc n) Bs \<longleftrightarrow> pairs_ok (P h) Bs \<and> eh_blocks P (Suc h) n (pair_up Bs)"
proof (induction n arbitrary: Bs)
  case 0
  then obtain l r where "Bs = [l, r]" by (cases Bs rule: pair_up.cases) auto
  then show ?case by simp
next
  case (Suc n)
  let ?m = "2 ^ Suc n :: nat"
  have len: "length (take ?m Bs) = ?m" "length (drop ?m Bs) = ?m" using Suc.prems by simp_all
  have pairs: "pairs_ok (P h) Bs \<longleftrightarrow> pairs_ok (P h) (take ?m Bs) \<and> pairs_ok (P h) (drop ?m Bs)"
    using pairs_ok_append [of "take ?m Bs" "P h" "drop ?m Bs"] len by simp
  have cat: "concat (pair_up (take ?m Bs)) = concat (take ?m Bs)" "concat (pair_up (drop ?m Bs)) = concat (drop ?m Bs)"
    using len by (intro concat_pair_up; simp)+
  have "eh_blocks P (Suc h) (Suc n) (pair_up Bs) \<longleftrightarrow>
      eh_blocks P (Suc h) n (pair_up (take ?m Bs)) \<and> eh_blocks P (Suc h) n (pair_up (drop ?m Bs)) \<and>
      P (h + Suc n) (concat (take ?m Bs)) (concat (drop ?m Bs))"
    by (simp only: eh_blocks.simps take_pair_up drop_pair_up power_Suc [symmetric] cat add_Suc_right add_Suc)
  then show ?case using Suc.IH [OF len(1)] Suc.IH [OF len(2)] pairs by (simp only: eh_blocks.simps(2) [of P h "Suc n"]) blast
qed

lemma list_all_pair_up: "even (length Bs) \<Longrightarrow> list_all (\<lambda>B. length B = n) Bs \<Longrightarrow> list_all (\<lambda>B. length B = 2 * n) (pair_up Bs)"
  by (induction Bs rule: pair_up.induct) simp_all

lemma IsZero_take: "l \<le> length a \<Longrightarrow> IsZero a l \<longleftrightarrow> take l a = replicate l 0"
  by (auto simp: IsZero_def list_all_iff list_eq_iff_nth_eq)

lemma verify_loop_spec:
  assumes f: "\<And>i. length (f i) = (K + 1) * CollisionByteLength N K" and c: "CollisionByteLength N K \<le> 4"
  shows "h + n = K \<Longrightarrow> length Bs = 2 ^ n \<Longrightarrow> list_all (\<lambda>B. length B = 2 ^ h) Bs \<Longrightarrow>
    verify_loop N K ((K + 1) * CollisionByteLength N K - h * CollisionByteLength N K) (4 * 2 ^ h)
      (map (row f ((K + 1) * CollisionByteLength N K) (CollisionByteLength N K) h) Bs) =
    Some (eh_blocks (node_ok f ((K + 1) * CollisionByteLength N K) (CollisionByteLength N K)) h n Bs \<and>
      drop (K * CollisionByteLength N K) (xors ((K + 1) * CollisionByteLength N K) f (concat Bs)) = replicate (CollisionByteLength N K) 0)"
proof (induction n arbitrary: h Bs)
  case 0
  then obtain B where "Bs = [B]" by (cases Bs) auto
  then show ?case using 0 f by (simp add: IsZero_take row_def length_xors)
next
  case (Suc n)
  let ?c = "CollisionByteLength N K"
  let ?w = "(K + 1) * ?c"
  have even: "even (length Bs)" using Suc.prems by simp
  have two: "1 < length (map (row f ?w ?c h) Bs)" using Suc.prems(2) one_less_power [of "2 :: nat" "Suc n"] by simp
  have len: "?w - h * ?c - ?c = ?w - Suc h * ?c" "4 * 2 ^ h * 2 = (4 * 2 ^ Suc h :: nat)" by (simp_all add: algebra_simps)
  have h: "h < K" using Suc.prems(1) by simp
  note round = verify_round_spec [where f = f and h = h, OF f c h even Suc.prems(3)]
  show ?case
  proof (cases "pairs_ok (node_ok f ?w ?c h) Bs")
    case True
    have "list_all (\<lambda>B. length B = 2 ^ Suc h) (pair_up Bs)" using list_all_pair_up [OF even Suc.prems(3)] by simp
    then have "verify_loop N K (?w - Suc h * ?c) (4 * 2 ^ Suc h) (map (row f ?w ?c (Suc h)) (pair_up Bs)) =
        Some (eh_blocks (node_ok f ?w ?c) (Suc h) n (pair_up Bs) \<and> drop (K * ?c) (xors ?w f (concat (pair_up Bs))) = replicate ?c 0)"
      using Suc.prems(1,2) by (intro Suc.IH) (simp_all add: length_pair_up)
    then show ?thesis
      unfolding verify_loop.simps [of N K "?w - h * ?c"] round eh_blocks_round [OF Suc.prems(2)] len concat_pair_up [OF even]
      using True two by simp
  next
    case False
    then show ?thesis
      unfolding verify_loop.simps [of N K "?w - h * ?c"] round eh_blocks_round [OF Suc.prems(2)] using two by simp
  qed
qed

lemma concat_singletons: "concat (map (\<lambda>i. [i]) is) = is"
  by (induction "is") simp_all

lemma eh_blocks_tree: "length is = 2 ^ n \<Longrightarrow> eh_blocks (node_ok f w c) 0 n (map (\<lambda>i. [i]) is) \<longleftrightarrow> eh_tree f w c n is"
proof (induction n arbitrary: "is")
  case (Suc n)
  then show ?case by (simp add: take_map drop_map concat_singletons)
qed simp

section \<open>The rows of a solution\<close>

text \<open>The parameters that make sense; those the code supports do.\<close>

definition eh_params :: "nat \<Rightarrow> nat \<Rightarrow> bool" where
  "eh_params N K \<longleftrightarrow> 0 < K \<and> 8 dvd N \<and> 0 < N \<and> N \<le> 512 \<and> CollisionBitLength N K * (K + 1) = N \<and> 8 \<le> CollisionBitLength N K \<and>
     CollisionBitLength N K \<le> 24 \<and> 8 dvd 2 ^ K * (CollisionBitLength N K + 1)"

lemma eh_params_supported: "eh_params 96 3" "eh_params 200 9" "eh_params 96 5" "eh_params 48 5"
  by (simp_all add: eh_params_def CollisionBitLength_def)

text \<open>The expanded hash of an index.\<close>

definition index_hash :: "blake2b \<Rightarrow> nat \<Rightarrow> nat \<Rightarrow> eh_HashState \<Rightarrow> u32 \<Rightarrow> bytes" where
  "index_hash blake N K base_state i =
     the (ExpandArray (take (N div 8) (drop (unat (i mod of_nat (IndicesPerHashOutput N)) * N div 8)
            (GenerateHash blake base_state (i div of_nat (IndicesPerHashOutput N)) (HashOutput N))))
          (replicate (HashLength N K) 0) (CollisionBitLength N K) 0)"

lemma eh_params_small:
  assumes "eh_params N K"
  shows "CollisionByteLength N K \<le> 4" "HashLength N K + 4 \<le> FinalFullWidth N K"
proof -
  have "CollisionBitLength N K \<le> 24" using assms by (simp add: eh_params_def)
  then show c: "CollisionByteLength N K \<le> 4" unfolding CollisionByteLength_def by linarith
  show "HashLength N K + 4 \<le> FinalFullWidth N K"
    using round_fits(1) [of 0 K, OF _ c] assms by (simp add: HashLength_def FinalFullWidth_def eh_params_def)
qed

lemma index_in_output:
  assumes p: "eh_params N K" and len: "length hash = HashOutput N" and k: "k < IndicesPerHashOutput N"
  shows "N div 8 \<le> length (drop (k * N div 8) hash)"
proof -
  obtain m where m: "N = 8 * m" using p by (auto simp: eh_params_def)
  have "k * m + m \<le> IndicesPerHashOutput N * m" using mult_le_mono1 [of "Suc k" "IndicesPerHashOutput N" m] k by simp
  moreover have "k * N div 8 = k * m" "HashOutput N = IndicesPerHashOutput N * m" by (simp_all add: m HashOutput_def mult.left_commute)
  ultimately show ?thesis using m len by simp
qed

lemma expand_index:
  assumes p: "eh_params N K" and len: "N div 8 \<le> length hash"
  shows "\<exists>h. ExpandArray (take (N div 8) hash) (replicate (HashLength N K) 0) (CollisionBitLength N K) 0 = Some h \<and> length h = HashLength N K"
proof -
  let ?L = "CollisionBitLength N K" and ?in = "take (N div 8) hash"
  have n: "8 * length ?in = ?L * (K + 1)" using p len by (auto simp: eh_params_def)
  have "length (group_bits ?L 0 0 (map unat ?in)) = K + 1"
    using group_bits_spec [of ?L 0 0 "map unat ?in" "K + 1" 0] p n list_all_unat_u8 by (simp add: eh_params_def)
  moreover have "ExpandArray ?in (replicate (HashLength N K) 0) ?L 0 =
      Some (concat (map (element_bytes ?L 0) (group_bits ?L 0 0 (map unat ?in))))"
    using p n by (intro ExpandArray_groups [where m = "K + 1"]) (simp_all add: eh_params_def HashLength_def CollisionByteLength_def mult.commute)
  ultimately show ?thesis
    by (simp add: length_concat_elements HashLength_def CollisionByteLength_def mult.commute)
qed

lemma index_row_spec:
  assumes p: "eh_params N K" and len: "length hash = HashOutput N" and k: "k < IndicesPerHashOutput N" and width: "HashLength N K + 4 \<le> width"
  shows "index_row N K width hash k i =
    Some (the (ExpandArray (take (N div 8) (drop (k * N div 8) hash)) (replicate (HashLength N K) 0) (CollisionBitLength N K) 0) @ EhIndexToArray i)"
  using expand_index [OF p index_in_output [OF p len k]] index_in_output [OF p len k] width
  by (auto simp: index_row_def FullStepRow_init_def StepRow_init_def)

text \<open>The digest function keeps its promise on lengths, and the state was set up for these parameters.\<close>

definition digest_ok :: "blake2b \<Rightarrow> bool" where
  "digest_ok blake \<longleftrightarrow> (\<forall>n p m. length (blake n p m) = n)"

lemma length_GenerateHash: "digest_ok blake \<Longrightarrow> hs_outlen st = HashOutput N \<Longrightarrow> length (GenerateHash blake st g (HashOutput N)) = HashOutput N"
  by (simp add: GenerateHash_def digest_ok_def blake2b_update_def Let_def)

lemma index_position: "eh_params N K \<Longrightarrow> unat (i mod of_nat (IndicesPerHashOutput N) :: u32) < IndicesPerHashOutput N"
proof -
  assume p: "eh_params N K"
  have "IndicesPerHashOutput N \<le> 512" "0 < IndicesPerHashOutput N"
    using p by (simp_all add: IndicesPerHashOutput_def eh_params_def div_greater_zero_iff)
  then have "unat (of_nat (IndicesPerHashOutput N) :: u32) = IndicesPerHashOutput N"
    by (simp add: unsigned_of_nat take_bit_nat_eq_self)
  then show ?thesis using \<open>0 < IndicesPerHashOutput N\<close> by (simp add: unat_mod)
qed

lemma length_index_hash:
  assumes "eh_params N K" "digest_ok blake" "hs_outlen st = HashOutput N"
  shows "length (index_hash blake N K st i) = (K + 1) * CollisionByteLength N K"
proof -
  let ?k = "unat (i mod of_nat (IndicesPerHashOutput N))"
  let ?hash = "drop (?k * N div 8) (GenerateHash blake st (i div of_nat (IndicesPerHashOutput N)) (HashOutput N))"
  have "N div 8 \<le> length ?hash"
    using index_in_output [OF assms(1) length_GenerateHash [OF assms(2,3)] index_position [OF assms(1), of i]] .
  from expand_index [OF assms(1) this] show ?thesis by (auto simp: index_hash_def HashLength_def)
qed

lemma row_leaf:
  assumes "\<And>i. length (f i) = w"
  shows "row f w c 0 [i] = f i @ EhIndexToArray i"
proof -
  have "map2 (XOR) (f i) (replicate w 0) = f i" using map2_xor_zero [of "f i" w] assms
    by (simp add: list_eq_iff_nth_eq)
  then show ?thesis by (simp add: row_def)
qed

lemma solution_rows_spec:
  assumes "eh_params N K" "digest_ok blake" "hs_outlen st = HashOutput N"
  shows "solution_rows blake N K st is =
    Some (map (row (index_hash blake N K st) ((K + 1) * CollisionByteLength N K) (CollisionByteLength N K) 0) (map (\<lambda>i. [i]) is))"
proof (induction "is")
  case (Cons i "is")
  let ?hash = "GenerateHash blake st (i div of_nat (IndicesPerHashOutput N)) (HashOutput N)"
  have "index_row N K (FinalFullWidth N K) ?hash (unat (i mod of_nat (IndicesPerHashOutput N))) i =
      Some (index_hash blake N K st i @ EhIndexToArray i)"
    unfolding index_hash_def
    using assms(1) length_GenerateHash [OF assms(2,3)] index_position [OF assms(1)] eh_params_small(2) [OF assms(1)] by (rule index_row_spec)
  then show ?case using Cons row_leaf [where f = "index_hash blake N K st", OF length_index_hash [OF assms]] by (simp add: Let_def)
qed simp

theorem IsValidSolution_spec:
  assumes p: "eh_params N K" and d: "digest_ok blake" "hs_outlen st = HashOutput N"
  shows "IsValidSolution blake N K st soln =
    Some (length soln = SolutionWidth N K \<and>
      eh_solution (index_hash blake N K st) (CollisionByteLength N K) K (the (GetIndicesFromMinimal soln (CollisionBitLength N K))))"
proof (cases "length soln = SolutionWidth N K")
  case True
  let ?f = "index_hash blake N K st" and ?c = "CollisionByteLength N K" and ?L = "CollisionBitLength N K"
  have L: "7 \<le> ?L" "?L \<le> 24" using p by (simp_all add: eh_params_def)
  have "8 * length soln = (?L + 1) * 2 ^ K" using p True by (simp add: eh_params_def SolutionWidth_def mult.commute)
  from GetMinimal_GetIndices [OF L this] obtain "is" where i: "GetIndicesFromMinimal soln ?L = Some is" "length is = 2 ^ K" by blast
  have "verify_loop N K (HashLength N K) 4 (map (row ?f ((K + 1) * ?c) ?c 0) (map (\<lambda>i. [i]) is)) =
      Some (eh_tree ?f ((K + 1) * ?c) ?c K is \<and> drop (K * ?c) (xors ((K + 1) * ?c) ?f is) = replicate ?c 0)"
    using verify_loop_spec [where f = ?f and h = 0 and Bs = "map (\<lambda>i. [i]) is", OF length_index_hash [OF p d] eh_params_small(1) [OF p]] i(2)
      eh_blocks_tree [OF i(2), of ?f] by (simp add: HashLength_def concat_singletons list_all_iff)
  then show ?thesis using i True solution_rows_spec [OF p d, of "is"] by (simp add: IsValidSolution_def eh_solution_def)
qed (simp add: IsValidSolution_def)

section \<open>What a solution is\<close>

lemma eh_tree_distinct: "length is = 2 ^ h \<Longrightarrow> eh_tree f w c h is \<Longrightarrow> distinct is"
proof (induction h arbitrary: "is")
  case 0
  then show ?case by (cases "is") auto
next
  case (Suc h)
  have "distinct (take (2 ^ h) is)" "distinct (drop (2 ^ h) is)"
    using Suc by simp_all
  moreover have "set (take (2 ^ h) is) \<inter> set (drop (2 ^ h) is) = {}" using Suc.prems by (simp add: node_ok_def)
  ultimately show ?case by (metis append_take_drop_id distinct_append)
qed

lemma map2_xor_zeros: "map2 (XOR) (replicate n 0) (replicate n 0) = (replicate n 0 :: bytes)"
  by (simp add: map2_xor_zero)

lemma eh_tree_zero:
  assumes f: "\<And>i. length (f i) = w"
  shows "eh_tree f w c h is \<Longrightarrow> h * c \<le> w \<Longrightarrow> take (h * c) (xors w f is) = replicate (h * c) 0"
proof (induction h arbitrary: "is")
  case (Suc h)
  let ?l = "take (2 ^ h) is" and ?r = "drop (2 ^ h) is" and ?x = "xors w f is"
  have x: "?x = map2 (XOR) (xors w f ?l) (xors w f ?r)" using xors_append [where f = f, OF f, of ?l ?r] by simp
  have "take (h * c) ?x = replicate (h * c) 0"
    unfolding x take_map2 using Suc by (simp add: map2_xor_zeros)
  moreover have "take c (drop (h * c) ?x) = replicate c 0" using Suc.prems by (simp add: node_ok_def)
  moreover have "take (Suc h * c) ?x = take (h * c) ?x @ take c (drop (h * c) ?x)"
    by (simp add: take_add add.commute [of c])
  ultimately show ?case by (simp add: add.commute flip: replicate_add)
qed simp

lemma eh_solution_zero:
  assumes f: "\<And>i. length (f i) = (K + 1) * c" and s: "eh_solution f c K is"
  shows "xors ((K + 1) * c) f is = replicate ((K + 1) * c) 0"
proof -
  let ?x = "xors ((K + 1) * c) f is"
  have "take (K * c) ?x = replicate (K * c) 0"
    using s by (intro eh_tree_zero [where f = f, OF f]) (simp_all add: eh_solution_def)
  moreover have "drop (K * c) ?x = replicate c 0" using s by (simp add: eh_solution_def)
  ultimately have "?x = replicate (K * c) 0 @ replicate c 0" by (metis append_take_drop_id)
  then show ?thesis by (simp add: add.commute flip: replicate_add)
qed

text \<open>The check of a header runs this verifier on the header without its solution.\<close>

definition eh_supported :: "nat \<Rightarrow> nat \<Rightarrow> bool" where
  "eh_supported n k \<longleftrightarrow> (n, k) \<in> {(96, 3), (200, 9), (96, 5), (48, 5)}"

lemma eh_supported_params: "eh_supported n k \<Longrightarrow> eh_params n k"
  using eh_params_supported by (auto simp: eh_supported_def)

lemma EhIsValidSolution_supported: "eh_supported n k \<Longrightarrow> EhIsValidSolution blake n k st soln = IsValidSolution blake n k st soln"
  by (auto simp: eh_supported_def EhIsValidSolution_def)

definition equihash_verifier :: "blake2b \<Rightarrow> nat \<Rightarrow> nat \<Rightarrow> bytes \<Rightarrow> bytes \<Rightarrow> bool" where
  "equihash_verifier blake n k input soln =
     (EhIsValidSolution blake n k (blake2b_update (InitialiseState n k) input) soln = Some True)"

lemma outlen_update: "hs_outlen (blake2b_update (InitialiseState n k) input) = HashOutput n"
  by (simp add: blake2b_update_def InitialiseState_def HashOutput_def IndicesPerHashOutput_def)

theorem CheckEquihashSolution_spec:
  assumes "eh_supported n k" "digest_ok blake"
  shows "CheckEquihashSolution (equihash_verifier blake) n k block \<longleftrightarrow>
    length (nSolution block) = SolutionWidth n k \<and>
    eh_solution (index_hash blake n k (blake2b_update (InitialiseState n k) (ser_CEquihashInput block @ ser_uint256 (nNonce block))))
      (CollisionByteLength n k) k (the (GetIndicesFromMinimal (nSolution block) (CollisionBitLength n k)))"
  using IsValidSolution_spec [OF eh_supported_params [OF assms(1)] assms(2) outlen_update]
  by (simp add: CheckEquihashSolution_def equihash_verifier_def EhIsValidSolution_supported [OF assms(1)])

text \<open>An accepted header solves the generalised birthday problem for all its indices at once.\<close>

lemma accepted_solution:
  assumes "eh_supported n k" "digest_ok blake" "CheckEquihashSolution (equihash_verifier blake) n k block"
  shows "\<exists>is. GetIndicesFromMinimal (nSolution block) (CollisionBitLength n k) = Some is \<and> length is = 2 ^ k \<and> distinct is \<and>
    xors (HashLength n k) (index_hash blake n k (blake2b_update (InitialiseState n k) (ser_CEquihashInput block @ ser_uint256 (nNonce block)))) is =
      replicate (HashLength n k) 0"
proof -
  let ?f = "index_hash blake n k (blake2b_update (InitialiseState n k) (ser_CEquihashInput block @ ser_uint256 (nNonce block)))"
  let ?is = "the (GetIndicesFromMinimal (nSolution block) (CollisionBitLength n k))"
  note p = eh_supported_params [OF assms(1)]
  have s: "length (nSolution block) = SolutionWidth n k" "eh_solution ?f (CollisionByteLength n k) k ?is"
    using CheckEquihashSolution_spec [OF assms(1,2)] assms(3) by blast+
  have L: "7 \<le> CollisionBitLength n k" "CollisionBitLength n k \<le> 24" using p by (simp_all add: eh_params_def)
  have "8 * length (nSolution block) = (CollisionBitLength n k + 1) * 2 ^ k"
    using p s(1) by (simp add: eh_params_def SolutionWidth_def mult.commute)
  from GetMinimal_GetIndices [OF L this] have g: "GetIndicesFromMinimal (nSolution block) (CollisionBitLength n k) = Some ?is" by auto
  have "xors (HashLength n k) ?f ?is = replicate (HashLength n k) 0"
    using eh_solution_zero [where f = ?f, OF length_index_hash [OF p assms(2) outlen_update] s(2)] by (simp add: HashLength_def)
  moreover have "distinct ?is" using s(2) eh_tree_distinct unfolding eh_solution_def by blast
  ultimately show ?thesis using g s(2) by (intro exI [of _ ?is]) (simp add: eh_solution_def)
qed

section \<open>An example\<close>

text \<open>With a digest that is always zero, any increasing list of indices is a solution.\<close>

definition ex_digest :: blake2b where
  "ex_digest n p m = replicate n 0"

definition ex_eh_indices :: "u32 list" where
  "ex_eh_indices = map of_nat [0 ..< 32]"

lemma ex_digest_ok: "digest_ok ex_digest"
  by (simp add: digest_ok_def ex_digest_def)

lemma ex_eh_tree: "eh_tree (\<lambda>i. replicate 6 0) 6 1 5 ex_eh_indices"
  by code_simp

lemma xors_zero: "xors w (\<lambda>i. replicate w 0) is = replicate w 0"
  by (induction "is") (simp_all add: map2_xor_zeros)
lemma ex_index_hash: "index_hash ex_digest 48 5 (blake2b_update (InitialiseState 48 5) inp) = (\<lambda>i. replicate 6 0)"
proof
  fix i :: u32
  have e: "ExpandArray (replicate 6 0) (replicate 6 0) 8 0 = Some (replicate 6 0)" by code_simp
  have "length (take (48 div 8) (drop (unat (i mod of_nat (IndicesPerHashOutput 48)) * 48 div 8) (replicate (HashOutput 48) (0 :: u8)))) = 6"
    using index_in_output [of 48 5 "replicate (HashOutput 48) 0" "unat (i mod of_nat (IndicesPerHashOutput 48))"] index_position [of 48 5 i] eh_params_supported(4)
    by simp
  then have "take (48 div 8) (drop (unat (i mod of_nat (IndicesPerHashOutput 48)) * 48 div 8) (replicate (HashOutput 48) (0 :: u8))) = replicate 6 0"
    by (simp add: list_eq_iff_nth_eq)
  moreover have "GenerateHash ex_digest (blake2b_update (InitialiseState 48 5) inp) g (HashOutput 48) = replicate (HashOutput 48) 0" for g
    by (simp add: GenerateHash_def ex_digest_def blake2b_update_def InitialiseState_def HashOutput_def IndicesPerHashOutput_def Let_def)
  ultimately show "index_hash ex_digest 48 5 (blake2b_update (InitialiseState 48 5) inp) i = replicate 6 0"
    using e by (simp add: index_hash_def HashLength_def CollisionByteLength_def CollisionBitLength_def)
qed
lemma ex_eh_solution: "eh_solution (index_hash ex_digest 48 5 (blake2b_update (InitialiseState 48 5) inp)) (CollisionByteLength 48 5) 5 ex_eh_indices"
proof -
  have "CollisionByteLength 48 5 = 1" by (simp add: CollisionByteLength_def CollisionBitLength_def)
  then show ?thesis using ex_eh_tree by (simp add: eh_solution_def ex_index_hash xors_zero) (simp add: ex_eh_indices_def)
qed

lemma ex_packed: "\<exists>soln. length soln = SolutionWidth 48 5 \<and> GetIndicesFromMinimal soln (CollisionBitLength 48 5) = Some ex_eh_indices"
proof -
  have "list_all (\<lambda>i. unat i < 2 ^ (8 + 1)) ex_eh_indices" by code_simp
  from GetIndices_GetMinimal [OF _ _ this, of 36] show ?thesis
    by (auto simp: ex_eh_indices_def SolutionWidth_def CollisionBitLength_def)
qed

end
