(* ===== verification/Eh_Solver.thy ===== *)
theory Eh_Solver
  imports Equihash "HOL-Library.Multiset"
begin

text \<open>
  The Equihash solver \<open>BasicSolve\<close> (\<open>crypto/equihash.cpp\<close>) and its correctness: it terminates, no assertion
  fails, and every solution it hands to its callback is accepted by the verifier.  The callbacks may change a
  state of any type.  The order of equal rows after \<open>std::sort\<close> is not specified, so sorting is the argument
  \<open>sort_rows\<close>, which may permute a list in any way.  A result \<open>None\<close> means a failed assertion or a loop
  that does not end; the exception of a cancelled solver is a value.
\<close>

section \<open>The code\<close>

datatype EhSolverCancelCheck =
  ListGeneration | ListSorting | ListColliding | RoundEnd | FinalSorting | FinalColliding |
  PartialGeneration | PartialSorting | PartialSubtreeEnd | PartialIndexEnd | PartialEnd

datatype eh_exception = EhSolverCancelledException

record 's callbacks =
  validBlock :: "bytes \<Rightarrow> 's \<Rightarrow> bool \<times> 's"
  cancelled :: "EhSolverCancelCheck \<Rightarrow> 's \<Rightarrow> bool \<times> 's"

type_synonym ('a, 's) run = "((eh_exception + 'a) \<times> 's) option"

text \<open>\<open>if (cancelled(pos)) throw solver_cancelled;\<close> followed by \<open>k\<close>.\<close>

definition unless_cancelled :: "'s callbacks \<Rightarrow> EhSolverCancelCheck \<Rightarrow> 's \<Rightarrow> ('s \<Rightarrow> ('a, 's) run) \<Rightarrow> ('a, 's) run" where
  "unless_cancelled cb pos s k =
     (if fst (cancelled cb pos s) then Some (Inl EhSolverCancelledException, snd (cancelled cb pos s))
      else k (snd (cancelled cb pos s)))"

text \<open>Going on with the value of a statement unless it throws.\<close>

definition and_then :: "('a, 's) run \<Rightarrow> ('a \<Rightarrow> 's \<Rightarrow> ('b, 's) run) \<Rightarrow> ('b, 's) run" where
  "and_then m k = (case m of None \<Rightarrow> None | Some (Inl e, s) \<Rightarrow> Some (Inl e, s) | Some (Inr a, s) \<Rightarrow> k a s)"

text \<open>The inner loop of the list generation, with \<open>n\<close> positions of the digest left.\<close>

fun gen_rows :: "nat \<Rightarrow> nat \<Rightarrow> bytes \<Rightarrow> u32 \<Rightarrow> nat \<Rightarrow> nat \<Rightarrow> bytes list \<Rightarrow> bytes list option" where
  "gen_rows N K tmpHash g init_size 0 X = Some X"
| "gen_rows N K tmpHash g init_size (Suc n) X =
     (let i = IndicesPerHashOutput N - Suc n
      in if length X < init_size
         then do {
           row \<leftarrow> index_row N K (FullWidth N K) tmpHash i (of_nat (unat g * IndicesPerHashOutput N + i));
           gen_rows N K tmpHash g init_size n (X @ [row]) }
         else Some X)"

partial_function (option) generate ::
  "'s callbacks \<Rightarrow> blake2b \<Rightarrow> nat \<Rightarrow> nat \<Rightarrow> eh_HashState \<Rightarrow> nat \<Rightarrow> u32 \<Rightarrow> bytes list \<Rightarrow> 's \<Rightarrow> (bytes list, 's) run" where
  "generate cb blake N K base_state init_size g X s =
     (if length X < init_size
      then do {
        X \<leftarrow> gen_rows N K (GenerateHash blake base_state g (HashOutput N)) g init_size (IndicesPerHashOutput N) X;
        let (stop, s) = cancelled cb ListGeneration s;
        if stop then Some (Inl EhSolverCancelledException, s)
        else generate cb blake N K base_state init_size (g + 1) X s }
      else Some (Inr X, s))"

text \<open>The number of rows from row \<open>i\<close> on that collide with it, counted up from \<open>j\<close>.\<close>

function find_run :: "bytes list \<Rightarrow> nat \<Rightarrow> nat \<Rightarrow> nat \<Rightarrow> nat" where
  "find_run X i l j = (if i + j < length X \<and> HasCollision (X ! i) (X ! (i + j)) l then find_run X i l (Suc j) else j)"
  by pat_completeness auto
termination by (relation "measure (\<lambda>(X, i, l, j). length X - j)") auto

declare find_run.simps [simp del]

text \<open>The pairs \<open>(l, m)\<close> that the two nested loops go through.\<close>

definition run_pairs :: "nat \<Rightarrow> (nat \<times> nat) list" where
  "run_pairs j = concat (map (\<lambda>l. map (Pair l) [l + 1 ..< j]) [0 ..< j - 1])"

fun join_pairs :: "nat \<Rightarrow> nat \<Rightarrow> nat \<Rightarrow> nat \<Rightarrow> bytes list \<Rightarrow> nat \<Rightarrow> (nat \<times> nat) list \<Rightarrow> bytes list \<Rightarrow> bytes list option" where
  "join_pairs N K hashLen lenIndices X i [] Xc = Some Xc"
| "join_pairs N K hashLen lenIndices X i ((l, m) # ps) Xc =
     (if DistinctIndices (X ! (i + l)) (X ! (i + m)) hashLen lenIndices
      then do {
        row \<leftarrow> FullStepRow_join (FullWidth N K) (FullWidth N K) (X ! (i + l)) (X ! (i + m)) hashLen lenIndices (CollisionByteLength N K);
        join_pairs N K hashLen lenIndices X i ps (Xc @ [row]) }
      else join_pairs N K hashLen lenIndices X i ps Xc)"

text \<open>New rows take the place of old ones below \<open>limit\<close>, the last new row first.\<close>

function store_back :: "nat \<Rightarrow> bytes list \<Rightarrow> nat \<Rightarrow> bytes list \<Rightarrow> bytes list \<times> nat \<times> bytes list" where
  "store_back limit X posFree Xc =
     (if posFree < limit \<and> Xc \<noteq> [] then store_back limit (X[posFree := last Xc]) (posFree + 1) (butlast Xc)
      else (X, posFree, Xc))"
  by pat_completeness auto
termination by (relation "measure (\<lambda>(limit, X, posFree, Xc). length Xc)") auto

declare store_back.simps [simp del]

partial_function (option) collide_loop ::
  "'s callbacks \<Rightarrow> nat \<Rightarrow> nat \<Rightarrow> nat \<Rightarrow> nat \<Rightarrow> bytes list \<Rightarrow> nat \<Rightarrow> nat \<Rightarrow> bytes list \<Rightarrow> 's \<Rightarrow> (bytes list \<times> nat \<times> bytes list, 's) run" where
  "collide_loop cb N K hashLen lenIndices X i posFree Xc s =
     (if i < length X - 1
      then do {
        let j = find_run X i (CollisionByteLength N K) 1;
        Xc \<leftarrow> join_pairs N K hashLen lenIndices X i (run_pairs j) Xc;
        let (X, posFree, Xc) = store_back (i + j) X posFree Xc;
        let (stop, s) = cancelled cb ListColliding s;
        if stop then Some (Inl EhSolverCancelledException, s)
        else collide_loop cb N K hashLen lenIndices X (i + j) posFree Xc s }
      else Some (Inr (X, posFree, Xc), s))"

definition finish_round :: "bytes list \<times> nat \<times> bytes list \<Rightarrow> bytes list" where
  "finish_round t =
     (case t of (X, posFree, Xc) \<Rightarrow> case store_back (length X) X posFree Xc of (X, posFree, Xc) \<Rightarrow>
        if Xc \<noteq> [] then X @ Xc else if posFree < length X then take posFree X else X)"

text \<open>The rounds, \<open>n\<close> of them left; the result is the table, \<open>hashLen\<close> and \<open>lenIndices\<close>.\<close>

fun solve_rounds :: "'s callbacks \<Rightarrow> (nat \<Rightarrow> bytes list \<Rightarrow> bytes list) \<Rightarrow> nat \<Rightarrow> nat \<Rightarrow> nat \<Rightarrow> nat \<Rightarrow> nat \<Rightarrow> bytes list \<Rightarrow> 's \<Rightarrow>
    (bytes list \<times> nat \<times> nat, 's) run" where
  "solve_rounds cb sort_rows N K 0 hashLen lenIndices X s = Some (Inr (X, hashLen, lenIndices), s)"
| "solve_rounds cb sort_rows N K (Suc n) hashLen lenIndices X s =
     (if length X > 0
      then let X = sort_rows (CollisionByteLength N K) X
        in unless_cancelled cb ListSorting s (\<lambda>s.
           and_then (collide_loop cb N K hashLen lenIndices X 0 0 [] s) (\<lambda>t s.
           unless_cancelled cb RoundEnd s (\<lambda>s.
           solve_rounds cb sort_rows N K n (hashLen - CollisionByteLength N K) (lenIndices * 2) (finish_round t) s)))
      else Some (Inr (X, hashLen, lenIndices), s))"

definition GetIndices :: "bytes \<Rightarrow> nat \<Rightarrow> nat \<Rightarrow> nat \<Rightarrow> bytes option" where
  "GetIndices hash len lenIndices cBitLen =
     (if \<not> (((cBitLen + 1) + 7) div 8 \<le> 4) then None
      else let minLen = (cBitLen + 1) * lenIndices div (8 * 4);
               bytePad = 4 - ((cBitLen + 1) + 7) div 8
        in CompressArray (take lenIndices (drop len hash)) minLen (cBitLen + 1) bytePad)"

fun final_pairs :: "'s callbacks \<Rightarrow> nat \<Rightarrow> nat \<Rightarrow> nat \<Rightarrow> nat \<Rightarrow> bytes list \<Rightarrow> nat \<Rightarrow> (nat \<times> nat) list \<Rightarrow> 's \<Rightarrow> (bool, 's) run" where
  "final_pairs cb N K hashLen lenIndices X i [] s = Some (Inr False, s)"
| "final_pairs cb N K hashLen lenIndices X i ((l, m) # ps) s = do {
     res \<leftarrow> FullStepRow_join (FullWidth N K) (FinalFullWidth N K) (X ! (i + l)) (X ! (i + m)) hashLen lenIndices 0;
     if DistinctIndices (X ! (i + l)) (X ! (i + m)) hashLen lenIndices
     then do {
       soln \<leftarrow> GetIndices res hashLen (2 * lenIndices) (CollisionBitLength N K);
       if length soln \<noteq> equihash_solution_size N K then None
       else let (valid, s) = validBlock cb soln s
         in if valid then Some (Inr True, s) else final_pairs cb N K hashLen lenIndices X i ps s }
     else final_pairs cb N K hashLen lenIndices X i ps s }"

partial_function (option) final_loop ::
  "'s callbacks \<Rightarrow> nat \<Rightarrow> nat \<Rightarrow> nat \<Rightarrow> nat \<Rightarrow> bytes list \<Rightarrow> nat \<Rightarrow> 's \<Rightarrow> (bool, 's) run" where
  "final_loop cb N K hashLen lenIndices X i s =
     (if i < length X - 1
      then let j = find_run X i hashLen 1
        in case final_pairs cb N K hashLen lenIndices X i (run_pairs j) s of
          None \<Rightarrow> None
        | Some (r, s) \<Rightarrow>
            (case r of Inl e \<Rightarrow> Some (Inl e, s)
             | Inr found \<Rightarrow>
                 if found then Some (Inr True, s)
                 else let (stop, s) = cancelled cb FinalColliding s
                   in if stop then Some (Inl EhSolverCancelledException, s)
                      else final_loop cb N K hashLen lenIndices X (i + j) s)
      else Some (Inr False, s))"

definition BasicSolve ::
  "'s callbacks \<Rightarrow> (nat \<Rightarrow> bytes list \<Rightarrow> bytes list) \<Rightarrow> blake2b \<Rightarrow> nat \<Rightarrow> nat \<Rightarrow> eh_HashState \<Rightarrow> 's \<Rightarrow> (bool, 's) run" where
  "BasicSolve cb sort_rows blake N K base_state s =
     (let init_size = 2 ^ (CollisionBitLength N K + 1)
      in and_then (generate cb blake N K base_state init_size 0 [] s) (\<lambda>X s.
         and_then (solve_rounds cb sort_rows N K (K - 1) (HashLength N K) 4 X s) (\<lambda>(X, hashLen, lenIndices) s.
         if length X > 1
         then let X = sort_rows hashLen X
           in unless_cancelled cb FinalSorting s (\<lambda>s. final_loop cb N K hashLen lenIndices X 0 s)
         else Some (Inr False, s))))"

text \<open>The function \<open>EhBasicSolve\<close> throws for other parameters.\<close>

definition EhBasicSolve ::
  "'s callbacks \<Rightarrow> (nat \<Rightarrow> bytes list \<Rightarrow> bytes list) \<Rightarrow> blake2b \<Rightarrow> nat \<Rightarrow> nat \<Rightarrow> eh_HashState \<Rightarrow> 's \<Rightarrow> (bool, 's) run" where
  "EhBasicSolve cb sort_rows blake n k base_state s =
     (if n = 96 \<and> k = 3 then BasicSolve cb sort_rows blake 96 3 base_state s
      else if n = 200 \<and> k = 9 then BasicSolve cb sort_rows blake 200 9 base_state s
      else if n = 96 \<and> k = 5 then BasicSolve cb sort_rows blake 96 5 base_state s
      else if n = 48 \<and> k = 5 then BasicSolve cb sort_rows blake 48 5 base_state s
      else None)"

definition EhBasicSolveUncancellable ::
  "(bytes \<Rightarrow> 's \<Rightarrow> bool \<times> 's) \<Rightarrow> (nat \<Rightarrow> bytes list \<Rightarrow> bytes list) \<Rightarrow> blake2b \<Rightarrow> nat \<Rightarrow> nat \<Rightarrow> eh_HashState \<Rightarrow> 's \<Rightarrow> (bool, 's) run" where
  "EhBasicSolveUncancellable valid sort_rows blake n k base_state s =
     EhBasicSolve \<lparr>validBlock = valid, cancelled = (\<lambda>pos s. (False, s))\<rparr> sort_rows blake n k base_state s"

section \<open>Rows that solve a smaller problem\<close>

text \<open>A row of the table after \<open>h\<close> rounds: a valid subtree of height \<open>h\<close> over indices below \<open>M\<close>.\<close>

definition good :: "(u32 \<Rightarrow> bytes) \<Rightarrow> nat \<Rightarrow> nat \<Rightarrow> nat \<Rightarrow> nat \<Rightarrow> bytes \<Rightarrow> bool" where
  "good f w c M h x \<longleftrightarrow> (\<exists>is. length is = 2 ^ h \<and> eh_tree f w c h is \<and> list_all (\<lambda>i. unat i < M) is \<and> x = row f w c h is)"

lemma HasCollision_sym: "HasCollision a b l \<longleftrightarrow> HasCollision b a l"
  by (auto simp: HasCollision_def list_all_iff)

lemma HasCollision_trans: "HasCollision a b l \<Longrightarrow> HasCollision b c l \<Longrightarrow> HasCollision a c l"
  by (auto simp: HasCollision_def list_all_iff)

lemma map2_xor_commute: "map2 (XOR) a b = map2 (XOR) b (a :: bytes)"
  by (subst zip_commute) (simp add: case_prod_unfold xor.commute comp_def)

lemma join_swap:
  assumes "IndicesBefore a b len lenIndices \<longleftrightarrow> \<not> IndicesBefore b a len lenIndices"
  shows "FullStepRow_join W width a b len lenIndices trim = FullStepRow_join W width b a len lenIndices trim"
  unfolding FullStepRow_join_def map2_xor_commute [of "drop trim (take len a)"]
  by (cases "IndicesBefore b a len lenIndices") (simp_all only: assms not_True_eq_False not_False_eq_True if_True if_False)

lemma row_join_trim:
  assumes f: "\<And>i. length (f i) = w" and len: "len = w - h * c" and n: "length l = n" "length r = n" "0 < n"
    and less: "hd l < hd r" and W: "len + 4 * n \<le> W" "t \<le> len" "len - t + 8 * n \<le> width"
  shows "FullStepRow_join W width (row f w c h l) (row f w c h r) len (4 * n) t =
    Some (drop (h * c + t) (xors w f (l @ r)) @ index_bytes (l @ r))"
proof -
  have "take (4 * n) (index_bytes l) = index_bytes l" "take (4 * n) (index_bytes r) = index_bytes r"
    using n by (simp_all add: length_index_bytes)
  moreover have "IndicesBefore (row f w c h l) (row f w c h r) len (4 * n)"
    using row_before [where f = f, OF f len n] less by auto
  moreover have "map2 (XOR) (drop t (drop (h * c) (xors w f l))) (drop t (drop (h * c) (xors w f r))) = drop (h * c + t) (xors w f (l @ r))"
    by (simp add: xors_append f drop_map2 add.commute)
  ultimately show ?thesis unfolding FullStepRow_join_def row_split [where f = f, OF f len]
    using W by simp
qed

text \<open>Two rows that collide and have no index in common give the indices of a larger subtree, in some order.\<close>

lemma pair_tree:
  assumes f: "\<And>i. length (f i) = w" and c: "h * c + c \<le> w" and len: "len = w - h * c"
    and a: "good f w c M h a" and b: "good f w c M h b" and coll: "HasCollision a b c" and dist: "DistinctIndices a b len (4 * 2 ^ h)"
    and W: "len + 4 * 2 ^ h \<le> W" "t \<le> len" "len - t + 8 * 2 ^ h \<le> width"
  obtains "is" where "length is = 2 ^ Suc h" "eh_tree f w c (Suc h) is" "list_all (\<lambda>i. unat i < M) is"
    "FullStepRow_join W width a b len (4 * 2 ^ h) t = Some (drop (h * c + t) (xors w f is) @ index_bytes is)"
    "\<And>l. HasCollision a b (c + l) \<Longrightarrow> h * c + c + l = w \<Longrightarrow> drop (h * c + c) (xors w f is) = replicate l 0"
proof -
  obtain l where l: "length l = 2 ^ h" "eh_tree f w c h l" "list_all (\<lambda>i. unat i < M) l" "a = row f w c h l"
    using a by (auto simp: good_def)
  obtain r where r: "length r = 2 ^ h" "eh_tree f w c h r" "list_all (\<lambda>i. unat i < M) r" "b = row f w c h r"
    using b by (auto simp: good_def)
  have n: "(0 :: nat) < 2 ^ h" by simp
  have disj: "set l \<inter> set r = {}" using dist row_distinct [where f = f, OF f len l(1) r(1)] l(4) r(4) by simp
  then have hd: "hd l \<noteq> hd r" using l(1) r(1) n hd_in_set [of l] hd_in_set [of r] by fastforce
  have swap: "FullStepRow_join W width a b len (4 * 2 ^ h) t = FullStepRow_join W width b a len (4 * 2 ^ h) t"
    using row_before [where f = f, OF f len l(1) r(1) n] row_before [where f = f, OF f len r(1) l(1) n] hd
    unfolding l(4) r(4) by (intro join_swap) auto
  have rest: "drop (h * c + c) (xors w f (x @ y)) = replicate k 0"
    if "HasCollision (row f w c h x) (row f w c h y) (c + k)" "h * c + c + k = w" for x y k
  proof -
    let ?a = "drop (h * c) (xors w f x)" and ?b = "drop (h * c) (xors w f y)"
    have "length ?a = c + k" "length ?b = c + k" using that(2) by (simp_all add: length_xors f)
    moreover have "take (c + k) (row f w c h x) = take (c + k) (row f w c h y)"
      using that by (subst HasCollision_take [symmetric]) (simp_all add: row_def length_xors f)
    ultimately have "?a = ?b" by (simp add: row_def)
    then have "drop c ?a = drop c ?b" by simp
    then have "map2 (XOR) (drop c ?a) (drop c ?b) = replicate k 0"
      using map2_xor_cancel [of "drop c ?a" "drop c ?b"] that(2) by (simp add: length_xors f)
    then show ?thesis by (simp add: xors_append f drop_map2 add.commute)
  qed
  have coll2: "HasCollision (row f w c h x) (row f w c h y) c \<Longrightarrow> take c (drop (h * c) (xors w f (x @ y))) = replicate c 0" for x y
    using row_collision [where f = f and l = x and r = y, OF f c] by simp
  show thesis
  proof (cases "hd l < hd r")
    case True
    have "eh_tree f w c (Suc h) (l @ r)" using l r True disj coll coll2 [of l r] by (simp add: node_ok_def)
    then show thesis
      using l r row_join_trim [where f = f, OF f len l(1) r(1) n True W] rest [of l r] by (intro that [of "l @ r"]) simp_all
  next
    case False
    then have less: "hd r < hd l" using hd by simp
    have ba: "HasCollision b a k \<longleftrightarrow> HasCollision a b k" for k by (rule HasCollision_sym)
    have "eh_tree f w c (Suc h) (r @ l)" using l r less disj coll coll2 [of r l] ba by (simp add: node_ok_def Int_commute)
    then show thesis
      using l r row_join_trim [where f = f, OF f len r(1) l(1) n less W] rest [of r l] ba
        swap [unfolded l(4) r(4)]
      by (intro that [of "r @ l"]) simp_all
  qed
qed

lemma join_good:
  assumes f: "\<And>i. length (f i) = w" and c: "h * c + c \<le> w" and len: "len = w - h * c"
    and ab: "good f w c M h a" "good f w c M h b" "HasCollision a b c" "DistinctIndices a b len (4 * 2 ^ h)"
    and W: "len + 4 * 2 ^ h \<le> W" "len - c + 8 * 2 ^ h \<le> width"
  shows "\<exists>x. FullStepRow_join W width a b len (4 * 2 ^ h) c = Some x \<and> good f w c M (Suc h) x"
proof -
  have "c \<le> len" using c len by simp
  with pair_tree [where f = f, OF f c len ab W(1) _ W(2)] obtain "is" where
    "length is = 2 ^ Suc h" "eh_tree f w c (Suc h) is" "list_all (\<lambda>i. unat i < M) is"
    "FullStepRow_join W width a b len (4 * 2 ^ h) c = Some (drop (h * c + c) (xors w f is) @ index_bytes is)" by metis
  then show ?thesis unfolding good_def by (intro exI conjI) (auto simp: row_def add.commute)
qed

section \<open>Runs\<close>

text \<open>A run ends in a state that satisfies \<open>I\<close>, and its value, if it does not throw, satisfies \<open>Q\<close>.\<close>

definition safe :: "('s \<Rightarrow> bool) \<Rightarrow> ('a \<Rightarrow> bool) \<Rightarrow> ('a, 's) run \<Rightarrow> bool" where
  "safe I Q m \<longleftrightarrow> (\<exists>r s. m = Some (r, s) \<and> I s \<and> (case r of Inl e \<Rightarrow> True | Inr a \<Rightarrow> Q a))"

lemma safe_simps [simp]:
  "safe I Q (Some (Inl e, s)) \<longleftrightarrow> I s" "safe I Q (Some (Inr a, s)) \<longleftrightarrow> I s \<and> Q a"
  by (simp_all add: safe_def)

lemma safe_and_then:
  assumes "safe I P m" "\<And>a s. P a \<Longrightarrow> I s \<Longrightarrow> safe I Q (k a s)"
  shows "safe I Q (and_then m k)"
proof -
  obtain r s where m: "m = Some (r, s)" "I s" "case r of Inl e \<Rightarrow> True | Inr a \<Rightarrow> P a" using assms(1) by (auto simp: safe_def)
  then show ?thesis using assms(2) by (cases r) (simp_all add: and_then_def)
qed

text \<open>The callback that asks for cancellation keeps \<open>I\<close>.\<close>

definition keeps :: "('s \<Rightarrow> bool) \<Rightarrow> 's callbacks \<Rightarrow> bool" where
  "keeps I cb \<longleftrightarrow> (\<forall>pos s. I s \<longrightarrow> I (snd (cancelled cb pos s)))"

lemma safe_unless_cancelled: "keeps I cb \<Longrightarrow> I s \<Longrightarrow> (\<And>s. I s \<Longrightarrow> safe I Q (k s)) \<Longrightarrow> safe I Q (unless_cancelled cb pos s k)"
  by (simp add: unless_cancelled_def keeps_def)

section \<open>The first list\<close>

lemma index_of_position:
  assumes "unat g * P + k < 2 ^ 32" "k < P" "P < 2 ^ 32"
  shows "(of_nat (unat g * P + k) :: u32) div of_nat P = g" "unat ((of_nat (unat g * P + k) :: u32) mod of_nat P) = k"
proof -
  have u: "unat (of_nat (unat g * P + k) :: u32) = unat g * P + k" "unat (of_nat P :: u32) = P"
    using assms by (simp_all only: unat_of_nat_u32)
  have "unat ((of_nat (unat g * P + k) :: u32) div of_nat P) = unat g" using assms(2) by (simp only: unat_div u) simp
  then show "(of_nat (unat g * P + k) :: u32) div of_nat P = g" by (simp only: word_unat_eq_iff)
  show "unat ((of_nat (unat g * P + k) :: u32) mod of_nat P) = k" using assms(2) by (simp only: unat_mod u) simp
qed

text \<open>The buffers of the solver are large enough in every round.\<close>

lemma solver_fits:
  fixes c :: nat
  assumes "h < K" "c \<le> 4"
  shows "(K + 1) * c - h * c + 4 * 2 ^ h \<le> 2 * c + 4 * 2 ^ (K - 1)"
proof -
  obtain d where d: "K = Suc (h + d)" using assms(1) less_iff_Suc_add by auto
  have "h < Suc (h + d)" by simp
  from round_fits(1) [OF this assms(2)] d have "2 ^ h * Suc d \<le> (2 :: nat) ^ (h + d)"
    by (metis Suc_le_eq less_exp mult_le_mono2 power_add)
  then have "2 ^ h + 2 ^ h * d \<le> (2 :: nat) ^ (K - 1)" by (simp add: d)
  moreover have "d \<le> 2 ^ h * d" "d * c \<le> 4 * d" using assms(2) by simp_all
  moreover have "(K + 1) * c - h * c = 2 * c + d * c" by (simp add: d algebra_simps)
  ultimately show ?thesis by linarith
qed

lemma generated_row:
  assumes p: "eh_params N K" and d: "digest_ok blake" "hs_outlen st = HashOutput N"
    and k: "k < IndicesPerHashOutput N" and i: "unat g * IndicesPerHashOutput N + k < M" and M: "M \<le> 2 ^ 32"
  shows "\<exists>row. index_row N K (FullWidth N K) (GenerateHash blake st g (HashOutput N)) k (of_nat (unat g * IndicesPerHashOutput N + k)) = Some row \<and>
    good (index_hash blake N K st) ((K + 1) * CollisionByteLength N K) (CollisionByteLength N K) M 0 row"
proof -
  let ?P = "IndicesPerHashOutput N" and ?f = "index_hash blake N K st"
  let ?i = "of_nat (unat g * ?P + k) :: u32"
  have "?P < 2 ^ 32" unfolding IndicesPerHashOutput_def by (rule order.strict_trans1 [OF div_le_dividend]) simp
  moreover have "unat g * ?P + k < 2 ^ 32" using i M by linarith
  ultimately have pos: "?i div of_nat ?P = g" "unat (?i mod of_nat ?P) = k" "unat ?i = unat g * ?P + k"
    using index_of_position [of g ?P k] k by (simp_all only: unat_of_nat_u32)
  have "HashLength N K + 4 \<le> FullWidth N K"
    using solver_fits [of 0 K "CollisionByteLength N K"] eh_params_small(1) [OF p] p
    by (simp add: HashLength_def FullWidth_def eh_params_def)
  from index_row_spec [OF p length_GenerateHash [OF d, of g] k this, of ?i]
  have "index_row N K (FullWidth N K) (GenerateHash blake st g (HashOutput N)) k ?i = Some (?f ?i @ EhIndexToArray ?i)"
    by (simp only: index_hash_def pos)
  moreover have "?f ?i @ EhIndexToArray ?i = row ?f ((K + 1) * CollisionByteLength N K) (CollisionByteLength N K) 0 [?i]"
    by (rule row_leaf [symmetric]) (rule length_index_hash [OF p d])
  ultimately show ?thesis unfolding good_def using pos(3) i by (intro exI conjI) (auto intro!: exI [of _ "[?i]"])
qed

lemma gen_rows_spec:
  assumes p: "eh_params N K" and d: "digest_ok blake" "hs_outlen st = HashOutput N" and M: "M \<le> 2 ^ 32"
  shows "n \<le> IndicesPerHashOutput N \<Longrightarrow> length X = min M (unat g * IndicesPerHashOutput N + (IndicesPerHashOutput N - n)) \<Longrightarrow>
    list_all (good (index_hash blake N K st) ((K + 1) * CollisionByteLength N K) (CollisionByteLength N K) M 0) X \<Longrightarrow>
    \<exists>X'. gen_rows N K (GenerateHash blake st g (HashOutput N)) g M n X = Some X' \<and>
      length X' = min M (unat g * IndicesPerHashOutput N + IndicesPerHashOutput N) \<and>
      list_all (good (index_hash blake N K st) ((K + 1) * CollisionByteLength N K) (CollisionByteLength N K) M 0) X'"
proof (induction n arbitrary: X)
  case (Suc n)
  let ?P = "IndicesPerHashOutput N"
  show ?case
  proof (cases "length X < M")
    case True
    have k: "?P - Suc n < ?P" "unat g * ?P + (?P - Suc n) < M" using Suc.prems(1,2) True by auto
    from generated_row [OF p d k M] obtain row where
      r: "index_row N K (FullWidth N K) (GenerateHash blake st g (HashOutput N)) (?P - Suc n) (of_nat (unat g * ?P + (?P - Suc n))) = Some row"
        "good (index_hash blake N K st) ((K + 1) * CollisionByteLength N K) (CollisionByteLength N K) M 0 row" by blast
    have "length (X @ [row]) = min M (unat g * ?P + (?P - n))" using Suc.prems(1,2) True by auto
    from Suc.IH [OF _ this] r Suc.prems True show ?thesis by (simp add: Let_def)
  next
    case False
    then have "length X = min M (unat g * ?P + ?P)" using Suc.prems(1,2) by linarith
    then show ?thesis using False Suc.prems(3) by (simp add: Let_def)
  qed
qed simp

lemma generate_safe:
  assumes p: "eh_params N K" and d: "digest_ok blake" "hs_outlen st = HashOutput N" and M: "M < 2 ^ 32" and I: "keeps I cb"
  shows "I s \<Longrightarrow> length X = min M (unat g * IndicesPerHashOutput N) \<Longrightarrow>
    list_all (good (index_hash blake N K st) ((K + 1) * CollisionByteLength N K) (CollisionByteLength N K) M 0) X \<Longrightarrow>
    safe I (list_all (good (index_hash blake N K st) ((K + 1) * CollisionByteLength N K) (CollisionByteLength N K) M 0))
      (generate cb blake N K st M g X s)"
proof (induction "M - length X" arbitrary: X g s rule: less_induct)
  case less
  let ?P = "IndicesPerHashOutput N"
  show ?case
  proof (cases "length X < M")
    case True
    have P: "0 < ?P" using p by (simp add: IndicesPerHashOutput_def eh_params_def div_greater_zero_iff)
    obtain X' where X': "gen_rows N K (GenerateHash blake st g (HashOutput N)) g M ?P X = Some X'"
      "length X' = min M (unat g * ?P + ?P)"
      "list_all (good (index_hash blake N K st) ((K + 1) * CollisionByteLength N K) (CollisionByteLength N K) M 0) X'"
      using gen_rows_spec [OF p d, of M ?P X g] M less.prems by auto
    have "unat g \<le> unat g * ?P" using mult_le_mono2 [of 1 ?P "unat g"] P by linarith
    then have "unat g + 1 < 2 ^ 32" using True less.prems(2) M by linarith
    then have g: "unat (g + 1) = unat g + 1" by (simp add: unat_plus_no_overflow)
    have "M - length X' < M - length X" using X'(2) True P less.prems(2) by simp
    then have "safe I (list_all (good (index_hash blake N K st) ((K + 1) * CollisionByteLength N K) (CollisionByteLength N K) M 0))
        (generate cb blake N K st M (g + 1) X' s')" if "I s'" for s'
      using less.hyps [OF _ that _ X'(3), of "g + 1"] X'(2) g by simp
    then show ?thesis
      using True X'(1) less.prems(1) I by (simp add: generate.simps [of cb blake N K st M g X] keeps_def case_prod_unfold Let_def)
  next
    case False
    then show ?thesis using less.prems by (simp add: generate.simps [of cb blake N K st M g X])
  qed
qed

section \<open>A round\<close>

lemma find_run_spec:
  "i < length X \<Longrightarrow> 1 \<le> j \<Longrightarrow> i + j \<le> length X \<Longrightarrow> \<forall>m < j. HasCollision (X ! i) (X ! (i + m)) l \<Longrightarrow>
   j \<le> find_run X i l j \<and> i + find_run X i l j \<le> length X \<and> (\<forall>m < find_run X i l j. HasCollision (X ! i) (X ! (i + m)) l)"
proof (induction X i l j rule: find_run.induct)
  case (1 X i l j)
  show ?case
  proof (cases "i + j < length X \<and> HasCollision (X ! i) (X ! (i + j)) l")
    case True
    then have "\<forall>m < Suc j. HasCollision (X ! i) (X ! (i + m)) l" using 1(5) by (auto simp: less_Suc_eq)
    with 1 True show ?thesis by (simp add: find_run.simps [of X i l j])
  next
    case False
    then have "find_run X i l j = j" unfolding find_run.simps [of X i l j] by (rule if_not_P)
    then show ?thesis using 1(4,5) by simp
  qed
qed

lemma HasCollision_refl: "HasCollision a a l"
  by (simp add: HasCollision_def list_all_iff)

text \<open>The pairs of a run collide.\<close>

lemma run_collides:
  assumes "i < length X" "j = find_run X i l 1" "(a, b) \<in> set (run_pairs j)"
  shows "i + a < length X" "i + b < length X" "HasCollision (X ! (i + a)) (X ! (i + b)) l"
proof -
  have j: "1 \<le> j \<and> i + j \<le> length X \<and> (\<forall>m < j. HasCollision (X ! i) (X ! (i + m)) l)"
    unfolding assms(2) using assms(1) by (intro find_run_spec) (simp_all add: HasCollision_refl)
  have ab: "a < b" "b < j" using assms(3) by (auto simp: run_pairs_def)
  then show "i + a < length X" "i + b < length X" using j by auto
  have "HasCollision (X ! i) (X ! (i + a)) l" "HasCollision (X ! i) (X ! (i + b)) l" using j ab by auto
  then show "HasCollision (X ! (i + a)) (X ! (i + b)) l" using HasCollision_trans HasCollision_sym by blast
qed

lemma run_advances: "i < length X \<Longrightarrow> 1 \<le> find_run X i l 1 \<and> i + find_run X i l 1 \<le> length X"
  using find_run_spec [of i X 1 l] by (simp add: HasCollision_refl)

lemma join_pairs_spec:
  assumes "\<And>l m. (l, m) \<in> set ps \<Longrightarrow> DistinctIndices (X ! (i + l)) (X ! (i + m)) hashLen lenIndices \<Longrightarrow>
      \<exists>x. FullStepRow_join (FullWidth N K) (FullWidth N K) (X ! (i + l)) (X ! (i + m)) hashLen lenIndices (CollisionByteLength N K) = Some x \<and> P x"
  shows "list_all P Xc \<Longrightarrow> \<exists>Xc'. join_pairs N K hashLen lenIndices X i ps Xc = Some Xc' \<and> list_all P Xc'"
  using assms
proof (induction ps arbitrary: Xc)
  case (Cons lm ps)
  obtain l m where lm: "lm = (l, m)" by (cases lm)
  show ?case
  proof (cases "DistinctIndices (X ! (i + l)) (X ! (i + m)) hashLen lenIndices")
    case True
    from Cons.prems(2) [OF _ True] lm obtain x where
      "FullStepRow_join (FullWidth N K) (FullWidth N K) (X ! (i + l)) (X ! (i + m)) hashLen lenIndices (CollisionByteLength N K) = Some x" "P x"
      by auto
    then show ?thesis using True lm Cons.IH [of "Xc @ [x]"] Cons.prems by auto
  next
    case False
    then show ?thesis using lm Cons.IH [of Xc] Cons.prems by auto
  qed
qed simp

lemma store_back_spec:
  "store_back limit X p Xc = (X', p', Xc') \<Longrightarrow> p \<le> limit \<Longrightarrow> limit \<le> length X \<Longrightarrow> list_all P (take p X) \<Longrightarrow> list_all P Xc \<Longrightarrow>
   length X' = length X \<and> p' \<le> limit \<and> list_all P (take p' X') \<and> list_all P Xc' \<and> drop limit X' = drop limit X \<and> (Xc' = [] \<or> p' = limit)"
proof (induction limit X p Xc rule: store_back.induct)
  case (1 limit X p Xc)
  show ?case
  proof (cases "p < limit \<and> Xc \<noteq> []")
    case True
    have "take (p + 1) (X[p := last Xc]) = take p X @ [last Xc]" using True 1(4) by (simp add: take_Suc_conv_app_nth)
    moreover have "P (last Xc)" "list_all P (butlast Xc)" using True 1(6) by (auto simp: list_all_iff dest: in_set_butlastD)
    ultimately show ?thesis using 1 True by (simp add: store_back.simps [of limit X p Xc])
  next
    case False
    then show ?thesis using 1 by (auto simp: store_back.simps [of limit X p Xc])
  qed
qed

lemma collide_loop_safe:
  assumes pairs: "\<And>x y. G x \<Longrightarrow> G y \<Longrightarrow> HasCollision x y (CollisionByteLength N K) \<Longrightarrow> DistinctIndices x y hashLen lenIndices \<Longrightarrow>
      \<exists>z. FullStepRow_join (FullWidth N K) (FullWidth N K) x y hashLen lenIndices (CollisionByteLength N K) = Some z \<and> P z"
    and I: "keeps I cb"
  shows "I s \<Longrightarrow> p \<le> i \<Longrightarrow> i \<le> length X \<Longrightarrow> list_all P (take p X) \<Longrightarrow> list_all G (drop i X) \<Longrightarrow> list_all P Xc \<Longrightarrow>
    safe I (\<lambda>(X', p', Xc'). p' \<le> length X' \<and> list_all P (take p' X') \<and> list_all P Xc')
      (collide_loop cb N K hashLen lenIndices X i p Xc s)"
proof (induction "length X - i" arbitrary: X i p Xc s rule: less_induct)
  case less
  let ?c = "CollisionByteLength N K"
  show ?case
  proof (cases "i < length X - 1")
    case True
    define j where "j = find_run X i ?c 1"
    have i: "i < length X" using True by simp
    have j: "1 \<le> j" "i + j \<le> length X" using run_advances [OF i] by (simp_all add: j_def)
    have "G (X ! (i + a))" if "i + a < length X" for a
      using less.prems(5) that by (simp add: list_all_length)
    then have "\<exists>z. FullStepRow_join (FullWidth N K) (FullWidth N K) (X ! (i + a)) (X ! (i + b)) hashLen lenIndices ?c = Some z \<and> P z"
      if "(a, b) \<in> set (run_pairs j)" "DistinctIndices (X ! (i + a)) (X ! (i + b)) hashLen lenIndices" for a b
      using pairs run_collides [OF i j_def that(1)] that(2) by blast
    from join_pairs_spec [of "run_pairs j" X i hashLen lenIndices, OF this less.prems(6)] obtain Xc1 where
      Xc1: "join_pairs N K hashLen lenIndices X i (run_pairs j) Xc = Some Xc1" "list_all P Xc1" by blast
    obtain X' p' Xc' where t: "store_back (i + j) X p Xc1 = (X', p', Xc')" by (cases "store_back (i + j) X p Xc1")
    have p: "p \<le> i + j" using less.prems(2) by simp
    from store_back_spec [OF t p j(2) less.prems(4) Xc1(2)] have
      st: "length X' = length X" "p' \<le> i + j" "list_all P (take p' X')" "list_all P Xc'" "drop (i + j) X' = drop (i + j) X" by auto
    have "list_all G (drop (i + j) X')"
      using less.prems(5) unfolding st(5) by (simp add: list_all_iff) (metis add.commute drop_drop in_set_dropD)
    moreover have "length X' - (i + j) < length X - i" using i j(1) st(1) by simp
    ultimately have "safe I (\<lambda>(X', p', Xc'). p' \<le> length X' \<and> list_all P (take p' X') \<and> list_all P Xc')
        (collide_loop cb N K hashLen lenIndices X' (i + j) p' Xc' s')" if "I s'" for s'
      using less.hyps [of X' "i + j", OF _ that st(2)] j(2) st(1,3,4) by simp
    then show ?thesis
      using True Xc1(1) t less.prems(1) I
      by (simp add: collide_loop.simps [of cb N K hashLen lenIndices X i] j_def [symmetric, unfolded One_nat_def] keeps_def case_prod_unfold Let_def)
  next
    case False
    then show ?thesis using less.prems by (simp add: collide_loop.simps [of cb N K hashLen lenIndices X i])
  qed
qed

lemma finish_round_good:
  assumes "p \<le> length X" "list_all P (take p X)" "list_all P Xc"
  shows "list_all P (finish_round (X, p, Xc))"
proof -
  obtain X' p' Xc' where t: "store_back (length X) X p Xc = (X', p', Xc')" by (cases "store_back (length X) X p Xc")
  from store_back_spec [OF t assms(1) le_refl assms(2,3)] have
    "length X' = length X" "list_all P (take p' X')" "list_all P Xc'" "Xc' = [] \<or> p' = length X" by auto
  then show ?thesis using t by (auto simp: finish_round_def)
qed

text \<open>The sort function of the library permutes.\<close>

definition permutes_rows :: "(nat \<Rightarrow> bytes list \<Rightarrow> bytes list) \<Rightarrow> bool" where
  "permutes_rows sort_rows \<longleftrightarrow> (\<forall>l X. mset (sort_rows l X) = mset X)"

lemma permutes_list_all: "permutes_rows sort_rows \<Longrightarrow> list_all P (sort_rows l X) \<longleftrightarrow> list_all P X"
  unfolding permutes_rows_def list_all_iff by (metis set_mset_mset)

lemma permutes_length: "permutes_rows sort_rows \<Longrightarrow> length (sort_rows l X) = length X"
  unfolding permutes_rows_def by (metis size_mset)

lemma solve_rounds_safe:
  assumes p: "eh_params N K" and f: "\<And>i. length (f i) = (K + 1) * CollisionByteLength N K" and I: "keeps I cb" and sort: "permutes_rows sort_rows"
  shows "I s \<Longrightarrow> h + n = K - 1 \<Longrightarrow> list_all (good f ((K + 1) * CollisionByteLength N K) (CollisionByteLength N K) M h) X \<Longrightarrow>
    safe I (\<lambda>(X', hashLen', lenIndices'). length X' > 1 \<longrightarrow>
        hashLen' = 2 * CollisionByteLength N K \<and> lenIndices' = 4 * 2 ^ (K - 1) \<and>
        list_all (good f ((K + 1) * CollisionByteLength N K) (CollisionByteLength N K) M (K - 1)) X')
      (solve_rounds cb sort_rows N K n ((K + 1) * CollisionByteLength N K - h * CollisionByteLength N K) (4 * 2 ^ h) X s)"
proof (induction n arbitrary: h X s)
  case 0
  then have "K = Suc h" using p by (simp add: eh_params_def)
  then show ?case using 0 by (simp add: algebra_simps)
next
  case (Suc n)
  let ?c = "CollisionByteLength N K"
  let ?w = "(K + 1) * ?c"
  let ?len = "?w - h * ?c"
  let ?Q = "\<lambda>(X', hashLen', lenIndices'). length X' > 1 \<longrightarrow>
        hashLen' = 2 * ?c \<and> lenIndices' = 4 * 2 ^ (K - 1) \<and> list_all (good f ?w ?c M (K - 1)) X'"
  have h: "h < K" "Suc h < K" using Suc.prems(2) by simp_all
  have c: "?c \<le> 4" by (rule eh_params_small(1) [OF p])
  have len: "?len - ?c = ?w - Suc h * ?c" "4 * 2 ^ h * 2 = (4 * 2 ^ Suc h :: nat)" by (simp_all add: algebra_simps)
  have W: "?len + 4 * 2 ^ h \<le> FullWidth N K" "?len - ?c + 8 * 2 ^ h \<le> FullWidth N K"
    using solver_fits [OF h(1) c] solver_fits [OF h(2) c] by (simp_all add: FullWidth_def len(1) [simplified])
  note pairs = join_good [where f = f, OF f round_fits(3) [OF h(1) c] refl _ _ _ _ W]
  show ?case
  proof (cases "length X > 0")
    case True
    have X: "list_all (good f ?w ?c M h) (sort_rows ?c X)" using Suc.prems(3) by (simp add: permutes_list_all [OF sort])
    have loop: "safe I (\<lambda>(X', p', Xc'). p' \<le> length X' \<and> list_all (good f ?w ?c M (Suc h)) (take p' X') \<and> list_all (good f ?w ?c M (Suc h)) Xc')
        (collide_loop cb N K ?len (4 * 2 ^ h) (sort_rows ?c X) 0 0 [] s')" if "I s'" for s'
      by (rule collide_loop_safe [where G = "good f ?w ?c M h", OF pairs I that]) (use X in simp_all)
    have "safe I ?Q (solve_rounds cb sort_rows N K n (?w - Suc h * ?c) (4 * 2 ^ Suc h) (finish_round t) s')"
      if "I s'" "case t of (X', p', Xc') \<Rightarrow> p' \<le> length X' \<and> list_all (good f ?w ?c M (Suc h)) (take p' X') \<and> list_all (good f ?w ?c M (Suc h)) Xc'" for t s'
      using Suc.IH [OF that(1), of "Suc h" "finish_round t"] Suc.prems(2) that(2) finish_round_good by (cases t) auto
    then show ?thesis using True
      by (simp only: solve_rounds.simps Let_def if_True len)
        (intro safe_unless_cancelled [OF I] safe_and_then [OF loop] Suc.prems(1); blast)
  next
    case False
    then show ?thesis using Suc.prems(1) by simp
  qed
qed

section \<open>The last round\<close>

text \<open>Packing the indices of a row.\<close>

lemma GetIndices_row:
  assumes "length pre = len" "length is = n"
  shows "GetIndices (pre @ index_bytes is) len (4 * n) cBitLen = GetMinimalFromIndices is cBitLen"
proof -
  have "take (4 * n) (index_bytes is) = index_bytes is" using assms(2) by (simp add: length_index_bytes)
  then show ?thesis using assms by (simp add: GetIndices_def GetMinimalFromIndices_def Let_def mult.commute)
qed

lemma packed_solution_valid:
  assumes p: "eh_params N K" and d: "digest_ok blake" "hs_outlen st = HashOutput N"
    and s: "eh_solution (index_hash blake N K st) (CollisionByteLength N K) K is" and small: "list_all (\<lambda>i. unat i < 2 ^ (CollisionBitLength N K + 1)) is"
  shows "\<exists>soln. GetMinimalFromIndices is (CollisionBitLength N K) = Some soln \<and> length soln = equihash_solution_size N K \<and>
    IsValidSolution blake N K st soln = Some True"
proof -
  let ?L = "CollisionBitLength N K"
  have L: "7 \<le> ?L" "?L \<le> 24" using p by (simp_all add: eh_params_def)
  have w: "8 * SolutionWidth N K = (?L + 1) * 2 ^ K" using p by (simp add: eh_params_def SolutionWidth_def mult.commute)
  then have "(?L + 1) * length is = 8 * SolutionWidth N K" using s by (simp add: eh_solution_def)
  from GetIndices_GetMinimal [OF L small this] obtain soln where
    g: "GetMinimalFromIndices is ?L = Some soln" "length soln = SolutionWidth N K" "GetIndicesFromMinimal soln ?L = Some is" by blast
  moreover have "equihash_solution_size N K = SolutionWidth N K"
    by (simp add: equihash_solution_size_def SolutionWidth_def CollisionBitLength_def)
  ultimately show ?thesis using IsValidSolution_spec [OF p d] s by simp
qed

text \<open>The callback that receives solutions keeps \<open>I\<close> when the verifier accepts the solution.\<close>

definition keeps_valid :: "('s \<Rightarrow> bool) \<Rightarrow> 's callbacks \<Rightarrow> (bytes \<Rightarrow> bool) \<Rightarrow> bool" where
  "keeps_valid I cb V \<longleftrightarrow> (\<forall>soln s. I s \<longrightarrow> V soln \<longrightarrow> I (snd (validBlock cb soln s)))"

lemma last_len:
  "0 < K \<Longrightarrow> 2 * c = (K + 1) * c - (K - 1) * c \<and> (K - 1) * c + c \<le> (K + 1) * c \<and> (K - 1) * c + c + c = (K + 1) * c \<and> K * c = (K - 1) * c + c"
  for c :: nat
  by (cases K) (simp_all add: algebra_simps)

lemma final_pairs_safe:
  assumes p: "eh_params N K" and d: "digest_ok blake" "hs_outlen st = HashOutput N"
    and V: "keeps_valid I cb (\<lambda>soln. IsValidSolution blake N K st soln = Some True)"
  shows "I s \<Longrightarrow> (\<And>l m. (l, m) \<in> set ps \<Longrightarrow>
      good (index_hash blake N K st) ((K + 1) * CollisionByteLength N K) (CollisionByteLength N K) (2 ^ (CollisionBitLength N K + 1)) (K - 1) (X ! (i + l)) \<and>
      good (index_hash blake N K st) ((K + 1) * CollisionByteLength N K) (CollisionByteLength N K) (2 ^ (CollisionBitLength N K + 1)) (K - 1) (X ! (i + m)) \<and>
      HasCollision (X ! (i + l)) (X ! (i + m)) (2 * CollisionByteLength N K)) \<Longrightarrow>
    safe I (\<lambda>_. True) (final_pairs cb N K (2 * CollisionByteLength N K) (4 * 2 ^ (K - 1)) X i ps s)"
proof (induction ps arbitrary: s)
  case (Cons lm ps)
  obtain l m where lm: "lm = (l, m)" by (cases lm)
  let ?f = "index_hash blake N K st" and ?c = "CollisionByteLength N K" and ?a = "X ! (i + l)" and ?b = "X ! (i + m)"
  let ?w = "(K + 1) * ?c" and ?len = "2 * ?c" and ?li = "4 * 2 ^ (K - 1)"
  note f = length_index_hash [OF p d]
  have K: "K = Suc (K - 1)" using p by (simp add: eh_params_def)
  have ab: "good ?f ?w ?c (2 ^ (CollisionBitLength N K + 1)) (K - 1) ?a" "good ?f ?w ?c (2 ^ (CollisionBitLength N K + 1)) (K - 1) ?b"
    "HasCollision ?a ?b (?c + ?c)" using Cons.prems(2) [of l m] lm by (simp_all add: mult_2)
  then have coll: "HasCollision ?a ?b ?c" by (simp add: HasCollision_def list_all_iff)
  have "(2 :: nat) ^ K = 2 ^ Suc (K - 1)" by (rule arg_cong [OF K])
  then have "2 * 2 ^ (K - 1) = (2 :: nat) ^ K" by (simp only: power_Suc)
  then have fits: "?len + ?li \<le> FullWidth N K" "(0 :: nat) \<le> ?len" "?len - 0 + 8 * 2 ^ (K - 1) \<le> FinalFullWidth N K"
    unfolding FullWidth_def FinalFullWidth_def by linarith+
  have "0 < K" using p by (simp add: eh_params_def)
  then have len: "?len = ?w - (K - 1) * ?c" "(K - 1) * ?c + ?c \<le> ?w" "(K - 1) * ?c + ?c + ?c = ?w" "K * ?c = (K - 1) * ?c + ?c"
    using last_len by blast+
  have rest: "safe I (\<lambda>_. True) (final_pairs cb N K ?len ?li X i ps s')" if "I s'" for s'
    using Cons.IH [OF that] Cons.prems(2) by auto
  obtain res where res: "FullStepRow_join (FullWidth N K) (FinalFullWidth N K) ?a ?b ?len ?li 0 = Some res"
    using fits by (simp add: FullStepRow_join_def)
  show ?case
  proof (cases "DistinctIndices ?a ?b ?len ?li")
    case True
    obtain "is" where i: "length is = 2 ^ Suc (K - 1)" "eh_tree ?f ?w ?c (Suc (K - 1)) is"
      "list_all (\<lambda>i. unat i < 2 ^ (CollisionBitLength N K + 1)) is"
      "res = drop ((K - 1) * ?c + 0) (xors ?w ?f is) @ index_bytes is" "drop ((K - 1) * ?c + ?c) (xors ?w ?f is) = replicate ?c 0"
      by (rule pair_tree [where f = ?f, OF f len(2,1) ab(1,2) coll True fits]) (use res ab(3) len(3) in auto)
    have s: "eh_solution ?f ?c K is"
      using i(1,2,5) unfolding K [symmetric] eh_solution_def len(4) by blast
    from packed_solution_valid [OF p d this i(3)] obtain soln where
      soln: "GetMinimalFromIndices is (CollisionBitLength N K) = Some soln" "length soln = equihash_solution_size N K"
        "IsValidSolution blake N K st soln = Some True" by blast
    have n: "2 * ?li = 4 * length is" using i(1) by simp
    have "length (drop ((K - 1) * ?c + 0) (xors ?w ?f is)) = ?len" unfolding len(1) by (simp only: length_drop length_xors [OF f] add_0_right)
    then have "GetIndices res ?len (2 * ?li) (CollisionBitLength N K) = Some soln"
      unfolding i(4) n by (simp only: GetIndices_row [OF _ refl] soln(1))
    then show ?thesis using res True soln(2,3) lm rest V Cons.prems(1)
      by (simp add: keeps_valid_def case_prod_unfold Let_def)
  next
    case False
    then show ?thesis using res lm rest Cons.prems(1) by simp
  qed
qed simp

lemma final_loop_safe:
  assumes p: "eh_params N K" and d: "digest_ok blake" "hs_outlen st = HashOutput N" and I: "keeps I cb"
    and V: "keeps_valid I cb (\<lambda>soln. IsValidSolution blake N K st soln = Some True)"
    and X: "list_all (good (index_hash blake N K st) ((K + 1) * CollisionByteLength N K) (CollisionByteLength N K)
      (2 ^ (CollisionBitLength N K + 1)) (K - 1)) X"
  shows "I s \<Longrightarrow> i \<le> length X \<Longrightarrow>
    safe I (\<lambda>_. True) (final_loop cb N K (2 * CollisionByteLength N K) (4 * 2 ^ (K - 1)) X i s)"
proof (induction "length X - i" arbitrary: i s rule: less_induct)
  case less
  let ?len = "2 * CollisionByteLength N K" and ?li = "4 * 2 ^ (K - 1)"
  show ?case
  proof (cases "i < length X - 1")
    case True
    define j where "j = find_run X i ?len 1"
    have i: "i < length X" using True by simp
    have j: "1 \<le> j" "i + j \<le> length X" using run_advances [OF i] by (simp_all add: j_def)
    have "safe I (\<lambda>_. True) (final_pairs cb N K ?len ?li X i (run_pairs j) s)"
      using run_collides [OF i j_def] X by (intro final_pairs_safe [OF p d V less.prems(1)]) (auto simp: list_all_length)
    then obtain r s' where run: "final_pairs cb N K ?len ?li X i (run_pairs j) s = Some (r, s')" "I s'" by (auto simp: safe_def)
    have rest: "safe I (\<lambda>_. True) (final_loop cb N K ?len ?li X (i + j) s'')" if "I s''" for s''
      using less.hyps [OF _ that j(2)] i j(1) by simp
    have "I (snd (cancelled cb FinalColliding s'))" using I run(2) by (simp add: keeps_def)
    then show ?thesis using True run rest
      by (cases r) (simp_all add: final_loop.simps [of cb N K _ _ X i] j_def [symmetric, unfolded One_nat_def] case_prod_unfold Let_def)
  next
    case False
    then show ?thesis using less.prems by (simp add: final_loop.simps [of cb N K _ _ X i])
  qed
qed

text \<open>The solver ends without a failed assertion, and keeps every property of the state that its callbacks keep.\<close>

theorem BasicSolve_safe:
  assumes p: "eh_params N K" and d: "digest_ok blake" "hs_outlen st = HashOutput N" and I: "keeps I cb"
    and V: "keeps_valid I cb (\<lambda>soln. IsValidSolution blake N K st soln = Some True)" and sort: "permutes_rows sort_rows" and s: "I s"
  shows "safe I (\<lambda>_. True) (BasicSolve cb sort_rows blake N K st s)"
proof -
  let ?f = "index_hash blake N K st" and ?c = "CollisionByteLength N K" and ?M = "2 ^ (CollisionBitLength N K + 1) :: nat"
  let ?w = "(K + 1) * ?c"
  note f = length_index_hash [OF p d]
  have "?M \<le> 2 ^ 25" using p by (intro power_increasing) (simp_all add: eh_params_def)
  then have M: "?M < 2 ^ 32" by (rule order.strict_trans1) simp
  have gen: "safe I (list_all (good ?f ?w ?c ?M 0)) (generate cb blake N K st ?M 0 [] s)"
    by (rule generate_safe [OF p d M I s]) simp_all
  have rounds: "safe I (\<lambda>(X', hashLen', lenIndices'). length X' > 1 \<longrightarrow> hashLen' = 2 * ?c \<and> lenIndices' = 4 * 2 ^ (K - 1) \<and>
        list_all (good ?f ?w ?c ?M (K - 1)) X') (solve_rounds cb sort_rows N K (K - 1) (HashLength N K) 4 X s')"
    if "list_all (good ?f ?w ?c ?M 0) X" "I s'" for X s'
    using solve_rounds_safe [where f = ?f and h = 0, OF p f I sort that(2) _ that(1)] by (simp add: HashLength_def)
  have final: "safe I (\<lambda>_. True) (final_loop cb N K (2 * ?c) (4 * 2 ^ (K - 1)) (sort_rows (2 * ?c) X) 0 s')"
    if "list_all (good ?f ?w ?c ?M (K - 1)) X" "I s'" for X s'
    using that by (intro final_loop_safe [OF p d I V]) (simp_all add: permutes_list_all [OF sort])
  have last: "safe I (\<lambda>_. True) (if length X > 1
      then unless_cancelled cb FinalSorting s' (\<lambda>s. final_loop cb N K hashLen lenIndices (sort_rows hashLen X) 0 s)
      else Some (Inr False, s'))"
    if "length X > 1 \<longrightarrow> hashLen = 2 * ?c \<and> lenIndices = 4 * 2 ^ (K - 1) \<and> list_all (good ?f ?w ?c ?M (K - 1)) X" "I s'" for X hashLen lenIndices s'
  proof (cases "length X > 1")
    case True
    then have "safe I (\<lambda>_. True) (unless_cancelled cb FinalSorting s' (\<lambda>s. final_loop cb N K (2 * ?c) (4 * 2 ^ (K - 1)) (sort_rows (2 * ?c) X) 0 s))"
      using that by (intro safe_unless_cancelled [OF I] final) simp_all
    then show ?thesis using True that(1) by (simp only: if_True simp_thms)
  next
    case False
    then show ?thesis using that(2) by (simp only: if_False safe_simps simp_thms)
  qed
  show ?thesis unfolding BasicSolve_def Let_def
    by (intro safe_and_then [OF gen] safe_and_then [OF rounds]) (auto simp only: case_prod_conv intro!: last)
qed

section \<open>The solutions handed out\<close>

text \<open>The callbacks with a log of the solutions they receive.\<close>

definition logged :: "'s callbacks \<Rightarrow> ('s \<times> bytes list) callbacks" where
  "logged cb = \<lparr>validBlock = (\<lambda>soln (s, log). (fst (validBlock cb soln s), (snd (validBlock cb soln s), log @ [soln]))),
     cancelled = (\<lambda>pos (s, log). (fst (cancelled cb pos s), (snd (cancelled cb pos s), log)))\<rparr>"

theorem BasicSolve_log:
  assumes "eh_params N K" "digest_ok blake" "hs_outlen st = HashOutput N" "permutes_rows sort_rows"
  shows "\<exists>r s' log. BasicSolve (logged cb) sort_rows blake N K st (s, []) = Some (r, (s', log)) \<and>
    list_all (\<lambda>soln. IsValidSolution blake N K st soln = Some True) log"
proof -
  let ?I = "\<lambda>(s, log). list_all (\<lambda>soln. IsValidSolution blake N K st soln = Some True) log"
  have "keeps ?I (logged cb)" "keeps_valid ?I (logged cb) (\<lambda>soln. IsValidSolution blake N K st soln = Some True)"
    by (auto simp: keeps_def keeps_valid_def logged_def)
  from BasicSolve_safe [OF assms(1-3) this assms(4), of "(s, [])"] show ?thesis by (auto simp: safe_def)
qed

end
