(* ===== verification/Compressor.thy ===== *)
theory Compressor
  imports Coins Sig_Checker
begin

text \<open>
  The compact serialization of unspent outputs (\<open>compressor.h\<close>, \<open>compressor.cpp\<close>, and
  \<open>Coin::Serialize\<close> of \<open>coins.h\<close>): three script templates are stored by their hash or key, amounts
  by their digits and a decimal exponent.  Writing may fail an assertion, so a writer returns an
  option; the locale \<open>checked_codec\<close> is the contract of such a pair, and gives the contract
  \<open>codec\<close> of the plain ones.  The readers work in place: they take the object they overwrite.
\<close>

section \<open>Scripts\<close>

definition nSpecialScripts :: nat where "nSpecialScripts = 6"

text \<open>The first \<open>n\<close> bytes of the data a \<open>memcpy\<close> copies, at an offset of the script.\<close>

definition IsToKeyID :: "CScript \<Rightarrow> bytes option" where
  "IsToKeyID script =
     (if length script = 25 \<and> script ! 0 = OP_DUP \<and> script ! 1 = OP_HASH160 \<and> script ! 2 = 20
         \<and> script ! 23 = OP_EQUALVERIFY \<and> script ! 24 = OP_CHECKSIG
      then Some (take 20 (drop 3 script)) else None)"

definition IsToScriptID :: "CScript \<Rightarrow> bytes option" where
  "IsToScriptID script =
     (if length script = 23 \<and> script ! 0 = OP_HASH160 \<and> script ! 1 = 20 \<and> script ! 22 = OP_EQUAL
      then Some (take 20 (drop 2 script)) else None)"

definition IsToPubKey :: "CScript \<Rightarrow> bytes option" where
  "IsToPubKey script =
     (if length script = PUBLIC_KEY_SIZE + 2 \<and> script ! 0 = of_nat PUBLIC_KEY_SIZE
         \<and> script ! (PUBLIC_KEY_SIZE + 1) = OP_CHECKSIG
      then Some (take PUBLIC_KEY_SIZE (drop 1 script)) else None)"

definition Compress :: "CScript \<Rightarrow> bytes option" where
  "Compress script =
     (case IsToKeyID script of Some keyID \<Rightarrow> Some (0 # keyID)
      | None \<Rightarrow>
          (case IsToScriptID script of Some scriptID \<Rightarrow> Some (1 # scriptID)
           | None \<Rightarrow>
               (case IsToPubKey script of Some pubkey \<Rightarrow> Some (2 # pubkey) | None \<Rightarrow> None)))"

definition GetSpecialSize :: "u32 \<Rightarrow> nat" where
  "GetSpecialSize nSize =
     (if nSize = 0 \<or> nSize = 1 then 20 else if nSize = 2 then PUBLIC_KEY_SIZE else 0)"

text \<open>The return value and the script.\<close>

definition Decompress :: "CScript \<Rightarrow> u32 \<Rightarrow> bytes \<Rightarrow> bool \<times> CScript" where
  "Decompress script nSize in_data =
     (if nSize = 0 then (True, [OP_DUP, OP_HASH160, 20] @ take 20 in_data @ [OP_EQUALVERIFY, OP_CHECKSIG])
      else if nSize = 1 then (True, [OP_HASH160, 20] @ take 20 in_data @ [OP_EQUAL])
      else if nSize = 2 then (True, [of_nat PUBLIC_KEY_SIZE] @ take PUBLIC_KEY_SIZE in_data @ [OP_CHECKSIG])
      else (False, script))"

definition ser_CScriptCompressor :: "CScript \<Rightarrow> bytes" where
  "ser_CScriptCompressor script =
     (case Compress script of Some compr \<Rightarrow> compr
      | None \<Rightarrow> WriteVarInt (of_nat (length script + nSpecialScripts) :: u32) @ script)"

text \<open>\<open>s.ignore(n)\<close>: the bytes are read and dropped.\<close>

definition stream_ignore :: "nat \<Rightarrow> unit parser" where
  "stream_ignore n = pbind (read_bytes n) (\<lambda>_. preturn ())"

definition unser_CScriptCompressor :: "CScript \<Rightarrow> CScript parser" where
  "unser_CScriptCompressor script = pbind ReadVarInt (\<lambda>nSize :: u32.
     if unat nSize < nSpecialScripts
     then pbind (read_bytes (GetSpecialSize nSize)) (\<lambda>vch. preturn (snd (Decompress script nSize vch)))
     else let nSize' = nSize - of_nat nSpecialScripts
          in if unat nSize' > MAX_SCRIPT_SIZE
             then pbind (stream_ignore (unat nSize')) (\<lambda>_. preturn (push_opcode script OP_RETURN))
             else read_bytes (unat nSize'))"

section \<open>Amounts\<close>

function CompressAmount_loop :: "u64 \<Rightarrow> nat \<Rightarrow> u64 \<times> nat" where
  "CompressAmount_loop n e =
     (if n mod 10 = 0 \<and> e < 9 then CompressAmount_loop (n div 10) (e + 1) else (n, e))"
  by pat_completeness auto
termination
  by (relation "measure (\<lambda>(n, e). 9 - e)") auto

declare CompressAmount_loop.simps [simp del]

text \<open>\<open>None\<close> is the failed assertion.\<close>

definition CompressAmount :: "u64 \<Rightarrow> u64 option" where
  "CompressAmount n =
     (if n = 0 then Some 0
      else let (n, e) = CompressAmount_loop n 0
           in if e < 9
              then let d = n mod 10
                   in if \<not> (d \<ge> 1 \<and> d \<le> 9) then None
                      else Some (1 + ((n div 10) * 9 + d - 1) * 10 + of_nat e)
              else Some (1 + (n - 1) * 10 + 9))"

fun DecompressAmount_loop :: "u64 \<Rightarrow> nat \<Rightarrow> u64" where
  "DecompressAmount_loop n 0 = n"
| "DecompressAmount_loop n (Suc e) = DecompressAmount_loop (n * 10) e"

definition DecompressAmount :: "u64 \<Rightarrow> u64" where
  "DecompressAmount x =
     (if x = 0 then 0
      else let x = x - 1; e = unat (x mod 10); x = x div 10
           in DecompressAmount_loop
                (if e < 9 then let d = (x mod 9) + 1 in (x div 9) * 10 + d else x + 1) e)"

section \<open>Outputs and coins\<close>

definition ser_CTxOutCompressor :: "CTxOut \<Rightarrow> bytes option" where
  "ser_CTxOutCompressor txout =
     (case CompressAmount (word_of_int (nValue txout)) of None \<Rightarrow> None
      | Some nVal \<Rightarrow> Some (WriteVarInt nVal @ ser_CScriptCompressor (scriptPubKey txout)))"

definition unser_CTxOutCompressor :: "CTxOut \<Rightarrow> CTxOut parser" where
  "unser_CTxOutCompressor txout = pbind ReadVarInt (\<lambda>nVal.
     pbind (unser_CScriptCompressor (scriptPubKey txout)) (\<lambda>script.
       preturn (txout\<lparr>nValue := sint (DecompressAmount nVal), scriptPubKey := script\<rparr>)))"

text \<open>
  The header of a coin.  \<open>nHeight\<close> is a bit-field of 31 bits, so the C++ doubles it as an \<open>int\<close>: from
  height \<open>2 ^ 30\<close> the product overflows and the behaviour is undefined, which is \<open>None\<close> below.
\<close>

definition Coin_code :: "Coin \<Rightarrow> int" where
  "Coin_code c = uint (coin_nHeight c) * 2 + (if fCoinBase c then 1 else 0)"

definition ser_Coin :: "Coin \<Rightarrow> bytes option" where
  "ser_Coin c =
     (if IsSpent c then None
      else if Coin_code c \<ge> 2 ^ 31 then None
      else case ser_CTxOutCompressor (coin_out c) of None \<Rightarrow> None
           | Some out \<Rightarrow> Some (WriteVarInt (word_of_int (Coin_code c) :: u32) @ out))"

definition unser_Coin :: "Coin \<Rightarrow> Coin parser" where
  "unser_Coin c = pbind ReadVarInt (\<lambda>code :: u32.
     pbind (unser_CTxOutCompressor (coin_out c)) (\<lambda>out.
       preturn (c\<lparr>coin_nHeight := ucast (drop_bit 1 code), fCoinBase := (code AND 1 \<noteq> 0), coin_out := out\<rparr>)))"

section \<open>Amounts are read back\<close>

lemma CompressAmount_loop_spec:
  "CompressAmount_loop n e = (m, e') \<Longrightarrow> e \<le> 9 \<Longrightarrow>
   e \<le> e' \<and> e' \<le> 9 \<and> unat n = unat m * 10 ^ (e' - e) \<and> (e' < 9 \<longrightarrow> unat m mod 10 \<noteq> 0)"
proof (induction n e arbitrary: m e' rule: CompressAmount_loop.induct)
  case (1 n e)
  show ?case
  proof (cases "n mod 10 = 0 \<and> e < 9")
    case True
    then have "CompressAmount_loop (n div 10) (e + 1) = (m, e')"
      using "1.prems"(1) by (simp only: CompressAmount_loop.simps [of n e] if_P)
    then have IH: "e + 1 \<le> e' \<and> e' \<le> 9 \<and> unat (n div 10) = unat m * 10 ^ (e' - (e + 1)) \<and> (e' < 9 \<longrightarrow> unat m mod 10 \<noteq> 0)"
      using "1.IH" [OF True] True by simp
    have "unat n mod 10 = 0" using True by (simp add: word_unat_eq_iff unat_mod)
    then have "unat n = unat (n div 10) * 10" by (simp add: unat_div mod_eq_0_iff_dvd)
    moreover have "e' - e = Suc (e' - (e + 1))" using IH by linarith
    ultimately show ?thesis using IH by simp
  next
    case False
    then have "m = n" "e' = e" using "1.prems"(1) by (simp_all only: CompressAmount_loop.simps [of n e] if_False simp_thms prod.inject)
    moreover have "e < 9 \<longrightarrow> unat n mod 10 \<noteq> 0" using False by (auto simp: word_unat_eq_iff unat_mod)
    ultimately show ?thesis using "1.prems"(2) by simp
  qed
qed

lemma DecompressAmount_loop_power: "DecompressAmount_loop n e = n * 10 ^ e"
  by (induction n e rule: DecompressAmount_loop.induct) (simp_all add: mult.assoc)

lemma unat_add_u64: "unat a + unat b < 2 ^ 64 \<Longrightarrow> unat (a + b :: u64) = unat a + unat b"
  by (simp add: unat_word_ariths)

lemma unat_mult_u64: "unat a * unat b < 2 ^ 64 \<Longrightarrow> unat (a * b :: u64) = unat a * unat b"
  by (simp add: unat_word_ariths)

lemma of_nat_pred: "1 \<le> k \<Longrightarrow> of_nat (k - 1) + 1 = (of_nat k :: u64)"
  by (simp add: of_nat_diff)

lemma CompressAmount_total: "\<exists>x. CompressAmount n = Some x"
proof (cases "n = 0")
  case False
  obtain m e where l: "CompressAmount_loop n 0 = (m, e)" by force
  have "e < 9 \<longrightarrow> unat m mod 10 \<noteq> 0" using CompressAmount_loop_spec [OF l] by simp
  moreover have "unat (m mod 10) = unat m mod 10" "unat m mod 10 < 10" by (simp_all add: unat_mod)
  ultimately have "e < 9 \<longrightarrow> m mod 10 \<ge> 1 \<and> m mod 10 \<le> 9" by (auto simp: word_le_nat_alt)
  then show ?thesis using False l by (auto simp: CompressAmount_def Let_def)
qed (simp add: CompressAmount_def)

text \<open>What the reader makes of \<open>1 + y\<close> where \<open>y = 10 q + e\<close>.\<close>

lemma decompress_parts:
  assumes "unat y = q * 10 + e" "e < 10" "unat y < 2 ^ 63"
  shows "DecompressAmount (1 + y) =
    (if e < 9 then of_nat (q div 9) * 10 + (of_nat (q mod 9) + 1) else of_nat q + 1) * 10 ^ e"
proof -
  have "unat (1 + y) = 1 + unat y" using assms(3) by (subst unat_add_u64) simp_all
  then have "unat (1 + y) \<noteq> 0" by simp
  then have nz: "1 + y \<noteq> 0" by (metis unat_0)
  have e: "unat (y mod 10) = e" and "unat (y div 10) = q" using assms(1,2) by (simp_all add: unat_mod unat_div)
  then have q: "y div 10 = of_nat q" by auto
  have "unat (of_nat q :: u64) = q" using q \<open>unat (y div 10) = q\<close> by simp
  then have "(of_nat q :: u64) mod 9 = of_nat (q mod 9)" "(of_nat q :: u64) div 9 = of_nat (q div 9)"
    using word_arith_nat_mod [of "of_nat q :: u64" 9] word_arith_nat_div [of "of_nat q :: u64" 9] by simp_all
  then show ?thesis using nz e q by (simp add: DecompressAmount_def Let_def DecompressAmount_loop_power)
qed

lemma decompress_digits:
  assumes "unat m < 2 ^ 59" "e < 9" "unat m mod 10 \<noteq> 0"
  shows "DecompressAmount (1 + ((m div 10) * 9 + m mod 10 - 1) * 10 + of_nat e) = m * 10 ^ e"
proof -
  define a d where "a = unat m div 10" and "d = unat m mod 10"
  have ad: "unat (m div 10) = a" "unat (m mod 10) = d" by (simp_all add: a_def d_def unat_mod unat_div)
  have b: "a < 2 ^ 56" "1 \<le> d" "d < 10" using assms by (simp_all add: a_def d_def)
  have "unat ((m div 10) * 9) = a * 9" using b(1) ad by (subst unat_mult_u64) simp_all
  then have s: "unat ((m div 10) * 9 + m mod 10) = a * 9 + d" using b ad by (subst unat_add_u64) simp_all
  then have "(1 :: u64) \<le> (m div 10) * 9 + m mod 10" using b by (simp add: word_le_nat_alt)
  then have "unat ((m div 10) * 9 + m mod 10 - 1) = a * 9 + d - 1" by (simp only: unat_sub s unat_1)
  then have "unat (((m div 10) * 9 + m mod 10 - 1) * 10) = (a * 9 + d - 1) * 10" using b by (subst unat_mult_u64) simp_all
  moreover have "unat (of_nat e :: u64) = e" using assms(2) by (simp add: unat_of_nat)
  ultimately have y: "unat (((m div 10) * 9 + m mod 10 - 1) * 10 + of_nat e) = (a * 9 + d - 1) * 10 + e"
    using b assms(2) by (subst unat_add_u64) simp_all
  moreover have "(a * 9 + d - 1) * 10 + e < 2 ^ 63" using b assms(2) by simp
  moreover have "(a * 9 + d - 1) div 9 = a" "(a * 9 + d - 1) mod 9 = d - 1"
  proof -
    have "a * 9 + d - 1 = (d - 1) + a * 9" "d - 1 < 9" using b by simp_all
    then show "(a * 9 + d - 1) div 9 = a" "(a * 9 + d - 1) mod 9 = d - 1" by simp_all
  qed
  ultimately have "DecompressAmount (1 + (((m div 10) * 9 + m mod 10 - 1) * 10 + of_nat e)) =
    (of_nat a * 10 + (of_nat (d - 1) + 1)) * 10 ^ e"
    using decompress_parts [OF y] assms(2) by simp
  moreover have "of_nat (d - 1) + 1 = (of_nat d :: u64)" using b(2) by (rule of_nat_pred)
  moreover have "(of_nat a * 10 + of_nat d :: u64) = m"
  proof -
    have "of_nat (a * 10 + d) = m" by (simp add: a_def d_def)
    then show ?thesis by simp
  qed
  ultimately show ?thesis by (simp only: add.assoc)
qed

lemma decompress_whole:
  assumes "m \<noteq> 0" "unat m < 2 ^ 59"
  shows "DecompressAmount (1 + (m - 1) * 10 + 9) = m * 10 ^ 9"
proof -
  have p: "1 \<le> unat m" using assms(1) by (simp add: unat_gt_0 Suc_le_eq)
  then have "unat (m - 1) = unat m - 1" by (simp add: unat_sub word_le_nat_alt)
  then have "unat ((m - 1) * 10) = (unat m - 1) * 10" using assms(2) by (subst unat_mult_u64) simp_all
  then have y: "unat ((m - 1) * 10 + 9) = (unat m - 1) * 10 + 9" using assms(2) by (subst unat_add_u64) simp_all
  moreover have "(unat m - 1) * 10 + 9 < 2 ^ 63" using assms(2) by simp
  ultimately have "DecompressAmount (1 + ((m - 1) * 10 + 9)) = (of_nat (unat m - 1) + 1) * 10 ^ 9"
    using decompress_parts [OF y] by simp
  moreover have "of_nat (unat m - 1) + 1 = m" using p of_nat_pred [of "unat m"] by simp
  ultimately show ?thesis by (simp only: add.assoc)
qed

lemma decompress_compress:
  assumes "unat n < 2 ^ 59" "CompressAmount n = Some x"
  shows "DecompressAmount x = n"
proof (cases "n = 0")
  case True
  then show ?thesis using assms(2) by (simp add: CompressAmount_def DecompressAmount_def)
next
  case False
  obtain m e where l: "CompressAmount_loop n 0 = (m, e)" by force
  then have s: "e \<le> 9" "unat n = unat m * 10 ^ e" "e < 9 \<longrightarrow> unat m mod 10 \<noteq> 0"
    using CompressAmount_loop_spec [OF l] by simp_all
  have "unat m * 1 \<le> unat m * 10 ^ e" by (rule mult_le_mono2) simp
  then have m: "unat m < 2 ^ 59" using s(2) assms(1) by linarith
  have "unat n \<noteq> 0" using False by (simp add: unat_eq_0)
  then have nz: "m \<noteq> 0" using s(2) by auto
  have p: "m * 10 ^ e = n"
  proof -
    have "m * 10 ^ e = of_nat (unat m * 10 ^ e)" by simp
    also have "\<dots> = of_nat (unat n)" by (simp only: s(2))
    finally show ?thesis by simp
  qed
  show ?thesis
  proof (cases "e < 9")
    case True
    then have "x = 1 + ((m div 10) * 9 + m mod 10 - 1) * 10 + of_nat e"
      using assms(2) False l by (auto simp: CompressAmount_def Let_def split: if_splits)
    then show ?thesis using decompress_digits [OF m True] s(3) True p by simp
  next
    case e: False
    then have "x = 1 + (m - 1) * 10 + 9" using assms(2) False l by (simp add: CompressAmount_def)
    then show ?thesis using decompress_whole [OF nz m] p e s(1) by simp
  qed
qed

section \<open>Scripts are read back\<close>

lemma split_around:
  "length s = a + n + b \<Longrightarrow> s = map ((!) s) [0..<a] @ take n (drop a s) @ map ((!) s) [a + n..<a + n + b]"
proof -
  assume len: "length s = a + n + b"
  have "map ((!) s) [0..<a] = take a s" using len map_nth [of s] by (metis le_add1 take_map take_upt add.assoc add_0)
  moreover have "map ((!) s) [a + n..<a + n + b] = drop (a + n) s"
    using len map_nth [of s] by (metis drop_map drop_upt add_0)
  moreover have "s = take a s @ take n (drop a s) @ drop (a + n) s"
    by (metis append_take_drop_id drop_drop add.commute)
  ultimately show ?thesis by simp
qed

lemma Compress_Some:
  "Compress script = Some c \<Longrightarrow>
   \<exists>k vch. c = k # vch \<and> k \<le> 2 \<and> length vch = GetSpecialSize (ucast k) \<and> Decompress s0 (ucast k) vch = (True, script)"
proof -
  assume c: "Compress script = Some c"
  consider (key) "IsToKeyID script = Some (tl c)" "c = 0 # tl c"
    | (script) "IsToScriptID script = Some (tl c)" "c = 1 # tl c"
    | (pub) "IsToPubKey script = Some (tl c)" "c = 2 # tl c"
    using c by (auto simp: Compress_def split: option.splits)
  then show ?thesis
  proof cases
    case key
    then have l: "length script = 3 + 20 + 2" "tl c = take 20 (drop 3 script)" "script ! 0 = OP_DUP" "script ! 1 = OP_HASH160"
      "script ! 2 = 20" "script ! 23 = OP_EQUALVERIFY" "script ! 24 = OP_CHECKSIG"
      by (auto simp: IsToKeyID_def split: if_splits)
    have "[OP_DUP, OP_HASH160, 20] @ take 20 (drop 3 script) @ [OP_EQUALVERIFY, OP_CHECKSIG] = script"
      by (rule trans [OF _ split_around [OF l(1), symmetric]]) (simp add: l(3-) [simplified] l(3-) [unfolded numeral_2_eq_2] upt_conv_Cons)
    then have "Decompress s0 0 (tl c) = (True, script)" using l(2) by (simp add: Decompress_def)
    moreover have "length (tl c) = 20" using l by simp
    ultimately show ?thesis using key(2) by (intro exI [of _ 0] exI [of _ "tl c"]) (simp add: GetSpecialSize_def)
  next
    case script
    then have l: "length script = 2 + 20 + 1" "tl c = take 20 (drop 2 script)" "script ! 0 = OP_HASH160"
      "script ! 1 = 20" "script ! 22 = OP_EQUAL"
      by (auto simp: IsToScriptID_def split: if_splits)
    have "[OP_HASH160, 20] @ take 20 (drop 2 script) @ [OP_EQUAL] = script"
      by (rule trans [OF _ split_around [OF l(1), symmetric]]) (simp add: l(3-) [simplified] l(3-) [unfolded numeral_2_eq_2] upt_conv_Cons)
    then have "Decompress s0 1 (tl c) = (True, script)" using l(2) by (simp add: Decompress_def)
    moreover have "length (tl c) = 20" using l by simp
    ultimately show ?thesis using script(2) by (intro exI [of _ 1] exI [of _ "tl c"]) (simp add: GetSpecialSize_def)
  next
    case pub
    then have l: "length script = 1 + 32 + 1" "tl c = take 32 (drop 1 script)" "script ! 0 = 32" "script ! 33 = OP_CHECKSIG"
      by (auto simp: IsToPubKey_def PUBLIC_KEY_SIZE_def split: if_splits)
    have "[32] @ take 32 (drop 1 script) @ [OP_CHECKSIG] = script"
      by (rule trans [OF _ split_around [OF l(1), symmetric]]) (simp add: l(3-) [simplified] l(3-) [unfolded numeral_2_eq_2] upt_conv_Cons)
    then have "Decompress s0 2 (tl c) = (True, script)" using l(2) by (simp add: Decompress_def PUBLIC_KEY_SIZE_def)
    moreover have "length (tl c) = 32" using l by simp
    ultimately show ?thesis using pub(2) by (intro exI [of _ 2] exI [of _ "tl c"]) (simp add: GetSpecialSize_def PUBLIC_KEY_SIZE_def)
  qed
qed

lemma WriteVarInt_small: "n \<le> 0x7f \<Longrightarrow> WriteVarInt (n :: u32) = [ucast n AND 0x7f]"
  by (simp add: WriteVarInt_def WriteVarInt_loop.simps Let_def)

lemma ReadVarInt_special: "k \<le> (2 :: u8) \<Longrightarrow> ReadVarInt (k # rest) = Inr (ucast k :: u32, rest)"
proof -
  assume "k \<le> 2"
  then have k: "k = 0 \<or> k = 1 \<or> k = 2" unfolding word_le_nat_alt word_unat_eq_iff by auto
  have "WriteVarInt (0 :: u32) = [0]" "WriteVarInt (1 :: u32) = [1]" "WriteVarInt (2 :: u32) = [2]"
    by (simp_all add: WriteVarInt_small)
  then have "WriteVarInt (ucast k :: u32) = [k]" using k by auto
  then show ?thesis using varint_codec.unser_ser [of "ucast k :: u32" rest] by simp
qed

text \<open>The object read into may hold anything: it is overwritten.\<close>

interpretation script_codec: codec ser_CScriptCompressor "unser_CScriptCompressor s0" "\<lambda>s. length s \<le> MAX_SCRIPT_SIZE"
  for s0
proof
  fix s :: CScript and rest :: bytes
  assume len: "length s \<le> MAX_SCRIPT_SIZE"
  show "unser_CScriptCompressor s0 (ser_CScriptCompressor s @ rest) = Inr (s, rest)"
  proof (cases "Compress s")
    case (Some c)
    then obtain k vch where c: "c = k # vch" "k \<le> 2" "length vch = GetSpecialSize (ucast k)" "Decompress s0 (ucast k) vch = (True, s)"
      using Compress_Some by blast
    have "unat k < 6" using c(2) by (simp add: word_le_nat_alt)
    then show ?thesis using Some c(1,3,4) ReadVarInt_special [OF c(2)]
      by (simp add: ser_CScriptCompressor_def unser_CScriptCompressor_def pbind_def preturn_def nSpecialScripts_def unat_ucast)
  next
    case None
    have n: "unat (of_nat (length s + 6) :: u32) = length s + 6" "unat (of_nat (length s) :: u32) = length s"
      using len by (simp_all add: MAX_SCRIPT_SIZE_def unat_of_nat_u32 del: of_nat_add)
    then show ?thesis using None len
      by (simp add: ser_CScriptCompressor_def unser_CScriptCompressor_def pbind_def nSpecialScripts_def varint_codec.unser_ser Let_def)
  qed
qed

section \<open>The contract of a checked writer\<close>

locale checked_codec =
  fixes ser :: "'a \<Rightarrow> bytes option"
    and unser :: "'a parser"
    and valid :: "'a \<Rightarrow> bool"
  assumes written: "valid x \<Longrightarrow> \<exists>b. ser x = Some b \<and> (\<forall>rest. unser (b @ rest) = Inr (x, rest))"
begin

lemma written_read: "valid x \<Longrightarrow> ser x = Some b \<Longrightarrow> unser (b @ rest) = Inr (x, rest)"
  using written by fastforce

lemma those_written:
  "\<forall>x \<in> set xs. valid x \<Longrightarrow> \<exists>bs. those (map ser xs) = Some bs \<and> bs = map (\<lambda>x. the (ser x)) xs"
  using written by (induction xs) fastforce+

end

sublocale checked_codec \<subseteq> plain: codec "\<lambda>x. the (ser x)" unser valid
  by unfold_locales (use written in fastforce)

section \<open>Outputs and coins are read back\<close>

definition valid_compressed :: "CTxOut \<Rightarrow> bool" where
  "valid_compressed out \<longleftrightarrow> 0 \<le> nValue out \<and> nValue out < 2 ^ 59 \<and> length (scriptPubKey out) \<le> MAX_SCRIPT_SIZE"

lemma amount_word:
  assumes "0 \<le> v" "v < 2 ^ 59"
  shows "unat (word_of_int v :: u64) < 2 ^ 59" "sint (word_of_int v :: u64) = v"
proof -
  have "uint (word_of_int v :: u64) = v" using assms by (simp add: uint_word_of_int)
  then show "unat (word_of_int v :: u64) < 2 ^ 59" using assms by (simp add: unat_eq_nat_uint nat_less_iff)
  show "sint (word_of_int v :: u64) = v"
    using assms sint_of_int [where ?'a = 64, of v] by (simp add: valid_int_def)
qed

interpretation out_codec: checked_codec ser_CTxOutCompressor "unser_CTxOutCompressor o0" valid_compressed for o0
proof
  fix out
  assume v: "valid_compressed out"
  obtain x where x: "CompressAmount (word_of_int (nValue out)) = Some x" using CompressAmount_total by blast
  have "DecompressAmount x = word_of_int (nValue out)"
    using decompress_compress [OF _ x] amount_word v by (simp add: valid_compressed_def)
  then show "\<exists>b. ser_CTxOutCompressor out = Some b \<and> (\<forall>rest. unser_CTxOutCompressor o0 (b @ rest) = Inr (out, rest))"
    using x v amount_word
    by (simp add: ser_CTxOutCompressor_def unser_CTxOutCompressor_def pbind_def preturn_def varint_codec.unser_ser
        script_codec.unser_ser valid_compressed_def)
qed

definition valid_coin :: "Coin \<Rightarrow> bool" where
  "valid_coin c \<longleftrightarrow> valid_compressed (coin_out c) \<and> unat (coin_nHeight c) < 2 ^ 30"

lemma Coin_code_word:
  fixes c :: Coin
  assumes "unat (coin_nHeight c) < 2 ^ 30"
  defines "code \<equiv> word_of_int (Coin_code c) :: u32"
  shows "0 \<le> Coin_code c" "\<not> 2 ^ 31 \<le> Coin_code c" "ucast (drop_bit 1 code) = coin_nHeight c" "code AND 1 \<noteq> 0 \<longleftrightarrow> fCoinBase c"
proof -
  define h where "h = unat (coin_nHeight c)"
  define b :: nat where "b = (if fCoinBase c then 1 else 0)"
  have h: "h < 2 ^ 30" "b < 2" using assms(1) by (simp_all add: h_def b_def)
  have i: "Coin_code c = int (h * 2 + b)" by (simp add: Coin_code_def h_def b_def)
  then show "0 \<le> Coin_code c" "\<not> 2 ^ 31 \<le> Coin_code c" using h by simp_all
  have "code = of_nat (h * 2 + b)" by (simp only: code_def i of_int_of_nat_eq)
  then have u: "unat code = h * 2 + b" using h unat_of_nat_u32 [of "h * 2 + b"] by simp
  have "unat (drop_bit 1 code) = h" using u h by (simp add: unat_drop_bit)
  moreover have "unat (ucast (drop_bit 1 code) :: 31 word) = unat (drop_bit 1 code) mod 2 ^ 31" by (simp add: unat_ucast)
  ultimately have "unat (ucast (drop_bit 1 code) :: 31 word) = h" using h by simp
  then show "ucast (drop_bit 1 code) = coin_nHeight c" by (simp only: h_def word_unat_eq_iff)
  have "unat (code AND 1) = b" using u h(2) by (simp add: and_one_eq unat_mod)
  then show "code AND 1 \<noteq> 0 \<longleftrightarrow> fCoinBase c" by (auto simp: word_unat_eq_iff b_def split: if_splits)
qed

interpretation coin_codec: checked_codec ser_Coin "unser_Coin c0" "\<lambda>c. valid_coin c \<and> \<not> IsSpent c" for c0
proof
  fix c
  assume v: "valid_coin c \<and> \<not> IsSpent c"
  then obtain b where b: "ser_CTxOutCompressor (coin_out c) = Some b"
    using out_codec.written valid_coin_def by blast
  have h: "unat (coin_nHeight c) < 2 ^ 30" using v by (simp add: valid_coin_def)
  show "\<exists>b. ser_Coin c = Some b \<and> (\<forall>rest. unser_Coin c0 (b @ rest) = Inr (c, rest))"
    using v Coin_code_word [OF h] out_codec.written_read [OF _ b]
    by (simp add: ser_Coin_def unser_Coin_def pbind_def preturn_def varint_codec.unser_ser valid_coin_def b)
qed

end
