(* ===== verification/Undo.thy ===== *)
theory Undo
  imports Compressor Utxo_Update
begin

text \<open>
  The serialization of the undo data of a block (\<open>undo.h\<close>): for each input of each transaction but
  the coinbase the coin it spent, in the compact form of \<open>Compressor\<close> with the dummy version number
  of the older format.  What is written is read back.
\<close>

section \<open>Variable-length signed integers\<close>

text \<open>The instances of \<open>WriteVarInt\<close> and \<open>ReadVarInt\<close> at the type \<open>int\<close>.\<close>

function WriteVarInt_int_loop :: "bool \<Rightarrow> int \<Rightarrow> bytes \<Rightarrow> bytes" where
  "WriteVarInt_int_loop first n acc =
     (let acc' = ((word_of_int n AND 0x7f) OR (if first then 0 else 0x80)) # acc
      in if n \<le> 0x7f then acc' else WriteVarInt_int_loop False (n div 2 ^ 7 - 1) acc')"
  by pat_completeness auto
termination
  by (relation "measure (\<lambda>(first, n, acc). nat n)") auto

declare WriteVarInt_int_loop.simps [simp del]

definition WriteVarInt_int :: "int \<Rightarrow> bytes" where
  "WriteVarInt_int n = WriteVarInt_int_loop True n []"

fun ReadVarInt_int_loop :: "int \<Rightarrow> int parser" where
  "ReadVarInt_int_loop n [] = Inl EndOfData"
| "ReadVarInt_int_loop n (chData # s) =
     (if n > (2 ^ 31 - 1) div 2 ^ 7 then Inl VarIntTooLarge
      else let n' = n * 2 ^ 7 + uint (chData AND 0x7f)
           in if chData AND 0x80 \<noteq> 0
              then (if n' = 2 ^ 31 - 1 then Inl VarIntTooLarge else ReadVarInt_int_loop (n' + 1) s)
              else Inr (n', s))"

definition ReadVarInt_int :: "int parser" where
  "ReadVarInt_int = ReadVarInt_int_loop 0"

section \<open>One input\<close>

definition ser_TxInUndo :: "Coin \<Rightarrow> bytes option" where
  "ser_TxInUndo c =
     (if Coin_code c \<ge> 2 ^ 31 then None
      else case ser_CTxOutCompressor (coin_out c) of None \<Rightarrow> None
           | Some out \<Rightarrow>
               Some (WriteVarInt_int (Coin_code c) @ (if coin_nHeight c > 0 then ser_writedata8 0 else []) @ out))"

definition unser_TxInUndo :: "Coin \<Rightarrow> Coin parser" where
  "unser_TxInUndo c = pbind ReadVarInt (\<lambda>nCode :: u32.
     let h = ucast (nCode div 2) :: 31 word; cb = (nCode AND 1 \<noteq> 0)
     in pbind (if h > 0 then pbind ReadVarInt_int (\<lambda>nVersionDummy. preturn ()) else preturn ()) (\<lambda>_.
          pbind (unser_CTxOutCompressor (coin_out c)) (\<lambda>out.
            preturn (c\<lparr>coin_nHeight := h, fCoinBase := cb, coin_out := out\<rparr>))))"

section \<open>Transactions and blocks\<close>

definition CTxIn_default :: CTxIn where
  "CTxIn_default = \<lparr>prevout = COutPoint_null, scriptSig = [], nSequence = - 1, scriptWitness = []\<rparr>"

definition MIN_TRANSACTION_INPUT_WEIGHT :: nat where
  "MIN_TRANSACTION_INPUT_WEIGHT = WITNESS_SCALE_FACTOR * length (ser_CTxIn CTxIn_default)"

definition MAX_INPUTS_PER_BLOCK :: nat where
  "MAX_INPUTS_PER_BLOCK = MAX_BLOCK_WEIGHT div MIN_TRANSACTION_INPUT_WEIGHT"

text \<open>A vector whose elements are written with a checked writer.\<close>

definition ser_vector_checked :: "('a \<Rightarrow> bytes option) \<Rightarrow> 'a list \<Rightarrow> bytes option" where
  "ser_vector_checked ser xs =
     (case those (map ser xs) of None \<Rightarrow> None
      | Some bs \<Rightarrow> Some (WriteCompactSize (of_nat (length xs)) @ concat bs))"

definition ser_CTxUndo :: "CTxUndo \<Rightarrow> bytes option" where
  "ser_CTxUndo vprevout = ser_vector_checked ser_TxInUndo vprevout"

definition unser_CTxUndo :: "CTxUndo parser" where
  "unser_CTxUndo = pbind ReadCompactSize (\<lambda>count.
     if unat count > MAX_INPUTS_PER_BLOCK then pfail TooManyUndoRecords
     else read_many (unser_TxInUndo coinEmpty) (unat count))"

definition ser_CBlockUndo :: "CBlockUndo \<Rightarrow> bytes option" where
  "ser_CBlockUndo vtxundo = ser_vector_checked ser_CTxUndo vtxundo"

definition unser_CBlockUndo :: "CBlockUndo parser" where
  "unser_CBlockUndo = unser_vector unser_CTxUndo"

section \<open>What is written is read back\<close>

lemma WriteVarInt_int_nonneg:
  "0 \<le> n \<Longrightarrow> n < 2 ^ 31 \<Longrightarrow> WriteVarInt_int n = WriteVarInt (word_of_int n :: u32)"
proof -
  have loop: "0 \<le> n \<Longrightarrow> n < 2 ^ 31 \<Longrightarrow> WriteVarInt_int_loop first n acc = WriteVarInt_loop first (word_of_int n :: u32) acc"
    for first acc and n :: int
  proof (induction first n acc rule: WriteVarInt_int_loop.induct)
    case (1 first n acc)
    have u: "uint (word_of_int n :: u32) = n" using "1.prems" by (simp add: uint_word_of_int)
    have n32: "n < 2 ^ 32" using "1.prems"(2) by simp
    have "ucast (word_of_int n :: u32) = (word_of_int n :: u8)" by (simp only: ucast_eq u)
    moreover have "word_of_int n \<le> (0x7f :: u32) \<longleftrightarrow> n \<le> 0x7f" using u by (simp add: word_le_def)
    moreover have "drop_bit 7 (word_of_int n :: u32) - 1 = word_of_int (n div 2 ^ 7 - 1)"
    proof -
      have "uint (drop_bit 7 (word_of_int n :: u32)) = n div 2 ^ 7" 
        by (simp only: unsigned_drop_bit_eq u) (simp add: drop_bit_eq_div take_bit_int_eq_self [of n 32, OF "1.prems"(1) n32])
      then have "drop_bit 7 (word_of_int n :: u32) = word_of_int (n div 2 ^ 7)" by (metis word_of_int_uint)
      then show ?thesis by simp
    qed
    moreover have "\<not> n \<le> 0x7f \<Longrightarrow> 0 \<le> n div 2 ^ 7 - 1 \<and> n div 2 ^ 7 - 1 < 2 ^ 31" using "1.prems" by auto
    ultimately show ?case using "1.IH" [OF refl]
      by (subst WriteVarInt_int_loop.simps, subst WriteVarInt_loop.simps) (simp add: Let_def)
  qed
  assume "0 \<le> n" "n < 2 ^ 31"
  then show ?thesis by (simp add: WriteVarInt_int_def WriteVarInt_def loop)
qed

context checked_codec
begin

lemma read_many_written:
  "\<forall>x \<in> set xs. valid x \<Longrightarrow> those (map ser xs) = Some bs \<Longrightarrow> read_many unser (length xs) (concat bs @ rest) = Inr (xs, rest)"
  using those_written [of xs] plain.read_many_ser [of xs rest] by auto

lemma vector_written:
  assumes "\<forall>x \<in> set xs. valid x" "length xs \<le> MAX_SIZE"
  obtains bs where "ser_vector_checked ser xs = Some (WriteCompactSize (of_nat (length xs)) @ concat bs)"
    "\<And>rest. ReadCompactSize (WriteCompactSize (of_nat (length xs)) @ concat bs @ rest) = Inr (of_nat (length xs), concat bs @ rest)"
    "\<And>rest. read_many unser (length xs) (concat bs @ rest) = Inr (xs, rest)"
proof -
  obtain bs where bs: "those (map ser xs) = Some bs" using those_written [OF assms(1)] by auto
  show thesis
  proof (rule that [of bs])
    show "ser_vector_checked ser xs = Some (WriteCompactSize (of_nat (length xs)) @ concat bs)"
      using bs by (simp add: ser_vector_checked_def)
    show "ReadCompactSize (WriteCompactSize (of_nat (length xs)) @ concat bs @ rest) = Inr (of_nat (length xs), concat bs @ rest)" for rest
      using assms(2) by (simp add: compact_codec.unser_ser unat_of_nat_size)
    show "read_many unser (length xs) (concat bs @ rest) = Inr (xs, rest)" for rest
      by (rule read_many_written [OF assms(1) bs])
  qed
qed

lemma vector_checked:
  "checked_codec (ser_vector_checked ser) (unser_vector unser) (\<lambda>xs. length xs \<le> MAX_SIZE \<and> (\<forall>x \<in> set xs. valid x))"
proof
  fix xs :: "'a list"
  assume xs: "length xs \<le> MAX_SIZE \<and> (\<forall>x \<in> set xs. valid x)"
  then obtain bs where "ser_vector_checked ser xs = Some (WriteCompactSize (of_nat (length xs)) @ concat bs)"
    "\<And>rest. ReadCompactSize (WriteCompactSize (of_nat (length xs)) @ concat bs @ rest) = Inr (of_nat (length xs), concat bs @ rest)"
    "\<And>rest. read_many unser (length xs) (concat bs @ rest) = Inr (xs, rest)" using vector_written by blast
  then show "\<exists>b. ser_vector_checked ser xs = Some b \<and> (\<forall>rest. unser_vector unser (b @ rest) = Inr (xs, rest))"
    using xs by (simp add: unser_vector_def pbind_def unat_of_nat_size)
qed

end

lemma ReadVarInt_int_zero: "ReadVarInt_int (ser_writedata8 0 @ rest) = Inr (0, rest)"
  by (simp add: ReadVarInt_int_def ser_writedata8_def)

interpretation txin_undo_codec: checked_codec ser_TxInUndo "unser_TxInUndo c0" valid_coin for c0
proof
  fix c
  assume v: "valid_coin c"
  let ?w = "word_of_int (Coin_code c) :: u32"
  have h: "unat (coin_nHeight c) < 2 ^ 30" using v by (simp add: valid_coin_def)
  note code = Coin_code_word [OF h]
  have w: "WriteVarInt_int (Coin_code c) = WriteVarInt ?w" using code by (simp add: WriteVarInt_int_nonneg)
  have d: "ucast (?w div 2) = coin_nHeight c" using code(3) by (simp add: drop_bit_eq_div)
  obtain b where b: "ser_CTxOutCompressor (coin_out c) = Some b" using out_codec.written v valid_coin_def by blast
  let ?dummy = "if coin_nHeight c > 0 then ser_writedata8 0 else []"
  have "ser_TxInUndo c = Some (WriteVarInt ?w @ ?dummy @ b)" using code b w by (simp add: ser_TxInUndo_def)
  moreover have "unser_TxInUndo c0 ((WriteVarInt ?w @ ?dummy @ b) @ rest) = Inr (c, rest)" for rest
  proof -
    have "ReadVarInt ((WriteVarInt ?w @ ?dummy @ b) @ rest) = Inr (?w, ?dummy @ b @ rest)"
      using varint_codec.unser_ser [of ?w "?dummy @ b @ rest"] by simp
    then show ?thesis
      using d code(4) out_codec.written_read [OF _ b] v
      by (simp add: unser_TxInUndo_def pbind_def preturn_def valid_coin_def Let_def ReadVarInt_int_zero)
  qed
  ultimately show "\<exists>b. ser_TxInUndo c = Some b \<and> (\<forall>rest. unser_TxInUndo c0 (b @ rest) = Inr (c, rest))" by blast
qed

lemma MAX_INPUTS_PER_BLOCK_value: "MAX_INPUTS_PER_BLOCK = 195121"
  by (simp add: MAX_INPUTS_PER_BLOCK_def MIN_TRANSACTION_INPUT_WEIGHT_def WITNESS_SCALE_FACTOR_def MAX_BLOCK_WEIGHT_def CTxIn_default_def
      ser_CTxIn_def ser_COutPoint_def ser_uint256_def ser_byte_vector_def COutPoint_null_def uint256_null_def ser_writedata32_def length_simps
      GetSizeOfCompactSize_def)

definition valid_CTxUndo :: "CTxUndo \<Rightarrow> bool" where
  "valid_CTxUndo vprevout \<longleftrightarrow> length vprevout \<le> MAX_INPUTS_PER_BLOCK \<and> (\<forall>c \<in> set vprevout. valid_coin c)"

definition valid_CBlockUndo :: "CBlockUndo \<Rightarrow> bool" where
  "valid_CBlockUndo vtxundo \<longleftrightarrow> length vtxundo \<le> MAX_SIZE \<and> (\<forall>u \<in> set vtxundo. valid_CTxUndo u)"

interpretation tx_undo_codec: checked_codec ser_CTxUndo unser_CTxUndo valid_CTxUndo
proof
  fix u
  assume v: "valid_CTxUndo u"
  then have l: "length u \<le> MAX_INPUTS_PER_BLOCK" "length u \<le> MAX_SIZE" and c: "\<forall>c \<in> set u. valid_coin c"
    by (simp_all add: valid_CTxUndo_def MAX_INPUTS_PER_BLOCK_value MAX_SIZE_def)
  obtain bs where "ser_vector_checked ser_TxInUndo u = Some (WriteCompactSize (of_nat (length u)) @ concat bs)"
    "\<And>rest. ReadCompactSize (WriteCompactSize (of_nat (length u)) @ concat bs @ rest) = Inr (of_nat (length u), concat bs @ rest)"
    "\<And>rest. read_many (unser_TxInUndo coinEmpty) (length u) (concat bs @ rest) = Inr (u, rest)"
    using txin_undo_codec.vector_written [OF c l(2)] by blast
  then show "\<exists>b. ser_CTxUndo u = Some b \<and> (\<forall>rest. unser_CTxUndo (b @ rest) = Inr (u, rest))"
    using l by (simp add: ser_CTxUndo_def unser_CTxUndo_def pbind_def unat_of_nat_size)
qed

interpretation block_undo_codec: checked_codec ser_CBlockUndo unser_CBlockUndo valid_CBlockUndo
  using tx_undo_codec.vector_checked
  by (simp add: ser_CBlockUndo_def [abs_def] unser_CBlockUndo_def valid_CBlockUndo_def [abs_def])

end
