(* ===== verification/Block_Files.thy ===== *)
theory Block_Files
  imports Undo Check_Block
begin

text \<open>
  The files blocks and undo data are kept in (\<open>validation.cpp\<close>: \<open>FindBlockPos\<close>, \<open>FindUndoPos\<close>,
  \<open>WriteBlockToDisk\<close>, \<open>ReadBlockFromDisk\<close>, \<open>UndoWriteToDisk\<close>, \<open>UndoReadFromDisk\<close>,
  \<open>SaveBlockToDisk\<close>, \<open>FlushBlockFile\<close>; \<open>CBlockFileInfo\<close> of \<open>chain.h\<close>), and their pruning.  A file is
  the bytes it holds; writing past its end fills the gap with zeros, as the operating system does.
  What the system answers is the argument \<open>env\<close>: whether files can be opened and extended, and the
  space left; a write to an open file is taken to succeed.
\<close>

section \<open>Files\<close>

definition file_extend :: "nat \<Rightarrow> bytes \<Rightarrow> bytes" where
  "file_extend n f = f @ replicate (n - length f) 0"

definition file_truncate :: "nat \<Rightarrow> bytes \<Rightarrow> bytes" where
  "file_truncate n f = take n (file_extend n f)"

definition file_write :: "nat \<Rightarrow> bytes \<Rightarrow> bytes \<Rightarrow> bytes" where
  "file_write pos data f = take pos (file_extend pos f) @ data @ drop (pos + length data) f"

type_synonym disk_files = "int \<Rightarrow> bytes option"

section \<open>What is known of each file\<close>

record CBlockFileInfo =
  fi_nBlocks :: u32
  fi_nSize :: u32
  fi_nUndoSize :: u32
  fi_nHeightFirst :: u32
  fi_nHeightLast :: u32
  fi_nTimeFirst :: u64
  fi_nTimeLast :: u64

definition CBlockFileInfo_SetNull :: CBlockFileInfo where
  "CBlockFileInfo_SetNull =
     \<lparr>fi_nBlocks = 0, fi_nSize = 0, fi_nUndoSize = 0, fi_nHeightFirst = 0, fi_nHeightLast = 0,
      fi_nTimeFirst = 0, fi_nTimeLast = 0\<rparr>"

definition AddBlock :: "u32 \<Rightarrow> u64 \<Rightarrow> CBlockFileInfo \<Rightarrow> CBlockFileInfo" where
  "AddBlock nHeightIn nTimeIn fi =
     (let fi = (if fi_nBlocks fi = 0 \<or> fi_nHeightFirst fi > nHeightIn then fi\<lparr>fi_nHeightFirst := nHeightIn\<rparr> else fi);
          fi = (if fi_nBlocks fi = 0 \<or> fi_nTimeFirst fi > nTimeIn then fi\<lparr>fi_nTimeFirst := nTimeIn\<rparr> else fi);
          fi = fi\<lparr>fi_nBlocks := fi_nBlocks fi + 1\<rparr>;
          fi = (if nHeightIn > fi_nHeightLast fi then fi\<lparr>fi_nHeightLast := nHeightIn\<rparr> else fi)
      in if nTimeIn > fi_nTimeLast fi then fi\<lparr>fi_nTimeLast := nTimeIn\<rparr> else fi)"

definition ser_CBlockFileInfo :: "CBlockFileInfo \<Rightarrow> bytes" where
  "ser_CBlockFileInfo fi =
     WriteVarInt (fi_nBlocks fi) @ WriteVarInt (fi_nSize fi) @ WriteVarInt (fi_nUndoSize fi) @
     WriteVarInt (fi_nHeightFirst fi) @ WriteVarInt (fi_nHeightLast fi) @
     WriteVarInt (fi_nTimeFirst fi) @ WriteVarInt (fi_nTimeLast fi)"

definition unser_CBlockFileInfo :: "CBlockFileInfo parser" where
  "unser_CBlockFileInfo =
     pbind ReadVarInt (\<lambda>b. pbind ReadVarInt (\<lambda>s. pbind ReadVarInt (\<lambda>u. pbind ReadVarInt (\<lambda>hf.
     pbind ReadVarInt (\<lambda>hl. pbind ReadVarInt (\<lambda>tf. pbind ReadVarInt (\<lambda>tl.
       preturn \<lparr>fi_nBlocks = b, fi_nSize = s, fi_nUndoSize = u, fi_nHeightFirst = hf, fi_nHeightLast = hl,
                fi_nTimeFirst = tf, fi_nTimeLast = tl\<rparr>)))))))"

record file_env =
  fe_fPruneMode :: bool
  fe_available :: u64
  fe_can_open :: "bool \<Rightarrow> int \<Rightarrow> bool"
  fe_can_allocate :: bool
  fe_messageStart :: bytes

record block_store =
  vinfoBlockFile :: "CBlockFileInfo list"
  nLastBlockFile :: int
  setDirtyFileInfo :: "int set"
  fCheckForPruning :: bool
  blk_files :: disk_files
  rev_files :: disk_files

definition MAX_BLOCKFILE_SIZE :: u32 where "MAX_BLOCKFILE_SIZE = 0x8000000"
definition BLOCKFILE_CHUNK_SIZE :: u32 where "BLOCKFILE_CHUNK_SIZE = 0x1000000"
definition UNDOFILE_CHUNK_SIZE :: u32 where "UNDOFILE_CHUNK_SIZE = 0x100000"
definition nMinDiskSpace :: u64 where "nMinDiskSpace = 52428800"

definition pos_IsNull :: "CDiskBlockPos \<Rightarrow> bool" where
  "pos_IsNull p \<longleftrightarrow> pos_nFile p = - 1"

section \<open>Opening files\<close>

text \<open>Opening to write creates the file; the flag tells undo files from block files.\<close>

definition OpenDiskFile :: "file_env \<Rightarrow> bool \<Rightarrow> CDiskBlockPos \<Rightarrow> disk_files \<Rightarrow> disk_files option" where
  "OpenDiskFile env undo pos files =
     (if pos_IsNull pos \<or> \<not> fe_can_open env undo (pos_nFile pos) then None
      else Some (case files (pos_nFile pos) of None \<Rightarrow> files(pos_nFile pos \<mapsto> []) | Some _ \<Rightarrow> files))"

text \<open>Opening to read gives the bytes from the position on.\<close>

definition OpenDiskFile_read :: "file_env \<Rightarrow> bool \<Rightarrow> CDiskBlockPos \<Rightarrow> disk_files \<Rightarrow> bytes option" where
  "OpenDiskFile_read env undo pos files =
     (if pos_IsNull pos \<or> \<not> fe_can_open env undo (pos_nFile pos) then None
      else map_option (drop (unat (nPos pos))) (files (pos_nFile pos)))"

definition update_file :: "(bytes \<Rightarrow> bytes) \<Rightarrow> int \<Rightarrow> disk_files \<Rightarrow> disk_files" where
  "update_file g n files = files(n := map_option g (files n))"

definition CheckDiskSpace :: "file_env \<Rightarrow> u64 \<Rightarrow> bool" where
  "CheckDiskSpace env nAdditionalBytes \<longleftrightarrow> \<not> fe_available env < nMinDiskSpace + nAdditionalBytes"

definition AllocateFileRange :: "file_env \<Rightarrow> u32 \<Rightarrow> u32 \<Rightarrow> bytes \<Rightarrow> bytes" where
  "AllocateFileRange env offset len f = (if fe_can_allocate env then file_extend (unat offset + unat len) f else f)"

section \<open>Finding room\<close>

definition vinfo_resize :: "nat \<Rightarrow> CBlockFileInfo list \<Rightarrow> CBlockFileInfo list" where
  "vinfo_resize nf v = (if length v \<le> nf then v @ replicate (nf + 1 - length v) CBlockFileInfo_SetNull else v)"

partial_function (option) find_file :: "u32 \<Rightarrow> CBlockFileInfo list \<Rightarrow> nat \<Rightarrow> (CBlockFileInfo list \<times> nat) option" where
  "find_file nAddSize v nf =
     (if fi_nSize (v ! nf) + nAddSize \<ge> MAX_BLOCKFILE_SIZE
      then find_file nAddSize (vinfo_resize (nf + 1) v) (nf + 1)
      else Some (v, nf))"

definition flush_one :: "file_env \<Rightarrow> bool \<Rightarrow> bool \<Rightarrow> int \<Rightarrow> u32 \<Rightarrow> disk_files \<Rightarrow> disk_files" where
  "flush_one env undo fFinalize n sz files =
     (case OpenDiskFile env undo \<lparr>pos_nFile = n, nPos = 0\<rparr> files of
        None \<Rightarrow> files
      | Some files \<Rightarrow> if fFinalize then update_file (file_truncate (unat sz)) n files else files)"

definition FlushBlockFile :: "file_env \<Rightarrow> bool \<Rightarrow> block_store \<Rightarrow> block_store" where
  "FlushBlockFile env fFinalize d =
     (let n = nLastBlockFile d; fi = vinfoBlockFile d ! nat n
      in d\<lparr>blk_files := flush_one env False fFinalize n (fi_nSize fi) (blk_files d),
           rev_files := flush_one env True fFinalize n (fi_nUndoSize fi) (rev_files d)\<rparr>)"

text \<open>Files grow by whole chunks.\<close>

definition chunks :: "u32 \<Rightarrow> u32 \<Rightarrow> u32" where
  "chunks sz chunk = (sz + chunk - 1) div chunk"

definition preallocate :: "file_env \<Rightarrow> bool \<Rightarrow> CDiskBlockPos \<Rightarrow> u32 \<Rightarrow> disk_files \<Rightarrow> disk_files" where
  "preallocate env undo pos sz files =
     (case OpenDiskFile env undo pos files of None \<Rightarrow> files
      | Some files \<Rightarrow> update_file (AllocateFileRange env (nPos pos) (sz - nPos pos)) (pos_nFile pos) files)"

text \<open>The steps of \<open>FindBlockPos\<close>: the file, the change of file, the entry of the file, and its growth.\<close>

definition choose_file :: "CDiskBlockPos \<Rightarrow> u32 \<Rightarrow> bool \<Rightarrow> block_store \<Rightarrow> (CBlockFileInfo list \<times> nat) option" where
  "choose_file pos nAddSize fKnown d =
     (let nf = nat (if fKnown then pos_nFile pos else nLastBlockFile d);
          v = vinfo_resize nf (vinfoBlockFile d)
      in if fKnown then Some (v, nf) else find_file nAddSize v nf)"

definition enter_file :: "file_env \<Rightarrow> bool \<Rightarrow> nat \<Rightarrow> block_store \<Rightarrow> block_store" where
  "enter_file env fKnown nf d =
     (if int nf \<noteq> nLastBlockFile d then (FlushBlockFile env (\<not> fKnown) d)\<lparr>nLastBlockFile := int nf\<rparr> else d)"

definition account_block :: "CDiskBlockPos \<Rightarrow> u32 \<Rightarrow> u32 \<Rightarrow> u64 \<Rightarrow> bool \<Rightarrow> CBlockFileInfo \<Rightarrow> CBlockFileInfo" where
  "account_block pos nAddSize height nTime fKnown fi =
     (let fi = AddBlock height nTime fi
      in if fKnown then fi\<lparr>fi_nSize := max (nPos pos + nAddSize) (fi_nSize fi)\<rparr>
         else fi\<lparr>fi_nSize := fi_nSize fi + nAddSize\<rparr>)"

definition grow_block_file :: "file_env \<Rightarrow> CDiskBlockPos \<Rightarrow> u32 \<Rightarrow> block_store \<Rightarrow> bool \<times> block_store" where
  "grow_block_file env pos nNewSize d =
     (let nOldChunks = chunks (nPos pos) BLOCKFILE_CHUNK_SIZE;
          nNewChunks = chunks nNewSize BLOCKFILE_CHUNK_SIZE;
          sz = nNewChunks * BLOCKFILE_CHUNK_SIZE
      in if nNewChunks > nOldChunks
         then let d = (if fe_fPruneMode env then d\<lparr>fCheckForPruning := True\<rparr> else d)
              in if CheckDiskSpace env (ucast (sz - nPos pos))
                 then (True, d\<lparr>blk_files := preallocate env False pos sz (blk_files d)\<rparr>)
                 else (False, d)
         else (True, d))"

text \<open>\<open>None\<close> is a loop that does not end; otherwise whether there is room, the position and the files.\<close>

definition FindBlockPos :: "file_env \<Rightarrow> CDiskBlockPos \<Rightarrow> u32 \<Rightarrow> u32 \<Rightarrow> u64 \<Rightarrow> bool \<Rightarrow> block_store \<Rightarrow>
    (bool \<times> CDiskBlockPos \<times> block_store) option" where
  "FindBlockPos env pos nAddSize height nTime fKnown d =
     (case choose_file pos nAddSize fKnown d of None \<Rightarrow> None
      | Some (v, nf) \<Rightarrow>
          let pos = (if fKnown then pos else \<lparr>pos_nFile = int nf, nPos = fi_nSize (v ! nf)\<rparr>);
              d = enter_file env fKnown nf (d\<lparr>vinfoBlockFile := v\<rparr>);
              fi = account_block pos nAddSize height nTime fKnown (v ! nf);
              d = d\<lparr>vinfoBlockFile := (vinfoBlockFile d)[nf := fi]\<rparr>;
              (ok, d) = (if fKnown then (True, d) else grow_block_file env pos (fi_nSize fi) d)
          in if \<not> ok then Some (False, pos, d)
             else Some (True, pos, d\<lparr>setDirtyFileInfo := insert (int nf) (setDirtyFileInfo d)\<rparr>))"

definition FindUndoPos :: "file_env \<Rightarrow> int \<Rightarrow> u32 \<Rightarrow> block_store \<Rightarrow> bool \<times> CDiskBlockPos \<times> block_store" where
  "FindUndoPos env nf nAddSize d =
     (let fi = vinfoBlockFile d ! nat nf;
          pos = \<lparr>pos_nFile = nf, nPos = fi_nUndoSize fi\<rparr>;
          nNewSize = fi_nUndoSize fi + nAddSize;
          d = d\<lparr>vinfoBlockFile := (vinfoBlockFile d)[nat nf := fi\<lparr>fi_nUndoSize := nNewSize\<rparr>],
                setDirtyFileInfo := insert nf (setDirtyFileInfo d)\<rparr>;
          nOldChunks = chunks (nPos pos) UNDOFILE_CHUNK_SIZE;
          nNewChunks = chunks nNewSize UNDOFILE_CHUNK_SIZE;
          sz = nNewChunks * UNDOFILE_CHUNK_SIZE
      in if nNewChunks > nOldChunks
         then let d = (if fe_fPruneMode env then d\<lparr>fCheckForPruning := True\<rparr> else d)
              in if CheckDiskSpace env (ucast (sz - nPos pos))
                 then (True, pos, d\<lparr>rev_files := preallocate env True pos sz (rev_files d)\<rparr>)
                 else (False, pos, d)
         else (True, pos, d))"

section \<open>Writing and reading\<close>

text \<open>The header of a record, then its data; the position returned is the one of the data.\<close>

definition write_record :: "file_env \<Rightarrow> bool \<Rightarrow> CDiskBlockPos \<Rightarrow> u32 \<Rightarrow> bytes \<Rightarrow> disk_files \<Rightarrow> (CDiskBlockPos \<times> disk_files) option" where
  "write_record env undo pos nSize data files =
     (case OpenDiskFile env undo pos files of None \<Rightarrow> None
      | Some files \<Rightarrow>
          let header = fe_messageStart env @ ser_writedata32 nSize;
              fileOutPos = unat (nPos pos) + length header
          in Some (pos\<lparr>nPos := of_nat fileOutPos\<rparr>,
                   update_file (file_write (unat (nPos pos)) (header @ data)) (pos_nFile pos) files))"

definition WriteBlockToDisk :: "file_env \<Rightarrow> CBlock \<Rightarrow> CDiskBlockPos \<Rightarrow> disk_files \<Rightarrow> (CDiskBlockPos \<times> disk_files) option" where
  "WriteBlockToDisk env block pos files =
     (let data = ser_CBlock True block in write_record env False pos (of_nat (length data)) data files)"

text \<open>\<open>None\<close> is the return value \<open>false\<close>.\<close>

definition ReadBlockFromDisk :: "file_env \<Rightarrow> node_env \<Rightarrow> CDiskBlockPos \<Rightarrow> disk_files \<Rightarrow> CBlock option" where
  "ReadBlockFromDisk env nenv pos files =
     (case OpenDiskFile_read env False pos files of None \<Rightarrow> None
      | Some filein \<Rightarrow>
          (case unser_CBlock True filein of Inl e \<Rightarrow> None
           | Inr (block, _) \<Rightarrow>
               if \<not> CheckEquihashSolution (ne_eh nenv) (ne_EquihashN nenv) (ne_EquihashK nenv) block then None
               else if \<not> CheckProofOfWork (header_GetHash (ne_H nenv) block) (blk_nBits block) (ne_params nenv) then None
               else Some block))"

text \<open>The overload for a block index: \<open>None\<close> outside is the dereference of a null \<open>phashBlock\<close>.\<close>

definition ReadBlockFromDisk_index :: "file_env \<Rightarrow> node_env \<Rightarrow> CBlockIndex \<Rightarrow> disk_files \<Rightarrow> CBlock option option" where
  "ReadBlockFromDisk_index env nenv pindex files =
     (case ReadBlockFromDisk env nenv (GetBlockPos pindex) files of None \<Rightarrow> Some None
      | Some block \<Rightarrow>
          (case GetBlockHash pindex of None \<Rightarrow> None
           | Some h \<Rightarrow> Some (if header_GetHash (ne_H nenv) block \<noteq> h then None else Some block)))"

text \<open>The undo data and the checksum over the hash of the block below and the data; \<open>None\<close> outside is
  the failed assertion of a writer.\<close>

definition UndoWriteToDisk :: "file_env \<Rightarrow> hasher \<Rightarrow> CBlockUndo \<Rightarrow> CDiskBlockPos \<Rightarrow> uint256 \<Rightarrow> disk_files \<Rightarrow>
    (CDiskBlockPos \<times> disk_files) option option" where
  "UndoWriteToDisk env H blockundo pos hashBlock files =
     (case ser_CBlockUndo blockundo of None \<Rightarrow> None
      | Some data \<Rightarrow>
          Some (write_record env True pos (of_nat (length data)) (data @ ser_uint256 (H (hashBlock @ data))) files))"

text \<open>\<open>CHashVerifier\<close> hashes the bytes the reader consumed.\<close>

definition consumed :: "bytes \<Rightarrow> bytes \<Rightarrow> bytes" where
  "consumed s rest = take (length s - length rest) s"

definition UndoReadFromDisk :: "file_env \<Rightarrow> hasher \<Rightarrow> CDiskBlockPos \<Rightarrow> uint256 \<Rightarrow> disk_files \<Rightarrow> CBlockUndo option" where
  "UndoReadFromDisk env H pos hashPrev files =
     (if pos_IsNull pos then None
      else case OpenDiskFile_read env True pos files of None \<Rightarrow> None
      | Some filein \<Rightarrow>
          (case unser_CBlockUndo filein of Inl e \<Rightarrow> None
           | Inr (blockundo, rest) \<Rightarrow>
               (case unser_uint256 rest of Inl e \<Rightarrow> None
                | Inr (hashChecksum, _) \<Rightarrow>
                    if hashChecksum \<noteq> H (hashPrev @ consumed filein rest) then None else Some blockundo)))"

text \<open>The position a block is stored at, null when it could not be.\<close>

definition SaveBlockToDisk :: "file_env \<Rightarrow> CBlock \<Rightarrow> int \<Rightarrow> CDiskBlockPos option \<Rightarrow> block_store \<Rightarrow>
    (CDiskBlockPos \<times> block_store) option" where
  "SaveBlockToDisk env block height dbp d =
     (let nBlockSize = of_nat (length (ser_CBlock True block)) :: u32;
          blockPos = (case dbp of None \<Rightarrow> CDiskBlockPos_SetNull | Some p \<Rightarrow> p)
      in Option.bind (FindBlockPos env blockPos (nBlockSize + 8) (word_of_int height) (ucast (blk_nTime block)) (dbp \<noteq> None) d)
         (\<lambda>(ok, blockPos, d).
           if \<not> ok then Some (CDiskBlockPos_SetNull, d)
           else if dbp = None
           then (case WriteBlockToDisk env block blockPos (blk_files d) of
                   None \<Rightarrow> Some (CDiskBlockPos_SetNull, d)
                 | Some (blockPos, files) \<Rightarrow> Some (blockPos, d\<lparr>blk_files := files\<rparr>))
           else Some (blockPos, d)))"

text \<open>
  The disk's part of \<open>WriteUndoDataForBlock\<close>: the position the undo data is written to, or the message of
  the failure, which \<open>Connect_Block\<close> takes from here.  \<open>hashPrev\<close> is the hash of the block below.
\<close>

definition write_undo_data :: "file_env \<Rightarrow> hasher \<Rightarrow> CBlockUndo \<Rightarrow> uint256 \<Rightarrow> int \<Rightarrow> block_store \<Rightarrow>
    ((string + u32) \<times> block_store) option" where
  "write_undo_data env H blockundo hashPrev nf d =
     (case ser_CBlockUndo blockundo of None \<Rightarrow> None
      | Some data \<Rightarrow>
          (let (ok, pos, d) = FindUndoPos env nf (of_nat (length data) + 40) d
           in if \<not> ok then Some (Inl ''out of disk space'', d)
              else Option.bind (UndoWriteToDisk env H blockundo pos hashPrev (rev_files d)) (\<lambda>written.
                case written of None \<Rightarrow> Some (Inl ''Failed to write undo data'', d)
                | Some (pos, files) \<Rightarrow> Some (Inr (nPos pos), d\<lparr>rev_files := files\<rparr>))))"

section \<open>Bytes stay where they were written\<close>

definition holds :: "bytes \<Rightarrow> nat \<Rightarrow> bytes \<Rightarrow> bool" where
  "holds f p data \<longleftrightarrow> (\<exists>a b. f = a @ data @ b \<and> length a = p)"

lemma holds_drop: "holds f p data \<Longrightarrow> \<exists>b. drop p f = data @ b"
  by (auto simp: holds_def)

lemma holds_extend: "holds f p data \<Longrightarrow> holds (file_extend n f) p data"
  unfolding holds_def file_extend_def by (metis append.assoc)

lemma length_file_extend [simp]: "length (file_extend n f) = max n (length f)"
  by (simp add: file_extend_def)

lemma holds_take: "holds f p data \<Longrightarrow> p + length data \<le> n \<Longrightarrow> holds (take n f) p data"
proof -
  assume "holds f p data" "p + length data \<le> n"
  then obtain a b where "f = a @ data @ b" "length a = p" by (auto simp: holds_def)
  then have "take n f = a @ data @ take (n - (p + length data)) b" using \<open>p + length data \<le> n\<close> by simp
  then show ?thesis using \<open>length a = p\<close> by (auto simp: holds_def)
qed

lemma holds_append: "holds f p data \<Longrightarrow> holds (f @ g) p data"
  unfolding holds_def by (metis append.assoc)

lemma holds_truncate: "holds f p data \<Longrightarrow> p + length data \<le> n \<Longrightarrow> holds (file_truncate n f) p data"
  by (simp add: file_truncate_def holds_take holds_extend)

lemma holds_write_after: "holds f p data \<Longrightarrow> p + length data \<le> q \<Longrightarrow> holds (file_write q x f) p data"
  unfolding file_write_def by (intro holds_append holds_take holds_extend)

lemma holds_write: "holds (file_write q (h @ x) f) (q + length h) x"
  unfolding holds_def file_write_def
  by (intro exI [of _ "take q (file_extend q f) @ h"] exI [of _ "drop (q + length (h @ x)) f"]) simp

lemma AllocateFileRange_holds: "holds f p data \<Longrightarrow> holds (AllocateFileRange env off len f) p data"
  by (simp add: AllocateFileRange_def holds_extend)

text \<open>A file of the store holds the data, within the part of it that is in use.\<close>

definition file_holds :: "disk_files \<Rightarrow> int \<Rightarrow> nat \<Rightarrow> bytes \<Rightarrow> bool" where
  "file_holds files n p data \<longleftrightarrow> (\<exists>f. files n = Some f \<and> holds f p data)"

lemma file_holds_open: "OpenDiskFile env undo pos files = Some files' \<Longrightarrow> file_holds files n p data \<Longrightarrow> file_holds files' n p data"
  by (auto simp: OpenDiskFile_def file_holds_def split: if_splits option.splits)

lemma opened_exists: "OpenDiskFile env undo pos files = Some files' \<Longrightarrow> \<exists>f. files' (pos_nFile pos) = Some f"
  by (auto simp: OpenDiskFile_def split: if_splits option.splits)

lemma file_holds_update:
  "file_holds files n p data \<Longrightarrow> (\<And>f. n = m \<Longrightarrow> holds f p data \<Longrightarrow> holds (g f) p data) \<Longrightarrow>
   file_holds (update_file g m files) n p data"
  by (auto simp: file_holds_def update_file_def)

lemma file_holds_preallocate: "file_holds files n p data \<Longrightarrow> file_holds (preallocate env undo pos sz files) n p data"
  unfolding preallocate_def
  by (auto split: option.split intro!: file_holds_update intro: AllocateFileRange_holds dest: file_holds_open)

lemma file_holds_flush:
  "file_holds files n p data \<Longrightarrow> (n = m \<Longrightarrow> p + length data \<le> unat sz) \<Longrightarrow> file_holds (flush_one env undo fin m sz files) n p data"
  unfolding flush_one_def
  by (auto split: option.split intro!: file_holds_update intro: holds_truncate dest: file_holds_open)

lemma write_record_holds:
  assumes "write_record env undo pos sz data files = Some (pos', files')" "length (fe_messageStart env) = 4"
    and "unat (nPos pos) + 8 < 2 ^ 32"
  shows "pos_nFile pos' = pos_nFile pos \<and> \<not> pos_IsNull pos \<and> unat (nPos pos') = unat (nPos pos) + 8 \<and>
    file_holds files' (pos_nFile pos) (unat (nPos pos) + 8) data \<and>
    (\<forall>n p x. file_holds files n p x \<longrightarrow> (n = pos_nFile pos \<longrightarrow> p + length x \<le> unat (nPos pos)) \<longrightarrow> file_holds files' n p x)"
proof -
  let ?h = "fe_messageStart env @ ser_writedata32 sz"
  have h: "length ?h = 8" using assms(2) by (simp add: ser_writedata32_def length_simps)
  obtain files1 where o: "OpenDiskFile env undo pos files = Some files1"
    and r: "pos' = pos\<lparr>nPos := of_nat (unat (nPos pos) + length ?h)\<rparr>"
      "files' = update_file (file_write (unat (nPos pos)) (?h @ data)) (pos_nFile pos) files1"
    using assms(1) by (auto simp: write_record_def Let_def split: option.splits)
  obtain f where f: "files1 (pos_nFile pos) = Some f" using opened_exists [OF o] by blast
  have p: "pos' = pos\<lparr>nPos := of_nat (unat (nPos pos) + 8)\<rparr>" using r(1) by (simp only: h)
  have "unat (nPos pos') = unat (nPos pos) + 8" using p assms(3) unat_of_nat_u32 [of "unat (nPos pos) + 8"] by simp
  moreover have "file_holds files' (pos_nFile pos) (unat (nPos pos) + 8) data"
    using f r(2) h holds_write [of "unat (nPos pos)" ?h data f] by (simp add: file_holds_def update_file_def)
  moreover have "file_holds files' n p x"
    if x: "file_holds files n p x" "n = pos_nFile pos \<longrightarrow> p + length x \<le> unat (nPos pos)" for n p x
    unfolding r(2) using file_holds_open [OF o x(1)] x(2) by (auto intro!: file_holds_update holds_write_after)
  moreover have "\<not> pos_IsNull pos" using o by (auto simp: OpenDiskFile_def split: if_splits)
  ultimately show ?thesis using p by simp
qed

section \<open>Room is found\<close>

lemma length_vinfo_resize: "length (vinfo_resize n v) = max (length v) (n + 1)"
  by (simp add: vinfo_resize_def)

lemma nth_vinfo_resize:
  "i < length v \<Longrightarrow> vinfo_resize n v ! i = v ! i"
  "length v \<le> i \<Longrightarrow> i \<le> n \<Longrightarrow> vinfo_resize n v ! i = CBlockFileInfo_SetNull"
  by (simp_all add: vinfo_resize_def nth_append)

text \<open>The search ends at the first file that has never been used at the latest.\<close>

lemma find_file_ends:
  assumes "nAddSize < MAX_BLOCKFILE_SIZE" "nf < length v"
  shows "\<exists>v' nf'. find_file nAddSize v nf = Some (v', nf') \<and> nf \<le> nf' \<and> nf' < length v' \<and> length v \<le> length v' \<and>
    fi_nSize (v' ! nf') + nAddSize < MAX_BLOCKFILE_SIZE \<and>
    (\<forall>i < length v. v' ! i = v ! i) \<and> (\<forall>i. length v \<le> i \<and> i < length v' \<longrightarrow> v' ! i = CBlockFileInfo_SetNull)"
  using assms(2)
proof (induction "Suc (length v) - nf" arbitrary: v nf rule: less_induct)
  case less
  show ?case
  proof (cases "fi_nSize (v ! nf) + nAddSize \<ge> MAX_BLOCKFILE_SIZE")
    case False
    then show ?thesis using less.prems by (subst find_file.simps) auto
  next
    case True
    let ?v = "vinfo_resize (nf + 1) v"
    have r: "find_file nAddSize v nf = find_file nAddSize ?v (nf + 1)" using True by (subst find_file.simps) simp
    show ?thesis
    proof (cases "nf + 1 < length v")
      case old: True
      then have v: "?v = v" by (simp add: vinfo_resize_def)
      have "\<exists>v' nf'. find_file nAddSize v (nf + 1) = Some (v', nf') \<and> nf + 1 \<le> nf' \<and> nf' < length v' \<and> length v \<le> length v' \<and>
        fi_nSize (v' ! nf') + nAddSize < MAX_BLOCKFILE_SIZE \<and>
        (\<forall>i < length v. v' ! i = v ! i) \<and> (\<forall>i. length v \<le> i \<and> i < length v' \<longrightarrow> v' ! i = CBlockFileInfo_SetNull)"
        by (rule less.hyps) (use less.prems old in auto)
      then show ?thesis using r v by (auto intro: Suc_leD)
    next
      case new: False
      then have l: "length v = nf + 1" using less.prems by simp
      then have n: "?v ! (nf + 1) = CBlockFileInfo_SetNull" "length ?v = nf + 2"
        by (simp_all add: nth_vinfo_resize length_vinfo_resize)
      then have "find_file nAddSize ?v (nf + 1) = Some (?v, nf + 1)"
        using linorder_not_le [THEN iffD2, OF assms(1)] by (subst find_file.simps) (simp add: CBlockFileInfo_SetNull_def)
      moreover have "?v ! i = CBlockFileInfo_SetNull" if "length v \<le> i" "i < length ?v" for i
        using that l n by (metis Suc_eq_plus1 add_2_eq_Suc' le_antisym less_Suc_eq_le)
      moreover have "fi_nSize (?v ! (nf + 1)) + nAddSize < MAX_BLOCKFILE_SIZE"
        using n(1) assms(1) by (simp add: CBlockFileInfo_SetNull_def)
      ultimately show ?thesis using r n(2) l nth_vinfo_resize(1) [of _ v "nf + 1"]
        by (intro exI [of _ ?v] exI [of _ "nf + 1"]) simp
    qed
  qed
qed

section \<open>The store\<close>

definition files_of :: "bool \<Rightarrow> block_store \<Rightarrow> disk_files" where
  "files_of undo d = (if undo then rev_files d else blk_files d)"

definition used :: "bool \<Rightarrow> CBlockFileInfo \<Rightarrow> nat" where
  "used undo fi = unat (if undo then fi_nUndoSize fi else fi_nSize fi)"

definition store_ok :: "block_store \<Rightarrow> bool" where
  "store_ok d \<longleftrightarrow> 0 \<le> nLastBlockFile d \<and>
     (vinfoBlockFile d = [] \<and> nLastBlockFile d = 0 \<or> nat (nLastBlockFile d) < length (vinfoBlockFile d)) \<and>
     (\<forall>fi \<in> set (vinfoBlockFile d). used False fi \<le> 2 ^ 28)"

definition stored :: "block_store \<Rightarrow> bool \<Rightarrow> int \<Rightarrow> nat \<Rightarrow> bytes \<Rightarrow> bool" where
  "stored d undo n p data \<longleftrightarrow> file_holds (files_of undo d) n p data \<and> 0 \<le> n \<and> nat n < length (vinfoBlockFile d) \<and>
     p + length data \<le> used undo (vinfoBlockFile d ! nat n)"

lemma stored_step:
  assumes "stored d u n p x" "length (vinfoBlockFile d) \<le> length (vinfoBlockFile d')"
    and "\<And>i. i < length (vinfoBlockFile d) \<Longrightarrow> used u (vinfoBlockFile d ! i) \<le> used u (vinfoBlockFile d' ! i)"
    and "file_holds (files_of u d) n p x \<Longrightarrow> p + length x \<le> used u (vinfoBlockFile d ! nat n) \<Longrightarrow> file_holds (files_of u d') n p x"
  shows "stored d' u n p x"
  using assms(1,2,4) assms(3) [of "nat n"] by (auto simp: stored_def)

lemma AddBlock_sizes [simp]:
  "fi_nSize (AddBlock height t fi) = fi_nSize fi" "fi_nUndoSize (AddBlock height t fi) = fi_nUndoSize fi"
  by (simp_all add: AddBlock_def Let_def)

lemma FlushBlockFile_fields [simp]:
  "vinfoBlockFile (FlushBlockFile env fin d) = vinfoBlockFile d" "nLastBlockFile (FlushBlockFile env fin d) = nLastBlockFile d"
  by (simp_all add: FlushBlockFile_def Let_def)

lemma FlushBlockFile_holds:
  assumes "file_holds (files_of u d) n p x" "n = nLastBlockFile d \<longrightarrow> p + length x \<le> used u (vinfoBlockFile d ! nat n)"
  shows "file_holds (files_of u (FlushBlockFile env fin d)) n p x"
  using assms file_holds_flush [of "files_of u d" n p x]
  by (cases u) (simp_all add: FlushBlockFile_def Let_def files_of_def used_def)

lemma FlushBlockFile_stored: "stored d u n p x \<Longrightarrow> stored (FlushBlockFile env fin d) u n p x"
  by (erule stored_step) (auto intro: FlushBlockFile_holds)

lemma store_ok_flush: "store_ok d \<Longrightarrow> store_ok (FlushBlockFile env fin d)"
  by (simp add: store_ok_def)

text \<open>What \<open>FindBlockPos\<close> has done, in the order it does it.\<close>

definition extends :: "CBlockFileInfo list \<Rightarrow> CBlockFileInfo list \<Rightarrow> bool" where
  "extends v v' \<longleftrightarrow> length v \<le> length v' \<and> (\<forall>i < length v. v' ! i = v ! i) \<and>
     (\<forall>i. length v \<le> i \<and> i < length v' \<longrightarrow> v' ! i = CBlockFileInfo_SetNull)"

lemma extends_resize: "extends v (vinfo_resize n v)"
  by (auto simp: extends_def nth_vinfo_resize length_vinfo_resize)

lemma extends_trans: "extends u v \<Longrightarrow> extends v w \<Longrightarrow> extends u w"
proof -
  assume uv: "extends u v" and vw: "extends v w"
  have "w ! i = CBlockFileInfo_SetNull" if "length u \<le> i" "i < length w" for i
    using that uv vw by (cases "i < length v") (simp_all add: extends_def)
  then show ?thesis using uv vw by (simp add: extends_def)
qed

lemma extends_small:
  assumes "extends v v'" "\<forall>fi \<in> set v. used False fi \<le> B"
  shows "\<forall>fi \<in> set v'. used False fi \<le> B"
proof
  fix fi
  assume "fi \<in> set v'"
  then obtain i where i: "i < length v'" "fi = v' ! i" by (metis in_set_conv_nth)
  then show "used False fi \<le> B" using assms
    by (cases "i < length v") (auto simp: extends_def used_def CBlockFileInfo_SetNull_def)
qed

lemma FindBlockPos_steps:
  assumes ok: "store_ok d"
    and run: "FindBlockPos env pos nAddSize height t fKnown d = Some (r, pos', d')"
    and fits: "\<not> fKnown \<Longrightarrow> nAddSize < MAX_BLOCKFILE_SIZE" "fKnown \<Longrightarrow> 0 \<le> pos_nFile pos"
  obtains v nf fi where "extends (vinfoBlockFile d) v" "nf < length v" "vinfoBlockFile d' = v[nf := fi]" "nLastBlockFile d' = int nf"
    "fi_nUndoSize fi = fi_nUndoSize (v ! nf)"
    "fi_nSize fi = (if fKnown then max (nPos pos + nAddSize) (fi_nSize (v ! nf)) else fi_nSize (v ! nf) + nAddSize)"
    "pos' = (if fKnown then pos else \<lparr>pos_nFile = int nf, nPos = fi_nSize (v ! nf)\<rparr>)"
    "\<not> fKnown \<Longrightarrow> fi_nSize (v ! nf) + nAddSize < MAX_BLOCKFILE_SIZE"
    "\<And>u n p x. file_holds (files_of u d) n p x \<Longrightarrow> (n = nLastBlockFile d \<longrightarrow> p + length x \<le> used u (v ! nat n)) \<Longrightarrow>
      file_holds (files_of u d') n p x"
proof -
  let ?n0 = "nat (if fKnown then pos_nFile pos else nLastBlockFile d)"
  let ?v0 = "vinfo_resize ?n0 (vinfoBlockFile d)"
  have l0: "?n0 < length ?v0" by (simp add: length_vinfo_resize)
  obtain v nf where s: "choose_file pos nAddSize fKnown d = Some (v, nf)"
    using run by (auto simp: FindBlockPos_def split: option.splits)
  have v: "extends (vinfoBlockFile d) v \<and> nf < length v \<and> (\<not> fKnown \<longrightarrow> fi_nSize (v ! nf) + nAddSize < MAX_BLOCKFILE_SIZE)"
  proof (cases fKnown)
    case True
    then show ?thesis using s l0 extends_resize by (auto simp: choose_file_def Let_def)
  next
    case False
    then have "find_file nAddSize ?v0 ?n0 = Some (v, nf)" using s by (simp add: choose_file_def Let_def)
    with find_file_ends [OF fits(1) [OF False] l0] have "extends ?v0 v" "nf < length v" "fi_nSize (v ! nf) + nAddSize < MAX_BLOCKFILE_SIZE"
      by (auto simp: extends_def)
    then show ?thesis using extends_trans [OF extends_resize] by blast
  qed
  let ?p = "if fKnown then pos else \<lparr>pos_nFile = int nf, nPos = fi_nSize (v ! nf)\<rparr>"
  let ?d2 = "enter_file env fKnown nf (d\<lparr>vinfoBlockFile := v\<rparr>)"
  let ?fi = "account_block ?p nAddSize height t fKnown (v ! nf)"
  let ?d3 = "?d2\<lparr>vinfoBlockFile := (vinfoBlockFile ?d2)[nf := ?fi]\<rparr>"
  have e: "vinfoBlockFile ?d2 = v" "nLastBlockFile ?d2 = int nf" by (simp_all add: enter_file_def)
  obtain ok d4 where g: "(if fKnown then (True, ?d3) else grow_block_file env ?p (fi_nSize ?fi) ?d3) = (ok, d4)" by force
  have d4: "vinfoBlockFile d4 = vinfoBlockFile ?d3" "nLastBlockFile d4 = nLastBlockFile ?d3"
    "\<And>u n p x. file_holds (files_of u ?d3) n p x \<Longrightarrow> file_holds (files_of u d4) n p x"
    using g by (auto simp: grow_block_file_def Let_def files_of_def file_holds_preallocate split: if_splits)
  have p: "pos' = ?p" and d': "vinfoBlockFile d' = vinfoBlockFile d4" "nLastBlockFile d' = nLastBlockFile d4" "\<And>u. files_of u d' = files_of u d4"
    using run s g by (auto simp: FindBlockPos_def Let_def files_of_def split: if_splits)
  have f2: "file_holds (files_of u ?d3) n p x"
    if "file_holds (files_of u d) n p x" "n = nLastBlockFile d \<longrightarrow> p + length x \<le> used u (v ! nat n)" for u n p x
    using that FlushBlockFile_holds [of u "d\<lparr>vinfoBlockFile := v\<rparr>" n p x env "\<not> fKnown"] by (auto simp: enter_file_def files_of_def)
  show thesis
  proof (rule that [of v nf ?fi])
    show "fi_nUndoSize ?fi = fi_nUndoSize (v ! nf)"
      "fi_nSize ?fi = (if fKnown then max (nPos pos + nAddSize) (fi_nSize (v ! nf)) else fi_nSize (v ! nf) + nAddSize)"
      by (simp_all add: account_block_def Let_def)
  qed (use v p d' d4 e f2 in auto)
qed

lemma extends_used: "extends v v' \<Longrightarrow> i < length v \<Longrightarrow> v' ! i = v ! i"
  by (simp add: extends_def)

lemma MAX_BLOCKFILE_unat: "x < MAX_BLOCKFILE_SIZE \<longleftrightarrow> unat x < 2 ^ 27"
  by (simp add: MAX_BLOCKFILE_SIZE_def word_less_nat_alt)

lemma unat_add_u32: "unat a + unat b < 2 ^ 32 \<Longrightarrow> unat (a + b :: u32) = unat a + unat b"
  by (simp add: unat_word_ariths)

lemma FindBlockPos_spec:
  assumes ok: "store_ok d"
    and run: "FindBlockPos env pos nAddSize height t fKnown d = Some (r, pos', d')"
    and fits: "\<not> fKnown \<longrightarrow> unat nAddSize < 2 ^ 27" "fKnown \<longrightarrow> 0 \<le> pos_nFile pos \<and> unat (nPos pos) + unat nAddSize \<le> 2 ^ 28"
  shows "store_ok d'" "stored d u n p x \<Longrightarrow> stored d' u n p x"
    and "\<not> fKnown \<Longrightarrow> 0 \<le> pos_nFile pos' \<and> nat (pos_nFile pos') < length (vinfoBlockFile d') \<and>
      used False (vinfoBlockFile d' ! nat (pos_nFile pos')) = unat (nPos pos') + unat nAddSize \<and> unat (nPos pos') + unat nAddSize < 2 ^ 27 + 2 ^ 28"
    and "\<not> fKnown \<Longrightarrow> stored d False (pos_nFile pos') p x \<Longrightarrow> p + length x \<le> unat (nPos pos')"
proof -
  have "\<not> fKnown \<Longrightarrow> nAddSize < MAX_BLOCKFILE_SIZE" "fKnown \<Longrightarrow> 0 \<le> pos_nFile pos"
    using fits by (simp_all add: MAX_BLOCKFILE_unat)
  with FindBlockPos_steps [OF ok run] obtain v nf fi where v: "extends (vinfoBlockFile d) v" "nf < length v" "vinfoBlockFile d' = v[nf := fi]" "nLastBlockFile d' = int nf"
    and fi: "fi_nUndoSize fi = fi_nUndoSize (v ! nf)"
    "fi_nSize fi = (if fKnown then max (nPos pos + nAddSize) (fi_nSize (v ! nf)) else fi_nSize (v ! nf) + nAddSize)"
    and pos': "pos' = (if fKnown then pos else \<lparr>pos_nFile = int nf, nPos = fi_nSize (v ! nf)\<rparr>)"
    and found: "\<not> fKnown \<Longrightarrow> fi_nSize (v ! nf) + nAddSize < MAX_BLOCKFILE_SIZE"
    and keep: "\<And>u n p x. file_holds (files_of u d) n p x \<Longrightarrow> (n = nLastBlockFile d \<longrightarrow> p + length x \<le> used u (v ! nat n)) \<Longrightarrow>
      file_holds (files_of u d') n p x"
    by blast
  have small: "\<forall>f \<in> set v. used False f \<le> 2 ^ 28" using extends_small [OF v(1)] ok by (simp add: store_ok_def)
  then have vnf: "unat (fi_nSize (v ! nf)) \<le> 2 ^ 28" using nth_mem [OF v(2)] by (force simp: used_def)
  have sz: "unat (fi_nSize fi) = (if fKnown then max (unat (nPos pos) + unat nAddSize) (unat (fi_nSize (v ! nf)))
      else unat (fi_nSize (v ! nf)) + unat nAddSize)"
    using vnf fits by (auto simp: fi(2) max_def word_le_nat_alt unat_add_u32)
  have "used False fi \<le> 2 ^ 28"
  proof (cases fKnown)
    case False
    then show ?thesis using found fi(2) by (simp add: used_def MAX_BLOCKFILE_unat)
  qed (use sz fits(2) vnf in \<open>simp add: used_def\<close>)
  then have "\<forall>f \<in> set (v[nf := fi]). used False f \<le> 2 ^ 28"
    using small set_update_subset_insert [of v nf fi] by blast
  then show "store_ok d'" using v(2-4) by (simp add: store_ok_def)
  show "stored d' u n p x" if s: "stored d u n p x"
    using s
  proof (rule stored_step)
    have l: "length (vinfoBlockFile d) \<le> length v" using v(1) by (simp add: extends_def)
    then show "length (vinfoBlockFile d) \<le> length (vinfoBlockFile d')" using v(3) by simp
    show "used u (vinfoBlockFile d ! i) \<le> used u (vinfoBlockFile d' ! i)" if "i < length (vinfoBlockFile d)" for i
      using that l extends_used [OF v(1) that] v(2) fi(1) sz
      by (cases "i = nf") (auto simp: v(3) used_def)
    show "file_holds (files_of u d') n p x" if "file_holds (files_of u d) n p x" "p + length x \<le> used u (vinfoBlockFile d ! nat n)"
    proof (rule keep [OF that(1)])
      have "v ! nat n = vinfoBlockFile d ! nat n" using s extends_used [OF v(1)] by (simp add: stored_def)
      then show "n = nLastBlockFile d \<longrightarrow> p + length x \<le> used u (v ! nat n)" using that(2) by metis
    qed
  qed
  show "0 \<le> pos_nFile pos' \<and> nat (pos_nFile pos') < length (vinfoBlockFile d') \<and>
      used False (vinfoBlockFile d' ! nat (pos_nFile pos')) = unat (nPos pos') + unat nAddSize \<and> unat (nPos pos') + unat nAddSize < 2 ^ 27 + 2 ^ 28" if "\<not> fKnown"
    using that v(2,3) sz vnf fits(1) pos' by (auto simp: used_def)
  show "p + length x \<le> unat (nPos pos')" if "\<not> fKnown" "stored d False (pos_nFile pos') p x"
    using that pos' extends_used [OF v(1), of nf] by (auto simp: stored_def used_def)
qed

section \<open>Saving blocks and undo data\<close>

lemma stored_files:
  assumes "stored d u n p x" "vinfoBlockFile d' = vinfoBlockFile d" "file_holds (files_of u d) n p x \<Longrightarrow> file_holds (files_of u d') n p x"
  shows "stored d' u n p x"
  using assms by (simp add: stored_def)

lemma store_ok_vinfo:
  "store_ok d \<Longrightarrow> vinfoBlockFile d' = vinfoBlockFile d \<Longrightarrow> nLastBlockFile d' = nLastBlockFile d \<Longrightarrow> store_ok d'"
  by (simp add: store_ok_def)

definition block_bytes :: "CBlock \<Rightarrow> bytes" where
  "block_bytes block = ser_CBlock True block"

lemma SaveBlockToDisk_spec:
  assumes ok: "store_ok d" and run: "SaveBlockToDisk env block h dbp d = Some (pos, d')"
    and fits: "length (block_bytes block) + 8 < 2 ^ 27" "length (fe_messageStart env) = 4"
    and known: "\<And>p. dbp = Some p \<Longrightarrow> 0 \<le> pos_nFile p \<and> unat (nPos p) + length (block_bytes block) + 8 \<le> 2 ^ 28"
  shows "store_ok d' \<and> (\<forall>u n p x. stored d u n p x \<longrightarrow> stored d' u n p x) \<and>
    (dbp = None \<and> \<not> pos_IsNull pos \<longrightarrow> stored d' False (pos_nFile pos) (unat (nPos pos)) (block_bytes block))"
proof -
  let ?add = "of_nat (length (ser_CBlock True block)) + 8 :: u32"
  let ?p0 = "case dbp of None \<Rightarrow> CDiskBlockPos_SetNull | Some p \<Rightarrow> p"
  have "?add = of_nat (length (block_bytes block) + 8)" by (simp add: block_bytes_def)
  then have add: "unat ?add = length (block_bytes block) + 8" using fits(1) unat_of_nat_u32 [of "length (block_bytes block) + 8"] by simp
  obtain r p1 d1 where f: "FindBlockPos env ?p0 ?add (word_of_int h) (ucast (blk_nTime block)) (dbp \<noteq> None) d = Some (r, p1, d1)"
    using run by (auto simp: SaveBlockToDisk_def Let_def split: bind_splits)
  have "\<not> dbp \<noteq> None \<longrightarrow> unat ?add < 2 ^ 27" "dbp \<noteq> None \<longrightarrow> 0 \<le> pos_nFile ?p0 \<and> unat (nPos ?p0) + unat ?add \<le> 2 ^ 28"
    using add fits(1) known by auto
  note spec = FindBlockPos_spec [OF ok f this]
  consider (none) "vinfoBlockFile d' = vinfoBlockFile d1" "d' = d1" "pos = CDiskBlockPos_SetNull \<or> dbp \<noteq> None"
    | (written) files where "dbp = None" "r" "WriteBlockToDisk env block p1 (blk_files d1) = Some (pos, files)" "d' = d1\<lparr>blk_files := files\<rparr>"
    using run f by (auto simp: SaveBlockToDisk_def Let_def split: if_splits option.splits)
  then show ?thesis
  proof cases
    case none
    then show ?thesis using spec(1,2) by (auto simp: CDiskBlockPos_SetNull_def pos_IsNull_def)
  next
    case written
    have room: "0 \<le> pos_nFile p1" "nat (pos_nFile p1) < length (vinfoBlockFile d1)"
      "used False (vinfoBlockFile d1 ! nat (pos_nFile p1)) = unat (nPos p1) + (length (block_bytes block) + 8)"
      "unat (nPos p1) + 8 < 2 ^ 32"
      using spec(3) add written(1) by auto
    have "write_record env False p1 (of_nat (length (block_bytes block))) (block_bytes block) (blk_files d1) = Some (pos, files)"
      using written(3) by (simp add: WriteBlockToDisk_def Let_def block_bytes_def)
    note w = write_record_holds [OF this fits(2) room(4)]
    have "stored d' u n p x" if s: "stored d u n p x" for u n p x
    proof (rule stored_files [OF spec(2) [OF s]])
      have b: "u = False \<Longrightarrow> n = pos_nFile p1 \<Longrightarrow> p + length x \<le> unat (nPos p1)" using spec(4) s written(1) by simp
      show "file_holds (files_of u d1) n p x \<Longrightarrow> file_holds (files_of u d') n p x"
        using w b by (cases u) (auto simp: files_of_def written(4))
    qed (simp add: written(4))
    moreover have "stored d' False (pos_nFile pos) (unat (nPos pos)) (block_bytes block)"
      using w room by (simp add: stored_def files_of_def written(4))
    moreover have "store_ok d'" using spec(1) by (rule store_ok_vinfo) (simp_all add: written(4))
    ultimately show ?thesis by simp
  qed
qed

lemma FindUndoPos_spec:
  assumes ok: "store_ok d" and run: "FindUndoPos env nf nAddSize d = (r, pos, d')"
    and n: "0 \<le> nf" "nat nf < length (vinfoBlockFile d)"
    and fits: "used True (vinfoBlockFile d ! nat nf) + unat nAddSize < 2 ^ 32"
  shows "store_ok d' \<and> (\<forall>u n p x. stored d u n p x \<longrightarrow> stored d' u n p x) \<and> pos_nFile pos = nf \<and>
    unat (nPos pos) = used True (vinfoBlockFile d ! nat nf) \<and> length (vinfoBlockFile d') = length (vinfoBlockFile d) \<and>
    used True (vinfoBlockFile d' ! nat nf) = unat (nPos pos) + unat nAddSize"
proof -
  let ?fi = "vinfoBlockFile d ! nat nf"
  let ?fi' = "?fi\<lparr>fi_nUndoSize := fi_nUndoSize ?fi + nAddSize\<rparr>"
  have r: "pos = \<lparr>pos_nFile = nf, nPos = fi_nUndoSize ?fi\<rparr>" "vinfoBlockFile d' = (vinfoBlockFile d)[nat nf := ?fi']"
    "nLastBlockFile d' = nLastBlockFile d" "blk_files d' = blk_files d"
    "\<And>n p x. file_holds (rev_files d) n p x \<Longrightarrow> file_holds (rev_files d') n p x"
    using run by (auto simp: FindUndoPos_def Let_def file_holds_preallocate split: if_splits)
  have u: "unat (fi_nUndoSize ?fi + nAddSize) = unat (fi_nUndoSize ?fi) + unat nAddSize"
    using fits by (simp add: used_def unat_add_u32)
  have "stored d' u n p x" if "stored d u n p x" for u n p x
    using that
  proof (rule stored_step)
    show "used u (vinfoBlockFile d ! i) \<le> used u (vinfoBlockFile d' ! i)" if "i < length (vinfoBlockFile d)" for i
      using that u n by (cases "i = nat nf") (auto simp: r(2) used_def)
    show "file_holds (files_of u d) n p x \<Longrightarrow> file_holds (files_of u d') n p x"
      using r(4,5) by (cases u) (simp_all add: files_of_def)
  qed (simp add: r(2))
  moreover have "store_ok d'"
  proof -
    have "used False ?fi \<le> 2 ^ 28" using ok n(2) by (simp add: store_ok_def)
    then have "\<forall>f \<in> set (vinfoBlockFile d'). used False f \<le> 2 ^ 28"
      using ok set_update_subset_insert [of "vinfoBlockFile d" "nat nf" ?fi'] by (auto simp: r(2) store_ok_def used_def)
    then show ?thesis using ok r(2,3) by (auto simp: store_ok_def)
  qed
  ultimately show ?thesis using r n u by (simp add: used_def)
qed

definition undo_bytes :: "hasher \<Rightarrow> uint256 \<Rightarrow> bytes \<Rightarrow> bytes" where
  "undo_bytes H hashPrev data = data @ ser_uint256 (H (hashPrev @ data))"

lemma write_undo_data_spec:
  assumes ok: "store_ok d" and run: "write_undo_data env H undo hashPrev nf d = Some (r, d')"
    and n: "0 \<le> nf" "nat nf < length (vinfoBlockFile d)" and H: "\<And>x. length (H x) = 32" and env: "length (fe_messageStart env) = 4"
    and data: "ser_CBlockUndo undo = Some data"
    and fits: "used True (vinfoBlockFile d ! nat nf) + length data + 40 < 2 ^ 32"
  shows "store_ok d' \<and> (\<forall>u n p x. stored d u n p x \<longrightarrow> stored d' u n p x) \<and>
    (\<forall>p. r = Inr p \<longrightarrow> stored d' True nf (unat p) (undo_bytes H hashPrev data))"
proof -
  let ?add = "of_nat (length data) + 40 :: u32"
  have "?add = of_nat (length data + 40)" by simp
  then have add: "unat ?add = length data + 40" using fits unat_of_nat_u32 [of "length data + 40"] by simp
  obtain ok1 p1 d1 where f: "FindUndoPos env nf ?add d = (ok1, p1, d1)" by (cases "FindUndoPos env nf ?add d") auto
  have spec: "store_ok d1" "\<And>u n p x. stored d u n p x \<Longrightarrow> stored d1 u n p x" "pos_nFile p1 = nf"
    "unat (nPos p1) = used True (vinfoBlockFile d ! nat nf)" "length (vinfoBlockFile d1) = length (vinfoBlockFile d)"
    "used True (vinfoBlockFile d1 ! nat nf) = unat (nPos p1) + unat ?add"
    using FindUndoPos_spec [OF ok f n] fits add by auto
  consider (none) e where "r = Inl e" "d' = d1"
    | (written) pos files where "r = Inr (nPos pos)" "d' = d1\<lparr>rev_files := files\<rparr>"
      "UndoWriteToDisk env H undo p1 hashPrev (rev_files d1) = Some (Some (pos, files))"
    using run f data by (auto simp: write_undo_data_def Let_def split: if_splits bind_splits option.splits)
  then show ?thesis
  proof cases
    case none
    then show ?thesis using spec by simp
  next
    case written
    have "write_record env True p1 (of_nat (length data)) (undo_bytes H hashPrev data) (rev_files d1) = Some (pos, files)"
      using written(3) data by (simp add: UndoWriteToDisk_def undo_bytes_def)
    note w = write_record_holds [OF this env]
    have len: "length (undo_bytes H hashPrev data) = length data + 32" using H by (simp add: undo_bytes_def ser_uint256_def)
    have b: "unat (nPos p1) + 8 < 2 ^ 32" using spec(4) fits by simp
    have "stored d' u n p x" if s: "stored d u n p x" for u n p x
    proof (rule stored_files [OF spec(2) [OF s]])
      have "u \<Longrightarrow> n = pos_nFile p1 \<Longrightarrow> p + length x \<le> unat (nPos p1)" using s spec(3,4) by (simp add: stored_def)
      then show "file_holds (files_of u d1) n p x \<Longrightarrow> file_holds (files_of u d') n p x"
        using w [OF b] by (cases u) (auto simp: files_of_def written(2))
    qed (simp add: written(2))
    moreover have "stored d' True nf (unat (nPos pos)) (undo_bytes H hashPrev data)"
      using w [OF b] spec(3,5,6) add n len by (simp add: stored_def files_of_def written(2))
    moreover have "store_ok d'" using spec(1) by (rule store_ok_vinfo) (simp_all add: written(2))
    ultimately show ?thesis using written(1) by simp
  qed
qed

section \<open>What is stored stays readable\<close>

text \<open>
  The runs of the store: blocks and undo data are saved and files flushed, in any order and with any
  answers of the system.  A block imported from a file it is already in is below position \<open>2 ^ 28\<close>,
  and the undo data of a file stays below 4 GiB.
\<close>

inductive store_run :: "hasher \<Rightarrow> block_store \<Rightarrow> block_store \<Rightarrow> bool" for H where
  start: "store_run H d d"
| save: "store_run H d d1 \<Longrightarrow> length (block_bytes block) + 8 < 2 ^ 27 \<Longrightarrow> length (fe_messageStart env) = 4 \<Longrightarrow>
    (\<And>p. dbp = Some p \<Longrightarrow> 0 \<le> pos_nFile p \<and> unat (nPos p) + length (block_bytes block) + 8 \<le> 2 ^ 28) \<Longrightarrow>
    SaveBlockToDisk env block h dbp d1 = Some (pos, d2) \<Longrightarrow> store_run H d d2"
| undo: "store_run H d d1 \<Longrightarrow> 0 \<le> nf \<Longrightarrow> nat nf < length (vinfoBlockFile d1) \<Longrightarrow> length (fe_messageStart env) = 4 \<Longrightarrow>
    ser_CBlockUndo vtxundo = Some data \<Longrightarrow> used True (vinfoBlockFile d1 ! nat nf) + length data + 40 < 2 ^ 32 \<Longrightarrow>
    write_undo_data env H vtxundo hashPrev nf d1 = Some (r, d2) \<Longrightarrow> store_run H d d2"
| flush: "store_run H d d1 \<Longrightarrow> store_run H d (FlushBlockFile env fFinalize d1)"

lemma store_run_keeps:
  assumes "store_run H d d'" "store_ok d" and H: "\<And>x. length (H x) = 32"
  shows "store_ok d' \<and> (\<forall>u n p x. stored d u n p x \<longrightarrow> stored d' u n p x)"
  using assms(1,2)
proof (induction rule: store_run.induct)
  case (save d d1 block env dbp h pos d2)
  then show ?case using SaveBlockToDisk_spec [of d1 env block h dbp pos d2] by blast
next
  case (undo d d1 nf env vtxundo data hashPrev r d2)
  then show ?case using write_undo_data_spec [of d1 env H vtxundo hashPrev nf r d2 data] H by blast
next
  case (flush d d1 env fFinalize)
  then show ?case using FlushBlockFile_stored store_ok_flush by blast
qed simp

lemma pos_eta: "\<lparr>pos_nFile = pos_nFile p, nPos = nPos p\<rparr> = p" for p :: CDiskBlockPos
  by simp

lemma stored_block_read:
  assumes s: "stored d False (pos_nFile pos) (unat (nPos pos)) (block_bytes block)" and v: "valid_CBlock block"
    and pow: "CheckEquihashSolution (ne_eh nenv) (ne_EquihashN nenv) (ne_EquihashK nenv) block"
      "CheckProofOfWork (header_GetHash (ne_H nenv) block) (blk_nBits block) (ne_params nenv)"
    and env: "fe_can_open env False (pos_nFile pos)"
  shows "ReadBlockFromDisk env nenv pos (blk_files d) = Some block"
proof -
  obtain f b where f: "blk_files d (pos_nFile pos) = Some f" "drop (unat (nPos pos)) f = ser_CBlock True block @ b"
    using s holds_drop by (fastforce simp: stored_def file_holds_def files_of_def block_bytes_def)
  have "\<not> pos_IsNull pos" using s by (auto simp: stored_def pos_IsNull_def)
  then show ?thesis using f env pow block_codec.unser_ser [OF v] by (simp add: ReadBlockFromDisk_def OpenDiskFile_read_def)
qed

lemma stored_undo_read:
  assumes s: "stored d True (pos_nFile pos) (unat (nPos pos)) (undo_bytes H hashPrev data)"
    and v: "valid_CBlockUndo vtxundo" "ser_CBlockUndo vtxundo = Some data" and H: "\<And>x. length (H x) = 32"
    and env: "fe_can_open env True (pos_nFile pos)"
  shows "UndoReadFromDisk env H pos hashPrev (rev_files d) = Some vtxundo"
proof -
  obtain f b where f: "rev_files d (pos_nFile pos) = Some f" "drop (unat (nPos pos)) f = data @ ser_uint256 (H (hashPrev @ data)) @ b"
    using s holds_drop by (fastforce simp: stored_def file_holds_def files_of_def undo_bytes_def)
  have "\<not> pos_IsNull pos" using s by (auto simp: stored_def pos_IsNull_def)
  moreover have "unser_uint256 (ser_uint256 (H (hashPrev @ data)) @ b) = Inr (H (hashPrev @ data), b)"
    using uint256_codec.unser_ser H by simp
  ultimately show ?thesis using f env block_undo_codec.written_read [OF v]
    by (simp add: UndoReadFromDisk_def OpenDiskFile_read_def consumed_def)
qed

text \<open>What was saved is read back after any run; undo data against the block it was written for.\<close>

lemma saved_block_stays:
  assumes "store_ok d" "SaveBlockToDisk env block h None d = Some (pos, d1)" "\<not> pos_IsNull pos"
    and "length (block_bytes block) + 8 < 2 ^ 27" "length (fe_messageStart env) = 4" "valid_CBlock block"
    and "store_run H d1 d2" and H: "\<And>x. length (H x) = 32"
    and "CheckEquihashSolution (ne_eh nenv) (ne_EquihashN nenv) (ne_EquihashK nenv) block"
      "CheckProofOfWork (header_GetHash (ne_H nenv) block) (blk_nBits block) (ne_params nenv)"
      "fe_can_open env2 False (pos_nFile pos)"
  shows "ReadBlockFromDisk env2 nenv pos (blk_files d2) = Some block"
proof (rule stored_block_read)
  have "store_ok d1" "stored d1 False (pos_nFile pos) (unat (nPos pos)) (block_bytes block)"
    using SaveBlockToDisk_spec [OF assms(1,2,4,5)] assms(3) by auto
  then show "stored d2 False (pos_nFile pos) (unat (nPos pos)) (block_bytes block)"
    using store_run_keeps [OF assms(7) _ H] by blast
qed (use assms in auto)

lemma saved_undo_stays:
  assumes "store_ok d" "write_undo_data env H vtxundo hashPrev nf d = Some (Inr p, d1)"
    and "0 \<le> nf" "nat nf < length (vinfoBlockFile d)" and H: "\<And>x. length (H x) = 32" and "length (fe_messageStart env) = 4"
    and "valid_CBlockUndo vtxundo" and fits: "used True (vinfoBlockFile d ! nat nf) + length (the (ser_CBlockUndo vtxundo)) + 40 < 2 ^ 32"
    and "store_run H d1 d2" "fe_can_open env2 True nf"
  shows "UndoReadFromDisk env2 H \<lparr>pos_nFile = nf, nPos = p\<rparr> hashPrev (rev_files d2) = Some vtxundo"
proof -
  obtain data where data: "ser_CBlockUndo vtxundo = Some data" using block_undo_codec.written assms(7) by blast
  have "store_ok d1" "stored d1 True nf (unat p) (undo_bytes H hashPrev data)"
    using write_undo_data_spec [OF assms(1-4) H assms(6) data] fits data by auto
  then have "stored d2 True nf (unat p) (undo_bytes H hashPrev data)"
    using store_run_keeps [OF assms(9) _ H] by blast
  then show ?thesis using stored_undo_read [OF _ assms(7) data H] assms(10) by simp
qed

text \<open>Undo data that is accepted was hashed with the block it is read for.\<close>

lemma UndoReadFromDisk_checksum:
  "UndoReadFromDisk env H pos hashPrev files = Some vtxundo \<Longrightarrow>
   \<exists>filein rest sum rest'. OpenDiskFile_read env True pos files = Some filein \<and> unser_CBlockUndo filein = Inr (vtxundo, rest) \<and>
     unser_uint256 rest = Inr (sum, rest') \<and> sum = H (hashPrev @ consumed filein rest)"
  by (auto simp: UndoReadFromDisk_def split: if_splits option.splits sum.splits)

section \<open>The entry of a file is read back\<close>

interpretation file_info_codec: codec ser_CBlockFileInfo unser_CBlockFileInfo "\<lambda>_. True"
  by unfold_locales (simp add: ser_CBlockFileInfo_def unser_CBlockFileInfo_def pbind_def preturn_def varint_codec.unser_ser)

text \<open>The entry bounds the heights and times of the blocks of the file.\<close>

lemma AddBlock_bounds:
  assumes "\<forall>(h, t) \<in> set bs. fi_nHeightFirst fi \<le> h \<and> h \<le> fi_nHeightLast fi \<and> fi_nTimeFirst fi \<le> t \<and> t \<le> fi_nTimeLast fi"
    and "fi_nBlocks fi = of_nat (length bs)" "length bs < 2 ^ 32"
  shows "\<forall>(h, t) \<in> set ((height, time) # bs).
    fi_nHeightFirst (AddBlock height time fi) \<le> h \<and> h \<le> fi_nHeightLast (AddBlock height time fi) \<and>
    fi_nTimeFirst (AddBlock height time fi) \<le> t \<and> t \<le> fi_nTimeLast (AddBlock height time fi)"
proof -
  have "fi_nBlocks fi = 0 \<Longrightarrow> bs = []"
    using assms(2,3) unat_of_nat_u32 [of "length bs"] by (metis length_0_conv unat_0)
  then show ?thesis using assms(1) by (fastforce simp: AddBlock_def Let_def not_less)
qed

end
