(* ===== verification/Pruning.thy ===== *)
theory Pruning
  imports Block_Files
begin

text \<open>
  Pruning of block files (\<open>validation.cpp\<close>: \<open>PruneOneBlockFile\<close>, \<open>FindFilesToPrune\<close>,
  \<open>FindFilesToPruneManual\<close>, \<open>UnlinkPrunedFiles\<close>, \<open>CalculateCurrentUsage\<close>).  The entries of
  \<open>mapBlockIndex\<close> are given as the list of their indices, in the order the map is walked;
  \<open>mapBlocksUnlinked\<close> is a list of pairs.  Blocks near the tip are never given up, and what is given
  up is forgotten by the block index.
\<close>

definition MIN_BLOCKS_TO_KEEP :: u32 where "MIN_BLOCKS_TO_KEEP = 288"

record prune_state =
  pr_tree :: block_tree
  pr_unlinked :: "(ptr \<times> nat) list"
  pr_dirty :: "nat set"
  pr_store :: block_store

text \<open>The sizes of a file are added as 32-bit numbers before they are added to the sum.\<close>

definition file_usage :: "CBlockFileInfo \<Rightarrow> u64" where
  "file_usage fi = ucast (fi_nSize fi + fi_nUndoSize fi)"

fun CalculateCurrentUsage :: "CBlockFileInfo list \<Rightarrow> u64 \<Rightarrow> u64" where
  "CalculateCurrentUsage [] retval = retval"
| "CalculateCurrentUsage (fi # v) retval = CalculateCurrentUsage v (retval + file_usage fi)"

definition pruned_index :: "CBlockIndex \<Rightarrow> CBlockIndex" where
  "pruned_index i = i\<lparr>nStatus := (nStatus i AND NOT BLOCK_HAVE_DATA) AND NOT BLOCK_HAVE_UNDO,
     nFile := 0, nDataPos := 0, nUndoPos := 0\<rparr>"

definition prune_entry :: "int \<Rightarrow> nat \<Rightarrow> prune_state \<Rightarrow> prune_state" where
  "prune_entry fileNumber p s =
     (case pr_tree s p of None \<Rightarrow> s
      | Some i \<Rightarrow>
          if nFile i = fileNumber
          then s\<lparr>pr_tree := (pr_tree s)(p \<mapsto> pruned_index i), pr_dirty := insert p (pr_dirty s),
                 pr_unlinked := filter (\<lambda>(k, v). \<not> (k = pprev i \<and> v = p)) (pr_unlinked s)\<rparr>
          else s)"

definition PruneOneBlockFile :: "nat list \<Rightarrow> nat \<Rightarrow> prune_state \<Rightarrow> prune_state" where
  "PruneOneBlockFile entries fileNumber s =
     (let s = fold (prune_entry (int fileNumber)) entries s; d = pr_store s
      in s\<lparr>pr_store := d\<lparr>vinfoBlockFile := (vinfoBlockFile d)[fileNumber := CBlockFileInfo_SetNull],
                         setDirtyFileInfo := insert (int fileNumber) (setDirtyFileInfo d)\<rparr>\<rparr>)"

text \<open>The loops over the files below the current one; \<open>S\<close> collects the files to remove.\<close>

fun prune_manual_loop :: "nat list \<Rightarrow> u32 \<Rightarrow> nat list \<Rightarrow> int set \<Rightarrow> prune_state \<Rightarrow> int set \<times> prune_state" where
  "prune_manual_loop entries nLast [] S s = (S, s)"
| "prune_manual_loop entries nLast (n # ns) S s =
     (let fi = vinfoBlockFile (pr_store s) ! n
      in if fi_nSize fi = 0 \<or> fi_nHeightLast fi > nLast then prune_manual_loop entries nLast ns S s
         else prune_manual_loop entries nLast ns (insert (int n) S) (PruneOneBlockFile entries n s))"

text \<open>\<open>tip\<close> is the height of the active tip, \<open>None\<close> without one; the outer \<open>None\<close> is the failed assertion.\<close>

definition FindFilesToPruneManual :: "bool \<Rightarrow> int option \<Rightarrow> nat list \<Rightarrow> int \<Rightarrow> int set \<Rightarrow> prune_state \<Rightarrow> (int set \<times> prune_state) option" where
  "FindFilesToPruneManual fPruneMode tip entries nManualPruneHeight S s =
     (if \<not> (fPruneMode \<and> nManualPruneHeight > 0) then None
      else case tip of None \<Rightarrow> Some (S, s)
      | Some h \<Rightarrow>
          let nLastBlockWeCanPrune = min (word_of_int nManualPruneHeight) (word_of_int h - MIN_BLOCKS_TO_KEEP)
          in Some (prune_manual_loop entries nLastBlockWeCanPrune [0..<nat (nLastBlockFile (pr_store s))] S s))"

fun prune_loop :: "nat list \<Rightarrow> u32 \<Rightarrow> u64 \<Rightarrow> u64 \<Rightarrow> nat list \<Rightarrow> u64 \<Rightarrow> int set \<Rightarrow> prune_state \<Rightarrow> u64 \<times> int set \<times> prune_state" where
  "prune_loop entries nLast nBuffer nPruneTarget [] usage S s = (usage, S, s)"
| "prune_loop entries nLast nBuffer nPruneTarget (n # ns) usage S s =
     (let fi = vinfoBlockFile (pr_store s) ! n; nBytesToPrune = file_usage fi
      in if fi_nSize fi = 0 then prune_loop entries nLast nBuffer nPruneTarget ns usage S s
         else if usage + nBuffer < nPruneTarget then (usage, S, s)
         else if fi_nHeightLast fi > nLast then prune_loop entries nLast nBuffer nPruneTarget ns usage S s
         else prune_loop entries nLast nBuffer nPruneTarget ns (usage - nBytesToPrune) (insert (int n) S) (PruneOneBlockFile entries n s))"

definition FindFilesToPrune :: "int option \<Rightarrow> u64 \<Rightarrow> u64 \<Rightarrow> nat list \<Rightarrow> int set \<Rightarrow> prune_state \<Rightarrow> int set \<times> prune_state" where
  "FindFilesToPrune tip nPruneTarget nPruneAfterHeight entries S s =
     (case tip of None \<Rightarrow> (S, s)
      | Some h \<Rightarrow>
          if nPruneTarget = 0 then (S, s)
          else if word_of_int h \<le> nPruneAfterHeight then (S, s)
          else let nLastBlockWeCanPrune = word_of_int h - MIN_BLOCKS_TO_KEEP;
                   nCurrentUsage = CalculateCurrentUsage (vinfoBlockFile (pr_store s)) 0;
                   nBuffer = ucast (BLOCKFILE_CHUNK_SIZE + UNDOFILE_CHUNK_SIZE)
               in if nCurrentUsage + nBuffer \<ge> nPruneTarget
                  then snd (prune_loop entries nLastBlockWeCanPrune nBuffer nPruneTarget
                              [0..<nat (nLastBlockFile (pr_store s))] nCurrentUsage S s)
                  else (S, s))"

definition UnlinkPrunedFiles :: "int set \<Rightarrow> block_store \<Rightarrow> block_store" where
  "UnlinkPrunedFiles S d =
     d\<lparr>blk_files := (\<lambda>n. if n \<in> S then None else blk_files d n),
       rev_files := (\<lambda>n. if n \<in> S then None else rev_files d n)\<rparr>"

section \<open>What one file's pruning does\<close>

lemma prune_entry_store [simp]: "pr_store (prune_entry n p s) = pr_store s"
  by (simp add: prune_entry_def split: option.split)

lemma prune_fold_store [simp]: "pr_store (fold (prune_entry n) ps s) = pr_store s"
  by (induction ps arbitrary: s) simp_all

lemma pruned_index_idem [simp]: "pruned_index (pruned_index i) = pruned_index i"
proof -
  have "(((x AND a) AND b) AND a) AND b = (x AND a) AND b" for x a b :: u32
    by (intro bit_eqI) (auto simp: bit_and_iff)
  then show ?thesis by (simp add: pruned_index_def)
qed

text \<open>An entry of a file that is given up is forgotten; the others are untouched.\<close>

lemma prune_fold_tree:
  "pr_tree (fold (prune_entry n) ps s) q =
   (case pr_tree s q of None \<Rightarrow> None
    | Some i \<Rightarrow> Some (if q \<in> set ps \<and> nFile i = n then pruned_index i else i))"
proof (induction ps arbitrary: s)
  case (Cons p ps)
  show ?case
    by (simp add: Cons.IH) (auto simp: prune_entry_def split: option.splits if_splits)
qed (simp split: option.split)

lemma PruneOneBlockFile_store:
  "vinfoBlockFile (pr_store (PruneOneBlockFile entries n s)) = (vinfoBlockFile (pr_store s))[n := CBlockFileInfo_SetNull]"
  "nLastBlockFile (pr_store (PruneOneBlockFile entries n s)) = nLastBlockFile (pr_store s)"
  "blk_files (pr_store (PruneOneBlockFile entries n s)) = blk_files (pr_store s)"
  "rev_files (pr_store (PruneOneBlockFile entries n s)) = rev_files (pr_store s)"
  by (simp_all add: PruneOneBlockFile_def Let_def)

lemma PruneOneBlockFile_tree:
  "pr_tree (PruneOneBlockFile entries n s) q =
   (case pr_tree s q of None \<Rightarrow> None
    | Some i \<Rightarrow> Some (if q \<in> set entries \<and> nFile i = int n then pruned_index i else i))"
  by (simp add: PruneOneBlockFile_def Let_def prune_fold_tree)

section \<open>What pruning does\<close>

text \<open>\<open>F\<close> are the files given up.\<close>

definition prunes :: "nat list \<Rightarrow> nat set \<Rightarrow> prune_state \<Rightarrow> prune_state \<Rightarrow> bool" where
  "prunes entries F s s' \<longleftrightarrow>
     (\<forall>q. pr_tree s' q = (case pr_tree s q of None \<Rightarrow> None
        | Some i \<Rightarrow> Some (if q \<in> set entries \<and> nFile i \<in> int ` F then pruned_index i else i))) \<and>
     length (vinfoBlockFile (pr_store s')) = length (vinfoBlockFile (pr_store s)) \<and>
     (\<forall>n < length (vinfoBlockFile (pr_store s)).
        vinfoBlockFile (pr_store s') ! n = (if n \<in> F then CBlockFileInfo_SetNull else vinfoBlockFile (pr_store s) ! n)) \<and>
     blk_files (pr_store s') = blk_files (pr_store s) \<and> rev_files (pr_store s') = rev_files (pr_store s)"

lemma prunes_refl: "prunes entries {} s s"
  by (simp add: prunes_def split: option.split)

lemma prunes_one: "prunes entries {n} s (PruneOneBlockFile entries n s)"
  by (simp add: prunes_def PruneOneBlockFile_store PruneOneBlockFile_tree nth_list_update split: option.split)

lemma prunes_trans:
  assumes "prunes entries F s s1" "prunes entries G s1 s2"
  shows "prunes entries (F \<union> G) s s2"
proof -
  have "pr_tree s2 q = (case pr_tree s q of None \<Rightarrow> None
        | Some i \<Rightarrow> Some (if q \<in> set entries \<and> nFile i \<in> int ` (F \<union> G) then pruned_index i else i))" for q
    using assms by (cases "pr_tree s q") (auto simp: prunes_def)
  then show ?thesis using assms by (simp add: prunes_def)
qed

definition may_go :: "u32 \<Rightarrow> CBlockFileInfo \<Rightarrow> bool" where
  "may_go nLast fi \<longleftrightarrow> fi_nSize fi \<noteq> 0 \<and> fi_nHeightLast fi \<le> nLast"

lemma prunes_other:
  "prunes entries {n} s s1 \<Longrightarrow> m \<noteq> n \<Longrightarrow> m < length (vinfoBlockFile (pr_store s)) \<Longrightarrow>
   vinfoBlockFile (pr_store s1) ! m = vinfoBlockFile (pr_store s) ! m"
  by (simp add: prunes_def)

lemma prune_manual_loop_spec:
  assumes "prune_manual_loop entries nLast ns S s = (S', s')" "distinct ns" "set ns \<subseteq> {..<length (vinfoBlockFile (pr_store s))}"
  shows "let F = {n \<in> set ns. may_go nLast (vinfoBlockFile (pr_store s) ! n)} in S' = S \<union> int ` F \<and> prunes entries F s s'"
  using assms
proof (induction ns arbitrary: S s)
  case (Cons n ns)
  let ?v = "vinfoBlockFile (pr_store s)"
  show ?case
  proof (cases "may_go nLast (?v ! n)")
    case False
    then have "prune_manual_loop entries nLast ns S s = (S', s')" using Cons.prems(1) by (auto simp: may_go_def Let_def not_le split: if_splits)
    moreover have "{m \<in> set (n # ns). may_go nLast (?v ! m)} = {m \<in> set ns. may_go nLast (?v ! m)}" using False by auto
    ultimately show ?thesis using Cons.IH Cons.prems(2,3) by simp
  next
    case True
    let ?s = "PruneOneBlockFile entries n s"
    note p = prunes_one [of entries n s]
    have r: "prune_manual_loop entries nLast ns (insert (int n) S) ?s = (S', s')"
      using Cons.prems(1) True by (simp add: may_go_def Let_def split: if_splits)
    have same: "vinfoBlockFile (pr_store ?s) ! m = ?v ! m" if "m \<in> set ns" for m
      by (rule prunes_other [OF p]) (use that Cons.prems(2,3) in auto)
    let ?F = "{m \<in> set ns. may_go nLast (?v ! m)}"
    have F: "{m \<in> set ns. may_go nLast (vinfoBlockFile (pr_store ?s) ! m)} = ?F" using same by auto
    have "set ns \<subseteq> {..<length (vinfoBlockFile (pr_store ?s))}" using Cons.prems(3) by (simp add: PruneOneBlockFile_store)
    then have IH: "S' = insert (int n) S \<union> int ` ?F" "prunes entries ?F ?s s'"
      using Cons.IH [OF r] Cons.prems(2) by (simp_all add: F Let_def)
    have "{m \<in> set (n # ns). may_go nLast (?v ! m)} = {n} \<union> ?F" using True by auto
    then show ?thesis using IH prunes_trans [OF p IH(2)] by (simp add: Let_def)
  qed
qed (simp add: prunes_refl)

text \<open>The usage at the end, and why the loop stopped.\<close>

lemma prune_loop_spec:
  assumes "prune_loop entries nLast nBuffer nTarget ns usage S s = (usage', S', s')" "distinct ns"
    "set ns \<subseteq> {..<length (vinfoBlockFile (pr_store s))}"
  shows "\<exists>F \<subseteq> {n \<in> set ns. may_go nLast (vinfoBlockFile (pr_store s) ! n)}.
    S' = S \<union> int ` F \<and> prunes entries F s s' \<and>
    usage' = usage - (\<Sum>n \<in> F. file_usage (vinfoBlockFile (pr_store s) ! n)) \<and>
    (usage' + nBuffer < nTarget \<or> F = {n \<in> set ns. may_go nLast (vinfoBlockFile (pr_store s) ! n)})"
  using assms
proof (induction ns arbitrary: usage S s)
  case (Cons n ns)
  let ?v = "vinfoBlockFile (pr_store s)"
  let ?C = "\<lambda>ns. {n \<in> set ns. may_go nLast (?v ! n)}"
  consider (skip) "\<not> may_go nLast (?v ! n)" "prune_loop entries nLast nBuffer nTarget ns usage S s = (usage', S', s')"
    | (stop) "usage + nBuffer < nTarget" "(usage', S', s') = (usage, S, s)"
    | (prune) "may_go nLast (?v ! n)"
      "prune_loop entries nLast nBuffer nTarget ns (usage - file_usage (?v ! n)) (insert (int n) S) (PruneOneBlockFile entries n s) = (usage', S', s')"
    using Cons.prems(1) by (auto simp: may_go_def Let_def not_le not_less split: if_splits)
  then show ?case
  proof cases
    case skip
    then have "?C (n # ns) = ?C ns" by auto
    then show ?thesis using Cons.IH [OF skip(2)] Cons.prems(2,3) by simp
  next
    case stop
    then show ?thesis by (intro exI [of _ "{}"]) (simp add: prunes_refl)
  next
    case prune
    let ?s = "PruneOneBlockFile entries n s"
    note p = prunes_one [of entries n s]
    have same: "vinfoBlockFile (pr_store ?s) ! m = ?v ! m" if "m \<in> set ns" for m
      by (rule prunes_other [OF p]) (use that Cons.prems(2,3) in auto)
    have C: "{m \<in> set ns. may_go nLast (vinfoBlockFile (pr_store ?s) ! m)} = ?C ns" using same by auto
    have "set ns \<subseteq> {..<length (vinfoBlockFile (pr_store ?s))}" using Cons.prems(3) by (simp add: PruneOneBlockFile_store)
    then obtain F where F: "F \<subseteq> ?C ns" "S' = insert (int n) S \<union> int ` F" "prunes entries F ?s s'"
      "usage' = usage - file_usage (?v ! n) - (\<Sum>m \<in> F. file_usage (vinfoBlockFile (pr_store ?s) ! m))"
      "usage' + nBuffer < nTarget \<or> F = ?C ns"
      using Cons.IH [OF prune(2)] Cons.prems(2) unfolding C by auto
    have "(\<Sum>m \<in> F. file_usage (vinfoBlockFile (pr_store ?s) ! m)) = (\<Sum>m \<in> F. file_usage (?v ! m))"
      using F(1) same by (intro sum.cong) auto
    moreover have "n \<notin> F" using F(1) Cons.prems(2) by auto
    moreover have "finite F" by (rule finite_subset [OF F(1)]) simp
    ultimately have "usage' = usage - (\<Sum>m \<in> insert n F. file_usage (?v ! m))" using F(4) by (simp add: algebra_simps)
    moreover have "?C (n # ns) = insert n (?C ns)" using prune(1) by auto
    ultimately show ?thesis using F(1,2,5) prunes_trans [OF p F(3)]
      by (intro exI [of _ "insert n F"]) auto
  qed
qed (auto simp: prunes_refl)

section \<open>Blocks near the tip are kept\<close>

text \<open>The entries of the files bound the heights of the blocks they hold, as \<open>AddBlock\<close> keeps them.\<close>

definition heights_covered :: "prune_state \<Rightarrow> bool" where
  "heights_covered s \<longleftrightarrow> (\<forall>q i. pr_tree s q = Some i \<longrightarrow> nStatus i AND BLOCK_HAVE_DATA \<noteq> 0 \<longrightarrow>
     nHeight i \<le> unat (fi_nHeightLast (vinfoBlockFile (pr_store s) ! nat (nFile i))))"

lemma last_to_prune:
  "288 \<le> h \<Longrightarrow> h < 2 ^ 31 \<Longrightarrow> unat (word_of_int h - MIN_BLOCKS_TO_KEEP) = nat h - 288"
proof -
  assume h: "288 \<le> h" "h < 2 ^ 31"
  then have u: "unat (word_of_int h :: u32) = nat h" by (simp add: unat_eq_nat_uint uint_word_of_int)
  then have "MIN_BLOCKS_TO_KEEP \<le> word_of_int h" using h by (simp add: MIN_BLOCKS_TO_KEEP_def word_le_nat_alt)
  then show ?thesis using u by (simp add: unat_sub MIN_BLOCKS_TO_KEEP_def)
qed

lemma prunes_may_go:
  assumes "prunes entries F s s'" "F \<subseteq> {n. may_go nLast (vinfoBlockFile (pr_store s) ! n)}" "unat nLast + 288 \<le> nat h"
    and "heights_covered s" "pr_tree s q = Some i" "nStatus i AND BLOCK_HAVE_DATA \<noteq> 0" "nat h < nHeight i + 288"
  shows "pr_tree s' q = Some i" "nFile i \<notin> int ` F"
proof -
  show n: "nFile i \<notin> int ` F"
  proof
    assume "nFile i \<in> int ` F"
    then have "may_go nLast (vinfoBlockFile (pr_store s) ! nat (nFile i))" using assms(2) by auto
    then have "unat (fi_nHeightLast (vinfoBlockFile (pr_store s) ! nat (nFile i))) \<le> unat nLast"
      by (simp add: may_go_def word_le_nat_alt)
    moreover have "nHeight i \<le> unat (fi_nHeightLast (vinfoBlockFile (pr_store s) ! nat (nFile i)))"
      using assms(4-6) by (auto simp: heights_covered_def)
    ultimately show False using assms(3,7) by linarith
  qed
  then show "pr_tree s' q = Some i" using assms(1,5) by (simp add: prunes_def)
qed

lemma FindFilesToPrune_spec:
  assumes run: "FindFilesToPrune (Some h) nPruneTarget nPruneAfterHeight entries S s = (S', s')"
    and h: "288 \<le> h" "h < 2 ^ 31" and v: "nLastBlockFile (pr_store s) \<le> int (length (vinfoBlockFile (pr_store s)))"
  obtains F where "F \<subseteq> {n \<in> set [0..<nat (nLastBlockFile (pr_store s))]. may_go (word_of_int h - MIN_BLOCKS_TO_KEEP) (vinfoBlockFile (pr_store s) ! n)}"
    "S' = S \<union> int ` F" "prunes entries F s s'"
proof (cases "s' = s \<and> S' = S")
  case True
  then show ?thesis using that [of "{}"] prunes_refl by simp
next
  case False
  let ?L = "word_of_int h - MIN_BLOCKS_TO_KEEP"
  obtain B u where "snd (prune_loop entries ?L B nPruneTarget [0..<nat (nLastBlockFile (pr_store s))] u S s) = (S', s')"
    using run False by (auto simp: FindFilesToPrune_def Let_def split: if_splits)
  then obtain u' where l: "prune_loop entries ?L B nPruneTarget [0..<nat (nLastBlockFile (pr_store s))] u S s = (u', S', s')"
    by (metis prod.collapse)
  have b: "set [0..<nat (nLastBlockFile (pr_store s))] \<subseteq> {..<length (vinfoBlockFile (pr_store s))}" using v by auto
  show ?thesis using prune_loop_spec [OF l distinct_upt b] that by (elim exE conjE) (simp only: simp_thms)
qed

text \<open>Removing the files leaves what is stored in the others.\<close>

lemma unlink_stored:
  assumes "prunes entries F s s'" "stored (pr_store s) u n p x" "n \<notin> int ` F" "n \<notin> S"
  shows "stored (UnlinkPrunedFiles S (pr_store s')) u n p x"
proof -
  have "0 \<le> n" using assms(2) by (simp add: stored_def)
  then have "nat n \<notin> F" using assms(3) by (metis image_eqI nat_0_le)
  then show ?thesis using assms by (auto simp: stored_def prunes_def UnlinkPrunedFiles_def files_of_def file_holds_def)
qed

text \<open>A file that is given up is not referred to any more.\<close>

lemma pruned_index_forgets:
  "nStatus (pruned_index i) AND BLOCK_HAVE_DATA = 0" "nStatus (pruned_index i) AND BLOCK_HAVE_UNDO = 0"
proof -
  have "((x AND NOT a) AND NOT b) AND a = 0" "((x AND NOT a) AND NOT b) AND b = 0" for x a b :: u32
    by (auto intro!: bit_eqI simp: bit_and_iff bit_not_iff)
  then show "nStatus (pruned_index i) AND BLOCK_HAVE_DATA = 0" "nStatus (pruned_index i) AND BLOCK_HAVE_UNDO = 0"
    by (simp_all add: pruned_index_def)
qed

lemma prunes_forgets:
  assumes "prunes entries F s s'" "n \<in> F" "q \<in> set entries" "pr_tree s' q = Some i" "nFile i = int n"
  shows "nStatus i AND BLOCK_HAVE_DATA = 0" "nStatus i AND BLOCK_HAVE_UNDO = 0"
  using assms pruned_index_forgets by (auto simp: prunes_def split: option.splits if_splits)

end
