(* ===== verification/Stored_Undo.thy ===== *)
theory Stored_Undo
  imports Block_Files Chain_Tip
begin

text \<open>
  Undo data on disk and the coins: the coins of a chain have the ranges the compact serialization
  keeps, so the undo data of a connected block is read back as it was written, whatever the store has
  done since, and disconnecting with it restores the coins.
\<close>

definition valid_utxo :: "(COutPoint \<Rightarrow> Coin option) \<Rightarrow> bool" where
  "valid_utxo u \<longleftrightarrow> (\<forall>k c. u k = Some c \<longrightarrow> valid_coin c)"

lemma checked_amounts:
  assumes "fst (CheckTransaction tx dup st)" "out \<in> set (vout tx)"
  shows "0 \<le> nValue out" "nValue out < 2 ^ 59"
proof -
  have c: "\<forall>out \<in> set (vout tx). 0 \<le> nValue out" "sum_list (map nValue (vout tx)) \<le> MAX_MONEY"
    using assms(1) by (simp_all add: CheckTransaction_iff)
  then show "0 \<le> nValue out" using assms(2) by simp
  have "nValue out \<le> sum_list (map nValue (vout tx))"
    using assms(2) c(1) by (intro member_le_sum_list) auto
  then show "nValue out < 2 ^ 59" using c(2) by (simp add: MAX_MONEY_def COIN_def)
qed

lemma created_valid:
  assumes "fst (CheckTransaction tx dup st)" "0 \<le> h" "h < 2 ^ 30" "created txid h cb i (vout tx) k = Some c"
  shows "valid_coin c"
proof -
  let ?j = "unat (op_n k) - i"
  have "vout tx ! ?j \<in> set (vout tx)" "\<not> IsUnspendable (scriptPubKey (vout tx ! ?j))" "c = Coin_of (vout tx ! ?j) h cb"
    using assms(4) by (auto simp: created_def split: if_splits)
  then obtain out where out: "out \<in> set (vout tx)" "\<not> IsUnspendable (scriptPubKey out)" "c = Coin_of out h cb" by blast
  have "length (scriptPubKey out) \<le> MAX_SCRIPT_SIZE" using out(2) by (simp add: IsUnspendable_def)
  moreover have "unat (word_of_int h :: 31 word) < 2 ^ 30"
    using assms(2,3) by (simp add: unat_eq_nat_uint uint_word_of_int nat_less_iff)
  ultimately show ?thesis using checked_amounts [OF assms(1) out(1)] out(3)
    by (simp add: valid_coin_def valid_compressed_def Coin_of_def)
qed

lemma tx_effect_valid:
  "valid_utxo u \<Longrightarrow> fst (CheckTransaction tx dup st) \<Longrightarrow> 0 \<le> h \<Longrightarrow> h < 2 ^ 30 \<Longrightarrow> valid_utxo (tx_effect H h tx u)"
  using created_valid [of tx dup st h]
  by (auto simp: valid_utxo_def tx_effect_def map_add_def restrict_map_def split: option.splits if_splits)

lemma block_effect_valid:
  "valid_utxo u \<Longrightarrow> \<forall>tx \<in> set txs. fst (CheckTransaction tx dup st) \<Longrightarrow> 0 \<le> h \<Longrightarrow> h < 2 ^ 30 \<Longrightarrow>
   valid_utxo (block_effect H h txs u)"
proof (induction txs arbitrary: u)
  case (Cons tx txs)
  then have "valid_utxo (tx_effect H h tx u)" using tx_effect_valid [of u tx dup st h H] by simp
  with Cons show ?case by simp
qed simp

text \<open>The size of a transaction bounds the number of its inputs.\<close>

lemma input_size: "valid_CTxIn i \<Longrightarrow> 41 \<le> length (ser_CTxIn i)"
  by (simp add: ser_CTxIn_def ser_COutPoint_def ser_uint256_def ser_byte_vector_def ser_writedata32_def length_simps valid_CTxIn_def
      valid_COutPoint_def GetSizeOfCompactSize_def)

lemma inputs_bounded:
  assumes "fst (CheckTransaction tx dup st)" "valid_CTransaction tx"
  shows "length (vin tx) \<le> MAX_INPUTS_PER_BLOCK"
proof -
  have "41 * length ins \<le> length (concat (map ser_CTxIn ins))" if "\<forall>i \<in> set ins. valid_CTxIn i" for ins
    using that
  proof (induction ins)
    case (Cons i ins)
    then show ?case using input_size [of i] by simp
  qed simp
  then have "41 * length (vin tx) \<le> length (concat (map ser_CTxIn (vin tx)))" using assms(2) by (simp add: valid_CTransaction_def)
  also have "\<dots> \<le> length (SerializeTransaction False tx)" by (simp add: SerializeTransaction_def Let_def ser_vector_def)
  finally have "164 * length (vin tx) \<le> MAX_BLOCK_WEIGHT" using assms(1) by (simp add: CheckTransaction_iff)
  then show ?thesis by (simp add: MAX_INPUTS_PER_BLOCK_value MAX_BLOCK_WEIGHT_def)
qed

lemma block_undo_valid:
  assumes "block_applies H h txs u" "valid_utxo u" "0 \<le> h" "h < 2 ^ 30"
    and "\<forall>tx \<in> set txs. fst (CheckTransaction tx dup st) \<and> valid_CTransaction tx"
  shows "\<forall>x \<in> set (block_undo H h txs u). valid_CTxUndo x"
  using assms
proof (induction txs arbitrary: u)
  case (Cons tx txs)
  have "valid_utxo (tx_effect H h tx u)" using tx_effect_valid [of u tx dup st h H] Cons.prems by simp
  moreover have "valid_CTxUndo (if IsCoinBase tx then [] else map (\<lambda>txin. the (u (prevout txin))) (vin tx))"
  proof (cases "IsCoinBase tx")
    case False
    then have "\<forall>txin \<in> set (vin tx). \<exists>c. u (prevout txin) = Some c"
      using Cons.prems(1) by (auto simp: tx_applies_def spent_by_def)
    then have "\<forall>c \<in> set (map (\<lambda>txin. the (u (prevout txin))) (vin tx)). valid_coin c"
      using Cons.prems(2) by (fastforce simp: valid_utxo_def)
    then show ?thesis using inputs_bounded [of tx dup st] Cons.prems(5) False by (simp add: valid_CTxUndo_def)
  qed (simp add: valid_CTxUndo_def)
  moreover have "\<forall>x \<in> set (block_undo H h txs (tx_effect H h tx u)). valid_CTxUndo x"
    using Cons.IH [OF _ calculation(1)] Cons.prems by simp
  ultimately show ?case by simp
qed simp

lemma ConnectBlock_undo_valid:
  assumes run: "ConnectBlock env args cs block fChecked p st view = Some ((True, st'), Some (view', undo, cs'))"
    and passed: "fChecked \<longrightarrow> passed_CheckBlock env block"
    and inv: "cache_inv view" and i: "cs_tree cs p = Some i" "int (nHeight i) < 2 ^ 30"
    and fresh: "block_fresh (ne_H env) (int (nHeight i)) (vtx block) (utxo view)"
    and valid: "valid_utxo (utxo view)" "valid_CBlock block"
  shows "valid_CBlockUndo undo" "valid_utxo (utxo view')"
proof -
  have over: "cache_over (cv_base view) view" using inv by (simp add: cache_over_def)
  note c = ConnectBlock_True [OF run passed over i(1) fresh]
  have "\<forall>tx \<in> set (vtx block). fst (CheckTransaction tx False st) \<and> valid_CTransaction tx"
    using c(4) valid(2) by (simp add: valid_CBlock_def)
  note u = block_undo_valid [OF c(5) valid(1) _ i(2) this]
  moreover have "length (block_undo (ne_H env) (int (nHeight i)) (vtx block) (utxo view)) \<le> MAX_SIZE"
    using valid(2) by (simp add: valid_CBlock_def)
  ultimately show "valid_CBlockUndo undo" unfolding c(8)
    by (cases "block_undo (ne_H env) (int (nHeight i)) (vtx block) (utxo view)") (simp_all add: valid_CBlockUndo_def)
  show "valid_utxo (utxo view')" unfolding c(7) using block_effect_valid [OF valid(1) c(4) _ i(2)] by simp
qed

text \<open>From the connection of a block over the disk to its disconnection.\<close>

lemma disconnect_with_stored_undo:
  assumes run: "ConnectBlock env args cs block fChecked p st view = Some ((True, st'), Some (view', undo, cs'))"
    and passed: "fChecked \<longrightarrow> passed_CheckBlock env block"
    and inv: "cache_inv view" and i: "cs_tree cs p = Some i" "int (nHeight i) < 2 ^ 30"
    and fresh: "block_fresh (ne_H env) (int (nHeight i)) (vtx block) (utxo view)"
    and restorable: "spends_restorable (ne_H env) (int (nHeight i)) (vtx block) (utxo view)"
    and valid: "valid_utxo (utxo view)" "valid_CBlock block"
    and d: "store_ok d" "0 \<le> n" "nat n < length (vinfoBlockFile d)" and H: "\<And>x. length (ne_H env x) = 32" "length (fe_messageStart fenv) = 4"
    and written: "write_undo_data fenv (ne_H env) undo hashPrev n d = Some (Inr pos, d1)"
    and fits: "used True (vinfoBlockFile d ! nat n) + length (the (ser_CBlockUndo undo)) + 40 < 2 ^ 32"
    and later: "store_run (ne_H env) d1 d2" "fe_can_open fenv2 True n"
  shows "\<exists>view''. DisconnectBlock ops_cache (ne_H env) (cs_tree cs) block i
      (UndoReadFromDisk fenv2 (ne_H env) \<lparr>pos_nFile = n, nPos = pos\<rparr> hashPrev (rev_files d2)) view' = Some (DISCONNECT_OK, view'') \<and>
    cache_inv view'' \<and> utxo view'' = utxo view"
proof -
  have "valid_CBlockUndo undo" by (rule ConnectBlock_undo_valid [OF run passed inv i fresh valid])
  from saved_undo_stays [OF d(1) written d(2,3) H this fits later]
  have "UndoReadFromDisk fenv2 (ne_H env) \<lparr>pos_nFile = n, nPos = pos\<rparr> hashPrev (rev_files d2) = Some undo" .
  moreover have "int (nHeight i) < 2 ^ 31" using i(2) by simp
  ultimately show ?thesis using ConnectBlock_DisconnectBlock [OF run passed inv i(1) _ fresh restorable] by simp
qed

section \<open>The coins of a chain\<close>

fun chain_coins_valid :: "hasher \<Rightarrow> connected list \<Rightarrow> bool" where
  "chain_coins_valid H [] = True"
| "chain_coins_valid H (c # chain) \<longleftrightarrow> chain_coins_valid H chain \<and> (length chain < 2 ^ 30 \<longrightarrow> valid_utxo (chain_utxo H (c # chain)))"

lemma chain_coins_valid_utxo: "chain_coins_valid H chain \<Longrightarrow> length chain \<le> 2 ^ 30 \<Longrightarrow> valid_utxo (chain_utxo H chain)"
  by (cases chain) (simp_all add: valid_utxo_def)

lemma chain_run_coins_valid: "chain_run env chain tip \<Longrightarrow> chain_coins_valid (ne_H env) chain"
proof (induction rule: chain_run.induct)
  case (connect chain tip cs p i fChecked block args st tip' undo cs')
  have "valid_utxo (block_effect (ne_H env) (int (length chain)) (vtx block) (chain_utxo (ne_H env) chain))" if l: "length chain < 2 ^ 30"
  proof -
    obtain view c st' where run: "ConnectBlock env args cs block fChecked p st (child_view tip) = Some ((True, st'), Some (view, undo, cs'))"
      using connect_to_tip_spec [OF connect.hyps(7)] by blast
    have h: "int (nHeight i) = int (length chain)" using connect.hyps(3) by simp
    note child = child_view_spec [of tip]
    note spec = ConnectBlock_True [OF run connect.hyps(5) child(1) connect.hyps(2) connect.hyps(6) [folded h child(2)]]
    have "valid_utxo (chain_utxo (ne_H env) chain)" using chain_coins_valid_utxo [OF connect.IH] l by simp
    from block_effect_valid [OF this spec(4)] l show ?thesis by simp
  qed
  then show ?case using connect.IH by simp
qed simp_all

lemma chain_run_valid_utxo: "chain_run env chain tip \<Longrightarrow> length chain \<le> 2 ^ 30 \<Longrightarrow> valid_utxo (utxo tip)"
  using chain_run_coins_valid chain_coins_valid_utxo chain_run_spec by metis

end
