(* ===== verification/Disk_Examples.thy ===== *)
theory Disk_Examples
  imports Pruning Stored_Undo Connect_Examples
begin

text \<open>Concrete values for the properties of the block files.\<close>

definition ex_files :: file_env where
  "ex_files = \<lparr>fe_fPruneMode = False, fe_available = 0x10000000000, fe_can_open = (\<lambda>undo n. True), fe_can_allocate = False,
     fe_messageStart = [1, 2, 3, 4]\<rparr>"

definition ex_store :: block_store where
  "ex_store = \<lparr>vinfoBlockFile = [CBlockFileInfo_SetNull], nLastBlockFile = 0, setDirtyFileInfo = {}, fCheckForPruning = False,
     blk_files = Map.empty, rev_files = Map.empty\<rparr>"

definition ex_undo :: CBlockUndo where
  "ex_undo = [[Coin_of \<lparr>nValue = 5000, scriptPubKey = [0x51]\<rparr> 7 False]]"

lemma ex_store_ok: "store_ok ex_store"
  by (simp add: store_ok_def ex_store_def used_def CBlockFileInfo_SetNull_def)

lemma ex_amount: "CompressAmount 5000 = Some 44"
  by (simp add: CompressAmount_def CompressAmount_loop.simps)

lemma ex_varints: "WriteVarInt (44 :: u64) = [44]" "WriteVarInt (7 :: u32) = [7]" "WriteVarInt_int 14 = [14]"
  by (simp_all add: WriteVarInt_def WriteVarInt_loop.simps WriteVarInt_int_def WriteVarInt_int_loop.simps)

lemma ex_counts: "WriteCompactSize 1 = [1]"
  by (simp add: WriteCompactSize_def ser_writedata8_def)

definition ex_spent :: Coin where
  "ex_spent = Coin_of \<lparr>nValue = 5000, scriptPubKey = [0x51]\<rparr> 7 False"

lemma ex_spent_code: "Coin_code ex_spent = 14" "coin_nHeight ex_spent > 0"
  by code_simp+

lemma ex_spent_out: "ser_CTxOutCompressor (coin_out ex_spent) = Some [44, 7, 0x51]"
  by (simp add: ser_CTxOutCompressor_def ex_amount ser_CScriptCompressor_def Compress_def IsToKeyID_def IsToScriptID_def IsToPubKey_def
      PUBLIC_KEY_SIZE_def nSpecialScripts_def ex_varints ex_spent_def Coin_of_def)

lemma ex_undo_bytes: "ser_CBlockUndo ex_undo = Some [1, 1, 14, 0, 44, 7, 0x51]"
proof -
  have "ser_TxInUndo ex_spent = Some [14, 0, 44, 7, 0x51]"
    unfolding ser_TxInUndo_def ex_spent_code ex_spent_out using ex_spent_code(2) by (simp only: ex_varints ser_writedata8_def option.case if_True append.simps) simp
  then show ?thesis unfolding ex_undo_def ex_spent_def [symmetric]
    by (simp add: ser_CBlockUndo_def ser_CTxUndo_def ser_vector_checked_def ex_counts)
qed

lemma ex_block_bytes: "length (block_bytes ex_connected) = 235"
  by code_simp

lemma ex_connected_valid: "valid_CBlock ex_connected"
  by (simp add: valid_CBlock_def valid_CBlockHeader_def valid_CTransaction_def valid_CTxIn_def valid_COutPoint_def valid_witness_def
      valid_CTxOut_def valid_int_def ex_connected_def ex_coinbase_def ex_spend_def ex_funding_def COutPoint_null_def uint256_null_def MAX_SIZE_def)

lemma ex_undo_written:
  "\<exists>d1. write_undo_data ex_files ex_hasher ex_undo hashPrev 0 ex_store = Some (Inr 8, d1)"
proof -
  have "FindUndoPos ex_files 0 47 ex_store = (True, \<lparr>pos_nFile = 0, nPos = 0\<rparr>,
    ex_store\<lparr>vinfoBlockFile := [CBlockFileInfo_SetNull\<lparr>fi_nUndoSize := 47\<rparr>], setDirtyFileInfo := {0},
      rev_files := [0 \<mapsto> []]\<rparr>)"
    by (simp add: FindUndoPos_def ex_store_def ex_files_def CBlockFileInfo_SetNull_def chunks_def UNDOFILE_CHUNK_SIZE_def CheckDiskSpace_def
        nMinDiskSpace_def preallocate_def OpenDiskFile_def pos_IsNull_def update_file_def AllocateFileRange_def fun_eq_iff)
  then show ?thesis
    by (simp add: write_undo_data_def ex_undo_bytes UndoWriteToDisk_def write_record_def OpenDiskFile_def pos_IsNull_def Let_def
        ex_files_def ser_writedata32_def length_simps)
qed

lemma ex_block_saved:
  "\<exists>d1. SaveBlockToDisk ex_files ex_connected 8 None ex_store = Some (\<lparr>pos_nFile = 0, nPos = 8\<rparr>, d1)"
proof -
  have "(of_nat (length (ser_CBlock True ex_connected)) + 8 :: u32) = 243" using ex_block_bytes by (simp add: block_bytes_def)
  moreover have "\<exists>d1. FindBlockPos ex_files CDiskBlockPos_SetNull 243 8 7 False ex_store = Some (True, \<lparr>pos_nFile = 0, nPos = 0\<rparr>, d1)"
    by (simp add: FindBlockPos_def choose_file_def vinfo_resize_def find_file.simps MAX_BLOCKFILE_SIZE_def enter_file_def account_block_def
        AddBlock_def grow_block_file_def chunks_def BLOCKFILE_CHUNK_SIZE_def CheckDiskSpace_def nMinDiskSpace_def ex_store_def ex_files_def
        CBlockFileInfo_SetNull_def Let_def)
  ultimately show ?thesis
    by (auto simp: SaveBlockToDisk_def ex_connected_def WriteBlockToDisk_def write_record_def OpenDiskFile_def pos_IsNull_def Let_def
        ex_files_def ser_writedata32_def length_simps)
qed

text \<open>Two files, of which the first is old, and a block near the tip in the second.\<close>

definition ex_prune_index :: CBlockIndex where
  "ex_prune_index = CBlockIndex_SetNull\<lparr>nHeight := 399, nFile := 1, nStatus := BLOCK_HAVE_DATA\<rparr>"

definition ex_prune :: prune_state where
  "ex_prune = \<lparr>pr_tree = [1 \<mapsto> ex_prune_index], pr_unlinked = [], pr_dirty = {},
     pr_store = ex_store\<lparr>vinfoBlockFile := [CBlockFileInfo_SetNull\<lparr>fi_nSize := 100, fi_nHeightLast := 5\<rparr>,
                                            CBlockFileInfo_SetNull\<lparr>fi_nSize := 100, fi_nHeightLast := 399\<rparr>],
                         nLastBlockFile := 1\<rparr>\<rparr>"

lemma ex_prune_run: "fst (FindFilesToPrune (Some 400) 100 200 [1] {} ex_prune) = {0}"
  by (simp add: FindFilesToPrune_def ex_prune_def MIN_BLOCKS_TO_KEEP_def Let_def file_usage_def ex_store_def BLOCKFILE_CHUNK_SIZE_def
      UNDOFILE_CHUNK_SIZE_def CBlockFileInfo_SetNull_def)

lemma ex_prune_covered: "heights_covered ex_prune"
  by (simp add: heights_covered_def ex_prune_def ex_prune_index_def)

end
