(* ===== verification/Standard.thy ===== *)
theory Standard
  imports Sig_Checker "HOL-Library.Monad_Syntax"
begin

text \<open>
  Standard output scripts (\<open>script/standard.h\<close>, \<open>script/standard.cpp\<close>): the recognition of a script by its
  templates, the destinations it pays to and the scripts made for destinations.  A result \<open>None\<close> is a
  failed assertion.  \<open>Hash160\<close> and the hash of witness scripts are arguments.
\<close>



datatype txnouttype =
    TX_NONSTANDARD
  | TX_PUBKEY
  | TX_PUBKEYHASH
  | TX_SCRIPTHASH
  | TX_MULTISIG
  | TX_NULL_DATA
  | TX_WITNESS_V0_SCRIPTHASH
  | TX_WITNESS_V0_KEYHASH
  | TX_WITNESS_UNKNOWN

definition MAX_OP_RETURN_RELAY :: nat where "MAX_OP_RETURN_RELAY = 83"

fun GetTxnOutputType :: "txnouttype \<Rightarrow> string" where
  "GetTxnOutputType TX_NONSTANDARD = ''nonstandard''"
| "GetTxnOutputType TX_PUBKEY = ''pubkey''"
| "GetTxnOutputType TX_PUBKEYHASH = ''pubkeyhash''"
| "GetTxnOutputType TX_SCRIPTHASH = ''scripthash''"
| "GetTxnOutputType TX_MULTISIG = ''multisig''"
| "GetTxnOutputType TX_NULL_DATA = ''nulldata''"
| "GetTxnOutputType TX_WITNESS_V0_KEYHASH = ''witness_v0_keyhash''"
| "GetTxnOutputType TX_WITNESS_V0_SCRIPTHASH = ''witness_v0_scripthash''"
| "GetTxnOutputType TX_WITNESS_UNKNOWN = ''witness_unknown''"

section \<open>Templates\<close>

text \<open>The multimap of templates, in the order of its keys.\<close>

definition mTemplates :: "(txnouttype \<times> CScript) list" where
  "mTemplates =
     [(TX_PUBKEY, [OP_PUBKEY, OP_CHECKSIG]),
      (TX_PUBKEYHASH, [OP_DUP, OP_HASH160, OP_PUBKEYHASH, OP_EQUALVERIFY, OP_CHECKSIG]),
      (TX_MULTISIG, [OP_SMALLINTEGER, OP_PUBKEYS, OP_SMALLINTEGER, OP_CHECKMULTISIG])]"

text \<open>The loop over public keys; a failed \<open>GetOp\<close> leaves an invalid opcode and no data.\<close>

function take_pubkeys :: "bytes \<Rightarrow> opcodetype \<Rightarrow> bytes \<Rightarrow> bytes list \<Rightarrow> bytes \<times> opcodetype \<times> bytes \<times> bytes list" where
  "take_pubkeys pc1 opcode1 vch1 vSolutions =
     (if length vch1 = PUBLIC_KEY_SIZE
      then let vSolutions = vSolutions @ [vch1]
           in case GetOp2 pc1 of
                (None, pc1) \<Rightarrow> (pc1, OP_INVALIDOPCODE, [], vSolutions)
              | (Some (opcode1, vch1), pc1) \<Rightarrow> take_pubkeys pc1 opcode1 vch1 vSolutions
      else (pc1, opcode1, vch1, vSolutions))"
  by pat_completeness auto
termination
  by (relation "measure (\<lambda>(pc1, opcode1, vch1, vSolutions). length pc1)") (auto dest: GetOp2_shorter [OF sym])

declare take_pubkeys.simps [simp del]

text \<open>The comparison of a script with a template: the solutions, or \<open>None\<close> where the loop breaks.  The guard
  of \<open>DecodeOP_N\<close> is its assertion.\<close>

function match_template :: "bytes \<Rightarrow> bytes \<Rightarrow> bytes list \<Rightarrow> bytes list option" where
  "match_template pc1 pc2 vSolutions =
     (if pc1 = [] \<and> pc2 = [] then Some vSolutions
      else case GetOp pc1 of None \<Rightarrow> None | Some (opcode1, vch1, pc1) \<Rightarrow>
           (case GetOp pc2 of None \<Rightarrow> None | Some (opcode2, vch2, pc2) \<Rightarrow>
            let (pc1, opcode1, vch1, vSolutions) =
                  (if opcode2 = OP_PUBKEYS then take_pubkeys pc1 opcode1 vch1 vSolutions else (pc1, opcode1, vch1, vSolutions))
            in case (if opcode2 = OP_PUBKEYS then GetOp pc2 else Some (opcode2, vch2, pc2)) of
                 None \<Rightarrow> None
               | Some (opcode2, vch2, pc2) \<Rightarrow>
                   if opcode2 = OP_PUBKEY
                   then (if length vch1 \<noteq> PUBLIC_KEY_SIZE then None else match_template pc1 pc2 (vSolutions @ [vch1]))
                   else if opcode2 = OP_PUBKEYHASH
                   then (if length vch1 \<noteq> 20 then None else match_template pc1 pc2 (vSolutions @ [vch1]))
                   else if opcode2 = OP_SMALLINTEGER
                   then (case DecodeOP_N opcode1 of None \<Rightarrow> None
                         | Some n \<Rightarrow> match_template pc1 pc2 (vSolutions @ [[word_of_int n]]))
                   else if opcode1 \<noteq> opcode2 \<or> vch1 \<noteq> vch2 then None
                   else match_template pc1 pc2 vSolutions))"
  by pat_completeness auto
termination
  by (relation "measure (\<lambda>(pc1, pc2, vSolutions). length pc2)")
    (auto dest!: GetOp_shorter split: if_splits)

declare match_template.simps [simp del]

text \<open>The result of \<open>Solver\<close>: what it returns, \<open>typeRet\<close> and \<open>vSolutionsRet\<close>.\<close>

fun scan_templates :: "(txnouttype \<times> CScript) list \<Rightarrow> CScript \<Rightarrow> bool \<times> txnouttype \<times> bytes list" where
  "scan_templates [] script1 = (False, TX_NONSTANDARD, [])"
| "scan_templates ((type, script2) # ts) script1 =
     (case match_template script1 script2 [] of
        Some vSolutions \<Rightarrow>
          if type = TX_MULTISIG
          then let m = hd (hd vSolutions); n = hd (last vSolutions)
               in (\<not> (m < 1 \<or> n < 1 \<or> m > n \<or> int (length vSolutions) - 2 \<noteq> uint n), type, vSolutions)
          else (True, type, vSolutions)
      | None \<Rightarrow> scan_templates ts script1)"

definition Solver :: "CScript \<Rightarrow> txnouttype \<Rightarrow> (bool \<times> txnouttype \<times> bytes list) option" where
  "Solver spk typeRet =
     (if IsPayToScriptHash spk then Some (True, TX_SCRIPTHASH, [take 20 (drop 2 spk)])
      else case IsWitnessProgram spk of
        None \<Rightarrow> None
      | Some (Some (witnessversion, witnessprogram)) \<Rightarrow>
          if witnessversion = 0 \<and> length witnessprogram = 20 then Some (True, TX_WITNESS_V0_KEYHASH, [witnessprogram])
          else if witnessversion = 0 \<and> length witnessprogram = 32 then Some (True, TX_WITNESS_V0_SCRIPTHASH, [witnessprogram])
          else if witnessversion \<noteq> 0 then Some (True, TX_WITNESS_UNKNOWN, [[word_of_int witnessversion], witnessprogram])
          else Some (False, typeRet, [])
      | Some None \<Rightarrow>
          if length spk \<ge> 1 \<and> spk ! 0 = OP_RETURN \<and> IsPushOnly (drop 1 spk)
          then Some (True, TX_NULL_DATA, [])
          else Some (scan_templates mTemplates spk))"

section \<open>Destinations\<close>

text \<open>A key hash or script hash has 20 bytes, a witness script hash 32.  \<open>WitnessUnknown\<close> holds the version and
  the first \<open>length\<close> bytes of \<open>program\<close>.\<close>

datatype CTxDestination =
    CNoDestination
  | CKeyID bytes
  | CScriptID bytes
  | WitnessV0ScriptHash bytes
  | WitnessV0KeyHash bytes
  | WitnessUnknown u32 bytes

definition uint160_of :: "bytes \<Rightarrow> bytes option" where
  "uint160_of vch = (if length vch = 20 then Some vch else None)"

definition pubkey_GetID :: "(bytes \<Rightarrow> bytes) \<Rightarrow> bytes \<Rightarrow> CTxDestination" where
  "pubkey_GetID Hash160 vch = CKeyID (Hash160 vch)"

definition ExtractDestination :: "(bytes \<Rightarrow> bytes) \<Rightarrow> CScript \<Rightarrow> CTxDestination \<Rightarrow> (bool \<times> CTxDestination) option" where
  "ExtractDestination Hash160 spk addressRet = do {
     (ok, whichType, vSolutions) \<leftarrow> Solver spk TX_NONSTANDARD;
     if \<not> ok then Some (False, addressRet)
     else if whichType = TX_PUBKEY then Some (True, pubkey_GetID Hash160 (vSolutions ! 0))
     else if whichType = TX_PUBKEYHASH then do { h \<leftarrow> uint160_of (vSolutions ! 0); Some (True, CKeyID h) }
     else if whichType = TX_SCRIPTHASH then do { h \<leftarrow> uint160_of (vSolutions ! 0); Some (True, CScriptID h) }
     else if whichType = TX_WITNESS_V0_KEYHASH then Some (True, WitnessV0KeyHash (vSolutions ! 0))
     else if whichType = TX_WITNESS_V0_SCRIPTHASH then Some (True, WitnessV0ScriptHash (vSolutions ! 0))
     else if whichType = TX_WITNESS_UNKNOWN
     then Some (True, WitnessUnknown (of_nat (unat (hd (vSolutions ! 0)))) (vSolutions ! 1))
     else Some (False, addressRet) }"

text \<open>What it returns, \<open>typeRet\<close>, \<open>addressRet\<close> and \<open>nRequiredRet\<close>.\<close>

definition ExtractDestinations ::
  "(bytes \<Rightarrow> bytes) \<Rightarrow> CScript \<Rightarrow> int \<Rightarrow> (bool \<times> txnouttype \<times> CTxDestination list \<times> int) option" where
  "ExtractDestinations Hash160 spk nRequiredRet = do {
     (ok, typeRet, vSolutions) \<leftarrow> Solver spk TX_NONSTANDARD;
     if \<not> ok then Some (False, typeRet, [], nRequiredRet)
     else if typeRet = TX_NULL_DATA then Some (False, typeRet, [], nRequiredRet)
     else if typeRet = TX_MULTISIG
     then let addressRet = map (pubkey_GetID Hash160) (butlast (tl vSolutions))
          in Some (addressRet \<noteq> [], typeRet, addressRet, uint (hd (hd vSolutions)))
     else do {
       (ok, address) \<leftarrow> ExtractDestination Hash160 spk CNoDestination;
       Some (if \<not> ok then (False, typeRet, [], 1) else (True, typeRet, [address], 1)) } }"

fun GetScriptForDestination :: "CTxDestination \<Rightarrow> CScript option" where
  "GetScriptForDestination CNoDestination = Some []"
| "GetScriptForDestination (CKeyID keyID) =
     Some (push_opcode (push_opcode (push_vector (push_opcode (push_opcode [] OP_DUP) OP_HASH160) keyID) OP_EQUALVERIFY) OP_CHECKSIG)"
| "GetScriptForDestination (CScriptID scriptID) =
     Some (push_opcode (push_vector (push_opcode [] OP_HASH160) scriptID) OP_EQUAL)"
| "GetScriptForDestination (WitnessV0KeyHash h) = Some (push_vector (push_opcode [] OP_0) h)"
| "GetScriptForDestination (WitnessV0ScriptHash h) = Some (push_vector (push_opcode [] OP_0) h)"
| "GetScriptForDestination (WitnessUnknown version program) = do {
     opcode \<leftarrow> EncodeOP_N (sint version);
     Some (push_vector (push_opcode [] opcode) program) }"

definition GetScriptForRawPubKey :: "bytes \<Rightarrow> CScript" where
  "GetScriptForRawPubKey pubKey = push_opcode (push_vector [] pubKey) OP_CHECKSIG"

definition GetScriptForMultisig :: "int \<Rightarrow> bytes list \<Rightarrow> CScript option" where
  "GetScriptForMultisig nRequired keys = do {
     m \<leftarrow> EncodeOP_N nRequired;
     n \<leftarrow> EncodeOP_N (int (length keys));
     Some (push_opcode (push_opcode (fold (\<lambda>key script. push_vector script key) keys (push_opcode [] m)) n) OP_CHECKMULTISIG) }"

definition GetScriptForWitness :: "(bytes \<Rightarrow> bytes) \<Rightarrow> (bytes \<Rightarrow> bytes) \<Rightarrow> CScript \<Rightarrow> CScript option" where
  "GetScriptForWitness Hash160 SHA3 redeemscript = do {
     (ok, typ, vSolutions) \<leftarrow> Solver redeemscript TX_NONSTANDARD;
     if ok \<and> typ = TX_PUBKEY then GetScriptForDestination (WitnessV0KeyHash (Hash160 (vSolutions ! 0)))
     else if ok \<and> typ = TX_PUBKEYHASH
     then do { h \<leftarrow> uint160_of (vSolutions ! 0); GetScriptForDestination (WitnessV0KeyHash h) }
     else GetScriptForDestination (WitnessV0ScriptHash (SHA3 redeemscript)) }"

definition IsValidDestination :: "CTxDestination \<Rightarrow> bool" where
  "IsValidDestination dest \<longleftrightarrow> dest \<noteq> CNoDestination"

section \<open>Scripts for destinations are recognised\<close>

definition valid_dest :: "CTxDestination \<Rightarrow> bool" where
  "valid_dest d = (case d of CNoDestination \<Rightarrow> False
     | CKeyID h \<Rightarrow> length h = 20 | CScriptID h \<Rightarrow> length h = 20
     | WitnessV0ScriptHash h \<Rightarrow> length h = 32 | WitnessV0KeyHash h \<Rightarrow> length h = 20
     | WitnessUnknown version program \<Rightarrow> 1 \<le> version \<and> version \<le> 16 \<and> 2 \<le> length program \<and> length program \<le> 40)"

lemma EncodeOP_N_u8: "1 \<le> n \<Longrightarrow> n \<le> 16 \<Longrightarrow> \<exists>op. EncodeOP_N n = Some op \<and> uint op = 0x50 + n \<and> DecodeOP_N op = Some n"
proof -
  assume n: "1 \<le> n" "n \<le> 16"
  then have "uint (word_of_int (0x51 + n - 1) :: u8) = 0x51 + n - 1"
    unfolding uint_word_of_int by (intro mod_pos_pos_trivial) simp_all
  then have "uint (word_of_int (0x51 + n - 1) :: u8) = 0x50 + n" by (simp only:)
  then show ?thesis using n DecodeOP_N_Encode [of n] by (auto simp: EncodeOP_N_def)
qed

lemma GetOp_high: "0x4e < uint op \<Longrightarrow> GetOp (op # pc) = Some (op, [], pc)"
  by (simp add: word_le_def)

lemma push_vector_direct: "length b < 0x4c \<Longrightarrow> push_vector s b = s @ of_nat (length b) # b"
  by (simp add: push_vector_def)

lemma Solver_keyhash: "length h = 20 \<Longrightarrow> Solver ([OP_DUP, OP_HASH160, 20] @ h @ [OP_EQUALVERIFY, OP_CHECKSIG]) t = Some (True, TX_PUBKEYHASH, [h])"
  by (simp add: Solver_def IsPayToScriptHash_def IsWitnessProgram_def mTemplates_def match_template.simps read_operand_def PUBLIC_KEY_SIZE_def)

lemma Solver_scripthash: "length h = 20 \<Longrightarrow> Solver ([OP_HASH160, 20] @ h @ [OP_EQUAL]) t = Some (True, TX_SCRIPTHASH, [h])"
  by (simp add: Solver_def IsPayToScriptHash_def nth_append)

lemma Solver_witness:
  assumes "DecodeOP_N op = Some v" "2 \<le> length program" "length program \<le> 40"
  shows "Solver (op # of_nat (length program) # program) t =
    (if v = 0 \<and> length program = 20 then Some (True, TX_WITNESS_V0_KEYHASH, [program])
     else if v = 0 \<and> length program = 32 then Some (True, TX_WITNESS_V0_SCRIPTHASH, [program])
     else if v \<noteq> 0 then Some (True, TX_WITNESS_UNKNOWN, [[word_of_int v], program]) else Some (False, t, []))"
proof -
  let ?s = "op # of_nat (length program) # program"
  have "IsWitnessProgram ?s = Some (Some (v, program))" using assms by (auto simp: IsWitnessProgram_iff)
  moreover have "op \<noteq> OP_HASH160" using assms(1) by (auto simp: DecodeOP_N_def)
  then have "\<not> IsPayToScriptHash ?s" by (simp add: IsPayToScriptHash_def)
  ultimately show ?thesis by (simp add: Solver_def)
qed

lemma sint_small: "uint (v :: u32) \<le> 16 \<Longrightarrow> sint v = uint v"
proof -
  assume "uint v \<le> 16"
  moreover have "- (2 ^ 31) \<le> uint v" by (rule order_trans [OF _ uint_ge_0]) simp
  ultimately have "signed_take_bit 31 (uint v) = uint v" by (intro signed_take_bit_int_eq_self) simp_all
  then show ?thesis by (simp add: sint_uint)
qed

lemma ExtractDestination_GetScript:
  assumes "valid_dest d"
  shows "\<exists>s. GetScriptForDestination d = Some s \<and> ExtractDestination Hash160 s a = Some (True, d)"
proof (cases d)
  case (CKeyID h)
  then show ?thesis using assms Solver_keyhash [of h]
    by (simp add: valid_dest_def push_opcode_def push_vector_direct ExtractDestination_def uint160_of_def)
next
  case (CScriptID h)
  then show ?thesis using assms Solver_scripthash [of h]
    by (simp add: valid_dest_def push_opcode_def push_vector_direct ExtractDestination_def uint160_of_def)
next
  case (WitnessV0ScriptHash h)
  then show ?thesis using assms Solver_witness [of OP_0 0 h]
    by (simp add: valid_dest_def push_opcode_def push_vector_direct ExtractDestination_def DecodeOP_N_def)
next
  case (WitnessV0KeyHash h)
  then show ?thesis using assms Solver_witness [of OP_0 0 h]
    by (simp add: valid_dest_def push_opcode_def push_vector_direct ExtractDestination_def DecodeOP_N_def)
next
  case (WitnessUnknown v p)
  then have v: "1 \<le> uint v" "uint v \<le> 16" and p: "2 \<le> length p" "length p \<le> 40"
    using assms by (simp_all add: valid_dest_def word_le_def)
  obtain op where op: "EncodeOP_N (sint v) = Some op" "DecodeOP_N op = Some (uint v)"
    using EncodeOP_N_u8 [OF v] sint_small [OF v(2)] by auto
  have "unat v < 256" using v(2) unfolding uint_nat by linarith
  then have "ucast (ucast v :: u8) = v" by (intro ucast_ucast_small) simp
  moreover have "GetScriptForDestination d = Some (op # of_nat (length p) # p)"
    using p op(1) by (simp add: WitnessUnknown push_opcode_def push_vector_direct)
  moreover have "uint v \<noteq> 0" using v by simp
  ultimately show ?thesis using Solver_witness [OF op(2) p, of TX_NONSTANDARD]
    by (simp add: ExtractDestination_def WitnessUnknown)
qed (use assms in \<open>simp add: valid_dest_def\<close>)

section \<open>Only one script pays to a script hash or a witness program\<close>

lemma match_keyhash:
  assumes "match_template s [OP_DUP, OP_HASH160, OP_PUBKEYHASH, OP_EQUALVERIFY, OP_CHECKSIG] [] = Some sols"
  shows "\<exists>h. sols = [h] \<and> length h = 20"
  using assms by (auto simp: match_template.simps [of _ "_ # _"] match_template.simps [of _ "[]"] split: option.splits if_splits)

lemma scan_types: "scan_templates ts s = (True, type, sols) \<Longrightarrow> \<exists>script2. (type, script2) \<in> set ts \<and> match_template s script2 [] = Some sols"
  by (induction ts s rule: scan_templates.induct) (auto simp: Let_def split: option.splits if_splits)

lemma scan_mTemplates:
  assumes "scan_templates mTemplates s = (True, type, sols)"
  shows "type = TX_PUBKEY \<or> type = TX_PUBKEYHASH \<and> (\<exists>h. sols = [h] \<and> length h = 20) \<or> type = TX_MULTISIG"
  using scan_types [OF assms] match_keyhash [of s sols] by (auto simp: mTemplates_def)

lemma Solver_answers: "Solver s t \<noteq> None"
  using IsWitnessProgram_iff(1) [of s] by (auto simp: Solver_def prod_eq_iff split: option.splits)

lemma IsPayToScriptHash_shape:
  assumes "IsPayToScriptHash s"
  shows "s = [OP_HASH160, 20] @ take 20 (drop 2 s) @ [OP_EQUAL]"
proof -
  obtain a b r where s: "s = a # b # r" "length r = 21"
    using assms by (cases s; cases "tl s") (auto simp: IsPayToScriptHash_def)
  have "r = take 20 r @ r ! 20 # drop (Suc 20) r" using s(2) by (intro id_take_nth_drop) simp
  then show ?thesis using s assms by (simp add: IsPayToScriptHash_def)
qed

lemma ExtractDestination_answers: "ExtractDestination Hash160 s a \<noteq> None"
proof -
  obtain ok type sols where r: "Solver s TX_NONSTANDARD = Some (ok, type, sols)"
    using Solver_answers [of s TX_NONSTANDARD] by (cases "Solver s TX_NONSTANDARD") auto
  show ?thesis
  proof (cases "ok \<and> type = TX_PUBKEYHASH")
    case True
    then have "scan_templates mTemplates s = (True, TX_PUBKEYHASH, sols)" using r by (auto simp: Solver_def split: option.splits if_splits)
    then show ?thesis using scan_mTemplates [of s TX_PUBKEYHASH sols] r True by (auto simp: ExtractDestination_def uint160_of_def)
  next
    case False
    moreover have "length (sols ! 0) = 20" if "ok" "type = TX_SCRIPTHASH"
      using r that scan_mTemplates [of s type sols] by (auto simp: Solver_def IsPayToScriptHash_def split: option.splits if_splits)
    ultimately show ?thesis using r by (auto simp: ExtractDestination_def uint160_of_def)
  qed
qed

lemma DecodeOP_N_pos:
  assumes "DecodeOP_N op = Some v" "v \<noteq> 0"
  shows "1 \<le> v" "v \<le> 16" "EncodeOP_N v = Some op" "sint (of_nat (unat (word_of_int v :: u8)) :: u32) = v"
proof -
  have op: "0x51 \<le> uint op" "uint op \<le> 0x60" "v = uint op - 0x50" using assms by (auto simp: DecodeOP_N_def word_le_def split: if_splits)
  then show v: "1 \<le> v" "v \<le> 16" by simp_all
  show "EncodeOP_N v = Some op" using v op(3) by (simp add: EncodeOP_N_def)
  have u: "uint (word_of_int v :: u8) = v" using v unfolding uint_word_of_int by (intro mod_pos_pos_trivial) simp_all
  let ?w = "of_nat (unat (word_of_int v :: u8)) :: u32"
  have "int (unat (word_of_int v :: u8)) = v" using u unfolding uint_nat .
  then have "unat (word_of_int v :: u8) \<le> 16" using v by linarith
  then have "unat (word_of_int v :: u8) < 2 ^ 32" by (rule le_less_trans) simp
  then have "unat ?w = unat (word_of_int v :: u8)" by (rule unat_of_nat_u32)
  then have w: "uint ?w = v" using u unfolding uint_nat by (rule trans [OF arg_cong [of _ _ int]])
  then have "uint ?w \<le> 16" using v(2) by (rule ord_eq_le_trans)
  from sint_small [OF this] w show "sint ?w = v" by (rule trans)
qed

lemma ExtractDestination_unique:
  assumes "ExtractDestination Hash160 s a = Some (True, d)" "\<forall>h. d \<noteq> CKeyID h"
  shows "GetScriptForDestination d = Some s"
proof -
  obtain type sols where r: "Solver s TX_NONSTANDARD = Some (True, type, sols)"
    using assms(1) by (auto simp: ExtractDestination_def split: bind_splits if_splits)
  have t: "type \<noteq> TX_PUBKEY" "type \<noteq> TX_PUBKEYHASH" "type \<noteq> TX_MULTISIG"
    using assms r by (auto simp: ExtractDestination_def pubkey_GetID_def split: bind_splits)
  show ?thesis
  proof (cases "IsPayToScriptHash s")
    case True
    note s = IsPayToScriptHash_shape [OF True]
    have "d = CScriptID (take 20 (drop 2 s))" using assms(1) True by (auto simp: ExtractDestination_def Solver_def uint160_of_def split: if_splits)
    moreover have "length s = 23" using True by (simp add: IsPayToScriptHash_def)
    ultimately show ?thesis using s by (simp add: push_opcode_def push_vector_direct)
  next
    case False
    then obtain v program where w: "IsWitnessProgram s = Some (Some (v, program))"
      using r t scan_mTemplates [of s type sols] assms(1) by (auto simp: Solver_def ExtractDestination_def split: option.splits if_splits)
    then obtain op where op: "s = op # of_nat (length program) # program" "DecodeOP_N op = Some v" "2 \<le> length program" "length program \<le> 40"
      by (auto simp: IsWitnessProgram_iff)
    show ?thesis
    proof (cases "v = 0")
      case True
      then have "op = OP_0" using op(2) by (auto simp: DecodeOP_N_def word_le_def split: if_splits)
      then show ?thesis using assms(1) False w True op
        by (auto simp: ExtractDestination_def Solver_def push_opcode_def push_vector_direct split: if_splits)
    next
      case v: False
      note n = DecodeOP_N_pos [OF op(2) v]
      let ?v = "of_nat (unat (word_of_int v :: u8)) :: u32"
      have "d = WitnessUnknown ?v program" using assms(1) False w v by (auto simp: ExtractDestination_def Solver_def)
      then have "GetScriptForDestination d = do { opcode \<leftarrow> EncodeOP_N v; Some (push_vector (push_opcode [] opcode) program) }"
        by (simp only: GetScriptForDestination.simps n(4))
      then show ?thesis using n(3) op by (simp add: push_opcode_def push_vector_direct)
    qed
  qed
qed


section \<open>Multisignature scripts are recognised\<close>

lemma match_small_integer:
  "GetOp pc1 = Some (op, v, r) \<Longrightarrow> DecodeOP_N op = Some n \<Longrightarrow>
   match_template pc1 (OP_SMALLINTEGER # pc2) sols = match_template r pc2 (sols @ [[word_of_int n]])"
  by (subst match_template.simps) simp

lemma match_pubkeys:
  "GetOp pc1 = Some (op, v, r) \<Longrightarrow> take_pubkeys r op v sols = (r', op', v', sols') \<Longrightarrow> DecodeOP_N op' = Some n \<Longrightarrow>
   match_template pc1 (OP_PUBKEYS # OP_SMALLINTEGER # pc2) sols = match_template r' pc2 (sols' @ [[word_of_int n]])"
  by (subst match_template.simps) simp

lemma match_last: "match_template [OP_CHECKMULTISIG] [OP_CHECKMULTISIG] sols = Some sols"
  by (simp add: match_template.simps)

lemma take_pubkeys_pushes:
  assumes "0x4e < uint c" "length k = PUBLIC_KEY_SIZE" "\<forall>k \<in> set keys. length k = PUBLIC_KEY_SIZE"
  shows "take_pubkeys (concat (map (push_vector []) keys) @ c # rest) op k sols = (rest, c, [], sols @ k # keys)"
  using assms(2,3)
proof (induction keys arbitrary: op k sols)
  case Nil
  have "GetOp2 (c # rest) = (Some (c, []), rest)" using assms(1) by (simp add: word_le_def)
  then show ?case using Nil
    by (subst take_pubkeys.simps) (simp add: PUBLIC_KEY_SIZE_def take_pubkeys.simps [of _ _ "[]"] del: GetOp2.simps)
next
  case (Cons x keys)
  have "GetOp2 (push_vector [] x @ r) = (Some (32, x), r)" for r
    using Cons.prems by (simp add: push_vector_direct PUBLIC_KEY_SIZE_def operand2_def)
  then show ?case using Cons by (subst take_pubkeys.simps) simp
qed

lemma fold_push_vector: "fold (\<lambda>key script. push_vector script key) keys s = s @ concat (map (push_vector []) keys)"
  by (induction keys arbitrary: s) (simp_all add: push_vector_def)

lemma Solver_multisig:
  assumes m: "1 \<le> m" "m \<le> int (length keys)" "length keys \<le> 16" and keys: "\<forall>k \<in> set keys. length k = PUBLIC_KEY_SIZE"
  shows "\<exists>s. GetScriptForMultisig m keys = Some s \<and>
    Solver s t = Some (True, TX_MULTISIG, [word_of_int m] # keys @ [[of_nat (length keys)]])"
proof -
  obtain om where om: "EncodeOP_N m = Some om" "uint om = 0x50 + m" "DecodeOP_N om = Some m"
    using EncodeOP_N_u8 [of m] m by auto
  obtain on where on: "EncodeOP_N (int (length keys)) = Some on" "uint on = 0x50 + int (length keys)"
      "DecodeOP_N on = Some (int (length keys))"
    using EncodeOP_N_u8 [of "int (length keys)"] m by auto
  obtain k ks where k: "keys = k # ks" "length k = PUBLIC_KEY_SIZE" "\<forall>k \<in> set ks. length k = PUBLIC_KEY_SIZE"
    using m keys by (cases keys) auto
  let ?rest = "concat (map (push_vector []) ks) @ [on, OP_CHECKMULTISIG]"
  let ?s = "om # 32 # k @ ?rest"
  have s: "GetScriptForMultisig m keys = Some ?s"
    using om(1) on(1) k by (simp add: GetScriptForMultisig_def push_opcode_def fold_push_vector push_vector_direct PUBLIC_KEY_SIZE_def)
  have ne: "om \<noteq> OP_HASH160" "om \<noteq> OP_RETURN" "om \<noteq> OP_DUP" using om(2) m by auto
  have p: "length (concat (map (push_vector []) ks)) = 33 * length ks"
    using k(3) by (induction ks) (simp_all add: push_vector_direct PUBLIC_KEY_SIZE_def)
  have w: "IsWitnessProgram ?s = Some None" using k(2) p by (auto simp: IsWitnessProgram_def PUBLIC_KEY_SIZE_def)
  have g: "GetOp (om # pc) = Some (om, [], pc)" "GetOp (on # pc) = Some (on, [], pc)" for pc
    using om(2) on(2) m by (simp_all add: GetOp_high del: GetOp_simps)
  have x: "GetOp (32 # k @ pc) = Some (32, k, pc)" for pc using k(2) by (simp add: read_operand_def PUBLIC_KEY_SIZE_def)
  have low: "\<not> om \<le> 78" using om(2) m by (simp add: word_le_def)
  have "0x4e < uint on" using on(2) m by simp
  note t = take_pubkeys_pushes [OF this k(2,3)]
  have "match_template ?s [OP_SMALLINTEGER, OP_PUBKEYS, OP_SMALLINTEGER, OP_CHECKMULTISIG] [] =
      Some ([[word_of_int m]] @ (k # ks) @ [[word_of_int (int (length keys))]])"
    by (simp only: match_small_integer [OF g(1) om(3)] match_pubkeys [OF x t on(3)] match_last append_Nil append_Cons append_assoc)
  moreover have "match_template ?s [OP_PUBKEY, OP_CHECKSIG] [] = None" "match_template ?s [OP_DUP, OP_HASH160, OP_PUBKEYHASH, OP_EQUALVERIFY, OP_CHECKSIG] [] = None"
    using ne(3) low by (simp_all add: match_template.simps [of _ "_ # _"] PUBLIC_KEY_SIZE_def)
  moreover have "uint (word_of_int m :: u8) = m" "uint (word_of_int (int (length keys)) :: u8) = int (length keys)"
    using m unfolding uint_word_of_int by (intro mod_pos_pos_trivial; simp)+
  ultimately have "scan_templates mTemplates ?s = (True, TX_MULTISIG, [word_of_int m] # keys @ [[of_nat (length keys)]])"
    using m k(1) by (simp add: mTemplates_def word_less_def word_le_def)
  then show ?thesis using s w ne by (auto simp: Solver_def IsPayToScriptHash_def)
qed

end
