(* ===== verification/Bloom.thy ===== *)
theory Bloom
  imports Transaction Standard
begin

text \<open>
  Bloom filters (\<open>bloom.h\<close>, \<open>bloom.cpp\<close>) and their hash \<open>MurmurHash3\<close> of \<open>hash.cpp\<close>: keys that were inserted are
  found again, and no operation divides by zero on the filters the code makes.  A result \<open>None\<close> is a
  division by zero.  The sizes that the constructors compute with floating point numbers are arguments.
\<close>

section \<open>MurmurHash3\<close>

definition ROTL32 :: "u32 \<Rightarrow> nat \<Rightarrow> u32" where
  "ROTL32 x r = push_bit r x OR drop_bit (32 - r) x"

definition murmur_mix :: "u32 \<Rightarrow> u32" where
  "murmur_mix k1 = ROTL32 (k1 * 0xcc9e2d51) 15 * 0x1b873593"

text \<open>The blocks of four bytes, and the tail that is left.\<close>

fun murmur_blocks :: "u32 \<Rightarrow> bytes \<Rightarrow> u32 \<times> bytes" where
  "murmur_blocks h1 (a # b # c # d # rest) =
     murmur_blocks (ROTL32 (h1 XOR murmur_mix (ReadLE32 [a, b, c, d])) 13 * 5 + 0xe6546b64) rest"
| "murmur_blocks h1 tail = (h1, tail)"

fun murmur_tail :: "u32 \<Rightarrow> bytes \<Rightarrow> u32" where
  "murmur_tail h1 [a, b, c] = h1 XOR murmur_mix (push_bit 16 (ucast c) XOR push_bit 8 (ucast b) XOR ucast a)"
| "murmur_tail h1 [a, b] = h1 XOR murmur_mix (push_bit 8 (ucast b) XOR ucast a)"
| "murmur_tail h1 [a] = h1 XOR murmur_mix (ucast a)"
| "murmur_tail h1 _ = h1"

definition MurmurHash3 :: "u32 \<Rightarrow> bytes \<Rightarrow> u32" where
  "MurmurHash3 nHashSeed vDataToHash =
     (let (h1, tail) = murmur_blocks nHashSeed vDataToHash;
          h1 = murmur_tail h1 tail XOR of_nat (length vDataToHash);
          h1 = (h1 XOR drop_bit 16 h1) * 0x85ebca6b;
          h1 = (h1 XOR drop_bit 13 h1) * 0xc2b2ae35
      in h1 XOR drop_bit 16 h1)"

section \<open>CBloomFilter\<close>

definition MAX_BLOOM_FILTER_SIZE :: nat where "MAX_BLOOM_FILTER_SIZE = 36000"
definition MAX_HASH_FUNCS :: nat where "MAX_HASH_FUNCS = 50"

definition BLOOM_UPDATE_NONE :: u8 where "BLOOM_UPDATE_NONE = 0"
definition BLOOM_UPDATE_ALL :: u8 where "BLOOM_UPDATE_ALL = 1"
definition BLOOM_UPDATE_P2PUBKEY_ONLY :: u8 where "BLOOM_UPDATE_P2PUBKEY_ONLY = 2"
definition BLOOM_UPDATE_MASK :: u8 where "BLOOM_UPDATE_MASK = 3"

record CBloomFilter =
  bf_vData :: bytes
  bf_isFull :: bool
  bf_isEmpty :: bool
  bf_nHashFuncs :: u32
  bf_nTweak :: u32
  bf_nFlags :: u8

text \<open>The public constructor: \<open>nBits\<close> is \<open>-1 / LN2SQUARED * nElements * log(nFPRate)\<close> and \<open>nHash\<close> of the size is
  \<open>size * 8 / nElements * LN2\<close>, both truncated.\<close>

definition CBloomFilter_sized :: "nat \<Rightarrow> (nat \<Rightarrow> nat) \<Rightarrow> u32 \<Rightarrow> u8 \<Rightarrow> CBloomFilter" where
  "CBloomFilter_sized nBits nHash nTweakIn nFlagsIn =
     (let vData = replicate (min nBits (MAX_BLOOM_FILTER_SIZE * 8) div 8) 0
      in \<lparr>bf_vData = vData, bf_isFull = False, bf_isEmpty = True,
          bf_nHashFuncs = of_nat (min (nHash (length vData)) MAX_HASH_FUNCS), bf_nTweak = nTweakIn, bf_nFlags = nFlagsIn\<rparr>)"

definition CBloomFilter_default :: CBloomFilter where
  "CBloomFilter_default =
     \<lparr>bf_vData = [], bf_isFull = True, bf_isEmpty = False, bf_nHashFuncs = 0, bf_nTweak = 0, bf_nFlags = 0\<rparr>"

definition ser_CBloomFilter :: "CBloomFilter \<Rightarrow> bytes" where
  "ser_CBloomFilter f = ser_byte_vector (bf_vData f) @ ser_writedata32 (bf_nHashFuncs f) @
     ser_writedata32 (bf_nTweak f) @ ser_writedata8 (bf_nFlags f)"

text \<open>Reading into a default filter leaves it full.\<close>

definition unser_CBloomFilter :: "CBloomFilter parser" where
  "unser_CBloomFilter = pbind unser_byte_vector (\<lambda>vData. pbind ser_readdata32 (\<lambda>nHashFuncs. pbind ser_readdata32 (\<lambda>nTweak.
     pbind ser_readdata8 (\<lambda>nFlags. preturn (CBloomFilter_default\<lparr>bf_vData := vData, bf_nHashFuncs := nHashFuncs,
       bf_nTweak := nTweak, bf_nFlags := nFlags\<rparr>)))))"

lemma unser_ser_CBloomFilter:
  "length (bf_vData f) \<le> MAX_SIZE \<Longrightarrow> bf_isFull f \<Longrightarrow> \<not> bf_isEmpty f \<Longrightarrow> unser_CBloomFilter (ser_CBloomFilter f @ rest) = Inr (f, rest)"
  by (cases f) (simp add: unser_CBloomFilter_def ser_CBloomFilter_def CBloomFilter_default_def codec_simps)

definition bloom_Hash :: "CBloomFilter \<Rightarrow> nat \<Rightarrow> bytes \<Rightarrow> nat option" where
  "bloom_Hash f nHashNum vDataToHash =
     (if length (bf_vData f) * 8 = 0 then None
      else Some (unat (MurmurHash3 (of_nat nHashNum * 0xFBA4C795 + bf_nTweak f) vDataToHash) mod (length (bf_vData f) * 8)))"

definition set_filter_bit :: "bytes \<Rightarrow> nat \<Rightarrow> bytes" where
  "set_filter_bit vData nIndex =
     vData[drop_bit 3 nIndex := vData ! drop_bit 3 nIndex OR push_bit (7 AND nIndex) 1]"

definition test_filter_bit :: "bytes \<Rightarrow> nat \<Rightarrow> bool" where
  "test_filter_bit vData nIndex \<longleftrightarrow> vData ! drop_bit 3 nIndex AND push_bit (7 AND nIndex) 1 \<noteq> 0"

text \<open>The loops over the hash functions \<open>i\<close>, up to their number \<open>i + k\<close>.\<close>

fun insert_loop :: "bytes \<Rightarrow> nat \<Rightarrow> nat \<Rightarrow> CBloomFilter \<Rightarrow> CBloomFilter option" where
  "insert_loop vKey i 0 f = Some f"
| "insert_loop vKey i (Suc k) f = do {
     nIndex \<leftarrow> bloom_Hash f i vKey;
     insert_loop vKey (i + 1) k (f\<lparr>bf_vData := set_filter_bit (bf_vData f) nIndex\<rparr>) }"

definition bloom_insert :: "CBloomFilter \<Rightarrow> bytes \<Rightarrow> CBloomFilter option" where
  "bloom_insert f vKey =
     (if bf_isFull f then Some f
      else do { f \<leftarrow> insert_loop vKey 0 (unat (bf_nHashFuncs f)) f; Some (f\<lparr>bf_isEmpty := False\<rparr>) })"

definition bloom_insert_outpoint :: "CBloomFilter \<Rightarrow> COutPoint \<Rightarrow> CBloomFilter option" where
  "bloom_insert_outpoint f outpoint = bloom_insert f (ser_COutPoint outpoint)"

fun contains_loop :: "bytes \<Rightarrow> nat \<Rightarrow> nat \<Rightarrow> CBloomFilter \<Rightarrow> bool option" where
  "contains_loop vKey i 0 f = Some True"
| "contains_loop vKey i (Suc k) f = do {
     nIndex \<leftarrow> bloom_Hash f i vKey;
     if \<not> test_filter_bit (bf_vData f) nIndex then Some False else contains_loop vKey (i + 1) k f }"

definition bloom_contains :: "CBloomFilter \<Rightarrow> bytes \<Rightarrow> bool option" where
  "bloom_contains f vKey =
     (if bf_isFull f then Some True else if bf_isEmpty f then Some False
      else contains_loop vKey 0 (unat (bf_nHashFuncs f)) f)"

definition bloom_contains_outpoint :: "CBloomFilter \<Rightarrow> COutPoint \<Rightarrow> bool option" where
  "bloom_contains_outpoint f outpoint = bloom_contains f (ser_COutPoint outpoint)"

definition bloom_clear :: "CBloomFilter \<Rightarrow> CBloomFilter" where
  "bloom_clear f = f\<lparr>bf_vData := replicate (length (bf_vData f)) 0, bf_isFull := False, bf_isEmpty := True\<rparr>"

definition bloom_reset :: "CBloomFilter \<Rightarrow> u32 \<Rightarrow> CBloomFilter" where
  "bloom_reset f nNewTweak = (bloom_clear f)\<lparr>bf_nTweak := nNewTweak\<rparr>"

definition IsWithinSizeConstraints :: "CBloomFilter \<Rightarrow> bool" where
  "IsWithinSizeConstraints f \<longleftrightarrow> length (bf_vData f) \<le> MAX_BLOOM_FILTER_SIZE \<and> unat (bf_nHashFuncs f) \<le> MAX_HASH_FUNCS"

definition UpdateEmptyFull :: "CBloomFilter \<Rightarrow> CBloomFilter" where
  "UpdateEmptyFull f = f\<lparr>bf_isFull := list_all (\<lambda>b. b = 0xff) (bf_vData f), bf_isEmpty := list_all (\<lambda>b. b = 0) (bf_vData f)\<rparr>"

section \<open>Matching a transaction\<close>

text \<open>The loop over the data elements of a script: whether the filter contains one.\<close>

function match_script :: "CBloomFilter \<Rightarrow> bytes \<Rightarrow> bool option" where
  "match_script f pc =
     (if pc = [] then Some False
      else case GetOp pc of None \<Rightarrow> Some False
           | Some (opcode, elem, rest) \<Rightarrow> do {
               found \<leftarrow> (if length elem \<noteq> 0 then bloom_contains f elem else Some False);
               if found then Some True else match_script f rest })"
  by pat_completeness auto
termination
  by (relation "measure (\<lambda>(f, pc). length pc)") (auto dest: GetOp_shorter)

declare match_script.simps [simp del]

definition update_for_output :: "CBloomFilter \<Rightarrow> uint256 \<Rightarrow> nat \<Rightarrow> CScript \<Rightarrow> CBloomFilter option" where
  "update_for_output f hash i script =
     (if bf_nFlags f AND BLOOM_UPDATE_MASK = BLOOM_UPDATE_ALL
      then bloom_insert_outpoint f \<lparr>op_hash = hash, op_n = of_nat i\<rparr>
      else if bf_nFlags f AND BLOOM_UPDATE_MASK = BLOOM_UPDATE_P2PUBKEY_ONLY
      then do {
        (ok, type, vSolutions) \<leftarrow> Solver script TX_NONSTANDARD;
        if ok \<and> (type = TX_PUBKEY \<or> type = TX_MULTISIG)
        then bloom_insert_outpoint f \<lparr>op_hash = hash, op_n = of_nat i\<rparr> else Some f }
      else Some f)"

fun match_outputs :: "uint256 \<Rightarrow> nat \<Rightarrow> CTxOut list \<Rightarrow> bool \<Rightarrow> CBloomFilter \<Rightarrow> (bool \<times> CBloomFilter) option" where
  "match_outputs hash i [] fFound f = Some (fFound, f)"
| "match_outputs hash i (txout # outs) fFound f = do {
     found \<leftarrow> match_script f (scriptPubKey txout);
     if found then do { f \<leftarrow> update_for_output f hash i (scriptPubKey txout); match_outputs hash (i + 1) outs True f }
     else match_outputs hash (i + 1) outs fFound f }"

fun match_inputs :: "CTxIn list \<Rightarrow> CBloomFilter \<Rightarrow> bool option" where
  "match_inputs [] f = Some False"
| "match_inputs (txin # ins) f = do {
     spent \<leftarrow> bloom_contains_outpoint f (prevout txin);
     if spent then Some True
     else do { found \<leftarrow> match_script f (scriptSig txin); if found then Some True else match_inputs ins f } }"

definition IsRelevantAndUpdate :: "hasher \<Rightarrow> CTransaction \<Rightarrow> CBloomFilter \<Rightarrow> (bool \<times> CBloomFilter) option" where
  "IsRelevantAndUpdate H tx f =
     (if bf_isFull f then Some (True, f)
      else if bf_isEmpty f then Some (False, f)
      else do {
        fFound \<leftarrow> bloom_contains f (tx_GetHash H tx);
        (fFound, f) \<leftarrow> match_outputs (tx_GetHash H tx) 0 (vout tx) fFound f;
        if fFound then Some (True, f)
        else do { found \<leftarrow> match_inputs (vin tx) f; Some (found, f) } })"

section \<open>Bits of a filter\<close>

lemma filter_bit_simps: "drop_bit 3 n = n div 8" "7 AND n = n mod 8" for n :: nat
proof -
  have "n AND mask 3 = n mod 2 ^ 3" by (simp only: take_bit_eq_mask [symmetric] take_bit_eq_mod)
  then show "7 AND n = n mod 8" by (simp add: mask_eq_exp_minus_1 and.commute)
qed (simp add: drop_bit_eq_div)

lemma u8_test_bit: "k < 8 \<Longrightarrow> (b :: u8) AND push_bit k 1 \<noteq> 0 \<longleftrightarrow> bit b k"
  by (simp add: and_exp_eq_0_iff_not_bit push_bit_eq_mult)

lemma test_filter_bit_eq: "test_filter_bit v n \<longleftrightarrow> bit (v ! (n div 8)) (n mod 8)"
  unfolding test_filter_bit_def filter_bit_simps by (rule u8_test_bit) simp

lemma length_set_filter_bit [simp]: "length (set_filter_bit v n) = length v"
  by (simp add: set_filter_bit_def)

lemma test_set_filter_bit:
  assumes "m < length v * 8" "n < length v * 8"
  shows "test_filter_bit (set_filter_bit v m) n \<longleftrightarrow> n = m \<or> test_filter_bit v n"
proof -
  have "m div 8 < length v" using assms(1) by (simp add: less_mult_imp_div_less)
  moreover have "n = m \<longleftrightarrow> n div 8 = m div 8 \<and> n mod 8 = m mod 8" by (metis div_mult_mod_eq)
  moreover have "m mod 8 < 8" "n mod 8 < 8" by simp_all
  ultimately show ?thesis
    by (auto simp: test_filter_bit_eq set_filter_bit_def filter_bit_simps nth_list_update bit_or_iff bit_push_bit_iff bit_1_iff simp del: push_bit_of_1)
qed

section \<open>What a filter holds\<close>

text \<open>The invariant: an empty bit vector counts as full, and a full filter has all bits set.\<close>

definition filter_ok :: "CBloomFilter \<Rightarrow> bool" where
  "filter_ok f \<longleftrightarrow> (bf_vData f = [] \<longrightarrow> bf_isFull f) \<and> (bf_isFull f \<longrightarrow> list_all (\<lambda>b. b = 0xff) (bf_vData f))"

definition hash_index :: "CBloomFilter \<Rightarrow> nat \<Rightarrow> bytes \<Rightarrow> nat" where
  "hash_index f i vKey = unat (MurmurHash3 (of_nat i * 0xFBA4C795 + bf_nTweak f) vKey) mod (length (bf_vData f) * 8)"

definition holds :: "CBloomFilter \<Rightarrow> bytes \<Rightarrow> bool" where
  "holds f vKey \<longleftrightarrow> bf_isFull f \<or>
     \<not> bf_isEmpty f \<and> (\<forall>i < unat (bf_nHashFuncs f). test_filter_bit (bf_vData f) (hash_index f i vKey))"

text \<open>A filter that has grown out of another one.\<close>

definition grown :: "CBloomFilter \<Rightarrow> CBloomFilter \<Rightarrow> bool" where
  "grown f f' \<longleftrightarrow> length (bf_vData f') = length (bf_vData f) \<and> bf_isFull f' = bf_isFull f \<and> (bf_isEmpty f' \<longrightarrow> bf_isEmpty f) \<and>
     bf_nHashFuncs f' = bf_nHashFuncs f \<and> bf_nTweak f' = bf_nTweak f \<and> bf_nFlags f' = bf_nFlags f \<and>
     (bf_isFull f \<longrightarrow> f' = f) \<and>
     (\<forall>n < length (bf_vData f) * 8. test_filter_bit (bf_vData f) n \<longrightarrow> test_filter_bit (bf_vData f') n)"

lemma grown_refl [simp]: "grown f f"
  by (simp add: grown_def)

lemma grown_trans: "grown f g \<Longrightarrow> grown g h \<Longrightarrow> grown f h"
  by (auto simp: grown_def)

lemma grown_ok: "grown f f' \<Longrightarrow> filter_ok f \<Longrightarrow> filter_ok f'"
  by (auto simp: grown_def filter_ok_def)

lemma hash_index_less: "bf_vData f \<noteq> [] \<Longrightarrow> hash_index f i vKey < length (bf_vData f) * 8"
  by (simp add: hash_index_def)

lemma hash_index_cong: "length (bf_vData f') = length (bf_vData f) \<Longrightarrow> bf_nTweak f' = bf_nTweak f \<Longrightarrow> hash_index f' i vKey = hash_index f i vKey"
  by (simp add: hash_index_def)

lemma grown_holds: "grown f f' \<Longrightarrow> bf_vData f \<noteq> [] \<or> bf_isFull f \<Longrightarrow> holds f vKey \<Longrightarrow> holds f' vKey"
  using hash_index_less [of f _ vKey] hash_index_cong [of f' f _ vKey] by (auto simp: grown_def holds_def)

lemma bloom_Hash_eq: "bf_vData f \<noteq> [] \<Longrightarrow> bloom_Hash f i vKey = Some (hash_index f i vKey)"
  by (simp add: bloom_Hash_def hash_index_def)

lemma from_Suc: "(\<forall>j. i \<le> j \<and> j < i + Suc k \<longrightarrow> P j) \<longleftrightarrow> P i \<and> (\<forall>j. i + 1 \<le> j \<and> j < i + 1 + k \<longrightarrow> P j)"
proof -
  have "i \<le> j \<and> j < i + Suc k \<longleftrightarrow> j = i \<or> i + 1 \<le> j \<and> j < i + 1 + k" for j by auto
  then show ?thesis by auto
qed

lemma insert_loop_spec:
  assumes "bf_vData f \<noteq> []" "\<not> bf_isFull f"
  shows "\<exists>f'. insert_loop vKey i k f = Some f' \<and> grown f f' \<and> bf_isEmpty f' = bf_isEmpty f \<and>
    (\<forall>j. i \<le> j \<and> j < i + k \<longrightarrow> test_filter_bit (bf_vData f') (hash_index f j vKey))"
  using assms
proof (induction k arbitrary: i f)
  case (Suc k)
  let ?n = "hash_index f i vKey"
  let ?f1 = "f\<lparr>bf_vData := set_filter_bit (bf_vData f) ?n\<rparr>"
  have n: "?n < length (bf_vData f) * 8" using Suc.prems(1) by (rule hash_index_less)
  have g1: "grown f ?f1" using n Suc.prems(2) by (auto simp: grown_def test_set_filter_bit)
  have ne: "bf_vData ?f1 \<noteq> []" using Suc.prems(1) by (simp add: set_filter_bit_def)
  have "\<not> bf_isFull ?f1" "bf_isEmpty ?f1 = bf_isEmpty f" using Suc.prems(2) by simp_all
  with Suc.IH [OF ne, of "i + 1"] obtain f' where f':
    "insert_loop vKey (i + 1) k ?f1 = Some f'" "grown ?f1 f'" "bf_isEmpty f' = bf_isEmpty f"
    "\<forall>j. i + 1 \<le> j \<and> j < i + 1 + k \<longrightarrow> test_filter_bit (bf_vData f') (hash_index ?f1 j vKey)" by metis
  have h: "hash_index ?f1 j vKey = hash_index f j vKey" for j by (rule hash_index_cong) simp_all
  have "test_filter_bit (bf_vData f') ?n" using f'(2) n by (auto simp: grown_def test_set_filter_bit)
  then have "\<forall>j. i \<le> j \<and> j < i + Suc k \<longrightarrow> test_filter_bit (bf_vData f') (hash_index f j vKey)"
    using f'(4) unfolding h from_Suc by blast
  then show ?case using f' grown_trans [OF g1 f'(2)] by (simp add: bloom_Hash_eq [OF Suc.prems(1)])
qed auto

lemma bloom_insert_spec:
  assumes "filter_ok f"
  shows "\<exists>f'. bloom_insert f vKey = Some f' \<and> grown f f' \<and> holds f' vKey"
proof (cases "bf_isFull f")
  case False
  then have "bf_vData f \<noteq> []" using assms by (auto simp: filter_ok_def)
  from insert_loop_spec [OF this False, of vKey 0 "unat (bf_nHashFuncs f)"] obtain f' where f':
    "insert_loop vKey 0 (unat (bf_nHashFuncs f)) f = Some f'" "grown f f'"
    "\<forall>j < unat (bf_nHashFuncs f). test_filter_bit (bf_vData f') (hash_index f j vKey)" by auto
  moreover have "grown f (f'\<lparr>bf_isEmpty := False\<rparr>)" using f'(2) False by (simp add: grown_def)
  moreover have "holds (f'\<lparr>bf_isEmpty := False\<rparr>) vKey"
    using f'(2,3) hash_index_cong [of f' f _ vKey] by (auto simp: holds_def grown_def hash_index_def)
  ultimately show ?thesis using False by (simp add: bloom_insert_def)
qed (simp add: bloom_insert_def holds_def)

lemma contains_loop_spec:
  "bf_vData f \<noteq> [] \<Longrightarrow> contains_loop vKey i k f = Some (\<forall>j. i \<le> j \<and> j < i + k \<longrightarrow> test_filter_bit (bf_vData f) (hash_index f j vKey))"
proof (induction k arbitrary: i)
  case (Suc k)
  then show ?case using from_Suc [of i k "\<lambda>j. test_filter_bit (bf_vData f) (hash_index f j vKey)"] by (simp add: bloom_Hash_eq)
qed auto

lemma bloom_contains_spec: "filter_ok f \<Longrightarrow> bloom_contains f vKey = Some (holds f vKey)"
  using contains_loop_spec [of f vKey 0 "unat (bf_nHashFuncs f)"]
  by (auto simp: bloom_contains_def holds_def filter_ok_def)

section \<open>No transaction is missed\<close>

text \<open>The data elements of a script, up to where it cannot be read.\<close>

function script_elements :: "bytes \<Rightarrow> bytes list" where
  "script_elements pc =
     (if pc = [] then [] else case GetOp pc of None \<Rightarrow> [] | Some (opcode, elem, rest) \<Rightarrow> elem # script_elements rest)"
  by pat_completeness auto
termination
  by (relation "measure length") (auto dest: GetOp_shorter)

declare script_elements.simps [simp del]

definition script_matches :: "CBloomFilter \<Rightarrow> CScript \<Rightarrow> bool" where
  "script_matches f script \<longleftrightarrow> (\<exists>e \<in> set (script_elements script). e \<noteq> [] \<and> holds f e)"

definition mentions :: "hasher \<Rightarrow> CTransaction \<Rightarrow> bytes \<Rightarrow> bool" where
  "mentions H tx k \<longleftrightarrow> k = tx_GetHash H tx \<or>
     (\<exists>out \<in> set (vout tx). k \<noteq> [] \<and> k \<in> set (script_elements (scriptPubKey out))) \<or>
     (\<exists>inp \<in> set (vin tx). k = ser_COutPoint (prevout inp) \<or> k \<noteq> [] \<and> k \<in> set (script_elements (scriptSig inp)))"

definition updates_all :: "CBloomFilter \<Rightarrow> bool" where
  "updates_all f \<longleftrightarrow> bf_nFlags f AND BLOOM_UPDATE_MASK = BLOOM_UPDATE_ALL"

lemma script_matches_grown: "grown f f' \<Longrightarrow> filter_ok f \<Longrightarrow> script_matches f s \<Longrightarrow> script_matches f' s"
  using grown_holds unfolding script_matches_def filter_ok_def by blast

lemma match_script_spec: "filter_ok f \<Longrightarrow> match_script f pc = Some (script_matches f pc)"
  unfolding script_matches_def
proof (induction f pc rule: match_script.induct)
  case (1 f pc)
  show ?case
  proof (cases "pc = [] \<or> GetOp pc = None")
    case True
    then show ?thesis by (subst match_script.simps, subst script_elements.simps) auto
  next
    case False
    then obtain op e rest where g: "pc \<noteq> []" "GetOp pc = Some (op, e, rest)" by auto
    then have "match_script f rest = Some (\<exists>e \<in> set (script_elements rest). e \<noteq> [] \<and> holds f e)"
      if "\<not> (e \<noteq> [] \<and> holds f e)"
      using "1.IH" [OF g(1,2) refl refl, of False] that "1.prems" bloom_contains_spec [OF "1.prems", of e] by auto
    then show ?thesis using g bloom_contains_spec [OF "1.prems", of e]
      by (subst match_script.simps, subst script_elements.simps) auto
  qed
qed

lemma update_for_output_spec:
  assumes "filter_ok f"
  shows "\<exists>f'. update_for_output f hash i script = Some f' \<and> grown f f' \<and>
    (updates_all f \<longrightarrow> holds f' (ser_COutPoint \<lparr>op_hash = hash, op_n = of_nat i\<rparr>))"
proof -
  obtain f' where "bloom_insert f (ser_COutPoint \<lparr>op_hash = hash, op_n = of_nat i\<rparr>) = Some f'" "grown f f'"
    "holds f' (ser_COutPoint \<lparr>op_hash = hash, op_n = of_nat i\<rparr>)" using bloom_insert_spec [OF assms] by blast
  moreover obtain ok type sols where "Solver script TX_NONSTANDARD = Some (ok, type, sols)"
    using Solver_answers [of script TX_NONSTANDARD] by (cases "Solver script TX_NONSTANDARD") auto
  ultimately show ?thesis by (auto simp: update_for_output_def bloom_insert_outpoint_def updates_all_def)
qed

lemma updates_all_grown: "grown f f' \<Longrightarrow> updates_all f' = updates_all f"
  by (simp add: grown_def updates_all_def)

lemma match_outputs_spec:
  "filter_ok f \<Longrightarrow> \<exists>found f'. match_outputs hash i outs fFound f = Some (found, f') \<and> grown f f' \<and> (fFound \<longrightarrow> found) \<and>
     (\<forall>j < length outs. script_matches f (scriptPubKey (outs ! j)) \<longrightarrow> found \<and>
        (updates_all f \<longrightarrow> holds f' (ser_COutPoint \<lparr>op_hash = hash, op_n = of_nat (i + j)\<rparr>)))"
proof (induction outs arbitrary: i fFound f)
  case (Cons out outs)
  let ?m = "script_matches f (scriptPubKey out)"
  obtain f1 where f1: "(if ?m then update_for_output f hash i (scriptPubKey out) else Some f) = Some f1" "grown f f1"
    "?m \<longrightarrow> updates_all f \<longrightarrow> holds f1 (ser_COutPoint \<lparr>op_hash = hash, op_n = of_nat i\<rparr>)"
    using update_for_output_spec [OF Cons.prems, of hash i "scriptPubKey out"] by (cases ?m) auto
  note ok = grown_ok [OF f1(2) Cons.prems]
  from Cons.IH [OF ok, of "i + 1" "fFound \<or> ?m"] obtain found f' where r:
    "match_outputs hash (i + 1) outs (fFound \<or> ?m) f1 = Some (found, f')" "grown f1 f'" "fFound \<or> ?m \<longrightarrow> found"
    "\<forall>j < length outs. script_matches f1 (scriptPubKey (outs ! j)) \<longrightarrow> found \<and>
      (updates_all f1 \<longrightarrow> holds f' (ser_COutPoint \<lparr>op_hash = hash, op_n = of_nat (i + 1 + j)\<rparr>))" by blast
  have run: "match_outputs hash i (out # outs) fFound f = Some (found, f')"
    using r(1) f1(1) match_script_spec [OF Cons.prems, of "scriptPubKey out"] by (cases ?m) auto
  have "found \<and> (updates_all f \<longrightarrow> holds f' (ser_COutPoint \<lparr>op_hash = hash, op_n = of_nat (i + j)\<rparr>))"
    if j: "j < length (out # outs)" "script_matches f (scriptPubKey ((out # outs) ! j))" for j
  proof (cases j)
    case 0
    then have m: "?m" using j(2) by simp
    then have "updates_all f \<longrightarrow> holds f' (ser_COutPoint \<lparr>op_hash = hash, op_n = of_nat i\<rparr>)"
      using f1(3) grown_holds [OF r(2)] ok by (auto simp: filter_ok_def)
    then show ?thesis using r(3) m 0 by simp
  next
    case (Suc k)
    then have "script_matches f1 (scriptPubKey (outs ! k))" using script_matches_grown [OF f1(2) Cons.prems] j(2) by simp
    then show ?thesis using r(4) [rule_format, of k] j(1) Suc updates_all_grown [OF f1(2)] by simp
  qed
  then show ?case using run grown_trans [OF f1(2) r(2)] r(3) by blast
qed simp

lemma match_inputs_spec:
  "filter_ok f \<Longrightarrow> match_inputs ins f = Some (\<exists>inp \<in> set ins. holds f (ser_COutPoint (prevout inp)) \<or> script_matches f (scriptSig inp))"
  by (induction ins) (auto simp: bloom_contains_outpoint_def bloom_contains_spec match_script_spec)

lemma IsRelevantAndUpdate_spec:
  assumes ok: "filter_ok f"
  shows "\<exists>found f'. IsRelevantAndUpdate H tx f = Some (found, f') \<and> grown f f' \<and>
    (\<forall>k. holds f k \<longrightarrow> mentions H tx k \<longrightarrow> found) \<and>
    (\<forall>j < length (vout tx). script_matches f (scriptPubKey (vout tx ! j)) \<longrightarrow> updates_all f \<longrightarrow>
       holds f' (ser_COutPoint \<lparr>op_hash = tx_GetHash H tx, op_n = of_nat j\<rparr>))"
proof (cases "bf_isFull f \<or> bf_isEmpty f")
  case True
  then show ?thesis by (auto simp: IsRelevantAndUpdate_def holds_def script_matches_def)
next
  case False
  let ?h = "tx_GetHash H tx"
  obtain found f' where r: "match_outputs ?h 0 (vout tx) (holds f ?h) f = Some (found, f')" "grown f f'" "holds f ?h \<longrightarrow> found"
     "\<forall>j < length (vout tx). script_matches f (scriptPubKey (vout tx ! j)) \<longrightarrow> found \<and>
        (updates_all f \<longrightarrow> holds f' (ser_COutPoint \<lparr>op_hash = ?h, op_n = of_nat j\<rparr>))"
    using match_outputs_spec [OF ok, of ?h 0 "vout tx" "holds f ?h"] by auto
  note ok' = grown_ok [OF r(2) ok]
  let ?i = "\<exists>inp \<in> set (vin tx). holds f' (ser_COutPoint (prevout inp)) \<or> script_matches f' (scriptSig inp)"
  have run: "IsRelevantAndUpdate H tx f = Some (found \<or> ?i, f')"
    using False r(1) by (simp add: IsRelevantAndUpdate_def bloom_contains_spec [OF ok] match_inputs_spec [OF ok'])
  have "found \<or> ?i" if k: "holds f k" "mentions H tx k" for k
  proof -
    have k': "holds f' k" using grown_holds [OF r(2) _ k(1)] ok by (auto simp: filter_ok_def)
    have "script_matches f s" "script_matches f' s" if "k \<noteq> []" "k \<in> set (script_elements s)" for s
      using that k(1) k' by (auto simp: script_matches_def)
    then show ?thesis using k(2) r(3,4) k(1) k' unfolding mentions_def by (metis in_set_conv_nth)
  qed
  then show ?thesis using run r(2,4) by blast
qed

text \<open>A filter in use: keys are inserted and transactions are matched.\<close>

inductive filter_run :: "hasher \<Rightarrow> CBloomFilter \<Rightarrow> CBloomFilter \<Rightarrow> bool" for H f where
  start: "filter_run H f f"
| insert: "filter_run H f f1 \<Longrightarrow> bloom_insert f1 vKey = Some f2 \<Longrightarrow> filter_run H f f2"
| match: "filter_run H f f1 \<Longrightarrow> IsRelevantAndUpdate H tx f1 = Some (found, f2) \<Longrightarrow> filter_run H f f2"

lemma filter_run_grown: "filter_run H f f' \<Longrightarrow> filter_ok f \<Longrightarrow> grown f f' \<and> filter_ok f'"
proof (induction rule: filter_run.induct)
  case (insert f1 vKey f2)
  then have "grown f1 f2" using bloom_insert_spec [of f1 vKey] by auto
  then show ?case using insert grown_trans grown_ok by blast
next
  case (match f1 tx found f2)
  then have "grown f1 f2" using IsRelevantAndUpdate_spec [of f1 H tx] by auto
  then show ?case using match grown_trans grown_ok by blast
qed simp

lemma inserted_key_is_found:
  assumes "filter_ok f" "bloom_insert f vKey = Some f1" "filter_run H f1 f2" "mentions H tx vKey"
  shows "\<exists>f3. IsRelevantAndUpdate H tx f2 = Some (True, f3)"
proof -
  have f1: "grown f f1" "holds f1 vKey" using bloom_insert_spec [OF assms(1), of vKey] assms(2) by auto
  note ok1 = grown_ok [OF f1(1) assms(1)]
  note g = filter_run_grown [OF assms(3) ok1]
  have "holds f2 vKey" using grown_holds [OF _ _ f1(2), of f2] g ok1 by (auto simp: filter_ok_def)
  then show ?thesis using IsRelevantAndUpdate_spec [of f2 H tx] g assms(4) by auto
qed

text \<open>With \<open>BLOOM_UPDATE_ALL\<close> the transaction that spends a matched output is matched as well.\<close>

lemma spender_is_found:
  assumes "filter_ok f" "updates_all f" "IsRelevantAndUpdate H tx f = Some (found, f1)" "filter_run H f1 f2"
    and "j < length (vout tx)" "script_matches f (scriptPubKey (vout tx ! j))"
    and "inp \<in> set (vin tx')" "prevout inp = \<lparr>op_hash = tx_GetHash H tx, op_n = of_nat j\<rparr>"
  shows "\<exists>f3. IsRelevantAndUpdate H tx' f2 = Some (True, f3)"
proof -
  let ?k = "ser_COutPoint (prevout inp)"
  have f1: "grown f f1" "holds f1 ?k" using IsRelevantAndUpdate_spec [OF assms(1), of H tx] assms(2,3,5,6,8) by auto
  note ok1 = grown_ok [OF f1(1) assms(1)]
  note g = filter_run_grown [OF assms(4) ok1]
  have "holds f2 ?k" using grown_holds [OF _ _ f1(2), of f2] g ok1 by (auto simp: filter_ok_def)
  moreover have "mentions H tx' ?k" using assms(7) by (auto simp: mentions_def)
  ultimately show ?thesis using IsRelevantAndUpdate_spec [of f2 H tx'] g by auto
qed

lemma UpdateEmptyFull_ok: "filter_ok (UpdateEmptyFull f)"
  by (simp add: filter_ok_def UpdateEmptyFull_def)

lemma CBloomFilter_default_ok: "filter_ok CBloomFilter_default"
  by (simp add: filter_ok_def CBloomFilter_default_def)

end
