(* ===== verification/Partial_Merkle.thy ===== *)
theory Partial_Merkle
  imports Merkle "HOL-Library.Monad_Syntax"
begin

text \<open>
  Partial Merkle trees (\<open>merkleblock.h\<close>, \<open>merkleblock.cpp\<close>): the proof that some transactions are in a
  block.  A tree built from a block's transactions gives back the root and the matched transactions,
  also over the wire; and whatever tree a peer sends, the transactions it proves are those of the block
  at the positions it states, unless it exhibits a collision of the hash function.
\<close>

record CPartialMerkleTree =
  pmt_nTransactions :: u32
  vBits :: "bool list"
  vHash :: "uint256 list"
  fBad :: bool

definition MIN_TRANSACTION_WEIGHT :: nat where
  "MIN_TRANSACTION_WEIGHT = WITNESS_SCALE_FACTOR * 60"

definition CalcTreeWidth :: "u32 \<Rightarrow> nat \<Rightarrow> u32" where
  "CalcTreeWidth n height = drop_bit height (n + push_bit height 1 - 1)"

text \<open>\<open>None\<close> is the failed assertion or an access out of range.\<close>

fun CalcHash :: "hasher \<Rightarrow> u32 \<Rightarrow> nat \<Rightarrow> u32 \<Rightarrow> uint256 list \<Rightarrow> uint256 option" where
  "CalcHash H n 0 pos vTxid = (if length vTxid = 0 \<or> length vTxid \<le> unat pos then None else Some (vTxid ! unat pos))"
| "CalcHash H n (Suc height) pos vTxid =
     (if length vTxid = 0 then None
      else do {
        left \<leftarrow> CalcHash H n height (pos * 2) vTxid;
        right \<leftarrow> (if pos * 2 + 1 < CalcTreeWidth n height then CalcHash H n height (pos * 2 + 1) vTxid else Some left);
        Some (H (left @ right)) })"

text \<open>The loop over the leaves below a node.\<close>

definition any_match :: "bool list \<Rightarrow> nat list \<Rightarrow> bool option" where
  "any_match vMatch ps = (if list_ex (\<lambda>p. length vMatch \<le> p) ps then None else Some (list_ex (\<lambda>p. vMatch ! p) ps))"

definition leaves_below :: "u32 \<Rightarrow> nat \<Rightarrow> u32 \<Rightarrow> nat list" where
  "leaves_below n height pos = [unat (push_bit height pos)..<min (unat (push_bit height (pos + 1))) (unat n)]"

fun TraverseAndBuild :: "hasher \<Rightarrow> nat \<Rightarrow> u32 \<Rightarrow> uint256 list \<Rightarrow> bool list \<Rightarrow> CPartialMerkleTree \<Rightarrow> CPartialMerkleTree option" where
  "TraverseAndBuild H 0 pos vTxid vMatch t = do {
     fParentOfMatch \<leftarrow> any_match vMatch (leaves_below (pmt_nTransactions t) 0 pos);
     hash \<leftarrow> CalcHash H (pmt_nTransactions t) 0 pos vTxid;
     Some (t\<lparr>vBits := vBits t @ [fParentOfMatch], vHash := vHash t @ [hash]\<rparr>) }"
| "TraverseAndBuild H (Suc height) pos vTxid vMatch t = do {
     fParentOfMatch \<leftarrow> any_match vMatch (leaves_below (pmt_nTransactions t) (Suc height) pos);
     let t = t\<lparr>vBits := vBits t @ [fParentOfMatch]\<rparr>;
     if \<not> fParentOfMatch
     then do { hash \<leftarrow> CalcHash H (pmt_nTransactions t) (Suc height) pos vTxid; Some (t\<lparr>vHash := vHash t @ [hash]\<rparr>) }
     else do {
       t \<leftarrow> TraverseAndBuild H height (pos * 2) vTxid vMatch t;
       if pos * 2 + 1 < CalcTreeWidth (pmt_nTransactions t) height
       then TraverseAndBuild H height (pos * 2 + 1) vTxid vMatch t else Some t } }"

text \<open>What the traversal of a received tree updates; \<open>xt_bad\<close> is the tree's \<open>fBad\<close>.\<close>

record extract_state =
  nBitsUsed :: nat
  nHashUsed :: nat
  xt_vMatch :: "uint256 list"
  xt_vnIndex :: "u32 list"
  xt_bad :: bool

fun TraverseAndExtract :: "hasher \<Rightarrow> CPartialMerkleTree \<Rightarrow> nat \<Rightarrow> u32 \<Rightarrow> extract_state \<Rightarrow> uint256 \<times> extract_state" where
  "TraverseAndExtract H t 0 pos s =
     (if nBitsUsed s \<ge> length (vBits t) then (uint256_null, s\<lparr>xt_bad := True\<rparr>)
      else let fParentOfMatch = vBits t ! nBitsUsed s; s = s\<lparr>nBitsUsed := nBitsUsed s + 1\<rparr>
           in if nHashUsed s \<ge> length (vHash t) then (uint256_null, s\<lparr>xt_bad := True\<rparr>)
              else let hash = vHash t ! nHashUsed s; s = s\<lparr>nHashUsed := nHashUsed s + 1\<rparr>
                   in (hash, if fParentOfMatch then s\<lparr>xt_vMatch := xt_vMatch s @ [hash], xt_vnIndex := xt_vnIndex s @ [pos]\<rparr> else s))"
| "TraverseAndExtract H t (Suc height) pos s =
     (if nBitsUsed s \<ge> length (vBits t) then (uint256_null, s\<lparr>xt_bad := True\<rparr>)
      else let fParentOfMatch = vBits t ! nBitsUsed s; s = s\<lparr>nBitsUsed := nBitsUsed s + 1\<rparr>
           in if \<not> fParentOfMatch
              then (if nHashUsed s \<ge> length (vHash t) then (uint256_null, s\<lparr>xt_bad := True\<rparr>)
                    else (vHash t ! nHashUsed s, s\<lparr>nHashUsed := nHashUsed s + 1\<rparr>))
              else let (left, s) = TraverseAndExtract H t height (pos * 2) s
                   in if pos * 2 + 1 < CalcTreeWidth (pmt_nTransactions t) height
                      then let (right, s) = TraverseAndExtract H t height (pos * 2 + 1) s
                           in (H (left @ right), if right = left then s\<lparr>xt_bad := True\<rparr> else s)
                      else (H (left @ left), s))"

function tree_height :: "u32 \<Rightarrow> nat \<Rightarrow> nat" where
  "tree_height n height = (if CalcTreeWidth n height > 1 then tree_height n (height + 1) else height)"
  by pat_completeness auto
termination
proof (relation "measure (\<lambda>(n, height). 32 - height)")
  fix n and height :: nat
  assume "CalcTreeWidth n height > 1"
  moreover have "height \<ge> 32 \<Longrightarrow> CalcTreeWidth n height = 0"
    unfolding CalcTreeWidth_def by (intro bit_eqI) (auto simp: bit_drop_bit_eq dest: bit_imp_le_length)
  ultimately show "((n, height + 1), n, height) \<in> measure (\<lambda>(n, height). 32 - height)" by force
qed simp

declare tree_height.simps [simp del]

definition CPartialMerkleTree_of :: "hasher \<Rightarrow> uint256 list \<Rightarrow> bool list \<Rightarrow> CPartialMerkleTree option" where
  "CPartialMerkleTree_of H vTxid vMatch =
     (let n = of_nat (length vTxid)
      in TraverseAndBuild H (tree_height n 0) 0 vTxid vMatch \<lparr>pmt_nTransactions = n, vBits = [], vHash = [], fBad = False\<rparr>)"

definition CPartialMerkleTree_empty :: CPartialMerkleTree where
  "CPartialMerkleTree_empty = \<lparr>pmt_nTransactions = 0, vBits = [], vHash = [], fBad = True\<rparr>"

text \<open>The root or the null hash, the matches, and the positions, which are appended to the caller's.\<close>

definition ExtractMatches :: "hasher \<Rightarrow> CPartialMerkleTree \<Rightarrow> u32 list \<Rightarrow> uint256 \<times> uint256 list \<times> u32 list \<times> CPartialMerkleTree" where
  "ExtractMatches H t vnIndex =
     (let n = pmt_nTransactions t
      in if n = 0 then (uint256_null, [], vnIndex, t)
         else if unat n > MAX_BLOCK_WEIGHT div MIN_TRANSACTION_WEIGHT then (uint256_null, [], vnIndex, t)
         else if length (vHash t) > unat n then (uint256_null, [], vnIndex, t)
         else if length (vBits t) < length (vHash t) then (uint256_null, [], vnIndex, t)
         else let (hashMerkleRoot, s) = TraverseAndExtract H t (tree_height n 0) 0
                     \<lparr>nBitsUsed = 0, nHashUsed = 0, xt_vMatch = [], xt_vnIndex = vnIndex, xt_bad = fBad t\<rparr>;
                  root = (if xt_bad s then uint256_null
                          else if (nBitsUsed s + 7) div 8 \<noteq> (length (vBits t) + 7) div 8 then uint256_null
                          else if nHashUsed s \<noteq> length (vHash t) then uint256_null
                          else hashMerkleRoot)
              in (root, xt_vMatch s, xt_vnIndex s, t\<lparr>fBad := xt_bad s\<rparr>))"

section \<open>Over the wire\<close>

fun byte_of_bits :: "bool list \<Rightarrow> u8" where
  "byte_of_bits [] = 0"
| "byte_of_bits (b # bs) = (if b then 1 else 0) OR push_bit 1 (byte_of_bits bs)"

text \<open>Bit \<open>p\<close> is bit \<open>p % 8\<close> of byte \<open>p / 8\<close>.\<close>

definition pack_bits :: "bool list \<Rightarrow> bytes" where
  "pack_bits bs = map (\<lambda>j. byte_of_bits (take 8 (drop (8 * j) bs))) [0..<(length bs + 7) div 8]"

definition unpack_bits :: "bytes \<Rightarrow> bool list" where
  "unpack_bits vBytes = map (\<lambda>p. (vBytes ! (p div 8)) AND push_bit (p mod 8) 1 \<noteq> 0) [0..<8 * length vBytes]"

definition ser_CPartialMerkleTree :: "CPartialMerkleTree \<Rightarrow> bytes" where
  "ser_CPartialMerkleTree t =
     ser_writedata32 (pmt_nTransactions t) @ ser_vector ser_uint256 (vHash t) @ ser_byte_vector (pack_bits (vBits t))"

definition unser_CPartialMerkleTree :: "CPartialMerkleTree parser" where
  "unser_CPartialMerkleTree = pbind ser_readdata32 (\<lambda>n. pbind (unser_vector unser_uint256) (\<lambda>hs. pbind unser_byte_vector (\<lambda>vBytes.
     preturn \<lparr>pmt_nTransactions = n, vBits = unpack_bits vBytes, vHash = hs, fBad = False\<rparr>)))"

section \<open>Widths and heights\<close>

lemma unat_push_u32: "unat (a :: u32) * 2 ^ k < 2 ^ 32 \<Longrightarrow> unat (push_bit k a) = unat a * 2 ^ k"
  unfolding unsigned_push_bit_eq by (simp add: push_bit_eq_mult take_bit_nat_eq_self)

lemma unat_plus_u32: "unat (a :: u32) + unat b < 2 ^ 32 \<Longrightarrow> unat (a + b) = unat a + unat b"
  by (simp add: unat_word_ariths)

lemma unat_times_u32: "unat (a :: u32) * unat b < 2 ^ 32 \<Longrightarrow> unat (a * b) = unat a * unat b"
  by (simp add: unat_word_ariths)

lemma pow_le_31: "h \<le> 31 \<Longrightarrow> (2 :: nat) ^ h \<le> 2 ^ 31"
  by (intro power_increasing) simp_all

lemma width_nat:
  assumes "unat n < 2 ^ 31" "height \<le> 31"
  shows "unat (CalcTreeWidth n height) = (unat n + 2 ^ height - 1) div 2 ^ height"
proof -
  note p = pow_le_31 [OF assms(2)]
  have u: "unat (push_bit height 1 :: u32) = 2 ^ height" using p by (subst unat_push_u32) simp_all
  then have s: "unat (n + push_bit height 1) = unat n + 2 ^ height" using assms(1) p by (subst unat_plus_u32) simp_all
  then have "1 \<le> n + push_bit height 1" unfolding word_le_nat_alt by (simp add: Suc_le_eq)
  then have "unat (n + push_bit height 1 - 1) = unat n + 2 ^ height - 1" using s by (simp add: unat_sub)
  then show ?thesis by (simp add: CalcTreeWidth_def unat_drop_bit)
qed

text \<open>A position is in the tree when a leaf is below it.\<close>

lemma less_width:
  "(k :: nat) < (n + 2 ^ h - 1) div 2 ^ h \<longleftrightarrow> k * 2 ^ h < n"
proof -
  have "k < (n + 2 ^ h - 1) div 2 ^ h \<longleftrightarrow> (k + 1) * 2 ^ h \<le> n + 2 ^ h - 1" by (simp add: less_eq_div_iff_mult_less_eq flip: Suc_le_eq)
  also have "\<dots> \<longleftrightarrow> k * 2 ^ h + 2 ^ h \<le> n + 2 ^ h - 1" by (simp add: add.commute)
  also have "\<dots> \<longleftrightarrow> k * 2 ^ h < n" using zero_less_power [of "2 :: nat" h] by linarith
  finally show ?thesis .
qed

lemma in_width:
  assumes "unat n < 2 ^ 31" "h \<le> 31"
  shows "pos < CalcTreeWidth n h \<longleftrightarrow> unat pos * 2 ^ h < unat n"
  using less_width [of "unat pos" "unat n" h] by (simp add: word_less_nat_alt width_nat [OF assms])

lemma tree_height_spec:
  "0 < unat n \<Longrightarrow> unat n < 2 ^ 31 \<Longrightarrow> h \<le> 31 \<Longrightarrow> h = 0 \<or> 2 ^ (h - 1) < unat n \<Longrightarrow>
   tree_height n h \<le> 31 \<and> unat n \<le> 2 ^ tree_height n h \<and> (tree_height n h = 0 \<or> 2 ^ (tree_height n h - 1) < unat n)"
proof (induction n h rule: tree_height.induct)
  case (1 n h)
  have w: "CalcTreeWidth n h > 1 \<longleftrightarrow> 2 ^ h < unat n" using in_width [of n h 1] "1.prems" by simp
  show ?case
  proof (cases "2 ^ h < unat n")
    case True
    have "h \<noteq> 31" using True "1.prems"(2) by auto
    then have "h + 1 \<le> 31" using "1.prems"(3) by simp
    then show ?thesis using "1.IH" w True "1.prems"(1,2) by (subst (1 2 3 4) tree_height.simps) simp
  next
    case False
    then have "tree_height n h = h" using w by (subst tree_height.simps) simp
    then show ?thesis using False "1.prems" by simp
  qed
qed

text \<open>The children of a node.\<close>

lemma child_pos:
  fixes pos :: u32
  assumes "unat pos * 2 ^ Suc h < N" "N < 2 ^ 31"
  shows "unat (pos * 2) = unat pos * 2" "unat (pos * 2 + 1) = unat pos * 2 + 1" "unat (pos * 2) * 2 ^ h < N"
proof -
  have "unat pos * 2 * 1 \<le> unat pos * 2 * 2 ^ h" by (intro mult_le_mono2) simp
  moreover have "unat pos * 2 * 2 ^ h = unat pos * 2 ^ Suc h" by simp
  ultimately have b: "unat pos * 2 < 2 ^ 31" using assms by linarith
  then show u: "unat (pos * 2) = unat pos * 2" by (subst unat_times_u32) simp_all
  then show "unat (pos * 2 + 1) = unat pos * 2 + 1" using b by (subst unat_plus_u32) simp_all
  show "unat (pos * 2) * 2 ^ h < N" using assms(1) u by (simp add: mult.assoc)
qed

lemma CalcHash_node:
  assumes "length v < 2 ^ 31" "h \<le> 31" "unat pos * 2 ^ h < length v"
  shows "CalcHash H (of_nat (length v)) h pos v = Some (node H v h (unat pos))"
  using assms(2,3)
proof (induction h arbitrary: pos)
  case 0
  then show ?case by (auto simp: node_leaf)
next
  case (Suc h)
  have n: "unat (of_nat (length v) :: u32) = length v" using assms(1) by (simp add: unat_of_nat_u32)
  note c = child_pos [OF Suc.prems(2) assms(1)]
  have left: "CalcHash H (of_nat (length v)) h (pos * 2) v = Some (node H v h (2 * unat pos))"
    using Suc.IH [of "pos * 2"] Suc.prems(1) c(1,3) by (simp add: mult.commute)
  have w: "pos * 2 + 1 < CalcTreeWidth (of_nat (length v)) h \<longleftrightarrow> (2 * unat pos + 1) * 2 ^ h < length v"
    using in_width [of "of_nat (length v)" h "pos * 2 + 1"] n assms(1) Suc.prems(1) c(2) by (simp add: mult.commute)
  show ?case
  proof (cases "(2 * unat pos + 1) * 2 ^ h < length v")
    case True
    then have "CalcHash H (of_nat (length v)) h (pos * 2 + 1) v = Some (node H v h (2 * unat pos + 1))"
      using Suc.IH [of "pos * 2 + 1"] Suc.prems(1) c(2) by (simp add: mult.commute)
    then show ?thesis using left w True assms(1) by (simp add: node_pair) auto
  next
    case False
    then show ?thesis using left w Suc.prems(2) node_single [of v "unat pos" h H] by auto
  qed
qed

section \<open>A tree that was built is read back\<close>

text \<open>The leaves below a node.\<close>

definition span :: "nat \<Rightarrow> nat \<Rightarrow> nat \<Rightarrow> nat list" where
  "span N h k = [k * 2 ^ h..<min ((k + 1) * 2 ^ h) N]"

lemma span_leaf: "k < N \<Longrightarrow> span N 0 k = [k]"
  by (simp add: span_def)

lemma upt_append: "a \<le> b \<Longrightarrow> b \<le> c \<Longrightarrow> [a..<c] = [a..<b] @ [b..<c]"
  by (metis le_add_diff_inverse upt_add_eq_append)

lemma span_split: "span N (Suc h) k = span N h (2 * k) @ span N h (2 * k + 1)"
proof -
  let ?a = "k * 2 ^ Suc h" and ?b = "(2 * k + 1) * 2 ^ h" and ?c = "(k + 1) * 2 ^ Suc h"
  have e: "2 * k * 2 ^ h = ?a" "(2 * k + 1 + 1) * 2 ^ h = ?c" by (simp_all add: algebra_simps)
  have "?a \<le> ?b" "?b \<le> ?c" by (simp_all add: algebra_simps)
  then have "[?a..<min ?c N] = [?a..<min ?b N] @ [?b..<min ?c N]"
    using upt_append [of ?a ?b "min ?c N"] by (cases "N \<le> ?b") (auto simp: min_def)
  then show ?thesis by (simp only: span_def e)
qed

lemma leaves_below_span:
  assumes "N < 2 ^ 31" "h \<le> 31" "unat pos * 2 ^ h < N"
  shows "leaves_below (of_nat N) h pos = span N h (unat pos)"
proof -
  note p = pow_le_31 [OF assms(2)]
  have n: "unat (of_nat N :: u32) = N" using assms(1) by (simp add: unat_of_nat_u32)
  have a: "unat (push_bit h pos) = unat pos * 2 ^ h" using assms(1,3) by (intro unat_push_u32) simp
  have "unat pos * 1 \<le> unat pos * 2 ^ h" by (intro mult_le_mono2) simp
  then have "unat pos < 2 ^ 31" using assms(1,3) by linarith
  then have "unat (pos + 1) = unat pos + 1" by (subst unat_plus_u32) simp_all
  moreover have "(unat pos + 1) * 2 ^ h < 2 ^ 32" using assms p by (simp add: algebra_simps)
  ultimately have "unat (push_bit h (pos + 1)) = (unat pos + 1) * 2 ^ h" using unat_push_u32 [of "pos + 1" h] by simp
  then show ?thesis using a n by (simp add: leaves_below_def span_def)
qed

text \<open>No two neighbouring subtrees are the same, as holds for the transactions of a block.\<close>

definition no_twins :: "hasher \<Rightarrow> uint256 list \<Rightarrow> bool" where
  "no_twins H v \<longleftrightarrow> (\<forall>h k. (2 * k + 1) * 2 ^ h < length v \<longrightarrow> node H v h (2 * k) \<noteq> node H v h (2 * k + 1))"

definition extracts :: "hasher \<Rightarrow> uint256 list \<Rightarrow> bool list \<Rightarrow> nat \<Rightarrow> u32 \<Rightarrow> bool list \<Rightarrow> uint256 list \<Rightarrow> bool" where
  "extracts H v m h pos bs hs \<longleftrightarrow> (\<forall>t s rb rh. pmt_nTransactions t = of_nat (length v) \<longrightarrow>
     drop (nBitsUsed s) (vBits t) = bs @ rb \<longrightarrow> drop (nHashUsed s) (vHash t) = hs @ rh \<longrightarrow>
     TraverseAndExtract H t h pos s = (node H v h (unat pos),
       s\<lparr>nBitsUsed := nBitsUsed s + length bs, nHashUsed := nHashUsed s + length hs,
         xt_vMatch := xt_vMatch s @ map ((!) v) (filter ((!) m) (span (length v) h (unat pos))),
         xt_vnIndex := xt_vnIndex s @ map of_nat (filter ((!) m) (span (length v) h (unat pos)))\<rparr>))"

lemma drop_Cons_nth: "drop k xs = x # ys \<Longrightarrow> k < length xs \<and> xs ! k = x \<and> drop (Suc k) xs = ys"
  by (metis Cons_nth_drop_Suc drop_all leI list.distinct(1) list.inject)

lemma extracts_leaf:
  assumes "unat pos < length v"
  shows "extracts H v m 0 pos [m ! unat pos] [v ! unat pos]"
  unfolding extracts_def using assms
  by (auto simp: node_leaf span_leaf Let_def dest!: drop_Cons_nth)

lemma extracts_pruned:
  assumes "filter ((!) m) (span (length v) (Suc h) (unat pos)) = []"
  shows "extracts H v m (Suc h) pos [False] [node H v (Suc h) (unat pos)]"
  unfolding extracts_def using assms
  by (auto simp: Let_def dest!: drop_Cons_nth)

lemma drop_add_append: "drop k xs = as @ bs \<Longrightarrow> drop (k + length as) xs = bs"
  by (metis add.commute append_eq_conv_conj drop_drop)

lemma extracts_both:
  assumes v: "length v < 2 ^ 31" "h < 31" "unat pos * 2 ^ Suc h < length v" "(2 * unat pos + 1) * 2 ^ h < length v"
    and l: "extracts H v m h (pos * 2) bs1 hs1" and r: "extracts H v m h (pos * 2 + 1) bs2 hs2" and "no_twins H v"
  shows "extracts H v m (Suc h) pos (True # bs1 @ bs2) (hs1 @ hs2)"
  unfolding extracts_def
proof (intro allI impI)
  fix t :: CPartialMerkleTree and s :: extract_state and rb rh
  assume t: "pmt_nTransactions t = of_nat (length v)" "drop (nBitsUsed s) (vBits t) = (True # bs1 @ bs2) @ rb"
    "drop (nHashUsed s) (vHash t) = (hs1 @ hs2) @ rh"
  note c = child_pos [OF v(3,1)]
  note b = drop_Cons_nth [OF t(2) [simplified]]
  let ?s1 = "s\<lparr>nBitsUsed := nBitsUsed s + 1\<rparr>"
  have s1: "drop (nBitsUsed ?s1) (vBits t) = bs1 @ (bs2 @ rb)" "drop (nHashUsed ?s1) (vHash t) = hs1 @ (hs2 @ rh)"
    using b t(3) by simp_all
  let ?ms = "\<lambda>k. filter ((!) m) (span (length v) h k)"
  let ?s2 = "?s1\<lparr>nBitsUsed := nBitsUsed ?s1 + length bs1, nHashUsed := nHashUsed s + length hs1,
    xt_vMatch := xt_vMatch s @ map ((!) v) (?ms (2 * unat pos)), xt_vnIndex := xt_vnIndex s @ map of_nat (?ms (2 * unat pos))\<rparr>"
  have e1: "TraverseAndExtract H t h (pos * 2) ?s1 = (node H v h (2 * unat pos), ?s2)"
    using l [unfolded extracts_def, rule_format, OF t(1) s1] c(1) by (simp add: mult.commute)
  have s2: "drop (nBitsUsed ?s2) (vBits t) = bs2 @ rb" "drop (nHashUsed ?s2) (vHash t) = hs2 @ rh"
    using drop_add_append [OF s1(1)] drop_add_append [OF s1(2)] by simp_all
  have e2: "TraverseAndExtract H t h (pos * 2 + 1) ?s2 = (node H v h (2 * unat pos + 1),
    ?s2\<lparr>nBitsUsed := nBitsUsed ?s2 + length bs2, nHashUsed := nHashUsed ?s2 + length hs2,
      xt_vMatch := xt_vMatch ?s2 @ map ((!) v) (?ms (2 * unat pos + 1)), xt_vnIndex := xt_vnIndex ?s2 @ map of_nat (?ms (2 * unat pos + 1))\<rparr>)"
    using r [unfolded extracts_def, rule_format, OF t(1) s2] c(2) by (simp add: mult.commute)
  have w: "pos * 2 + 1 < CalcTreeWidth (of_nat (length v)) h"
    using in_width [of "of_nat (length v)" h "pos * 2 + 1"] v c(2) by (simp add: unat_of_nat_u32 mult.commute)
  have twins: "node H v h (2 * unat pos + 1) \<noteq> node H v h (2 * unat pos)" using assms(7) v(4) unfolding no_twins_def by metis
  have p: "node H v (Suc h) (unat pos) = H (node H v h (2 * unat pos) @ node H v h (2 * unat pos + 1))" by (rule node_pair [OF v(4)])
  have step: "TraverseAndExtract H t (Suc h) pos s =
    (let (left, s) = TraverseAndExtract H t h (pos * 2) ?s1
     in let (right, s) = TraverseAndExtract H t h (pos * 2 + 1) s in (H (left @ right), if right = left then s\<lparr>xt_bad := True\<rparr> else s))"
    using b w t(1) by (simp add: Let_def)
  show "TraverseAndExtract H t (Suc h) pos s = (node H v (Suc h) (unat pos),
       s\<lparr>nBitsUsed := nBitsUsed s + length (True # bs1 @ bs2), nHashUsed := nHashUsed s + length (hs1 @ hs2),
         xt_vMatch := xt_vMatch s @ map ((!) v) (filter ((!) m) (span (length v) (Suc h) (unat pos))),
         xt_vnIndex := xt_vnIndex s @ map of_nat (filter ((!) m) (span (length v) (Suc h) (unat pos)))\<rparr>)"
    unfolding step e1 Let_def prod.case e2 p span_split using twins by simp
qed

lemma extracts_single:
  assumes v: "length v < 2 ^ 31" "h < 31" "unat pos * 2 ^ Suc h < length v" "length v \<le> (2 * unat pos + 1) * 2 ^ h"
    and l: "extracts H v m h (pos * 2) bs1 hs1"
  shows "extracts H v m (Suc h) pos (True # bs1) hs1"
  unfolding extracts_def
proof (intro allI impI)
  fix t :: CPartialMerkleTree and s :: extract_state and rb rh
  assume t: "pmt_nTransactions t = of_nat (length v)" "drop (nBitsUsed s) (vBits t) = (True # bs1) @ rb"
    "drop (nHashUsed s) (vHash t) = hs1 @ rh"
  note c = child_pos [OF v(3,1)]
  note b = drop_Cons_nth [OF t(2) [simplified]]
  let ?s1 = "s\<lparr>nBitsUsed := nBitsUsed s + 1\<rparr>"
  have s1: "drop (nBitsUsed ?s1) (vBits t) = bs1 @ rb" "drop (nHashUsed ?s1) (vHash t) = hs1 @ rh"
    using b t(3) by simp_all
  note e1 = l [unfolded extracts_def, rule_format, OF t(1) s1]
  have w: "\<not> pos * 2 + 1 < CalcTreeWidth (of_nat (length v)) h"
    using in_width [of "of_nat (length v)" h "pos * 2 + 1"] v c(2) by (simp add: unat_of_nat_u32 mult.commute)
  have "span (length v) h (2 * unat pos + 1) = []" using v(4) by (simp add: span_def)
  then have s: "span (length v) (Suc h) (unat pos) = span (length v) h (2 * unat pos)" by (simp add: span_split)
  have step: "TraverseAndExtract H t (Suc h) pos s =
    (let (left, s) = TraverseAndExtract H t h (pos * 2) ?s1 in (H (left @ left), s))"
    using b w t(1) by (simp add: Let_def)
  show "TraverseAndExtract H t (Suc h) pos s = (node H v (Suc h) (unat pos),
       s\<lparr>nBitsUsed := nBitsUsed s + length (True # bs1), nHashUsed := nHashUsed s + length hs1,
         xt_vMatch := xt_vMatch s @ map ((!) v) (filter ((!) m) (span (length v) (Suc h) (unat pos))),
         xt_vnIndex := xt_vnIndex s @ map of_nat (filter ((!) m) (span (length v) (Suc h) (unat pos)))\<rparr>)"
    unfolding step e1 Let_def prod.case node_single [OF v(4)] s using c(1) by (simp add: mult.commute)
qed

lemma span_nonempty: "k * 2 ^ h < N \<Longrightarrow> span N h k \<noteq> []"
proof -
  assume "k * 2 ^ h < N"
  moreover have "k * 2 ^ h < (k + 1) * 2 ^ h" by simp
  ultimately have "k * 2 ^ h \<in> set (span N h k)" by (simp add: span_def)
  then show ?thesis by auto
qed

lemma any_match_span:
  "length m = N \<Longrightarrow> any_match m (span N h k) = Some (filter ((!) m) (span N h k) \<noteq> [])"
  by (auto simp: any_match_def span_def list_ex_iff filter_empty_conv)

lemma TraverseAndBuild_spec:
  assumes v: "length v < 2 ^ 31" "length m = length v" "no_twins H v" "h \<le> 31" "unat pos * 2 ^ h < length v"
    "pmt_nTransactions t = of_nat (length v)"
  shows "\<exists>bs hs. TraverseAndBuild H h pos v m t = Some (t\<lparr>vBits := vBits t @ bs, vHash := vHash t @ hs\<rparr>) \<and>
    extracts H v m h pos bs hs \<and> length hs \<le> length bs \<and> length hs \<le> length (span (length v) h (unat pos))"
  using v(4-6)
proof (induction h arbitrary: pos t)
  case 0
  then have p: "unat pos < length v" by simp
  have l: "leaves_below (of_nat (length v)) 0 pos = span (length v) 0 (unat pos)" using leaves_below_span [OF v(1) _ 0(2)] by simp
  have "any_match m (leaves_below (pmt_nTransactions t) 0 pos) = Some (m ! unat pos)"
    using any_match_span [OF v(2), of 0 "unat pos"] p unfolding 0(3) l by (simp add: span_leaf)
  moreover have "CalcHash H (pmt_nTransactions t) 0 pos v = Some (v ! unat pos)" using p by auto
  ultimately have "TraverseAndBuild H 0 pos v m t = Some (t\<lparr>vBits := vBits t @ [m ! unat pos], vHash := vHash t @ [v ! unat pos]\<rparr>)"
    by simp
  with extracts_leaf [OF p] p show ?case by (intro exI [of _ "[m ! unat pos]"] exI [of _ "[v ! unat pos]"]) (simp add: span_leaf)
next
  case (Suc h)
  let ?N = "length v" and ?ms = "filter ((!) m) (span (length v) (Suc h) (unat pos))"
  have l: "leaves_below (of_nat ?N) (Suc h) pos = span ?N (Suc h) (unat pos)" by (rule leaves_below_span [OF v(1) Suc.prems(1,2)])
  have any: "any_match m (leaves_below (pmt_nTransactions t) (Suc h) pos) = Some (?ms \<noteq> [])"
    unfolding Suc.prems(3) l by (rule any_match_span [OF v(2)])
  have ne: "span ?N (Suc h) (unat pos) \<noteq> []" using Suc.prems(2) by (rule span_nonempty)
  show ?case
  proof (cases "?ms = []")
    case True
    have "CalcHash H (of_nat ?N) (Suc h) pos v = Some (node H v (Suc h) (unat pos))"
      by (rule CalcHash_node [OF v(1) Suc.prems(1,2)])
    then have "TraverseAndBuild H (Suc h) pos v m t = Some (t\<lparr>vBits := vBits t @ [False], vHash := vHash t @ [node H v (Suc h) (unat pos)]\<rparr>)"
      using any True Suc.prems(3) by (simp del: CalcHash.simps)
    with extracts_pruned [OF True] ne show ?thesis
      by (intro exI [of _ "[False]"] exI [of _ "[node H v (Suc h) (unat pos)]"]) (simp add: Suc_le_eq)
  next
    case False
    note c = child_pos [OF Suc.prems(2) v(1)]
    have h: "h \<le> 31" "h < 31" using Suc.prems(1) by simp_all
    let ?t1 = "t\<lparr>vBits := vBits t @ [True]\<rparr>"
    obtain bs1 hs1 where one: "TraverseAndBuild H h (pos * 2) v m ?t1 = Some (?t1\<lparr>vBits := vBits ?t1 @ bs1, vHash := vHash ?t1 @ hs1\<rparr>)"
      "extracts H v m h (pos * 2) bs1 hs1" "length hs1 \<le> length bs1" "length hs1 \<le> length (span ?N h (2 * unat pos))"
      using Suc.IH [OF h(1) c(3), of ?t1] Suc.prems(3) c(1) by (auto simp: mult.commute)
    let ?t2 = "t\<lparr>vBits := vBits t @ True # bs1, vHash := vHash t @ hs1\<rparr>"
    have w: "pos * 2 + 1 < CalcTreeWidth (of_nat ?N) h \<longleftrightarrow> (2 * unat pos + 1) * 2 ^ h < ?N"
      using in_width [of "of_nat ?N" h "pos * 2 + 1"] v(1) h c(2) by (simp add: unat_of_nat_u32 mult.commute)
    have b: "TraverseAndBuild H (Suc h) pos v m t =
      (if pos * 2 + 1 < CalcTreeWidth (of_nat ?N) h then TraverseAndBuild H h (pos * 2 + 1) v m ?t2 else Some ?t2)"
      using any False one(1) Suc.prems(3) by (simp add: Let_def)
    show ?thesis
    proof (cases "(2 * unat pos + 1) * 2 ^ h < ?N")
      case True
      then have p2: "unat (pos * 2 + 1) * 2 ^ h < ?N" using c(2) by (simp add: mult.commute)
      obtain bs2 hs2 where two: "TraverseAndBuild H h (pos * 2 + 1) v m ?t2 = Some (?t2\<lparr>vBits := vBits ?t2 @ bs2, vHash := vHash ?t2 @ hs2\<rparr>)"
        "extracts H v m h (pos * 2 + 1) bs2 hs2" "length hs2 \<le> length bs2" "length hs2 \<le> length (span ?N h (2 * unat pos + 1))"
        using Suc.IH [OF h(1) p2, of ?t2] Suc.prems(3) c(2) by (auto simp: mult.commute)
      have "TraverseAndBuild H (Suc h) pos v m t = Some (t\<lparr>vBits := vBits t @ (True # bs1 @ bs2), vHash := vHash t @ (hs1 @ hs2)\<rparr>)"
        using b two(1) w True by simp
      moreover note extracts_both [OF v(1) h(2) Suc.prems(2) True one(2) two(2) v(3)]
      ultimately show ?thesis using one(3,4) two(3,4)
        by (intro exI [of _ "True # bs1 @ bs2"] exI [of _ "hs1 @ hs2"]) (simp add: span_split)
    next
      case F: False
      then have "TraverseAndBuild H (Suc h) pos v m t = Some (t\<lparr>vBits := vBits t @ (True # bs1), vHash := vHash t @ hs1\<rparr>)"
        using b w by simp
      moreover have "extracts H v m (Suc h) pos (True # bs1) hs1"
        using F by (intro extracts_single [OF v(1) h(2) Suc.prems(2) _ one(2)]) simp
      ultimately show ?thesis using one(3,4)
        by (intro exI [of _ "True # bs1"] exI [of _ hs1]) (simp add: span_split)
    qed
  qed
qed

lemma merkle_node:
  assumes "0 < length v" "length v < 2 ^ 31"
  shows "node H v (tree_height (of_nat (length v)) 0) 0 = merkle_root H v"
    and "span (length v) (tree_height (of_nat (length v)) 0) 0 = [0..<length v]"
    and "tree_height (of_nat (length v)) 0 \<le> 31"
proof -
  let ?T = "tree_height (of_nat (length v)) 0"
  have n: "unat (of_nat (length v) :: u32) = length v" using assms(2) by (simp add: unat_of_nat_u32)
  have T: "?T \<le> 31 \<and> length v \<le> 2 ^ ?T \<and> (?T = 0 \<or> 2 ^ (?T - 1) < length v)"
    using tree_height_spec [of "of_nat (length v)" 0] assms by (simp add: n)
  then show "node H v ?T 0 = merkle_root H v" using merkle_root_subtree [of v ?T H] assms(1) by (simp add: node_def)
  show "span (length v) ?T 0 = [0..<length v]" using T by (simp add: span_def min_absorb2)
  show "?T \<le> 31" using T by simp
qed

text \<open>The hidden bits at the end of the last byte do not matter.\<close>

lemma ExtractMatches_built:
  assumes v: "0 < length v" "length v \<le> MAX_BLOCK_WEIGHT div MIN_TRANSACTION_WEIGHT" "length m = length v" "no_twins H v"
  shows "\<exists>t. CPartialMerkleTree_of H v m = Some t \<and> pmt_nTransactions t = of_nat (length v) \<and> length (vHash t) \<le> length v \<and>
    \<not> fBad t \<and> (\<forall>pad idx. (length (vBits t) + length pad + 7) div 8 = (length (vBits t) + 7) div 8 \<longrightarrow>
      (\<exists>t'. ExtractMatches H (t\<lparr>vBits := vBits t @ pad\<rparr>) idx =
       (merkle_root H v, map ((!) v) (filter ((!) m) [0..<length v]), idx @ map of_nat (filter ((!) m) [0..<length v]), t')))"
proof -
  let ?n = "of_nat (length v) :: u32"
  let ?T = "tree_height ?n 0"
  have small: "length v < 2 ^ 31" using v(2) by (simp add: MAX_BLOCK_WEIGHT_def MIN_TRANSACTION_WEIGHT_def WITNESS_SCALE_FACTOR_def)
  have n: "unat ?n = length v" using small by (simp add: unat_of_nat_u32)
  note T = merkle_node [OF v(1) small]
  let ?t0 = "\<lparr>pmt_nTransactions = ?n, vBits = [], vHash = [], fBad = False\<rparr>"
  obtain bs hs where b: "TraverseAndBuild H ?T 0 v m ?t0 = Some (?t0\<lparr>vBits := bs, vHash := hs\<rparr>)"
    "extracts H v m ?T 0 bs hs" "length hs \<le> length bs" "length hs \<le> length v"
    using TraverseAndBuild_spec [OF small v(3,4) T(3), of 0 ?t0] v(1) T(2) by auto
  let ?t = "?t0\<lparr>vBits := bs, vHash := hs\<rparr>"
  have "\<exists>t'. ExtractMatches H (?t\<lparr>vBits := vBits ?t @ pad\<rparr>) idx =
       (merkle_root H v, map ((!) v) (filter ((!) m) [0..<length v]), idx @ map of_nat (filter ((!) m) [0..<length v]), t')"
    if pad: "(length (vBits ?t) + length pad + 7) div 8 = (length (vBits ?t) + 7) div 8" for pad idx
  proof -
    let ?t2 = "?t\<lparr>vBits := vBits ?t @ pad\<rparr>"
    let ?s = "\<lparr>nBitsUsed = 0, nHashUsed = 0, xt_vMatch = [], xt_vnIndex = idx, xt_bad = False\<rparr>"
    have "TraverseAndExtract H ?t2 ?T 0 ?s = (merkle_root H v, ?s\<lparr>nBitsUsed := length bs, nHashUsed := length hs,
        xt_vMatch := map ((!) v) (filter ((!) m) [0..<length v]), xt_vnIndex := idx @ map of_nat (filter ((!) m) [0..<length v])\<rparr>)"
      using b(2) [unfolded extracts_def, rule_format, of ?t2 ?s pad "[]"] T(1,2) by simp
    moreover have "?n \<noteq> 0" using n v(1) by (metis unat_0 less_irrefl)
    ultimately show ?thesis using n v(2) b(3,4) pad by (simp add: ExtractMatches_def Let_def)
  qed
  then show ?thesis using b(1,4) by (intro exI [of _ ?t]) (simp add: CPartialMerkleTree_of_def Let_def)
qed

section \<open>Bits are packed into bytes\<close>

lemma bit_byte_of_bits: "length bs \<le> 8 \<Longrightarrow> bit (byte_of_bits bs) i \<longleftrightarrow> i < length bs \<and> bs ! i"
proof (induction bs arbitrary: i)
  case (Cons b bs)
  have "bit (byte_of_bits (b # bs)) i \<longleftrightarrow> (b \<and> i = 0) \<or> (1 \<le> i \<and> i < 8 \<and> bit (byte_of_bits bs) (i - 1))"
    unfolding byte_of_bits.simps bit_or_iff bit_push_bit_iff by (auto simp: bit_1_iff dest: bit_imp_le_length)
  then show ?case using Cons.IH [of "i - 1"] Cons.prems by (cases i) auto
qed simp

lemma unpack_pack: "\<exists>pad. unpack_bits (pack_bits bs) = bs @ pad \<and> (length bs + length pad + 7) div 8 = (length bs + 7) div 8"
proof -
  let ?k = "(length bs + 7) div 8"
  have len: "length (pack_bits bs) = ?k" "length (unpack_bits (pack_bits bs)) = 8 * ?k" by (simp_all add: pack_bits_def unpack_bits_def)
  have n: "unpack_bits (pack_bits bs) ! p = bs ! p" if "p < length bs" for p
  proof -
    have j: "p div 8 < ?k" using that by linarith
    have "p mod 8 < length bs - 8 * (p div 8)" using that mult_div_mod_eq [of 8 p] by linarith
    then have "(p mod 8 < length (take 8 (drop (8 * (p div 8)) bs))) \<and> take 8 (drop (8 * (p div 8)) bs) ! (p mod 8) = bs ! p"
      using that by simp
    then have "bit (pack_bits bs ! (p div 8)) (p mod 8) \<longleftrightarrow> bs ! p"
      using j by (simp add: pack_bits_def bit_byte_of_bits)
    moreover have "unpack_bits (pack_bits bs) ! p \<longleftrightarrow> bit (pack_bits bs ! (p div 8)) (p mod 8)"
      using that j len by (simp add: unpack_bits_def bit_iff_and_push_bit_not_eq_0)
    ultimately show ?thesis by simp
  qed
  have "length bs \<le> 8 * ?k" by linarith
  then have "take (length bs) (unpack_bits (pack_bits bs)) = bs" using len n by (intro nth_equalityI) simp_all
  then have "unpack_bits (pack_bits bs) = bs @ drop (length bs) (unpack_bits (pack_bits bs))" by (metis append_take_drop_id)
  moreover have "(length bs + length (drop (length bs) (unpack_bits (pack_bits bs))) + 7) div 8 = ?k" using len by simp
  ultimately show ?thesis by blast
qed

interpretation uint256s_codec: codec "ser_vector ser_uint256" "unser_vector unser_uint256"
    "\<lambda>xs. length xs \<le> MAX_SIZE \<and> (\<forall>x \<in> set xs. length x = 32)"
  by (rule uint256_codec.vector_codec)

lemma ser_CPartialMerkleTree_read:
  assumes "length (vHash t) \<le> MAX_SIZE" "\<forall>h \<in> set (vHash t). length h = 32" "length (vBits t) \<le> MAX_SIZE"
  shows "\<exists>pad. unser_CPartialMerkleTree (ser_CPartialMerkleTree t @ rest) = Inr (t\<lparr>vBits := vBits t @ pad, fBad := False\<rparr>, rest) \<and>
    (length (vBits t) + length pad + 7) div 8 = (length (vBits t) + 7) div 8"
proof -
  obtain pad where pad: "unpack_bits (pack_bits (vBits t)) = vBits t @ pad" "(length (vBits t) + length pad + 7) div 8 = (length (vBits t) + 7) div 8"
    using unpack_pack by blast
  have "length (pack_bits (vBits t)) \<le> MAX_SIZE" using assms(3) by (simp add: pack_bits_def MAX_SIZE_def)
  then show ?thesis using assms(1,2) pad
    by (intro exI [of _ pad]) (simp add: ser_CPartialMerkleTree_def unser_CPartialMerkleTree_def pbind_def preturn_def u32_codec.unser_ser
        uint256s_codec.unser_ser byte_vector_codec.unser_ser)
qed

text \<open>A built tree is small enough to be sent.\<close>

lemma CalcHash_length: "CalcHash H n h pos v = Some x \<Longrightarrow> \<forall>y \<in> set v. length y = 32 \<Longrightarrow> \<forall>y. length (H y) = 32 \<Longrightarrow> length x = 32"
  by (cases h) (auto split: if_splits bind_splits)

lemma TraverseAndBuild_sizes:
  assumes "\<forall>x \<in> set v. length x = 32" "\<forall>x. length (H x) = 32"
  shows "TraverseAndBuild H h pos v m t = Some t' \<Longrightarrow>
    length (vBits t') < length (vBits t) + 2 ^ (h + 1) \<and> (\<forall>x \<in> set (vHash t'). x \<in> set (vHash t) \<or> length x = 32)"
proof (induction h arbitrary: pos t t')
  case 0
  then show ?case using assms(1) by (auto simp: not_le split: bind_splits if_splits)
next
  case (Suc h)
  let ?n = "pmt_nTransactions t"
  obtain b where b: "any_match m (leaves_below ?n (Suc h) pos) = Some b" using Suc.prems by (auto split: bind_splits)
  let ?t1 = "t\<lparr>vBits := vBits t @ [b]\<rparr>"
  show ?case
  proof (cases b)
    case False
    then obtain x where "CalcHash H ?n (Suc h) pos v = Some x" "t' = ?t1\<lparr>vHash := vHash t @ [x]\<rparr>"
      using Suc.prems b by (auto simp: Let_def split: bind_splits simp del: CalcHash.simps)
    moreover from this(1) have "length x = 32" using CalcHash_length [OF _ assms] by blast
    moreover have "Suc 0 < 4 * 2 ^ h" using one_le_power [of "2 :: nat" h] by linarith
    ultimately show ?thesis by (simp del: CalcHash.simps)
  next
    case True
    then obtain t2 where t2: "TraverseAndBuild H h (pos * 2) v m ?t1 = Some t2"
        "t' = t2 \<or> TraverseAndBuild H h (pos * 2 + 1) v m t2 = Some t'"
      using Suc.prems b by (auto simp: Let_def split: bind_splits if_splits)
    note i1 = Suc.IH [OF t2(1)]
    have p: "2 \<le> (2 :: nat) ^ (h + 1)" by simp
    show ?thesis using t2(2)
    proof
      assume "t' = t2"
      moreover have "length (vBits t2) < length (vBits t) + 2 ^ (Suc h + 1)" 
      proof -
        have e: "(2 :: nat) ^ (Suc h + 1) = 2 ^ (h + 1) + 2 ^ (h + 1)" by simp
        have "length (vBits t2) < length (vBits t) + 1 + 2 ^ (h + 1)" using i1 by simp
        then show ?thesis unfolding e using p by linarith
      qed
      ultimately show ?thesis using i1 by auto
    next
      assume "TraverseAndBuild H h (pos * 2 + 1) v m t2 = Some t'"
      note i2 = Suc.IH [OF this]
      have "length (vBits t') < length (vBits t) + 2 ^ (Suc h + 1)" using i1 i2 by simp
      then show ?thesis using i1 i2 by auto
    qed
  qed
qed

lemma CPartialMerkleTree_of_sizes:
  assumes "CPartialMerkleTree_of H v m = Some t" "\<forall>x \<in> set v. length x = 32" "\<forall>x. length (H x) = 32"
    and v: "0 < length v" "length v \<le> MAX_BLOCK_WEIGHT div MIN_TRANSACTION_WEIGHT"
  shows "length (vBits t) \<le> MAX_SIZE" "\<forall>x \<in> set (vHash t). length x = 32"
proof -
  let ?T = "tree_height (of_nat (length v)) 0"
  have v': "length v < 2 ^ 18" using v(2) by (simp add: MAX_BLOCK_WEIGHT_def MIN_TRANSACTION_WEIGHT_def WITNESS_SCALE_FACTOR_def)
  then have n: "unat (of_nat (length v) :: u32) = length v" by (simp add: unat_of_nat_u32)
  have "?T = 0 \<or> 2 ^ (?T - 1) < length v" using tree_height_spec [of "of_nat (length v)" 0] v(1) v' by (simp add: n)
  moreover have "\<not> 19 \<le> ?T" if "2 ^ (?T - 1) < length v"
  proof
    assume "19 \<le> ?T"
    then have "(2 :: nat) ^ 18 \<le> 2 ^ (?T - 1)" by (intro power_increasing) simp_all
    then show False using that v' by simp
  qed
  ultimately have "?T + 1 \<le> 19" by (cases "?T = 0") auto
  then have T: "(2 :: nat) ^ (?T + 1) \<le> 2 ^ 19" by (intro power_increasing) simp_all
  have "length (vBits t) < 2 ^ (?T + 1) \<and> (\<forall>x \<in> set (vHash t). length x = 32)"
    using TraverseAndBuild_sizes [OF assms(2,3)] assms(1) by (force simp: CPartialMerkleTree_of_def Let_def)
  then show "length (vBits t) \<le> MAX_SIZE" "\<forall>x \<in> set (vHash t). length x = 32" using T by (simp_all add: MAX_SIZE_def)
qed

text \<open>From the sender to the receiver.\<close>

lemma partial_tree_sent:
  assumes v: "0 < length v" "length v \<le> MAX_BLOCK_WEIGHT div MIN_TRANSACTION_WEIGHT" "length m = length v" "no_twins H v"
    and len: "\<forall>x \<in> set v. length x = 32" "\<forall>x. length (H x) = 32"
  shows "\<exists>t t' t''. CPartialMerkleTree_of H v m = Some t \<and> unser_CPartialMerkleTree (ser_CPartialMerkleTree t @ rest) = Inr (t', rest) \<and>
    ExtractMatches H t' [] = (merkle_root H v, map ((!) v) (filter ((!) m) [0..<length v]), map of_nat (filter ((!) m) [0..<length v]), t'')"
proof -
  obtain t where t: "CPartialMerkleTree_of H v m = Some t" "length (vHash t) \<le> length v" "\<not> fBad t"
    and e: "\<forall>pad idx. (length (vBits t) + length pad + 7) div 8 = (length (vBits t) + 7) div 8 \<longrightarrow>
      (\<exists>t'. ExtractMatches H (t\<lparr>vBits := vBits t @ pad\<rparr>) idx =
       (merkle_root H v, map ((!) v) (filter ((!) m) [0..<length v]), idx @ map of_nat (filter ((!) m) [0..<length v]), t'))"
    using ExtractMatches_built [OF v] by blast
  have "length (vHash t) \<le> MAX_SIZE" using t(2) v(2)
    by (simp add: MAX_BLOCK_WEIGHT_def MIN_TRANSACTION_WEIGHT_def WITNESS_SCALE_FACTOR_def MAX_SIZE_def)
  from ser_CPartialMerkleTree_read [OF this, of rest] CPartialMerkleTree_of_sizes [OF t(1) len v(1,2)]
  obtain pad where p: "unser_CPartialMerkleTree (ser_CPartialMerkleTree t @ rest) = Inr (t\<lparr>vBits := vBits t @ pad, fBad := False\<rparr>, rest)"
    "(length (vBits t) + length pad + 7) div 8 = (length (vBits t) + 7) div 8" by blast
  have b: "t\<lparr>vBits := vBits t @ pad, fBad := False\<rparr> = t\<lparr>vBits := vBits t @ pad\<rparr>" using t(3) by (cases t) simp
  show ?thesis using e [rule_format, OF p(2), of "[]"] t(1) p(1) unfolding b by fastforce
qed

section \<open>What a tree proves\<close>

text \<open>What is hashed for the block's own tree below a node, and what is hashed while a received tree is read.\<close>

fun block_inputs :: "hasher \<Rightarrow> uint256 list \<Rightarrow> nat \<Rightarrow> nat \<Rightarrow> bytes list" where
  "block_inputs H v 0 k = []"
| "block_inputs H v (Suc h) k =
     (if (2 * k + 1) * 2 ^ h < length v
      then (node H v h (2 * k) @ node H v h (2 * k + 1)) # block_inputs H v h (2 * k) @ block_inputs H v h (2 * k + 1)
      else (node H v h (2 * k) @ node H v h (2 * k)) # block_inputs H v h (2 * k))"

fun extract_inputs :: "hasher \<Rightarrow> CPartialMerkleTree \<Rightarrow> nat \<Rightarrow> u32 \<Rightarrow> extract_state \<Rightarrow> bytes list" where
  "extract_inputs H t 0 pos s = []"
| "extract_inputs H t (Suc h) pos s =
     (if nBitsUsed s \<ge> length (vBits t) \<or> \<not> vBits t ! nBitsUsed s then []
      else let s = s\<lparr>nBitsUsed := nBitsUsed s + 1\<rparr>; (left, s1) = TraverseAndExtract H t h (pos * 2) s
           in if pos * 2 + 1 < CalcTreeWidth (pmt_nTransactions t) h
              then let (right, s2) = TraverseAndExtract H t h (pos * 2 + 1) s1
                   in (left @ right) # extract_inputs H t h (pos * 2) s @ extract_inputs H t h (pos * 2 + 1) s1
              else (left @ left) # extract_inputs H t h (pos * 2) s)"

definition collide :: "hasher \<Rightarrow> bytes list \<Rightarrow> bytes list \<Rightarrow> bool" where
  "collide H as bs \<longleftrightarrow> list_ex (\<lambda>a. list_ex (\<lambda>b. a \<noteq> b \<and> H a = H b) bs) as"

lemma not_collide: "\<not> collide H as bs \<Longrightarrow> a \<in> set as \<Longrightarrow> b \<in> set bs \<Longrightarrow> H a = H b \<Longrightarrow> a = b"
  by (auto simp: collide_def list_ex_iff)

lemma not_collide_mono: "\<not> collide H as bs \<Longrightarrow> set as' \<subseteq> set as \<Longrightarrow> set bs' \<subseteq> set bs \<Longrightarrow> \<not> collide H as' bs'"
  by (auto simp: collide_def list_ex_iff)

text \<open>A tree exhibits a collision for a block when a string hashed to read it has the hash of another string of the block's tree.\<close>

definition exhibits_collision :: "hasher \<Rightarrow> uint256 list \<Rightarrow> CPartialMerkleTree \<Rightarrow> bool" where
  "exhibits_collision H v t =
     (let T = tree_height (pmt_nTransactions t) 0
      in collide H (block_inputs H v T 0) (extract_inputs H t T 0
           \<lparr>nBitsUsed = 0, nHashUsed = 0, xt_vMatch = [], xt_vnIndex = [], xt_bad = fBad t\<rparr>))"

lemma TraverseAndExtract_bad: "xt_bad s \<Longrightarrow> xt_bad (snd (TraverseAndExtract H t h pos s))"
  by (induction h arbitrary: pos s) (simp_all add: Let_def split_def)

lemma TraverseAndExtract_length:
  assumes "\<forall>x \<in> set (vHash t). length x = 32" "\<And>x. length (H x) = 32"
  shows "length (fst (TraverseAndExtract H t h pos s)) = 32"
proof (cases h)
  case 0
  then show ?thesis using assms(1) by (simp add: Let_def uint256_null_def)
next
  case (Suc h)
  then show ?thesis using assms by (simp add: Let_def uint256_null_def split_def)
qed

lemma node_length:
  assumes "\<forall>x \<in> set v. length x = 32" "\<And>x. length (H x) = 32" "k * 2 ^ h < length v"
  shows "length (node H v h k) = 32"
proof (cases h)
  case 0
  then show ?thesis using assms by (simp add: node_leaf)
next
  case (Suc h)
  then show ?thesis using assms(2) node_pair [of k h v H] node_single [of v k h H] by (cases "(2 * k + 1) * 2 ^ h < length v") auto
qed

lemma no_collision_pair:
  assumes "\<not> collide H as bs" "H (a @ b) = H (c @ d)" "length a = 32" "length c = 32" "c @ d \<in> set as" "a @ b \<in> set bs"
  shows "a = c \<and> b = d"
  using not_collide [OF assms(1,5,6)] assms(2-4) by simp

definition proved :: "uint256 list \<Rightarrow> extract_state \<Rightarrow> extract_state \<Rightarrow> bool" where
  "proved v s s' \<longleftrightarrow> (\<exists>is. xt_vnIndex s' = xt_vnIndex s @ is \<and> xt_vMatch s' = xt_vMatch s @ map (\<lambda>i. v ! unat i) is \<and>
     (\<forall>i \<in> set is. unat i < length v))"

lemma proved_refl: "xt_vnIndex s' = xt_vnIndex s \<Longrightarrow> xt_vMatch s' = xt_vMatch s \<Longrightarrow> proved v s s'"
  by (simp add: proved_def)

lemma proved_trans: "proved v s s1 \<Longrightarrow> proved v s1 s2 \<Longrightarrow> proved v s s2"
  unfolding proved_def
proof (elim exE conjE)
  fix i1 i2
  assume "xt_vnIndex s1 = xt_vnIndex s @ i1" "xt_vMatch s1 = xt_vMatch s @ map (\<lambda>i. v ! unat i) i1" "\<forall>i \<in> set i1. unat i < length v"
    "xt_vnIndex s2 = xt_vnIndex s1 @ i2" "xt_vMatch s2 = xt_vMatch s1 @ map (\<lambda>i. v ! unat i) i2" "\<forall>i \<in> set i2. unat i < length v"
  then show "\<exists>is. xt_vnIndex s2 = xt_vnIndex s @ is \<and> xt_vMatch s2 = xt_vMatch s @ map (\<lambda>i. v ! unat i) is \<and> (\<forall>i \<in> set is. unat i < length v)"
    by (intro exI [of _ "i1 @ i2"]) auto
qed

lemma TraverseAndExtract_sound:
  assumes v: "length v < 2 ^ 31" "\<forall>x \<in> set v. length x = 32" and H: "\<And>x. length (H x) = 32"
    and t: "pmt_nTransactions t = of_nat (length v)" "\<forall>x \<in> set (vHash t). length x = 32"
    and run: "h \<le> 31" "unat pos * 2 ^ h < length v" "TraverseAndExtract H t h pos s = (x, s')" "\<not> xt_bad s'" "x = node H v h (unat pos)"
      "\<not> collide H (block_inputs H v h (unat pos)) (extract_inputs H t h pos s)"
  shows "proved v s s'"
  using run
proof (induction h arbitrary: pos s x s')
  case 0
  then have p: "unat pos < length v" by simp
  have "xt_vnIndex s' = xt_vnIndex s \<and> xt_vMatch s' = xt_vMatch s \<or>
    xt_vnIndex s' = xt_vnIndex s @ [pos] \<and> xt_vMatch s' = xt_vMatch s @ [x]"
    using 0(3,4) by (auto simp: Let_def split: if_splits)
  then show ?case using p 0(5) by (auto simp: proved_def node_leaf)
next
  case (Suc h)
  note c = child_pos [OF Suc.prems(2) v(1)]
  let ?s1 = "s\<lparr>nBitsUsed := nBitsUsed s + 1\<rparr>"
  have h: "h \<le> 31" using Suc.prems(1) by simp
  have w: "pos * 2 + 1 < CalcTreeWidth (of_nat (length v)) h \<longleftrightarrow> (2 * unat pos + 1) * 2 ^ h < length v"
    using in_width [of "of_nat (length v)" h "pos * 2 + 1"] v(1) h c(2) by (simp add: unat_of_nat_u32 mult.commute)
  obtain l s2 where e1: "TraverseAndExtract H t h (pos * 2) ?s1 = (l, s2)" by fastforce
  obtain r s3 where e2: "TraverseAndExtract H t h (pos * 2 + 1) s2 = (r, s3)" by fastforce
  have len: "length l = 32" "length r = 32"
    using TraverseAndExtract_length [of t H h "pos * 2" ?s1] TraverseAndExtract_length [of t H h "pos * 2 + 1" s2] t(2) H(1) e1 e2 by simp_all
  consider (stop) "xt_vnIndex s' = xt_vnIndex s" "xt_vMatch s' = xt_vMatch s"
    | (both) "(2 * unat pos + 1) * 2 ^ h < length v" "x = H (l @ r)" "s' = s3"
        "extract_inputs H t (Suc h) pos s = (l @ r) # extract_inputs H t h (pos * 2) ?s1 @ extract_inputs H t h (pos * 2 + 1) s2"
    | (single) "\<not> (2 * unat pos + 1) * 2 ^ h < length v" "x = H (l @ l)" "s' = s2"
        "extract_inputs H t (Suc h) pos s = (l @ l) # extract_inputs H t h (pos * 2) ?s1"
    using Suc.prems(3,4) e1 e2 w t(1) by (auto simp: Let_def split: if_splits)
  then show ?case
  proof cases
    case stop
    then show ?thesis by (rule proved_refl)
  next
    case both
    have p2: "unat (pos * 2 + 1) * 2 ^ h < length v" using both(1) c(2) by (simp add: mult.commute)
    have B: "block_inputs H v (Suc h) (unat pos) = (node H v h (2 * unat pos) @ node H v h (2 * unat pos + 1)) #
      block_inputs H v h (2 * unat pos) @ block_inputs H v h (2 * unat pos + 1)" using both(1) by simp
    have "H (l @ r) = H (node H v h (2 * unat pos) @ node H v h (2 * unat pos + 1))"
      using both(2) Suc.prems(5) node_pair [OF both(1), of H] by simp
    moreover have "length (node H v h (2 * unat pos)) = 32" using node_length [of v H] v(2) H(1) c by (simp add: mult.commute)
    ultimately have lr: "l = node H v h (2 * unat pos)" "r = node H v h (2 * unat pos + 1)"
      using no_collision_pair [OF Suc.prems(6) _ len(1)] B both(4) by simp_all
    have ok: "\<not> xt_bad s3" "\<not> xt_bad s2" using Suc.prems(4) both(3) TraverseAndExtract_bad [of s2 H t h "pos * 2 + 1"] e2 by auto
    have nc: "\<not> collide H (block_inputs H v h (unat (pos * 2))) (extract_inputs H t h (pos * 2) ?s1)"
      "\<not> collide H (block_inputs H v h (unat (pos * 2 + 1))) (extract_inputs H t h (pos * 2 + 1) s2)"
      by (rule not_collide_mono [OF Suc.prems(6)]; use B both(4) c(1,2) in \<open>auto simp: mult.commute\<close>)+
    have "proved v ?s1 s2" using Suc.IH [OF h c(3) e1 ok(2) _ nc(1)] lr(1) c(1) by (simp add: mult.commute)
    moreover have "proved v s2 s3" using Suc.IH [OF h p2 e2 ok(1) _ nc(2)] lr(2) c(2) by (simp add: mult.commute)
    ultimately have "proved v ?s1 s'" using proved_trans both(3) by blast
    then show ?thesis by (simp add: proved_def)
  next
    case single
    have B: "block_inputs H v (Suc h) (unat pos) = (node H v h (2 * unat pos) @ node H v h (2 * unat pos)) #
      block_inputs H v h (2 * unat pos)" using single(1) by simp
    have "H (l @ l) = H (node H v h (2 * unat pos) @ node H v h (2 * unat pos))"
      using single(1,2) Suc.prems(5) node_single [of v "unat pos" h H] by simp
    moreover have "length (node H v h (2 * unat pos)) = 32" using node_length [of v H] v(2) H(1) c by (simp add: mult.commute)
    ultimately have l: "l = node H v h (2 * unat pos)"
      using no_collision_pair [OF Suc.prems(6) _ len(1)] B single(4) by simp
    have nc: "\<not> collide H (block_inputs H v h (unat (pos * 2))) (extract_inputs H t h (pos * 2) ?s1)"
      by (rule not_collide_mono [OF Suc.prems(6)]; use B single(4) c(1) in \<open>auto simp: mult.commute\<close>)
    have "proved v ?s1 s'" using Suc.IH [OF h c(3) e1 _ _ nc] l Suc.prems(4) single(3) c(1) by (simp add: mult.commute)
    then show ?thesis by (simp add: proved_def)
  qed
qed

lemma ExtractMatches_sound:
  assumes v: "0 < length v" "length v < 2 ^ 31" "\<forall>x \<in> set v. length x = 32" and H: "\<And>x. length (H x) = 32"
    and t: "pmt_nTransactions t = of_nat (length v)" "\<forall>x \<in> set (vHash t). length x = 32"
    and run: "ExtractMatches H t [] = (root, ms, is, t')" "root = merkle_root H v" "root \<noteq> uint256_null"
      "\<not> exhibits_collision H v t"
  shows "ms = map (\<lambda>i. v ! unat i) is \<and> (\<forall>i \<in> set is. unat i < length v)"
proof -
  let ?n = "of_nat (length v) :: u32"
  let ?s = "\<lparr>nBitsUsed = 0, nHashUsed = 0, xt_vMatch = [], xt_vnIndex = [], xt_bad = fBad t\<rparr>"
  obtain x s' where e: "TraverseAndExtract H t (tree_height ?n 0) 0 ?s = (x, s')" by fastforce
  then have r: "\<not> xt_bad s'" "x = root" "ms = xt_vMatch s'" "is = xt_vnIndex s'"
    using run t(1) by (auto simp: ExtractMatches_def Let_def split: if_splits)
  note T = merkle_node [OF v(1,2)]
  have "\<not> collide H (block_inputs H v (tree_height ?n 0) (unat (0 :: u32))) (extract_inputs H t (tree_height ?n 0) 0 ?s)"
    using run(4) t(1) by (simp add: exhibits_collision_def Let_def)
  then have "proved v ?s s'"
    using TraverseAndExtract_sound [OF v(2,3) H t T(3) _ e r(1)] T(1) r(2) run(2) v(1) by simp
  then show ?thesis using r(3,4) by (auto simp: proved_def)
qed

end
