(* ===== verification/Peer_Filter.thy ===== *)
theory Peer_Filter
  imports Bloom Partial_Merkle
begin

text \<open>
  The filter a peer sets up and the blocks filtered by it: the messages of \<open>net_processing.cpp\<close> that load,
  extend and clear a filter, and \<open>CMerkleBlock\<close> of \<open>merkleblock.cpp\<close>.  Whatever messages a peer sends, no
  operation on its filter divides by zero, and the filtered block it is sent proves all the transactions
  that mention a key of its filter.
\<close>

section \<open>Messages\<close>

definition NO_BLOOM_VERSION :: int where "NO_BLOOM_VERSION = 70011"

text \<open>The part of \<open>CNode\<close> and \<open>CNodeState\<close> the messages work on.\<close>

record filter_peer =
  pfilter :: "CBloomFilter option"
  fRelayTxes :: bool
  fDisconnect :: bool
  nMisbehavior :: int
  fShouldBan :: bool

text \<open>\<open>node_bloom\<close>: whether the node offers the service \<open>NODE_BLOOM\<close>; \<open>peer_nVersion\<close>: the version of the peer.\<close>

record filter_env =
  node_bloom :: bool
  peer_nVersion :: int
  banscore :: int

definition CNode_filter :: filter_peer where
  "CNode_filter = \<lparr>pfilter = Some CBloomFilter_default, fRelayTxes = False, fDisconnect = False, nMisbehavior = 0, fShouldBan = False\<rparr>"

definition Misbehaving :: "filter_env \<Rightarrow> int \<Rightarrow> filter_peer \<Rightarrow> filter_peer" where
  "Misbehaving env howmuch p =
     (if howmuch = 0 then p
      else let n = nMisbehavior p + howmuch
           in p\<lparr>nMisbehavior := n, fShouldBan := fShouldBan p \<or> n \<ge> banscore env \<and> n - howmuch < banscore env\<rparr>)"

datatype filter_message = FILTERLOAD bytes | FILTERADD bytes | FILTERCLEAR

text \<open>A message that cannot be read throws; \<open>None\<close> is a division by zero.\<close>

definition handle_filterload :: "filter_env \<Rightarrow> bytes \<Rightarrow> filter_peer \<Rightarrow> ser_error + filter_peer" where
  "handle_filterload env vRecv p =
     (case unser_CBloomFilter vRecv of Inl e \<Rightarrow> Inl e
      | Inr (filt, _) \<Rightarrow>
          if \<not> IsWithinSizeConstraints filt then Inr (Misbehaving env 100 p)
          else Inr (p\<lparr>pfilter := Some (UpdateEmptyFull filt), fRelayTxes := True\<rparr>))"

definition handle_filteradd :: "filter_env \<Rightarrow> bytes \<Rightarrow> filter_peer \<Rightarrow> (ser_error + filter_peer) option" where
  "handle_filteradd env vRecv p =
     (case unser_byte_vector vRecv of Inl e \<Rightarrow> Some (Inl e)
      | Inr (elem, _) \<Rightarrow>
          if length elem > MAX_SCRIPT_ELEMENT_SIZE then Some (Inr (Misbehaving env 100 p))
          else (case pfilter p of
                  Some filt \<Rightarrow> do { filt \<leftarrow> bloom_insert filt elem; Some (Inr (p\<lparr>pfilter := Some filt\<rparr>)) }
                | None \<Rightarrow> Some (Inr (Misbehaving env 100 p))))"

definition handle_filterclear :: "filter_env \<Rightarrow> filter_peer \<Rightarrow> filter_peer" where
  "handle_filterclear env p =
     (let p = (if node_bloom env then p\<lparr>pfilter := Some CBloomFilter_default\<rparr> else p) in p\<lparr>fRelayTxes := True\<rparr>)"

text \<open>A peer that asks for filters although they are not offered misbehaves or is disconnected.\<close>

definition refuse_bloom :: "filter_env \<Rightarrow> filter_peer \<Rightarrow> filter_peer" where
  "refuse_bloom env p = (if peer_nVersion env \<ge> NO_BLOOM_VERSION then Misbehaving env 100 p else p\<lparr>fDisconnect := True\<rparr>)"

fun ProcessMessage_filter :: "filter_env \<Rightarrow> filter_message \<Rightarrow> filter_peer \<Rightarrow> (ser_error + filter_peer) option" where
  "ProcessMessage_filter env (FILTERLOAD vRecv) p =
     (if \<not> node_bloom env then Some (Inr (refuse_bloom env p)) else Some (handle_filterload env vRecv p))"
| "ProcessMessage_filter env (FILTERADD vRecv) p =
     (if \<not> node_bloom env then Some (Inr (refuse_bloom env p)) else handle_filteradd env vRecv p)"
| "ProcessMessage_filter env FILTERCLEAR p = Some (Inr (handle_filterclear env p))"

text \<open>A transaction is announced to a peer when its filter matches.\<close>

definition filter_passes :: "hasher \<Rightarrow> CTransaction \<Rightarrow> filter_peer \<Rightarrow> (bool \<times> filter_peer) option" where
  "filter_passes H tx p =
     (case pfilter p of None \<Rightarrow> Some (True, p)
      | Some filt \<Rightarrow> do { (found, filt) \<leftarrow> IsRelevantAndUpdate H tx filt; Some (found, p\<lparr>pfilter := Some filt\<rparr>) })"

section \<open>Filtered blocks\<close>

record CMerkleBlock =
  mb_header :: CBlockHeader
  mb_txn :: CPartialMerkleTree
  mb_vMatchedTxn :: "(nat \<times> uint256) list"

text \<open>The loop over the transactions from number \<open>i\<close>: the matches, the identifiers, the transactions the filter
  matched, and the filter.\<close>

fun match_block :: "hasher \<Rightarrow> uint256 set option \<Rightarrow> nat \<Rightarrow> CTransaction list \<Rightarrow> CBloomFilter option \<Rightarrow>
    (bool list \<times> uint256 list \<times> (nat \<times> uint256) list \<times> CBloomFilter option) option" where
  "match_block H txids i [] filt = Some ([], [], [], filt)"
| "match_block H txids i (tx # txs) filt = do {
     let hash = tx_GetHash H tx;
     (matched, vMatched, filt) \<leftarrow>
       (if txids \<noteq> None \<and> hash \<in> the txids then Some (True, [], filt)
        else case filt of None \<Rightarrow> Some (False, [], None)
             | Some f \<Rightarrow> do { (found, f) \<leftarrow> IsRelevantAndUpdate H tx f; Some (found, if found then [(i, hash)] else [], Some f) });
     (vMatch, vHashes, vMatchedTxn, filt) \<leftarrow> match_block H txids (i + 1) txs filt;
     Some (matched # vMatch, hash # vHashes, vMatched @ vMatchedTxn, filt) }"

definition CMerkleBlock_of :: "hasher \<Rightarrow> CBlock \<Rightarrow> CBloomFilter option \<Rightarrow> uint256 set option \<Rightarrow>
    (CMerkleBlock \<times> CBloomFilter option) option" where
  "CMerkleBlock_of H block filt txids = do {
     (vMatch, vHashes, vMatchedTxn, filt) \<leftarrow> match_block H txids 0 (vtx block) filt;
     txn \<leftarrow> CPartialMerkleTree_of H vHashes vMatch;
     Some (\<lparr>mb_header = GetBlockHeader block, mb_txn = txn, mb_vMatchedTxn = vMatchedTxn\<rparr>, filt) }"

definition ser_CMerkleBlock :: "CMerkleBlock \<Rightarrow> bytes" where
  "ser_CMerkleBlock mb = ser_CBlockHeader (mb_header mb) @ ser_CPartialMerkleTree (mb_txn mb)"

definition unser_CMerkleBlock :: "CMerkleBlock parser" where
  "unser_CMerkleBlock = pbind unser_CBlockHeader (\<lambda>header. pbind unser_CPartialMerkleTree (\<lambda>txn.
     preturn \<lparr>mb_header = header, mb_txn = txn, mb_vMatchedTxn = []\<rparr>))"

text \<open>The answer to a request for a filtered block, and the transactions that are sent along.\<close>

definition send_filtered_block :: "hasher \<Rightarrow> CBlock \<Rightarrow> filter_peer \<Rightarrow>
    ((CMerkleBlock \<times> CTransaction list) option \<times> filter_peer) option" where
  "send_filtered_block H block p =
     (case pfilter p of None \<Rightarrow> Some (None, p)
      | Some filt \<Rightarrow> do {
          (mb, filt) \<leftarrow> CMerkleBlock_of H block (Some filt) None;
          Some (Some (mb, map (\<lambda>(i, _). vtx block ! i) (mb_vMatchedTxn mb)), p\<lparr>pfilter := filt\<rparr>) })"

section \<open>No division by zero\<close>

inductive peer_run :: "filter_env \<Rightarrow> hasher \<Rightarrow> filter_peer \<Rightarrow> filter_peer \<Rightarrow> bool" for env H p where
  start: "peer_run env H p p"
| message: "peer_run env H p q \<Longrightarrow> ProcessMessage_filter env m q = Some (Inr q') \<Longrightarrow> peer_run env H p q'"
| relay: "peer_run env H p q \<Longrightarrow> filter_passes H tx q = Some (found, q') \<Longrightarrow> peer_run env H p q'"
| block: "peer_run env H p q \<Longrightarrow> send_filtered_block H b q = Some (r, q') \<Longrightarrow> peer_run env H p q'"

definition peer_ok :: "filter_peer \<Rightarrow> bool" where
  "peer_ok p \<longleftrightarrow> (\<forall>f. pfilter p = Some f \<longrightarrow> filter_ok f)"

lemma Misbehaving_pfilter [simp]: "pfilter (Misbehaving env n p) = pfilter p"
  by (simp add: Misbehaving_def Let_def)

lemma peer_ok_simps [simp]:
  "peer_ok (Misbehaving env n p) = peer_ok p" "peer_ok (refuse_bloom env p) = peer_ok p"
  "peer_ok (p\<lparr>fRelayTxes := b\<rparr>) = peer_ok p" "peer_ok (p\<lparr>pfilter := Some f\<rparr>) = filter_ok f" "peer_ok (p\<lparr>pfilter := None\<rparr>)"
  by (simp_all add: peer_ok_def refuse_bloom_def)

lemma handle_filterload_ok: "handle_filterload env r p = Inr q \<Longrightarrow> peer_ok p \<Longrightarrow> peer_ok q"
  by (auto simp: handle_filterload_def UpdateEmptyFull_ok split: sum.splits if_splits)

lemma handle_filteradd_ok:
  assumes "peer_ok p"
  shows "\<exists>r. handle_filteradd env v p = Some r \<and> (\<forall>q. r = Inr q \<longrightarrow> peer_ok q)"
proof (cases "pfilter p")
  case None
  then show ?thesis using assms by (auto simp: handle_filteradd_def split: sum.splits)
next
  case (Some f)
  then have ok: "filter_ok f" using assms by (simp add: peer_ok_def)
  have "\<exists>f'. bloom_insert f e = Some f' \<and> filter_ok f'" for e using bloom_insert_spec [OF ok, of e] grown_ok ok by blast
  then have "\<forall>e. \<exists>f'. bloom_insert f e = Some f' \<and> filter_ok f'" by blast
  then show ?thesis using assms Some
    by (cases "unser_byte_vector v") (auto simp: handle_filteradd_def split: sum.splits, metis bind.bind_lunit peer_ok_simps(4) sum.inject(2))
qed

lemma ProcessMessage_filter_ok:
  assumes "peer_ok p"
  shows "\<exists>r. ProcessMessage_filter env m p = Some r \<and> (\<forall>q. r = Inr q \<longrightarrow> peer_ok q)"
proof (cases m)
  case (FILTERLOAD v)
  then show ?thesis using assms handle_filterload_ok [of env v p] by auto
next
  case (FILTERADD v)
  then show ?thesis using assms handle_filteradd_ok [OF assms, of env v] by simp
next
  case FILTERCLEAR
  then show ?thesis using assms by (simp add: handle_filterclear_def Let_def CBloomFilter_default_ok)
qed

lemma filter_passes_ok:
  assumes "peer_ok p"
  shows "\<exists>found q. filter_passes H tx p = Some (found, q) \<and> peer_ok q"
proof (cases "pfilter p")
  case (Some f)
  then have ok: "filter_ok f" using assms by (simp add: peer_ok_def)
  then show ?thesis using IsRelevantAndUpdate_spec [OF ok, of H tx] grown_ok Some by (fastforce simp: filter_passes_def)
next
  case None
  then show ?thesis using assms by (intro exI [of _ True]) (simp add: filter_passes_def)
qed

text \<open>What the loop over the transactions of a block finds.\<close>

lemma match_block_spec:
  assumes "\<forall>f. filt = Some f \<longrightarrow> filter_ok f"
  shows "\<exists>vMatch ms filt'. match_block H txids i txs filt = Some (vMatch, map (tx_GetHash H) txs, ms, filt') \<and>
    length vMatch = length txs \<and> (\<forall>f. filt' = Some f \<longrightarrow> filter_ok f) \<and> (filt' = None \<longleftrightarrow> filt = None) \<and>
    (\<forall>f. filt = Some f \<longrightarrow> (\<forall>j < length txs. \<forall>k. holds f k \<longrightarrow> mentions H (txs ! j) k \<longrightarrow> vMatch ! j)) \<and>
    (txids = None \<longrightarrow> ms = map (\<lambda>j. (i + j, tx_GetHash H (txs ! j))) (filter ((!) vMatch) [0..<length txs]))"
  using assms
proof (induction txs arbitrary: i filt)
  case (Cons tx txs)
  let ?h = "tx_GetHash H tx"
  obtain b vm filt1 where one: "(if txids \<noteq> None \<and> ?h \<in> the txids then Some (True, [], filt)
        else case filt of None \<Rightarrow> Some (False, [], None)
             | Some f \<Rightarrow> do { (found, f) \<leftarrow> IsRelevantAndUpdate H tx f; Some (found, if found then [(i, ?h)] else [], Some f) })
        = Some (b, vm, filt1)"
      "\<forall>f. filt1 = Some f \<longrightarrow> filter_ok f" "filt1 = None \<longleftrightarrow> filt = None"
      "\<forall>f k. filt = Some f \<longrightarrow> holds f k \<longrightarrow> (mentions H tx k \<longrightarrow> b) \<and> holds (the filt1) k"
      "txids = None \<longrightarrow> vm = (if b then [(i, ?h)] else [])"
  proof (cases "txids \<noteq> None \<and> ?h \<in> the txids")
    case True
    then show thesis using Cons.prems by (intro that [of True "[]" filt]) auto
  next
    case F: False
    show thesis
    proof (cases filt)
      case None
      then show thesis using F by (intro that [of False "[]" None]) auto
    next
      case (Some f)
      then have ok: "filter_ok f" using Cons.prems by simp
      obtain found f' where "IsRelevantAndUpdate H tx f = Some (found, f')" "grown f f'" "\<forall>k. holds f k \<longrightarrow> mentions H tx k \<longrightarrow> found"
        using IsRelevantAndUpdate_spec [OF ok, of H tx] by blast
      moreover have "\<forall>k. holds f k \<longrightarrow> holds f' k" using grown_holds [OF \<open>grown f f'\<close>] ok by (auto simp: filter_ok_def)
      ultimately show thesis using F Some grown_ok ok
        by (intro that [of found "if found then [(i, ?h)] else []" "Some f'"]) auto
    qed
  qed
  from Cons.IH [OF one(2), of "i + 1"] obtain vMatch ms filt' where r:
    "match_block H txids (i + 1) txs filt1 = Some (vMatch, map (tx_GetHash H) txs, ms, filt')" "length vMatch = length txs"
    "\<forall>f. filt' = Some f \<longrightarrow> filter_ok f" "filt' = None \<longleftrightarrow> filt1 = None"
    "\<forall>f. filt1 = Some f \<longrightarrow> (\<forall>j < length txs. \<forall>k. holds f k \<longrightarrow> mentions H (txs ! j) k \<longrightarrow> vMatch ! j)"
    "txids = None \<longrightarrow> ms = map (\<lambda>j. (i + 1 + j, tx_GetHash H (txs ! j))) (filter ((!) vMatch) [0..<length txs])" by blast
  have run: "match_block H txids i (tx # txs) filt = Some (b # vMatch, map (tx_GetHash H) (tx # txs), vm @ ms, filt')"
    unfolding match_block.simps Let_def one(1) using r(1) by simp
  have "(b # vMatch) ! j" if "filt = Some f" "j < length (tx # txs)" "holds f k" "mentions H ((tx # txs) ! j) k" for f j k
    using that one(3,4) r(5) by (cases j) auto
  moreover have "txids = None \<longrightarrow> vm @ ms =
      map (\<lambda>j. (i + j, tx_GetHash H ((tx # txs) ! j))) (filter ((!) (b # vMatch)) [0..<length (tx # txs)])"
    using one(5) r(6) by (simp add: upt_conv_Cons filter_map comp_def flip: map_Suc_upt del: upt_Suc)
  ultimately show ?case using run r(2-4) one(3) by (intro exI [of _ "b # vMatch"] exI [of _ "vm @ ms"] exI [of _ filt']) auto
qed simp

section \<open>Filtered blocks can be built and prove what the filter holds\<close>

text \<open>Building a partial tree fails no assertion and stays within the vectors.\<close>

lemma TraverseAndBuild_answers:
  assumes v: "length v < 2 ^ 31" "length m = length v" "h \<le> 31" "unat pos * 2 ^ h < length v" "pmt_nTransactions t = of_nat (length v)"
  shows "\<exists>t'. TraverseAndBuild H h pos v m t = Some t' \<and> pmt_nTransactions t' = of_nat (length v)"
  using v(3-5)
proof (induction h arbitrary: pos t)
  case 0
  have "any_match m (leaves_below (of_nat (length v)) 0 pos) \<noteq> None"
    using any_match_span [OF v(2), of 0 "unat pos"] leaves_below_span [OF v(1) _ 0(2)] by simp
  then show ?case using CalcHash_node [OF v(1) 0(1,2), of H] 0(3) by (auto simp del: CalcHash.simps)
next
  case (Suc h)
  let ?N = "length v"
  obtain b where any: "any_match m (leaves_below (of_nat ?N) (Suc h) pos) = Some b"
    using any_match_span [OF v(2), of "Suc h" "unat pos"] leaves_below_span [OF v(1) Suc.prems(1,2)] by simp
  show ?case
  proof (cases b)
    case False
    then show ?thesis using CalcHash_node [OF v(1) Suc.prems(1,2), of H] any Suc.prems(3) by (simp del: CalcHash.simps)
  next
    case True
    note c = child_pos [OF Suc.prems(2) v(1)]
    have h: "h \<le> 31" using Suc.prems(1) by simp
    let ?t1 = "t\<lparr>vBits := vBits t @ [True]\<rparr>"
    obtain t2 where t2: "TraverseAndBuild H h (pos * 2) v m ?t1 = Some t2" "pmt_nTransactions t2 = of_nat ?N"
      using Suc.IH [OF h c(3), of ?t1] Suc.prems(3) by auto
    have "pos * 2 + 1 < CalcTreeWidth (of_nat ?N) h \<Longrightarrow> unat (pos * 2 + 1) * 2 ^ h < ?N"
      using in_width [of "of_nat ?N" h "pos * 2 + 1"] v(1) h by (simp add: unat_of_nat_u32)
    then have "pos * 2 + 1 < CalcTreeWidth (of_nat ?N) h \<Longrightarrow>
        \<exists>t'. TraverseAndBuild H h (pos * 2 + 1) v m t2 = Some t' \<and> pmt_nTransactions t' = of_nat ?N"
      using Suc.IH [OF h _ t2(2)] by blast
    then show ?thesis using t2 any True Suc.prems(3) by (simp add: Let_def)
  qed
qed

lemma CPartialMerkleTree_of_answers:
  assumes "0 < length v" "length v < 2 ^ 31" "length m = length v"
  shows "CPartialMerkleTree_of H v m \<noteq> None"
  using TraverseAndBuild_answers [OF assms(2,3) merkle_node(3) [OF assms(1,2)], of 0
      "\<lparr>pmt_nTransactions = of_nat (length v), vBits = [], vHash = [], fBad = False\<rparr>" H] assms(1)
  by (auto simp: CPartialMerkleTree_of_def Let_def)

lemma send_filtered_block_answers:
  assumes "peer_ok p" "0 < length (vtx b)" "length (vtx b) < 2 ^ 31"
  shows "\<exists>r q. send_filtered_block H b p = Some (r, q) \<and> peer_ok q"
proof (cases "pfilter p")
  case None
  then show ?thesis using assms(1) by (simp add: send_filtered_block_def)
next
  case (Some f)
  have f: "\<forall>g. Some f = Some g \<longrightarrow> filter_ok g" using assms(1) Some by (simp add: peer_ok_def)
  obtain vMatch ms filt' where m: "match_block H None 0 (vtx b) (Some f) = Some (vMatch, map (tx_GetHash H) (vtx b), ms, filt')"
    "length vMatch = length (vtx b)" "\<forall>g. filt' = Some g \<longrightarrow> filter_ok g"
    using match_block_spec [OF f, of H None 0 "vtx b"] by blast
  obtain t where "CPartialMerkleTree_of H (map (tx_GetHash H) (vtx b)) vMatch = Some t"
    using CPartialMerkleTree_of_answers [of "map (tx_GetHash H) (vtx b)" vMatch H] assms(2,3) m(2) by auto
  then show ?thesis using Some m by (simp add: send_filtered_block_def CMerkleBlock_of_def peer_ok_def)
qed

lemma peer_run_ok: "peer_run env H p q \<Longrightarrow> peer_ok p \<Longrightarrow> peer_ok q"
proof (induction rule: peer_run.induct)
  case (message q m q')
  then show ?case using ProcessMessage_filter_ok [of q env m] by auto
next
  case (relay q tx found q')
  then show ?case using filter_passes_ok [of q H tx] by auto
next
  case (block q b r q')
  show ?case
  proof (cases "pfilter q")
    case None
    then show ?thesis using block by (simp add: send_filtered_block_def)
  next
    case (Some f)
    have f: "\<forall>g. Some f = Some g \<longrightarrow> filter_ok g" using block Some by (simp add: peer_ok_def)
    then show ?thesis using match_block_spec [OF f, of H None 0 "vtx b"] block(2) Some
      by (auto simp: send_filtered_block_def CMerkleBlock_of_def peer_ok_def split: bind_splits)
  qed
qed simp

lemma CNode_filter_ok: "peer_ok CNode_filter"
  by (simp add: peer_ok_def CNode_filter_def CBloomFilter_default_ok)

lemma filtered_block_complete:
  assumes p: "peer_ok p" "pfilter p = Some f"
    and b: "0 < length (vtx block)" "length (vtx block) \<le> MAX_BLOCK_WEIGHT div MIN_TRANSACTION_WEIGHT"
      "no_twins H (map (tx_GetHash H) (vtx block))" "valid_CBlockHeader (GetBlockHeader block)" and H: "\<forall>x. length (H x) = 32"
  shows "\<exists>mb txs q mb' ms is t'. send_filtered_block H block p = Some (Some (mb, txs), q) \<and>
    unser_CMerkleBlock (ser_CMerkleBlock mb @ rest) = Inr (mb', rest) \<and> mb_header mb' = GetBlockHeader block \<and>
    ExtractMatches H (mb_txn mb') [] = (merkle_root H (map (tx_GetHash H) (vtx block)), ms, is, t') \<and>
    (\<forall>j < length (vtx block). \<forall>k. holds f k \<longrightarrow> mentions H (vtx block ! j) k \<longrightarrow>
       of_nat j \<in> set is \<and> tx_GetHash H (vtx block ! j) \<in> set ms \<and> vtx block ! j \<in> set txs)"
proof -
  let ?v = "map (tx_GetHash H) (vtx block)"
  have f: "\<forall>g. Some f = Some g \<longrightarrow> filter_ok g" using p by (simp add: peer_ok_def)
  obtain vMatch ms filt' where m: "match_block H None 0 (vtx block) (Some f) = Some (vMatch, ?v, ms, filt')"
    "length vMatch = length (vtx block)"
    "\<forall>j < length (vtx block). \<forall>k. holds f k \<longrightarrow> mentions H (vtx block ! j) k \<longrightarrow> vMatch ! j"
    "ms = map (\<lambda>j. (j, tx_GetHash H (vtx block ! j))) (filter ((!) vMatch) [0..<length (vtx block)])"
    using match_block_spec [OF f, of H None 0 "vtx block"] by auto
  let ?js = "filter ((!) vMatch) [0..<length (vtx block)]"
  have len: "\<forall>x \<in> set ?v. length x = 32" using H by (simp add: tx_GetHash_def)
  obtain t t1 t2 where t: "CPartialMerkleTree_of H ?v vMatch = Some t"
    "unser_CPartialMerkleTree (ser_CPartialMerkleTree t @ rest) = Inr (t1, rest)"
    "ExtractMatches H t1 [] = (merkle_root H ?v, map ((!) ?v) ?js, map of_nat ?js, t2)"
    using partial_tree_sent [of ?v vMatch H rest] b m(2) len H by auto
  let ?mb = "\<lparr>mb_header = GetBlockHeader block, mb_txn = t, mb_vMatchedTxn = ms\<rparr>"
  let ?txs = "map (\<lambda>(i, _). vtx block ! i) ms" and ?mb' = "\<lparr>mb_header = GetBlockHeader block, mb_txn = t1, mb_vMatchedTxn = []\<rparr>"
  have "send_filtered_block H block p = Some (Some (?mb, map (\<lambda>(i, _). vtx block ! i) ms), p\<lparr>pfilter := filt'\<rparr>)"
    using p(2) m(1) t(1) by (simp add: send_filtered_block_def CMerkleBlock_of_def)
  moreover have "unser_CMerkleBlock (ser_CMerkleBlock ?mb @ rest) = Inr (\<lparr>mb_header = GetBlockHeader block, mb_txn = t1, mb_vMatchedTxn = []\<rparr>, rest)"
    using t(2) b(4) by (simp add: unser_CMerkleBlock_def ser_CMerkleBlock_def pbind_def preturn_def header_codec.unser_ser)
  moreover have "of_nat j \<in> set (map of_nat ?js :: u32 list) \<and> tx_GetHash H (vtx block ! j) \<in> set (map ((!) ?v) ?js) \<and>
      vtx block ! j \<in> set (map (\<lambda>(i, _). vtx block ! i) ms)"
    if "j < length (vtx block)" "holds f k" "mentions H (vtx block ! j) k" for j k
  proof -
    have "j \<in> set ?js" using m(3) that by simp
    then show ?thesis unfolding m(4) using that(1) by (auto simp: image_iff)
  qed
  ultimately show ?thesis using t(3)
    by (intro exI [of _ ?mb] exI [of _ ?txs] exI [of _ "p\<lparr>pfilter := filt'\<rparr>"] exI [of _ ?mb'] exI [of _ "map ((!) ?v) ?js"]
        exI [of _ "map of_nat ?js"] exI [of _ t2] conjI allI impI) (assumption | simp)+
qed

end
