(* ===== verification/Rolling_Bloom.thy ===== *)
theory Rolling_Bloom
  imports Bloom
begin

text \<open>
  The rolling Bloom filter of \<open>bloom.h\<close>, \<open>bloom.cpp\<close>, which remembers the most recent keys: two bits per cell
  hold one of three generations, and starting a new generation wipes the cells of the oldest one.  The last
  \<open>nElements\<close> keys are always found.  \<open>None\<close> is a division by zero.
\<close>

section \<open>The filter\<close>

record CRollingBloomFilter =
  nEntriesPerGeneration :: nat
  nEntriesThisGeneration :: nat
  nGeneration :: nat
  rb_data :: "u64 list"
  rb_nTweak :: u32
  rb_nHashFuncs :: nat

definition rb_reset :: "u32 \<Rightarrow> CRollingBloomFilter \<Rightarrow> CRollingBloomFilter" where
  "rb_reset rand f = f\<lparr>rb_nTweak := rand, nEntriesThisGeneration := 0, nGeneration := 1, rb_data := map (\<lambda>_. 0) (rb_data f)\<rparr>"

text \<open>\<open>optimal\<close> is \<open>round(logFpRate / log(0.5))\<close>, and \<open>filterBits\<close> the number of bits for a number of hash functions
  and \<open>nMaxElements\<close>; \<open>rand\<close> is the random number.\<close>

definition CRollingBloomFilter_of :: "u32 \<Rightarrow> int \<Rightarrow> (nat \<Rightarrow> u32 \<Rightarrow> u32) \<Rightarrow> u32 \<Rightarrow> CRollingBloomFilter" where
  "CRollingBloomFilter_of nElements optimal filterBits rand =
     (let nHashFuncs = nat (max 1 (min optimal 50));
          perGeneration = unat ((nElements + 1) div 2);
          nMaxElements = of_nat perGeneration * 3;
          nFilterBits = filterBits nHashFuncs nMaxElements
      in rb_reset rand
          \<lparr>nEntriesPerGeneration = perGeneration, nEntriesThisGeneration = 0, nGeneration = 0,
           rb_data = replicate (unat (push_bit 1 ((nFilterBits + 63) div 64))) 0, rb_nTweak = 0, rb_nHashFuncs = nHashFuncs\<rparr>)"

definition RollingBloomHash :: "nat \<Rightarrow> u32 \<Rightarrow> bytes \<Rightarrow> u32" where
  "RollingBloomHash nHashNum nTweak vDataToHash = MurmurHash3 (of_nat nHashNum * 0xFBA4C795 + nTweak) vDataToHash"

text \<open>The loop that wipes the cells of a generation; \<open>m1\<close>, \<open>m2\<close> are the generation masks.\<close>

fun wipe :: "u64 \<Rightarrow> u64 \<Rightarrow> u64 list \<Rightarrow> u64 list" where
  "wipe m1 m2 (p1 # p2 # rest) =
     (let mask = (p1 XOR m1) OR (p2 XOR m2) in (p1 AND mask) # (p2 AND mask) # wipe m1 m2 rest)"
| "wipe m1 m2 data = data"

definition next_generation :: "CRollingBloomFilter \<Rightarrow> CRollingBloomFilter" where
  "next_generation f =
     (let g = (if nGeneration f + 1 = 4 then 1 else nGeneration f + 1)
      in f\<lparr>nEntriesThisGeneration := 0, nGeneration := g,
           rb_data := wipe (0 - of_nat (g AND 1)) (0 - of_nat (drop_bit 1 g)) (rb_data f)\<rparr>)"

text \<open>The bit and the position of a hash; the position is even for the first of the two integers.\<close>

definition rb_bit :: "u32 \<Rightarrow> nat" where "rb_bit h = unat (h AND 0x3F)"

definition rb_pos :: "u64 list \<Rightarrow> u32 \<Rightarrow> u32 option" where
  "rb_pos data h = (if length data = 0 then None else Some (of_nat (unat (drop_bit 6 h) mod length data)))"

definition set_cell :: "nat \<Rightarrow> nat \<Rightarrow> u32 \<Rightarrow> u64 list \<Rightarrow> u64 list" where
  "set_cell g b pos data =
     (let data = data[unat (pos AND NOT 1) := (data ! unat (pos AND NOT 1) AND NOT (push_bit b 1)) OR push_bit b (of_nat (g AND 1))]
      in data[unat (pos OR 1) := (data ! unat (pos OR 1) AND NOT (push_bit b 1)) OR push_bit b (of_nat (drop_bit 1 g))])"

fun rb_insert_loop :: "bytes \<Rightarrow> nat \<Rightarrow> nat \<Rightarrow> CRollingBloomFilter \<Rightarrow> CRollingBloomFilter option" where
  "rb_insert_loop vKey n 0 f = Some f"
| "rb_insert_loop vKey n (Suc k) f = do {
     let h = RollingBloomHash n (rb_nTweak f) vKey;
     pos \<leftarrow> rb_pos (rb_data f) h;
     rb_insert_loop vKey (n + 1) k (f\<lparr>rb_data := set_cell (nGeneration f) (rb_bit h) pos (rb_data f)\<rparr>) }"

definition rb_insert :: "CRollingBloomFilter \<Rightarrow> bytes \<Rightarrow> CRollingBloomFilter option" where
  "rb_insert f vKey =
     (let f = (if nEntriesThisGeneration f = nEntriesPerGeneration f then next_generation f else f);
          f = f\<lparr>nEntriesThisGeneration := nEntriesThisGeneration f + 1\<rparr>
      in rb_insert_loop vKey 0 (rb_nHashFuncs f) f)"

fun rb_contains_loop :: "bytes \<Rightarrow> nat \<Rightarrow> nat \<Rightarrow> CRollingBloomFilter \<Rightarrow> bool option" where
  "rb_contains_loop vKey n 0 f = Some True"
| "rb_contains_loop vKey n (Suc k) f = do {
     let h = RollingBloomHash n (rb_nTweak f) vKey;
     pos \<leftarrow> rb_pos (rb_data f) h;
     if drop_bit (rb_bit h) (rb_data f ! unat (pos AND NOT 1) OR rb_data f ! unat (pos OR 1)) AND 1 = 0 then Some False
     else rb_contains_loop vKey (n + 1) k f }"

definition rb_contains :: "CRollingBloomFilter \<Rightarrow> bytes \<Rightarrow> bool option" where
  "rb_contains f vKey = rb_contains_loop vKey 0 (rb_nHashFuncs f) f"

text \<open>A sequence of insertions.\<close>

fun rb_inserts :: "CRollingBloomFilter \<Rightarrow> bytes list \<Rightarrow> CRollingBloomFilter option" where
  "rb_inserts f [] = Some f"
| "rb_inserts f (k # ks) = do { f \<leftarrow> rb_insert f k; rb_inserts f ks }"

section \<open>Cells\<close>

text \<open>The generation in a cell, a number up to three.\<close>

definition cell :: "u64 list \<Rightarrow> nat \<Rightarrow> nat \<Rightarrow> nat" where
  "cell data P b = of_bool (bit (data ! (2 * P)) b) + 2 * of_bool (bit (data ! (2 * P + 1)) b)"

lemma u32_pair: "unat (p AND NOT 1 :: u32) = 2 * (unat p div 2)" "unat (p OR 1 :: u32) = 2 * (unat p div 2) + 1"
proof -
  have "p AND NOT 1 = unset_bit 0 p" by (simp add: unset_bit_eq_and_not)
  then have "p AND NOT 1 = 2 * (p div 2)" by (simp add: unset_bit_0)
  moreover have small: "2 * (unat p div 2) + 1 < 2 ^ 32" using unat_bound_u32 [of p] by simp presburger
  ultimately show "unat (p AND NOT 1) = 2 * (unat p div 2)" by (simp add: unat_word_ariths unat_div)
  have "p OR 1 = set_bit 0 p" by (simp add: set_bit_eq_or)
  then have "p OR 1 = 1 + 2 * (p div 2)" by (simp add: set_bit_0)
  moreover note small
  ultimately show "unat (p OR 1) = 2 * (unat p div 2) + 1" by (simp add: unat_word_ariths unat_div)
qed

lemma rb_bit_less: "rb_bit h < 64"
proof -
  have "h AND 0x3F \<le> 0x3F" by (rule word_and_le1)
  then show ?thesis by (simp add: rb_bit_def word_le_nat_alt)
qed

lemma length_set_cell [simp]: "length (set_cell g b pos data) = length data"
  by (simp add: set_cell_def Let_def)

lemma set_cell_Nil [simp]: "set_cell g b pos data = [] \<longleftrightarrow> data = []"
  by (simp add: set_cell_def Let_def)

lemma cell_set:
  assumes "b < 64" "b' < 64" "unat pos < length data" "even (length data)" "1 \<le> g" "g \<le> 3" "2 * P < length data"
  shows "cell (set_cell g b pos data) P b' = (if P = unat pos div 2 \<and> b' = b then g else cell data P b')"
proof -
  have "2 * (unat pos div 2) + 1 < length data" using assms(3,4) by presburger
  moreover have "g = 1 \<or> g = 2 \<or> g = 3" using assms(5,6) by auto
  ultimately show ?thesis
    using assms(1,2,7) unfolding cell_def set_cell_def Let_def u32_pair
    by (elim disjE) (auto simp: nth_list_update bit_or_iff bit_and_iff bit_not_iff bit_push_bit_iff bit_1_iff simp del: push_bit_of_1)
qed

lemma cell_wipe:
  assumes "even (length data)" "2 * P < length data" "b < 64" "1 \<le> g" "g \<le> 3"
  shows "cell (wipe (0 - of_nat (g AND 1)) (0 - of_nat (drop_bit 1 g)) data) P b = (if cell data P b = g then 0 else cell data P b)"
    and "length (wipe m1 m2 data) = length data"
proof -
  have g: "g = 1 \<or> g = 2 \<or> g = 3" using assms(4,5) by auto
  have m: "wipe m1 m2 data ! (2 * P) = data ! (2 * P) AND ((data ! (2 * P) XOR m1) OR (data ! (2 * P + 1) XOR m2)) \<and>
     wipe m1 m2 data ! (2 * P + 1) = data ! (2 * P + 1) AND ((data ! (2 * P) XOR m1) OR (data ! (2 * P + 1) XOR m2))" for m1 m2
    using assms(1,2)
  proof (induction m1 m2 data arbitrary: P rule: wipe.induct)
    case (1 m1 m2 p1 p2 rest)
    then show ?case by (cases P) (auto simp: Let_def)
  qed simp_all
  show "cell (wipe (0 - of_nat (g AND 1)) (0 - of_nat (drop_bit 1 g)) data) P b = (if cell data P b = g then 0 else cell data P b)"
    using g assms(3) unfolding cell_def
    by (elim disjE) (auto simp: m [simplified] bit_and_iff bit_or_iff bit_xor_iff bit_minus_1_iff bit_not_iff)
  show "length (wipe m1 m2 data) = length data"
    by (induction m1 m2 data rule: wipe.induct) (simp_all add: Let_def)
qed

section \<open>Recent keys are found\<close>

definition slot :: "CRollingBloomFilter \<Rightarrow> nat \<Rightarrow> bytes \<Rightarrow> nat \<times> nat" where
  "slot f n vKey = (let h = RollingBloomHash n (rb_nTweak f) vKey
     in (unat (drop_bit 6 h) mod length (rb_data f) div 2, rb_bit h))"

text \<open>The shape of a filter in generation number \<open>a\<close>, counted from zero.\<close>

definition rb_ok :: "nat \<Rightarrow> CRollingBloomFilter \<Rightarrow> bool" where
  "rb_ok a f \<longleftrightarrow> rb_data f \<noteq> [] \<and> even (length (rb_data f)) \<and> nGeneration f = a mod 3 + 1"

text \<open>A key of generation \<open>b\<close> has all its cells in generations from \<open>b\<close> to \<open>a\<close>.\<close>

definition fresh :: "nat \<Rightarrow> nat \<Rightarrow> CRollingBloomFilter \<Rightarrow> bytes \<Rightarrow> bool" where
  "fresh a b f vKey \<longleftrightarrow> (\<forall>n < rb_nHashFuncs f. \<exists>c. b \<le> c \<and> c \<le> a \<and>
     cell (rb_data f) (fst (slot f n vKey)) (snd (slot f n vKey)) = c mod 3 + 1)"

lemma generation_range: "1 \<le> a mod 3 + 1" "a mod 3 + 1 \<le> (3 :: nat)"
  by simp_all

lemma rb_pos_eq: "data \<noteq> [] \<Longrightarrow> \<exists>pos. rb_pos data h = Some pos \<and> unat pos = unat (drop_bit 6 h) mod length data"
proof -
  have "unat (drop_bit 6 h) mod length data \<le> unat (drop_bit 6 h)" by simp
  then have "unat (drop_bit 6 h) mod length data < 2 ^ 32" using unat_bound_u32 [of "drop_bit 6 h"] by (rule le_less_trans)
  then show "data \<noteq> [] \<Longrightarrow> ?thesis" by (simp add: rb_pos_def unat_of_nat_u32 del: unsigned_drop_bit_eq)
qed

lemma slot_less: "rb_data f \<noteq> [] \<Longrightarrow> even (length (rb_data f)) \<Longrightarrow> 2 * fst (slot f n vKey) < length (rb_data f)"
proof -
  assume d: "rb_data f \<noteq> []" "even (length (rb_data f))"
  let ?m = "unat (drop_bit 6 (RollingBloomHash n (rb_nTweak f) vKey)) mod length (rb_data f)"
  have "?m < length (rb_data f)" using d(1) by simp
  with times_div_less_eq_dividend [of 2 ?m] show ?thesis unfolding slot_def Let_def fst_conv by (rule le_less_trans)
qed

lemma slot_bit: "snd (slot f n vKey) < 64"
  by (simp add: slot_def Let_def rb_bit_less)

lemma slot_cong: "length (rb_data f') = length (rb_data f) \<Longrightarrow> rb_nTweak f' = rb_nTweak f \<Longrightarrow> slot f' n vKey = slot f n vKey"
  by (simp add: slot_def)

text \<open>One step of the insertion overwrites a single cell with the current generation.\<close>

lemma insert_step:
  assumes "rb_ok a f"
  shows "\<exists>f'. (\<forall>k. rb_insert_loop vKey n (Suc k) f = rb_insert_loop vKey (n + 1) k f') \<and> rb_ok a f' \<and>
    rb_nTweak f' = rb_nTweak f \<and> rb_nHashFuncs f' = rb_nHashFuncs f \<and> length (rb_data f') = length (rb_data f) \<and>
    nEntriesPerGeneration f' = nEntriesPerGeneration f \<and> nEntriesThisGeneration f' = nEntriesThisGeneration f \<and>
    (\<forall>P b. 2 * P < length (rb_data f) \<longrightarrow> b < 64 \<longrightarrow>
      cell (rb_data f') P b = (if (P, b) = slot f n vKey then a mod 3 + 1 else cell (rb_data f) P b))"
proof -
  let ?h = "RollingBloomHash n (rb_nTweak f) vKey"
  have ok: "rb_data f \<noteq> []" "even (length (rb_data f))" "nGeneration f = a mod 3 + 1" using assms by (simp_all add: rb_ok_def)
  obtain pos where pos: "rb_pos (rb_data f) ?h = Some pos" "unat pos = unat (drop_bit 6 ?h) mod length (rb_data f)"
    using rb_pos_eq [OF ok(1)] by blast
  then have less: "unat pos < length (rb_data f)" using ok(1) by simp
  let ?f = "f\<lparr>rb_data := set_cell (nGeneration f) (rb_bit ?h) pos (rb_data f)\<rparr>"
  note cs = cell_set [OF rb_bit_less [of ?h] _ less ok(2) generation_range]
  have "length (rb_data ?f) = length (rb_data f)" by simp
  moreover have "rb_ok a ?f" using ok by (simp add: rb_ok_def)
  moreover have "cell (rb_data ?f) P b = (if (P, b) = slot f n vKey then a mod 3 + 1 else cell (rb_data f) P b)"
    if "2 * P < length (rb_data f)" "b < 64" for P b
    unfolding slot_def Let_def pos(2) [symmetric] prod.inject
    by (simp add: ok(3) cs [OF that(2,1), of a, simplified])
  ultimately show ?thesis using pos(1) by (intro exI [of _ ?f]) (simp add: Let_def)
qed

lemma fresh_step:
  assumes "rb_ok a f" "b \<le> a" "fresh a b f vKey" "rb_nTweak f' = rb_nTweak f" "rb_nHashFuncs f' = rb_nHashFuncs f"
    "length (rb_data f') = length (rb_data f)"
    "\<forall>P b. 2 * P < length (rb_data f) \<longrightarrow> b < 64 \<longrightarrow>
      cell (rb_data f') P b = (if (P, b) = s then a mod 3 + 1 else cell (rb_data f) P b)"
  shows "fresh a b f' vKey"
  unfolding fresh_def
proof (intro allI impI)
  fix n
  assume n: "n < rb_nHashFuncs f'"
  obtain P i where s: "slot f n vKey = (P, i)" by fastforce
  have "2 * P < length (rb_data f)" "i < 64"
    using slot_less [of f n vKey] slot_bit [of f n vKey] assms(1) s by (simp_all add: rb_ok_def)
  then have "cell (rb_data f') P i = (if (P, i) = s then a mod 3 + 1 else cell (rb_data f) P i)" using assms(7) by blast
  moreover obtain c where "b \<le> c" "c \<le> a" "cell (rb_data f) P i = c mod 3 + 1"
    using assms(3,5) n s by (auto simp: fresh_def)
  moreover have sl: "slot f' n vKey = (P, i)" using slot_cong [OF assms(6,4), of n vKey] s by simp
  ultimately show "\<exists>c. b \<le> c \<and> c \<le> a \<and> cell (rb_data f') (fst (slot f' n vKey)) (snd (slot f' n vKey)) = c mod 3 + 1"
    unfolding sl fst_conv snd_conv using assms(2) by (cases "(P, i) = s") (metis order_refl, metis)
qed

text \<open>The whole insertion: older keys stay, and the cells of the new key are in the current generation.\<close>

lemma rb_insert_loop_spec:
  "rb_ok a f \<Longrightarrow> \<exists>f'. rb_insert_loop vKey n k f = Some f' \<and> rb_ok a f' \<and>
    rb_nTweak f' = rb_nTweak f \<and> rb_nHashFuncs f' = rb_nHashFuncs f \<and> length (rb_data f') = length (rb_data f) \<and>
    nEntriesPerGeneration f' = nEntriesPerGeneration f \<and> nEntriesThisGeneration f' = nEntriesThisGeneration f \<and>
    (\<forall>b \<le> a. \<forall>x. fresh a b f x \<longrightarrow> fresh a b f' x) \<and>
    (\<forall>P b. 2 * P < length (rb_data f) \<longrightarrow> b < 64 \<longrightarrow> cell (rb_data f) P b = a mod 3 + 1 \<longrightarrow> cell (rb_data f') P b = a mod 3 + 1) \<and>
    (\<forall>j. n \<le> j \<and> j < n + k \<longrightarrow> cell (rb_data f') (fst (slot f j vKey)) (snd (slot f j vKey)) = a mod 3 + 1)"
proof (induction k arbitrary: n f)
  case (Suc k)
  obtain f1 where one: "rb_insert_loop vKey n (Suc k) f = rb_insert_loop vKey (n + 1) k f1" "rb_ok a f1"
    "rb_nTweak f1 = rb_nTweak f" "rb_nHashFuncs f1 = rb_nHashFuncs f" "length (rb_data f1) = length (rb_data f)"
    "nEntriesPerGeneration f1 = nEntriesPerGeneration f" "nEntriesThisGeneration f1 = nEntriesThisGeneration f"
    "\<forall>P b. 2 * P < length (rb_data f) \<longrightarrow> b < 64 \<longrightarrow>
      cell (rb_data f1) P b = (if (P, b) = slot f n vKey then a mod 3 + 1 else cell (rb_data f) P b)"
    using insert_step [OF Suc.prems, of vKey n] by blast
  obtain f2 where two: "rb_insert_loop vKey (n + 1) k f1 = Some f2" "rb_ok a f2"
    "rb_nTweak f2 = rb_nTweak f1" "rb_nHashFuncs f2 = rb_nHashFuncs f1" "length (rb_data f2) = length (rb_data f1)"
    "nEntriesPerGeneration f2 = nEntriesPerGeneration f1" "nEntriesThisGeneration f2 = nEntriesThisGeneration f1"
    "\<forall>b \<le> a. \<forall>x. fresh a b f1 x \<longrightarrow> fresh a b f2 x"
    "\<forall>P b. 2 * P < length (rb_data f1) \<longrightarrow> b < 64 \<longrightarrow> cell (rb_data f1) P b = a mod 3 + 1 \<longrightarrow> cell (rb_data f2) P b = a mod 3 + 1"
    "\<forall>j. n + 1 \<le> j \<and> j < n + 1 + k \<longrightarrow> cell (rb_data f2) (fst (slot f1 j vKey)) (snd (slot f1 j vKey)) = a mod 3 + 1"
    using Suc.IH [OF one(2), of "n + 1"] by blast
  have fr: "\<forall>b \<le> a. \<forall>x. fresh a b f x \<longrightarrow> fresh a b f2 x"
    using fresh_step [OF Suc.prems _ _ one(3,4,5,8)] two(8) by blast
  have keep: "\<forall>P b. 2 * P < length (rb_data f) \<longrightarrow> b < 64 \<longrightarrow> cell (rb_data f) P b = a mod 3 + 1 \<longrightarrow> cell (rb_data f2) P b = a mod 3 + 1"
    using one(5,8) two(9) by simp
  have sl: "slot f1 j vKey = slot f j vKey" for j by (rule slot_cong [OF one(5,3)])
  have lt: "2 * fst (slot f n vKey) < length (rb_data f)" "snd (slot f n vKey) < 64"
    using slot_less [of f n vKey] slot_bit [of f n vKey] Suc.prems by (simp_all add: rb_ok_def)
  then have "cell (rb_data f1) (fst (slot f n vKey)) (snd (slot f n vKey)) = a mod 3 + 1" using one(8) by simp
  then have "cell (rb_data f2) (fst (slot f n vKey)) (snd (slot f n vKey)) = a mod 3 + 1" using two(9) lt one(5) by simp
  then have "\<forall>j. n \<le> j \<and> j < n + Suc k \<longrightarrow> cell (rb_data f2) (fst (slot f j vKey)) (snd (slot f j vKey)) = a mod 3 + 1"
    using two(10) unfolding sl from_Suc by blast
  then show ?case using one(1,3-7) two(1-7) fr keep by (intro exI [of _ f2] conjI) simp_all
qed auto

lemma rb_contains_loop_spec:
  assumes "rb_ok a f"
  shows "\<forall>j. n \<le> j \<and> j < n + k \<longrightarrow> cell (rb_data f) (fst (slot f j vKey)) (snd (slot f j vKey)) \<noteq> 0 \<Longrightarrow>
    rb_contains_loop vKey n k f = Some True"
proof (induction k arbitrary: n)
  case (Suc k)
  let ?h = "RollingBloomHash n (rb_nTweak f) vKey" and ?d = "rb_data f"
  have ok: "?d \<noteq> []" using assms by (simp add: rb_ok_def)
  obtain pos where pos: "rb_pos ?d ?h = Some pos" "unat pos = unat (drop_bit 6 ?h) mod length ?d"
    using rb_pos_eq [OF ok] by blast
  have "slot f n vKey = (unat pos div 2, rb_bit ?h)" unfolding slot_def Let_def pos(2) ..
  then have "cell ?d (unat pos div 2) (rb_bit ?h) \<noteq> 0" using Suc.prems by (metis fst_conv snd_conv le_refl less_add_same_cancel1 zero_less_Suc)
  then have "bit (?d ! (2 * (unat pos div 2)) OR ?d ! (2 * (unat pos div 2) + 1)) (rb_bit ?h)"
    by (auto simp: cell_def bit_or_iff split: if_splits)
  then have "drop_bit (rb_bit ?h) (?d ! unat (pos AND NOT 1) OR ?d ! unat (pos OR 1)) AND 1 \<noteq> 0"
    unfolding u32_pair by (simp add: and_one_eq bit_iff_odd_drop_bit odd_iff_mod_2_eq_one)
  then show ?case using Suc pos(1) by (simp add: Let_def)
qed simp

lemma fresh_contained: "rb_ok a f \<Longrightarrow> fresh a b f vKey \<Longrightarrow> rb_contains f vKey = Some True"
  unfolding rb_contains_def by (rule rb_contains_loop_spec) (fastforce simp: fresh_def)+

lemma next_generations_differ: "(c :: nat) mod 3 \<noteq> Suc c mod 3" "c mod 3 \<noteq> Suc (Suc c) mod 3"
  by presburger+

text \<open>A new generation wipes only cells three generations old.\<close>

lemma next_generation_ok:
  assumes "rb_ok a f"
  shows "rb_ok (a + 1) (next_generation f)"
    and "b \<le> a \<Longrightarrow> a \<le> b + 1 \<Longrightarrow> fresh a b f vKey \<Longrightarrow> fresh (a + 1) b (next_generation f) vKey"
proof -
  define g where "g = (a + 1) mod 3 + 1"
  have ok: "rb_data f \<noteq> []" "even (length (rb_data f))" "nGeneration f = a mod 3 + 1" using assms by (simp_all add: rb_ok_def)
  have g: "1 \<le> g" "g \<le> 3" by (simp_all add: g_def)
  have "(if a mod 3 + 1 + 1 = 4 then 1 else a mod 3 + 1 + 1) = g" unfolding g_def by presburger
  then have nx: "next_generation f = f\<lparr>nEntriesThisGeneration := 0, nGeneration := g,
      rb_data := wipe (0 - of_nat (g AND 1)) (0 - of_nat (drop_bit 1 g)) (rb_data f)\<rparr>"
    unfolding next_generation_def ok(3) Let_def by simp
  note w = cell_wipe(1) [OF ok(2) _ _ g]
  have len: "length (wipe m1 m2 (rb_data f)) = length (rb_data f)" for m1 m2
    by (rule cell_wipe(2) [OF ok(2) _ _ g, of 0 0]) (use ok(1) in simp_all)
  then have ne: "wipe m1 m2 (rb_data f) \<noteq> []" for m1 m2
    using len [of m1 m2] ok(1) by (cases "wipe m1 m2 (rb_data f)") auto
  show "rb_ok (a + 1) (next_generation f)" using ok ne len by (simp add: rb_ok_def nx g_def)
  show "fresh (a + 1) b (next_generation f) vKey" if b: "b \<le> a" "a \<le> b + 1" "fresh a b f vKey"
    unfolding fresh_def
  proof (intro allI impI)
    fix n
    assume "n < rb_nHashFuncs (next_generation f)"
    then obtain c where c: "b \<le> c" "c \<le> a" "cell (rb_data f) (fst (slot f n vKey)) (snd (slot f n vKey)) = c mod 3 + 1"
      using b(3) by (auto simp: fresh_def nx)
    have sl: "slot (next_generation f) n vKey = slot f n vKey" by (rule slot_cong) (simp_all add: nx len)
    have "a = c \<or> a = Suc c" using c(1,2) b(2) by linarith
    then have "c mod 3 + 1 \<noteq> g" using next_generations_differ [of c] unfolding g_def by (elim disjE) simp_all
    have "cell (rb_data (next_generation f)) (fst (slot f n vKey)) (snd (slot f n vKey)) = c mod 3 + 1"
    proof -
      define D where "D = wipe (0 - of_nat (g AND 1)) (0 - of_nat (drop_bit 1 g)) (rb_data f)"
      have "rb_data (next_generation f) = D" unfolding nx D_def by simp
      moreover note w [OF slot_less [OF ok(1,2), of n vKey] slot_bit [of f n vKey], folded D_def]
      ultimately show ?thesis using \<open>c mod 3 + 1 \<noteq> g\<close> c(3) by simp
    qed
    then show "\<exists>c. b \<le> c \<and> c \<le> a + 1 \<and>
        cell (rb_data (next_generation f)) (fst (slot (next_generation f) n vKey)) (snd (slot (next_generation f) n vKey)) = c mod 3 + 1"
      unfolding sl using c(1,2) by (intro exI [of _ c]) simp
  qed
qed

text \<open>The history of a filter: key number \<open>i\<close> belongs to generation \<open>i div N\<close>, and the keys of the current and
  the two previous generations are there.\<close>

definition rb_history :: "nat \<Rightarrow> bytes list \<Rightarrow> CRollingBloomFilter \<Rightarrow> bool" where
  "rb_history N ks f \<longleftrightarrow> (\<exists>a. rb_ok a f \<and> nEntriesPerGeneration f = N \<and> nEntriesThisGeneration f \<le> N \<and>
     a * N + nEntriesThisGeneration f = length ks \<and>
     (\<forall>i < length ks. a \<le> i div N + 2 \<longrightarrow> fresh a (i div N) f (ks ! i)))"

lemma rb_insert_history:
  assumes N: "0 < N" and "rb_history N ks f"
  shows "\<exists>f'. rb_insert f vKey = Some f' \<and> rb_history N (ks @ [vKey]) f'"
proof -
  obtain a where a: "rb_ok a f" "nEntriesPerGeneration f = N" "nEntriesThisGeneration f \<le> N"
    "a * N + nEntriesThisGeneration f = length ks" "\<forall>i < length ks. a \<le> i div N + 2 \<longrightarrow> fresh a (i div N) f (ks ! i)"
    using assms(2) by (auto simp: rb_history_def)
  have gen: "i div N \<le> a" if "i < length ks" for i
  proof -
    have "i < (a + 1) * N" using that a(3,4) by simp
    then show ?thesis using less_mult_imp_div_less [of i "a + 1" N] by simp
  qed
  obtain f1 a1 where f1: "f1 = (if nEntriesThisGeneration f = N then next_generation f else f)" "rb_ok a1 f1"
    "nEntriesPerGeneration f1 = N" "nEntriesThisGeneration f1 < N" "a1 * N + nEntriesThisGeneration f1 = length ks"
    "\<forall>i < length ks. a1 \<le> i div N + 2 \<longrightarrow> i div N \<le> a1 \<and> fresh a1 (i div N) f1 (ks ! i)"
  proof (cases "nEntriesThisGeneration f = N")
    case True
    have "i div N \<le> a + 1 \<and> fresh (a + 1) (i div N) (next_generation f) (ks ! i)" if "i < length ks" "a + 1 \<le> i div N + 2" for i
      using a(5) gen [OF that(1)] that next_generation_ok(2) [OF a(1), of "i div N"] by simp
    then show thesis using True a(2-4) next_generation_ok(1) [OF a(1)] N
      by (intro that [of "next_generation f" "a + 1"]) (simp_all add: next_generation_def Let_def algebra_simps)
  next
    case False
    then show thesis using a gen by (intro that [of f a]) auto
  qed
  let ?f1 = "f1\<lparr>nEntriesThisGeneration := nEntriesThisGeneration f1 + 1\<rparr>"
  have fr1: "fresh b c ?f1 x = fresh b c f1 x" for b c x by (simp add: fresh_def slot_def)
  have ok1: "rb_ok a1 ?f1" using f1(2) by (simp add: rb_ok_def)
  obtain f2 where f2: "rb_insert_loop vKey 0 (rb_nHashFuncs ?f1) ?f1 = Some f2" "rb_ok a1 f2"
    "rb_nTweak f2 = rb_nTweak ?f1" "rb_nHashFuncs f2 = rb_nHashFuncs ?f1" "length (rb_data f2) = length (rb_data ?f1)"
    "nEntriesPerGeneration f2 = N" "nEntriesThisGeneration f2 = nEntriesThisGeneration f1 + 1"
    "\<forall>b \<le> a1. \<forall>x. fresh a1 b f1 x \<longrightarrow> fresh a1 b f2 x"
    "\<forall>j < rb_nHashFuncs ?f1. cell (rb_data f2) (fst (slot ?f1 j vKey)) (snd (slot ?f1 j vKey)) = a1 mod 3 + 1"
    using rb_insert_loop_spec [OF ok1, of vKey 0 "rb_nHashFuncs ?f1"] f1(3) unfolding fr1 by auto
  have "fresh a1 a1 f2 vKey" unfolding fresh_def using f2(4,9) slot_cong [OF f2(5,3)] by (intro allI impI exI [of _ a1]) simp
  moreover have "length ks div N = a1" using f1(4,5) by (simp flip: f1(5))
  moreover have "\<forall>i < length ks. a1 \<le> i div N + 2 \<longrightarrow> fresh a1 (i div N) f2 (ks ! i)" using f1(6) f2(8) by blast
  ultimately have "\<forall>i < length (ks @ [vKey]). a1 \<le> i div N + 2 \<longrightarrow> fresh a1 (i div N) f2 ((ks @ [vKey]) ! i)"
    by (auto simp: nth_append less_Suc_eq)
  then have "rb_history N (ks @ [vKey]) f2" using f2(2,6,7) f1(4,5) unfolding rb_history_def by (intro exI [of _ a1]) simp
  moreover have "rb_insert f vKey = Some f2" using f2(1) a(2) unfolding rb_insert_def Let_def f1(1) by simp
  ultimately show ?thesis by blast
qed

lemma rb_inserts_history: "0 < N \<Longrightarrow> rb_history N ks0 f \<Longrightarrow> \<exists>f'. rb_inserts f ks = Some f' \<and> rb_history N (ks0 @ ks) f'"
proof (induction ks arbitrary: ks0 f)
  case (Cons k ks)
  obtain f1 where f1: "rb_insert f k = Some f1" "rb_history N (ks0 @ [k]) f1" using rb_insert_history [OF Cons.prems] by blast
  from Cons.IH [OF Cons.prems(1) this(2)] f1(1) show ?case by simp
qed simp

lemma rb_history_contains:
  assumes "0 < N" "rb_history N ks f" "i < length ks" "length ks \<le> i + 2 * N"
  shows "rb_contains f (ks ! i) = Some True"
proof -
  obtain a where a: "rb_ok a f" "a * N + nEntriesThisGeneration f = length ks" "\<forall>i < length ks. a \<le> i div N + 2 \<longrightarrow> fresh a (i div N) f (ks ! i)"
    using assms(2) by (auto simp: rb_history_def)
  have "a * N \<le> i + 2 * N" using a(2) assms(4) by linarith
  then have "a * N div N \<le> (i + 2 * N) div N" by (rule div_le_mono)
  then have "a \<le> i div N + 2" using assms(1) by simp
  then show ?thesis using fresh_contained [OF a(1)] a(3) assms(3) by blast
qed

lemma rolling_filter_keeps_recent:
  assumes "f0 = CRollingBloomFilter_of nElements optimal filterBits rand" "rb_data f0 \<noteq> []" "0 < unat nElements" "unat nElements + 1 < 2 ^ 32"
  shows "\<exists>f. rb_inserts f0 ks = Some f \<and> (\<forall>i < length ks. length ks \<le> i + unat nElements \<longrightarrow> rb_contains f (ks ! i) = Some True)"
proof -
  let ?N = "nEntriesPerGeneration f0"
  have n: "unat (nElements + 1) = unat nElements + 1" "0 < unat nElements"
    using assms(3,4) by (simp_all add: unat_word_ariths)
  have N: "?N = (unat nElements + 1) div 2" by (simp add: assms(1) CRollingBloomFilter_of_def rb_reset_def Let_def unat_div n)
  then have pos: "0 < ?N" and cover: "unat nElements \<le> 2 * ?N" using n(2) by simp_all
  let ?x = "(filterBits (nat (max 1 (min optimal 50))) (of_nat (unat ((nElements + 1) div 2)) * 3) + 63) div 64"
  have d: "rb_data f0 = replicate (unat (push_bit 1 ?x)) 0"
    by (simp add: assms(1) CRollingBloomFilter_of_def rb_reset_def Let_def map_replicate_const)
  have "even (unat (push_bit 1 ?x))" unfolding unsigned_push_bit_eq by (simp add: push_bit_eq_mult take_bit_eq_mod dvd_mod)
  then have "rb_ok 0 f0" using assms(2) d by (simp add: rb_ok_def) (simp add: assms(1) CRollingBloomFilter_of_def rb_reset_def Let_def)
  then have "rb_history ?N [] f0" unfolding rb_history_def
    by (intro exI [of _ 0]) (simp add: assms(1) CRollingBloomFilter_of_def rb_reset_def Let_def)
  from rb_inserts_history [OF pos this, of ks] obtain f where "rb_inserts f0 ks = Some f" "rb_history ?N ks f" by auto
  then show ?thesis using rb_history_contains [OF pos] cover by (meson add_left_mono order_trans)
qed

end
