(* ===== verification/Sha3.thy ===== *)
theory Sha3
  imports Serialize
begin

text \<open>
  SHA3-256 (\<open>crypto/sha3_256.cpp\<close>), the hash function of blocks and transactions, and the hashers built on it in
  \<open>hash.h\<close>.  The unrolled permutation is the one of FIPS 202 (steps theta, rho, pi, chi and iota with the
  offsets and the constants that the standard computes), and a message written in any pieces is hashed by
  the sponge construction on the whole message.
\<close>

section \<open>The permutation\<close>

definition sha3_RC :: "u64 list" where
  "sha3_RC =
    [0x0000000000000001, 0x0000000000008082, 0x800000000000808A, 0x8000000080008000,
     0x000000000000808B, 0x0000000080000001, 0x8000000080008081, 0x8000000000008009,
     0x000000000000008A, 0x0000000000000088, 0x0000000080008009, 0x000000008000000A,
     0x000000008000808B, 0x800000000000008B, 0x8000000000008089, 0x8000000000008003,
     0x8000000000008002, 0x8000000000000080, 0x000000000000800A, 0x800000008000000A,
     0x8000000080008081, 0x8000000000008080, 0x0000000080000001, 0x8000000080008008]"

definition rotate_left :: "u64 \<Rightarrow> nat \<Rightarrow> u64" where
  "rotate_left x n = push_bit n x OR drop_bit (64 - n) x"

text \<open>The body of the loop over the rounds.\<close>

definition keccak_round :: "u64 list \<Rightarrow> u64 \<Rightarrow> u64 list" where
  "keccak_round A RC =
    (let C0 = A ! 0 XOR A ! 5 XOR A ! 10 XOR A ! 15 XOR A ! 20;
         C1 = A ! 1 XOR A ! 6 XOR A ! 11 XOR A ! 16 XOR A ! 21;
         C2 = A ! 2 XOR A ! 7 XOR A ! 12 XOR A ! 17 XOR A ! 22;
         C3 = A ! 3 XOR A ! 8 XOR A ! 13 XOR A ! 18 XOR A ! 23;
         C4 = A ! 4 XOR A ! 9 XOR A ! 14 XOR A ! 19 XOR A ! 24;
         D0 = C4 XOR rotate_left C1 1;
         D1 = C0 XOR rotate_left C2 1;
         D2 = C1 XOR rotate_left C3 1;
         D3 = C2 XOR rotate_left C4 1;
         D4 = C3 XOR rotate_left C0 1;
         B0 = A ! 0 XOR D0;
         B10 = rotate_left (A ! 1 XOR D1) 1;
         B20 = rotate_left (A ! 2 XOR D2) 62;
         B5 = rotate_left (A ! 3 XOR D3) 28;
         B15 = rotate_left (A ! 4 XOR D4) 27;
         B16 = rotate_left (A ! 5 XOR D0) 36;
         B1 = rotate_left (A ! 6 XOR D1) 44;
         B11 = rotate_left (A ! 7 XOR D2) 6;
         B21 = rotate_left (A ! 8 XOR D3) 55;
         B6 = rotate_left (A ! 9 XOR D4) 20;
         B7 = rotate_left (A ! 10 XOR D0) 3;
         B17 = rotate_left (A ! 11 XOR D1) 10;
         B2 = rotate_left (A ! 12 XOR D2) 43;
         B12 = rotate_left (A ! 13 XOR D3) 25;
         B22 = rotate_left (A ! 14 XOR D4) 39;
         B23 = rotate_left (A ! 15 XOR D0) 41;
         B8 = rotate_left (A ! 16 XOR D1) 45;
         B18 = rotate_left (A ! 17 XOR D2) 15;
         B3 = rotate_left (A ! 18 XOR D3) 21;
         B13 = rotate_left (A ! 19 XOR D4) 8;
         B14 = rotate_left (A ! 20 XOR D0) 18;
         B24 = rotate_left (A ! 21 XOR D1) 2;
         B9 = rotate_left (A ! 22 XOR D2) 61;
         B19 = rotate_left (A ! 23 XOR D3) 56;
         B4 = rotate_left (A ! 24 XOR D4) 14
     in [(B0 XOR (NOT B1 AND B2)) XOR RC, B1 XOR (NOT B2 AND B3), B2 XOR (NOT B3 AND B4), B3 XOR (NOT B4 AND B0), B4 XOR (NOT B0 AND B1),
         B5 XOR (NOT B6 AND B7), B6 XOR (NOT B7 AND B8), B7 XOR (NOT B8 AND B9), B8 XOR (NOT B9 AND B5), B9 XOR (NOT B5 AND B6),
         B10 XOR (NOT B11 AND B12), B11 XOR (NOT B12 AND B13), B12 XOR (NOT B13 AND B14), B13 XOR (NOT B14 AND B10), B14 XOR (NOT B10 AND B11),
         B15 XOR (NOT B16 AND B17), B16 XOR (NOT B17 AND B18), B17 XOR (NOT B18 AND B19), B18 XOR (NOT B19 AND B15), B19 XOR (NOT B15 AND B16),
         B20 XOR (NOT B21 AND B22), B21 XOR (NOT B22 AND B23), B22 XOR (NOT B23 AND B24), B23 XOR (NOT B24 AND B20), B24 XOR (NOT B20 AND B21)])"

definition keccak :: "u64 list \<Rightarrow> u64 list" where
  "keccak A = fold (\<lambda>RC A. keccak_round A RC) sha3_RC A"

section \<open>Absorbing\<close>

definition RATE :: nat where "RATE = 1600 - 2 * 256"
definition SHA3_OUTPUT_SIZE :: nat where "SHA3_OUTPUT_SIZE = 32"

text \<open>Integers are stored with the lowest byte first.\<close>

definition xor_lanes :: "bytes \<Rightarrow> nat \<Rightarrow> u64 list \<Rightarrow> u64 list" where
  "xor_lanes block r64 A = fold (\<lambda>i A. A[i := A ! i XOR ReadLE64 (drop (8 * i) block)]) [0..<r64] A"

fun sha3_transform :: "bytes \<Rightarrow> nat \<Rightarrow> u64 list \<Rightarrow> nat \<Rightarrow> u64 list" where
  "sha3_transform block 0 A rate = A"
| "sha3_transform block (Suc num_blks) A rate =
     sha3_transform (drop (rate div 8) block) num_blks (keccak (xor_lanes block (rate div 64) A)) rate"

record CSHA3_256 =
  sha_A :: "u64 list"
  sha_m :: bytes
  sha_pos :: nat
  sha_total :: u64

text \<open>The buffer and the count \<open>total\<close> are not initialised: their first contents are arguments.\<close>

definition CSHA3_256_new :: "bytes \<Rightarrow> u64 \<Rightarrow> CSHA3_256" where
  "CSHA3_256_new m t = \<lparr>sha_A = replicate 25 0, sha_m = m, sha_pos = 0, sha_total = t\<rparr>"

definition memcpy_at :: "bytes \<Rightarrow> nat \<Rightarrow> bytes \<Rightarrow> bytes" where
  "memcpy_at m p d = take p m @ d @ drop (p + length d) m"

definition absorb_bytes :: "bytes \<Rightarrow> nat \<Rightarrow> nat \<Rightarrow> nat \<Rightarrow> CSHA3_256 \<Rightarrow> CSHA3_256" where
  "absorb_bytes dat bs bschk rate h =
     (let (dat, h) =
            (if sha_pos h \<noteq> 0 \<and> sha_pos h + length dat \<ge> bschk
             then let m = memcpy_at (sha_m h) (sha_pos h) (take (bs - sha_pos h) dat)
                  in (drop (bs - sha_pos h) dat,
                      h\<lparr>sha_m := m, sha_A := sha3_transform m 1 (sha_A h) rate,
                        sha_total := sha_total h + of_nat bs * 8, sha_pos := 0\<rparr>)
             else (dat, h));
          (dat, h) =
            (if length dat \<ge> bschk
             then let blocks = (length dat + bs - bschk) div bs; bytes = blocks * bs
                  in (drop bytes dat,
                      h\<lparr>sha_A := sha3_transform dat blocks (sha_A h) rate, sha_total := sha_total h + of_nat bytes * 8\<rparr>)
             else (dat, h))
      in h\<lparr>sha_m := memcpy_at (sha_m h) (sha_pos h) dat, sha_pos := sha_pos h + length dat\<rparr>)"

definition sha3_Write :: "bytes \<Rightarrow> CSHA3_256 \<Rightarrow> CSHA3_256" where
  "sha3_Write dat h = absorb_bytes dat (RATE div 8) (RATE div 8) RATE h"

definition sha3_Finalize :: "CSHA3_256 \<Rightarrow> bytes \<times> CSHA3_256" where
  "sha3_Finalize h =
     (let r = RATE div 8;
          m = (sha_m h)[sha_pos h := 0x06]; pos = sha_pos h + 1;
          m = (if r \<noteq> pos then memcpy_at m pos (replicate (r - pos) 0) else m);
          m = m[r - 1 := m ! (r - 1) OR 0x80];
          A = sha3_transform m 1 (sha_A h) RATE
      in (take SHA3_OUTPUT_SIZE (concat (map WriteLE64 A)), h\<lparr>sha_m := m, sha_pos := pos, sha_A := A\<rparr>))"

definition sha3_Reset :: "CSHA3_256 \<Rightarrow> CSHA3_256" where
  "sha3_Reset h = h\<lparr>sha_A := map (\<lambda>_. 0) (sha_A h), sha_m := map (\<lambda>_. 0) (sha_m h), sha_pos := 0\<rparr>"

section \<open>The standard's permutation\<close>

text \<open>A state is a function of the coordinates \<open>x\<close>, \<open>y\<close> of its lanes.\<close>

type_synonym lanes = "nat \<Rightarrow> nat \<Rightarrow> u64"

definition theta :: "lanes \<Rightarrow> lanes" where
  "theta A x y =
     (let C = (\<lambda>x. A x 0 XOR A x 1 XOR A x 2 XOR A x 3 XOR A x 4)
      in A x y XOR (C ((x + 4) mod 5) XOR word_rotl 1 (C ((x + 1) mod 5))))"

text \<open>The walk over the lanes that determines the offsets of rho.\<close>

fun rho_walk :: "nat \<Rightarrow> nat \<Rightarrow> nat \<Rightarrow> nat \<Rightarrow> ((nat \<times> nat) \<times> nat) list" where
  "rho_walk 0 t x y = []"
| "rho_walk (Suc k) t x y = ((x, y), (t + 1) * (t + 2) div 2 mod 64) # rho_walk k (t + 1) y ((2 * x + 3 * y) mod 5)"

definition rho_offset :: "nat \<Rightarrow> nat \<Rightarrow> nat" where
  "rho_offset x y = (case map_of (rho_walk 24 0 1 0) (x, y) of None \<Rightarrow> 0 | Some n \<Rightarrow> n)"

definition rho :: "lanes \<Rightarrow> lanes" where "rho A x y = word_rotl (rho_offset x y) (A x y)"
definition pi_step :: "lanes \<Rightarrow> lanes" where "pi_step A x y = A ((x + 3 * y) mod 5) x"

definition chi :: "lanes \<Rightarrow> lanes" where
  "chi A x y = A x y XOR (NOT (A ((x + 1) mod 5) y) AND A ((x + 2) mod 5) y)"

text \<open>The constants of iota come from a shift register.\<close>

definition lfsr_step :: "bool list \<Rightarrow> bool list" where
  "lfsr_step R = (let R = False # R; fb = R ! 8
     in take 8 (R[0 := R ! 0 \<noteq> fb, 4 := R ! 4 \<noteq> fb, 5 := R ! 5 \<noteq> fb, 6 := R ! 6 \<noteq> fb]))"

fun rc_bits :: "nat \<Rightarrow> bool list \<Rightarrow> bool list" where
  "rc_bits 0 R = []"
| "rc_bits (Suc k) R = hd R # rc_bits k (lfsr_step R)"

text \<open>The seven bits of every round follow each other; bit \<open>j\<close> goes to position \<open>2 ^ j - 1\<close>.\<close>

fun iota_words :: "bool list \<Rightarrow> u64 list" where
  "iota_words (b0 # b1 # b2 # b3 # b4 # b5 # b6 # bs) =
     ((if b0 then 1 else 0) OR (if b1 then push_bit 1 1 else 0) OR (if b2 then push_bit 3 1 else 0) OR (if b3 then push_bit 7 1 else 0) OR
      (if b4 then push_bit 15 1 else 0) OR (if b5 then push_bit 31 1 else 0) OR (if b6 then push_bit 63 1 else 0)) # iota_words bs"
| "iota_words _ = []"

definition iota_constants :: "u64 list" where
  "iota_constants = iota_words (rc_bits (24 * 7) [True, False, False, False, False, False, False, False])"

definition iota :: "u64 \<Rightarrow> lanes \<Rightarrow> lanes" where
  "iota RC A x y = (if x = 0 \<and> y = 0 then A x y XOR RC else A x y)"

definition lanes_of :: "u64 list \<Rightarrow> lanes" where "lanes_of A x y = A ! (5 * y + x)"
definition of_lanes :: "lanes \<Rightarrow> u64 list" where "of_lanes A = concat (map (\<lambda>y. map (\<lambda>x. A x y) [0..<5]) [0..<5])"

definition keccak_spec :: "u64 list \<Rightarrow> u64 list" where
  "keccak_spec A = of_lanes (fold (\<lambda>RC A. iota RC (chi (pi_step (rho (theta A))))) iota_constants (lanes_of A))"

section \<open>The permutation is the standard's\<close>

lemma rotate_left_rotl: "n < 64 \<Longrightarrow> rotate_left x n = word_rotl n x"
proof (rule bit_word_eqI)
  fix i
  assume n: "n < 64" and "i < LENGTH(64)"
  then have i: "i < 64" by simp
  show "bit (rotate_left x n) i = bit (word_rotl n x) i"
  proof (cases "n \<le> i")
    case True
    then have "(i + (64 - n)) mod 64 = (i - n + 64) mod 64"
      by (intro arg_cong [where f = "\<lambda>k. k mod 64"]) (use n in linarith)
    then have m: "(i + (64 - n)) mod 64 = i - n" using i by (simp only: mod_add_self2) simp
    have l: "LENGTH(64) = 64" by simp
    have "bit (word_rotl n x) i = bit x (i - n)"
      unfolding bit_word_rotl_iff l mod_less [OF n] m using i by simp
    moreover have "\<not> bit x (64 - n + i)" using bit_imp_le_length [of x "64 - n + i"] True n by auto
    then have "bit (rotate_left x n) i = bit x (i - n)"
      unfolding rotate_left_def bit_or_iff bit_push_bit_iff bit_drop_bit_eq o_def using True i by simp
    ultimately show ?thesis by simp
  next
    case False
    then have m: "(i + (64 - n)) mod 64 = 64 - n + i" using n by (subst mod_less) auto
    have l: "LENGTH(64) = 64" by simp
    have "bit (word_rotl n x) i = bit x (64 - n + i)"
      unfolding bit_word_rotl_iff l mod_less [OF n] m using i by simp
    moreover have "bit (rotate_left x n) i = bit x (64 - n + i)"
      unfolding rotate_left_def bit_or_iff bit_push_bit_iff bit_drop_bit_eq o_def using False i by simp
    ultimately show ?thesis by simp
  qed
qed

lemma rho_offsets:
  "map (\<lambda>y. map (\<lambda>x. rho_offset x y) [0..<5]) [0..<5] =
    [[0, 1, 62, 28, 27], [36, 44, 6, 55, 20], [3, 10, 43, 25, 39], [41, 45, 15, 21, 8], [18, 2, 61, 56, 14]]"
  by code_simp

lemma rc_bits_eq: "rc_bits (24 * 7) [True, False, False, False, False, False, False, False] =
    [True, False, False, False, False, False, False, False, True, False, True, True, False, False,
     False, True, True, True, True, False, True, False, False, False, False, True, True, True,
     True, True, True, True, True, False, False, True, False, False, False, False, True, False,
     True, False, False, True, True, True, True, True, False, True, False, True, False, True,
     False, True, True, True, False, False, False, False, False, True, True, False, False, False,
     True, False, True, False, True, True, False, False, True, True, False, False, True, False,
     True, True, True, True, True, True, False, True, True, True, True, False, False, True,
     True, False, True, True, True, False, True, True, True, False, False, True, False, True,
     False, True, False, False, True, False, True, False, False, False, True, False, False, True,
     False, True, True, False, True, False, False, False, True, True, False, False, True, True,
     True, False, False, True, True, True, True, False, False, False, True, True, False, True,
     True, False, False, False, False, True, False, False, False, True, False, True, True, True]"
  by (simp add: numeral_eq_Suc lfsr_step_def Let_def)

lemma iota_constants_eq: "iota_constants = sha3_RC"
  unfolding iota_constants_def rc_bits_eq sha3_RC_def by simp

lemma upt5: "[0..<5] = [0, Suc 0, 2, 3, 4]"
  by code_simp

lemma rho_offset_simps:
  "rho_offset 0 0 = 0" "rho_offset (Suc 0) 0 = 1" "rho_offset 2 0 = 62" "rho_offset 3 0 = 28" "rho_offset 4 0 = 27"
  "rho_offset 0 (Suc 0) = 36" "rho_offset (Suc 0) (Suc 0) = 44" "rho_offset 2 (Suc 0) = 6" "rho_offset 3 (Suc 0) = 55" "rho_offset 4 (Suc 0) = 20"
  "rho_offset 0 2 = 3" "rho_offset (Suc 0) 2 = 10" "rho_offset 2 2 = 43" "rho_offset 3 2 = 25" "rho_offset 4 2 = 39"
  "rho_offset 0 3 = 41" "rho_offset (Suc 0) 3 = 45" "rho_offset 2 3 = 15" "rho_offset 3 3 = 21" "rho_offset 4 3 = 8"
  "rho_offset 0 4 = 18" "rho_offset (Suc 0) 4 = 2" "rho_offset 2 4 = 61" "rho_offset 3 4 = 56" "rho_offset 4 4 = 14"
  using rho_offsets by (simp_all add: upt5)

lemma of_lanes_list:
  "of_lanes L = [L 0 0, L (Suc 0) 0, L 2 0, L 3 0, L 4 0, L 0 (Suc 0), L (Suc 0) (Suc 0), L 2 (Suc 0), L 3 (Suc 0), L 4 (Suc 0), L 0 2, L (Suc 0) 2, L 2 2, L 3 2, L 4 2, L 0 3, L (Suc 0) 3, L 2 3, L 3 3, L 4 3, L 0 4, L (Suc 0) 4, L 2 4, L 3 4, L 4 4]"
  by (simp add: of_lanes_def upt5)

lemma rotl_0: "word_rotl 0 (x :: u64) = x"
  by (rule bit_word_eqI) (simp add: bit_word_rotl_iff)

lemma keccak_round_of_lanes: "keccak_round (of_lanes L) RC = of_lanes (iota RC (chi (pi_step (rho (theta L)))))"
  unfolding of_lanes_list keccak_round_def Let_def
  by (simp add: iota_def chi_def pi_step_def rho_def theta_def rho_offset_simps rotate_left_rotl rotl_0
      numeral_2_eq_2 [symmetric])

lemma keccak_of_lanes:
  "fold (\<lambda>RC A. keccak_round A RC) rcs (of_lanes L) = of_lanes (fold (\<lambda>RC A. iota RC (chi (pi_step (rho (theta A))))) rcs L)"
  by (induction rcs arbitrary: L) (simp_all add: keccak_round_of_lanes)

lemma of_lanes_of: "length A = 25 \<Longrightarrow> of_lanes (lanes_of A) = A"
  by (rule nth_equalityI) (auto simp: of_lanes_list lanes_of_def less_Suc_eq numeral_eq_Suc)

lemma keccak_is_spec: "length A = 25 \<Longrightarrow> keccak A = keccak_spec A"
  using keccak_of_lanes [of sha3_RC "lanes_of A"] by (simp add: keccak_def keccak_spec_def of_lanes_of iota_constants_eq)

section \<open>The sponge construction\<close>

text \<open>The standard's hash of a whole message, 136 bytes to the block.\<close>

definition absorb_block :: "u64 list \<Rightarrow> bytes \<Rightarrow> u64 list" where
  "absorb_block A blk = keccak_spec (map (\<lambda>i. if i < 17 then A ! i XOR ReadLE64 (drop (8 * i) blk) else A ! i) [0..<25])"

function sponge :: "u64 list \<Rightarrow> bytes \<Rightarrow> u64 list" where
  "sponge A P = (if length P < 136 then A else sponge (absorb_block A (take 136 P)) (drop 136 P))"
  by auto
termination by (relation "measure (\<lambda>(A, P). length P)") auto
declare sponge.simps [simp del]

text \<open>The suffix \<open>01\<close> of the hash functions and the padding \<open>10*1\<close>, in bytes.\<close>

definition sha3_pad :: "bytes \<Rightarrow> bytes" where
  "sha3_pad M = (let n = 136 - length M mod 136 in if n = 1 then M @ [0x86] else M @ [0x06] @ replicate (n - 2) 0 @ [0x80])"

definition SHA3_256_spec :: "bytes \<Rightarrow> bytes" where
  "SHA3_256_spec M = take 32 (concat (map WriteLE64 (sponge (replicate 25 0) (sha3_pad M))))"

lemma length_of_lanes [simp]: "length (of_lanes L) = 25"
  by (simp add: of_lanes_list)

lemma length_absorb_block [simp]: "length (absorb_block A blk) = 25"
  by (simp add: absorb_block_def keccak_spec_def)

lemma length_sponge: "length A = 25 \<Longrightarrow> length (sponge A P) = 25"
  by (induction A P rule: sponge.induct) (simp add: sponge.simps)

lemma sponge_short: "length P < 136 \<Longrightarrow> sponge A P = A"
  by (simp add: sponge.simps)

lemma sponge_block: "length X = 136 \<Longrightarrow> sponge A (X @ Y) = sponge (absorb_block A X) Y"
  by (simp add: sponge.simps [of A "X @ Y"])

lemma sponge_append: "length X = 136 * k \<Longrightarrow> sponge A (X @ Y) = sponge (sponge A X) Y"
proof (induction k arbitrary: A X)
  case 0
  then show ?case by (simp add: sponge_short)
next
  case (Suc k)
  let ?B = "take 136 X" and ?X = "drop 136 X"
  have l: "length ?B = 136" "length ?X = 136 * k" using Suc.prems by auto
  have "sponge A (X @ Y) = sponge A (?B @ ?X @ Y)" by (simp flip: append_assoc)
  also have "\<dots> = sponge (sponge (absorb_block A ?B) ?X) Y" using Suc.IH [OF l(2)] sponge_block [OF l(1)] by simp
  also have "sponge (absorb_block A ?B) ?X = sponge A (?B @ ?X)" by (rule sponge_block [OF l(1), symmetric])
  finally show ?case by (simp only: append_take_drop_id)
qed

lemma fold_list_update:
  "n \<le> length A \<Longrightarrow> fold (\<lambda>i A. A[i := f i (A ! i)]) [0..<n] A = map (\<lambda>i. if i < n then f i (A ! i) else A ! i) [0..<length A]"
proof (induction n)
  case 0
  then show ?case by (simp add: map_nth)
next
  case (Suc n)
  then show ?case by (auto simp: intro!: nth_equalityI simp: nth_list_update less_Suc_eq)
qed

lemma ReadLE64_take: "8 * i + 8 \<le> k \<Longrightarrow> ReadLE64 (drop (8 * i) (take k xs)) = ReadLE64 (drop (8 * i) xs)"
  by (simp add: ReadLE64_def drop_take min_def)

lemma keccak_xor_lanes:
  assumes "length A = 25"
  shows "keccak (xor_lanes blk 17 A) = absorb_block A (take 136 blk)"
proof -
  have "xor_lanes blk 17 A = map (\<lambda>i. if i < 17 then A ! i XOR ReadLE64 (drop (8 * i) blk) else A ! i) [0..<25]"
    using fold_list_update [of 17 A "\<lambda>i a. a XOR ReadLE64 (drop (8 * i) blk)"] assms by (simp add: xor_lanes_def)
  also have "\<dots> = map (\<lambda>i. if i < 17 then A ! i XOR ReadLE64 (drop (8 * i) (take 136 blk)) else A ! i) [0..<25]"
    by (rule map_cong [OF refl]) (simp add: ReadLE64_take)
  finally show ?thesis by (simp add: absorb_block_def keccak_is_spec)
qed

lemma sha3_transform_sponge:
  "length A = 25 \<Longrightarrow> 136 * k \<le> length dat \<Longrightarrow> sha3_transform dat k A RATE = sponge A (take (136 * k) dat)"
proof (induction k arbitrary: A dat)
  case 0
  then show ?case by (simp add: sponge_short)
next
  case (Suc k)
  have "take (136 * Suc k) dat = take 136 dat @ take (136 * k) (drop 136 dat)" by (simp add: take_add)
  moreover have "sha3_transform (drop 136 dat) k (absorb_block A (take 136 dat)) RATE =
      sponge (absorb_block A (take 136 dat)) (take (136 * k) (drop 136 dat))"
    using Suc.prems by (intro Suc.IH) auto
  ultimately show ?case
    using sponge_block [of "take 136 dat" A] Suc.prems by (simp add: RATE_def keccak_xor_lanes)
qed

section \<open>Writing in pieces\<close>

text \<open>What a whole number of blocks leaves of a message, and the state after a message has been written.\<close>

definition unprocessed :: "bytes \<Rightarrow> bytes" where "unprocessed P = drop (136 * (length P div 136)) P"

definition sha3_state :: "u64 list \<Rightarrow> bytes \<Rightarrow> CSHA3_256 \<Rightarrow> bool" where
  "sha3_state A b h \<longleftrightarrow> sha_A h = A \<and> length A = 25 \<and> length (sha_m h) = 144 \<and>
     sha_pos h = length b \<and> length b < 136 \<and> take (sha_pos h) (sha_m h) = b"

lemma length_unprocessed: "length (unprocessed P) = length P mod 136"
  by (simp add: unprocessed_def minus_mult_div_eq_mod)

lemma unprocessed_short: "length P < 136 \<Longrightarrow> unprocessed P = P"
  by (simp add: unprocessed_def)

lemma unprocessed_append: "length X = 136 * k \<Longrightarrow> unprocessed (X @ Y) = unprocessed Y"
  by (simp add: unprocessed_def algebra_simps)

lemma split_unprocessed: "\<exists>X. P = X @ unprocessed P \<and> length X = 136 * (length P div 136)"
  by (rule exI [of _ "take (136 * (length P div 136)) P"]) (simp add: unprocessed_def)

lemma sponge_continue: "sponge A (P @ Q) = sponge (sponge A P) (unprocessed P @ Q)"
proof -
  obtain X where X: "P = X @ unprocessed P" "length X = 136 * (length P div 136)" using split_unprocessed by blast
  have "sponge A P = sponge A (X @ unprocessed P)" using X(1) by simp
  also have "\<dots> = sponge A X"
    unfolding sponge_append [OF X(2)] by (rule sponge_short) (simp add: length_unprocessed)
  finally have "sponge A P = sponge A X" .
  moreover have "sponge A (P @ Q) = sponge A (X @ unprocessed P @ Q)" using X(1) by (metis append.assoc)
  ultimately show ?thesis by (simp add: sponge_append [OF X(2)])
qed

lemma unprocessed_continue: "unprocessed (P @ Q) = unprocessed (unprocessed P @ Q)"
proof -
  obtain X where X: "P = X @ unprocessed P" "length X = 136 * (length P div 136)" using split_unprocessed by blast
  have "unprocessed (P @ Q) = unprocessed (X @ unprocessed P @ Q)" using X(1) by (metis append.assoc)
  then show ?thesis by (simp add: unprocessed_append [OF X(2)])
qed

lemma take_memcpy_at: "p \<le> length m \<Longrightarrow> take (p + length d) (memcpy_at m p d) = take p m @ d"
  by (simp add: memcpy_at_def)

lemma length_memcpy_at: "p + length d \<le> length m \<Longrightarrow> length (memcpy_at m p d) = length m"
  by (simp add: memcpy_at_def)

lemma sha3_Write_empty_buffer:
  assumes "sha3_state A [] h"
  shows "sha3_state (sponge A dat) (unprocessed dat) (sha3_Write dat h)"
proof -
  have h: "sha_A h = A" "length A = 25" "length (sha_m h) = 144" "sha_pos h = 0"
    using assms by (auto simp: sha3_state_def)
  let ?k = "length dat div 136"
  have t: "sha3_transform dat ?k A RATE = sponge A dat"
  proof -
    have "sha3_transform dat ?k A RATE = sponge A (take (136 * ?k) dat)" using h by (intro sha3_transform_sponge) auto
    also have "\<dots> = sponge (sponge A (take (136 * ?k) dat)) (unprocessed dat)"
      by (rule sponge_short [symmetric]) (simp add: length_unprocessed)
    also have "\<dots> = sponge A (take (136 * ?k) dat @ unprocessed dat)" by (rule sponge_append [symmetric]) auto
    finally show ?thesis by (simp add: unprocessed_def)
  qed
  have u: "drop (?k * 136) dat = unprocessed dat" by (simp add: unprocessed_def mult.commute)
  have w: "sha3_Write dat h = (if length dat \<ge> 136
      then h\<lparr>sha_A := sponge A dat, sha_total := sha_total h + of_nat (?k * 136) * 8,
             sha_m := memcpy_at (sha_m h) 0 (unprocessed dat), sha_pos := length (unprocessed dat)\<rparr>
      else h\<lparr>sha_m := memcpy_at (sha_m h) 0 dat, sha_pos := length dat\<rparr>)"
    using h t u by (simp add: sha3_Write_def absorb_bytes_def RATE_def Let_def)
  have "length (unprocessed dat) < 136" by (simp add: length_unprocessed)
  then show ?thesis
    using h length_sponge [OF h(2), of dat] take_memcpy_at [of 0 "sha_m h"] length_memcpy_at [of 0 _ "sha_m h"]
    unfolding w sha3_state_def by (auto simp: unprocessed_short sponge_short)
qed

lemma sha3_Write_state:
  assumes s: "sha3_state A b h"
  shows "sha3_state (sponge A (b @ dat)) (unprocessed (b @ dat)) (sha3_Write dat h)"
proof -
  have h: "sha_A h = A" "length A = 25" "length (sha_m h) = 144" "sha_pos h = length b" "length b < 136"
      "take (length b) (sha_m h) = b"
    using s by (auto simp: sha3_state_def)
  consider "b = []" | "b \<noteq> []" "length b + length dat < 136" | "b \<noteq> []" "length b + length dat \<ge> 136" by linarith
  then show ?thesis
  proof cases
    case 1
    then show ?thesis using sha3_Write_empty_buffer s by simp
  next
    case 2
    then have "sha3_Write dat h = h\<lparr>sha_m := memcpy_at (sha_m h) (length b) dat, sha_pos := length b + length dat\<rparr>"
      using h by (simp add: sha3_Write_def absorb_bytes_def RATE_def Let_def)
    then show ?thesis
      using 2 h take_memcpy_at [of "length b" "sha_m h" dat] length_memcpy_at [of "length b" dat "sha_m h"]
      by (simp add: sha3_state_def unprocessed_short sponge_short)
  next
    case 3
    let ?d = "take (136 - length b) dat" and ?r = "drop (136 - length b) dat"
    let ?m = "memcpy_at (sha_m h) (length b) ?d"
    let ?h = "h\<lparr>sha_m := ?m, sha_A := sponge A (b @ ?d), sha_total := sha_total h + 136 * 8, sha_pos := 0\<rparr>"
    have l: "length (b @ ?d) = 136" using 3 h by simp
    have m: "take 136 ?m = b @ ?d" "length ?m = 144"
      using take_memcpy_at [of "length b" "sha_m h" ?d] length_memcpy_at [of "length b" ?d "sha_m h"] l h by auto
    have t: "sha3_transform ?m 1 A RATE = sponge A (b @ ?d)"
      using sha3_transform_sponge [of A 1 ?m] h m by simp
    have w: "sha3_Write dat h = sha3_Write ?r ?h"
      using 3 h t by (simp add: sha3_Write_def absorb_bytes_def RATE_def Let_def)
    have "sha3_state (sponge A (b @ ?d)) [] ?h" using h m by (simp add: sha3_state_def length_sponge)
    then have "sha3_state (sponge (sponge A (b @ ?d)) ?r) (unprocessed ?r) (sha3_Write dat h)"
      unfolding w by (rule sha3_Write_empty_buffer)
    then show ?thesis
      using sponge_append [of "b @ ?d" 1 A ?r] unprocessed_append [of "b @ ?d" 1 ?r] l by simp
  qed
qed

section \<open>Finishing\<close>

lemma sha3_pad_unprocessed: "\<exists>suf. sha3_pad M = M @ suf \<and> sha3_pad (unprocessed M) = unprocessed M @ suf"
  by (simp add: sha3_pad_def length_unprocessed Let_def)

lemma length_sha3_pad_short: "length b < 136 \<Longrightarrow> length (sha3_pad b) = 136"
  by (auto simp: sha3_pad_def Let_def)

lemma sponge_pad: "sponge A (sha3_pad M) = sponge (sponge A M) (sha3_pad (unprocessed M))"
proof -
  obtain suf where "sha3_pad M = M @ suf" "sha3_pad (unprocessed M) = unprocessed M @ suf"
    using sha3_pad_unprocessed by blast
  then show ?thesis using sponge_continue [of A M suf] by simp
qed

definition pad_buffer :: "bytes \<Rightarrow> nat \<Rightarrow> bytes" where
  "pad_buffer m p =
     (let m = m[p := 0x06]; m = (if 136 \<noteq> p + 1 then memcpy_at m (p + 1) (replicate (136 - (p + 1)) 0) else m)
      in m[135 := m ! 135 OR 0x80])"

lemma length_pad_buffer: "p < 136 \<Longrightarrow> length m = 144 \<Longrightarrow> length (pad_buffer m p) = 144"
  by (simp add: pad_buffer_def memcpy_at_def Let_def)

lemma take_pad_buffer:
  assumes p: "p < 136" and m: "length m = 144" and b: "take p m = b"
  shows "take 136 (pad_buffer m p) = sha3_pad b"
proof (rule nth_equalityI)
  have l: "length b = p" using assms by auto
  show "length (take 136 (pad_buffer m p)) = length (sha3_pad b)"
    using p m l by (simp add: length_pad_buffer length_sha3_pad_short)
  fix i
  assume "i < length (take 136 (pad_buffer m p))"
  then have i: "i < 136" by simp
  have n: "j < p \<Longrightarrow> m ! j = b ! j" for j using b by auto
  show "take 136 (pad_buffer m p) ! i = sha3_pad b ! i"
  proof (cases "p = 135")
    case True
    then show ?thesis using i m l n
      by (auto simp: pad_buffer_def sha3_pad_def nth_list_update nth_append less_Suc_eq)
  next
    case False
    then have "136 - p \<noteq> 1" using p by linarith
    then show ?thesis using i m l n p False
      by (auto simp: pad_buffer_def sha3_pad_def memcpy_at_def Let_def nth_list_update nth_append nth_Cons' min_def)
  qed
qed

lemma sha3_Finalize_state:
  assumes s: "sha3_state A b h"
  shows "fst (sha3_Finalize h) = take 32 (concat (map WriteLE64 (sponge A (sha3_pad b))))"
    and "length (sha_A (snd (sha3_Finalize h))) = 25" and "length (sha_m (snd (sha3_Finalize h))) = 144"
proof -
  have h: "sha_A h = A" "length A = 25" "length (sha_m h) = 144" "sha_pos h < 136" "take (sha_pos h) (sha_m h) = b"
    using s by (auto simp: sha3_state_def)
  let ?m = "pad_buffer (sha_m h) (sha_pos h)"
  have "sha3_transform ?m 1 A RATE = sponge A (take (136 * 1) ?m)"
    using h length_pad_buffer [OF h(4) h(3)] by (intro sha3_transform_sponge) auto
  then have t: "sha3_transform ?m 1 A RATE = sponge A (sha3_pad b)"
    using take_pad_buffer [OF h(4) h(3) h(5)] by simp
  have f: "sha3_Finalize h = (take 32 (concat (map WriteLE64 (sponge A (sha3_pad b)))),
      h\<lparr>sha_m := ?m, sha_pos := sha_pos h + 1, sha_A := sponge A (sha3_pad b)\<rparr>)"
    unfolding t [symmetric] using h(1) by (simp add: sha3_Finalize_def pad_buffer_def RATE_def SHA3_OUTPUT_SIZE_def Let_def)
  show "fst (sha3_Finalize h) = take 32 (concat (map WriteLE64 (sponge A (sha3_pad b))))"
    "length (sha_A (snd (sha3_Finalize h))) = 25" "length (sha_m (snd (sha3_Finalize h))) = 144"
    using h length_pad_buffer [OF h(4) h(3)] by (simp_all add: f length_sponge)
qed

section \<open>Hashes of messages\<close>

text \<open>The state after a message \<open>M\<close> has been written to a fresh hasher.\<close>

definition sha3_written :: "bytes \<Rightarrow> CSHA3_256 \<Rightarrow> bool" where
  "sha3_written M h \<longleftrightarrow> sha3_state (sponge (replicate 25 0) M) (unprocessed M) h"

lemma sha3_new_written: "length m = 144 \<Longrightarrow> sha3_written [] (CSHA3_256_new m t)"
  by (simp add: sha3_written_def sha3_state_def CSHA3_256_new_def sponge_short unprocessed_short)

lemma sha3_Reset_written: "length (sha_A h) = 25 \<Longrightarrow> length (sha_m h) = 144 \<Longrightarrow> sha3_written [] (sha3_Reset h)"
  by (simp add: sha3_written_def sha3_state_def sha3_Reset_def sponge_short unprocessed_short map_replicate_const)

lemma sha3_Write_written: "sha3_written M h \<Longrightarrow> sha3_written (M @ dat) (sha3_Write dat h)"
  unfolding sha3_written_def sponge_continue [of _ M dat] unprocessed_continue [of M dat] by (rule sha3_Write_state)

lemma sha3_pieces_written: "sha3_written M h \<Longrightarrow> sha3_written (M @ concat ds) (fold sha3_Write ds h)"
proof (induction ds arbitrary: M h)
  case (Cons d ds)
  then show ?case using Cons.IH [OF sha3_Write_written [OF Cons.prems]] by simp
qed simp

lemma sha3_Finalize_written:
  assumes "sha3_written M h"
  shows "fst (sha3_Finalize h) = SHA3_256_spec M"
    and "length (sha_A (snd (sha3_Finalize h))) = 25" and "length (sha_m (snd (sha3_Finalize h))) = 144"
  using sha3_Finalize_state [OF assms [unfolded sha3_written_def]] 
  by (simp_all add: SHA3_256_spec_def sponge_pad [of _ M])

lemma length_SHA3_256_spec: "length (SHA3_256_spec M) = 32"
proof -
  have "length (concat (map WriteLE64 xs)) = 8 * length xs" for xs
    by (induction xs) (simp_all add: WriteLE64_def length_le_write)
  then show ?thesis by (simp add: SHA3_256_spec_def length_sponge)
qed

section \<open>The hashers of \<open>hash.h\<close>\<close>

definition CHash256_Finalize :: "CSHA3_256 \<Rightarrow> bytes" where
  "CHash256_Finalize sha =
     (let (buf, sha) = sha3_Finalize sha
      in fst (sha3_Finalize (sha3_Write buf (sha3_Reset sha))))"

text \<open>The hash of a range, of two ranges, and of what a serialization writes piece by piece.\<close>

definition Hash :: "bytes \<Rightarrow> u64 \<Rightarrow> bytes \<Rightarrow> bytes" where
  "Hash m t p = CHash256_Finalize (sha3_Write p (CSHA3_256_new m t))"

definition Hash_2 :: "bytes \<Rightarrow> u64 \<Rightarrow> bytes \<Rightarrow> bytes \<Rightarrow> bytes" where
  "Hash_2 m t p1 p2 = CHash256_Finalize (sha3_Write p2 (sha3_Write p1 (CSHA3_256_new m t)))"

definition SerializeHash :: "bytes \<Rightarrow> u64 \<Rightarrow> bytes list \<Rightarrow> bytes" where
  "SerializeHash m t pieces = CHash256_Finalize (fold sha3_Write pieces (CSHA3_256_new m t))"

definition double_sha3 :: "bytes \<Rightarrow> bytes" where "double_sha3 M = SHA3_256_spec (SHA3_256_spec M)"

lemma CHash256_Finalize_written: "sha3_written M h \<Longrightarrow> CHash256_Finalize h = double_sha3 M"
  using sha3_Finalize_written [of M h]
    sha3_Finalize_written (1) [OF sha3_Write_written [OF sha3_Reset_written [of "snd (sha3_Finalize h)"], of "SHA3_256_spec M"]]
  by (simp add: CHash256_Finalize_def double_sha3_def split_beta)

lemma SerializeHash_double: "length m = 144 \<Longrightarrow> SerializeHash m t pieces = double_sha3 (concat pieces)"
  using CHash256_Finalize_written [OF sha3_pieces_written [OF sha3_new_written, of m pieces t]]
  by (simp add: SerializeHash_def)

lemma Hash_double: "length m = 144 \<Longrightarrow> Hash m t p = double_sha3 p"
  using SerializeHash_double [of m t "[p]"] by (simp add: SerializeHash_def Hash_def)

lemma Hash_2_double: "length m = 144 \<Longrightarrow> Hash_2 m t p1 p2 = double_sha3 (p1 @ p2)"
  using SerializeHash_double [of m t "[p1, p2]"] by (simp add: SerializeHash_def Hash_2_def)

end
