(* ===== verification/Spec2Isabelle.thy ===== *)
theory Spec2Isabelle
  imports Eval_Props Connect_Examples Header_Props Versionbits Eh_Solver Disk_Examples Peer_Filter Rolling_Bloom Sha3
begin

text \<open>
  Verification development for rcoin, a node of a block chain in the Bitcoin family (\<open>src/src\<close> is the
  C++ code; file names below are relative to it).  The development models the code that decides which
  blocks and spends are valid and what they do to the set of unspent outputs.

  \<^bold>\<open>Theories.\<close>
  \<^item> \<open>Prelude\<close>: machine integers (\<open>u8\<close>, \<open>u16\<close>, \<open>u32\<close>, \<open>u64\<close>), byte strings, and the collections of rules.
  \<^item> \<open>Arith_Uint256\<close>: \<open>base_uint\<close> of \<open>arith_uint256.h\<close> as lists of 32-bit limbs, with the meaning
    \<open>bu_val\<close>; \<open>Compact\<close>: the compact form of targets.
  \<^item> \<open>Serialize\<close>: writers and readers on byte lists (\<open>serialize.h\<close>) and the locale \<open>codec\<close>, the contract
    between a writer and its reader; \<open>Transaction\<close>: \<open>primitives/\<close>, with an interpretation of the contract
    for every serialized type.
  \<^item> \<open>Chain\<close>: the tree of block index entries (\<open>chain.h\<close>, \<open>chain.cpp\<close>), a map from pointers to entries,
    and \<open>AddToBlockIndex\<close> of \<open>validation.cpp\<close>; \<open>Pow\<close>: \<open>pow.cpp\<close>.
  \<^item> \<open>Versionbits\<close>: \<open>versionbits.cpp\<close>; the states it computes through a cache are those of the state machine
    \<open>bip9\<close>, which steps through the chain from its first block.
  \<^item> \<open>Eh_Arrays\<close>, \<open>Equihash\<close>, \<open>Eh_Solver\<close>: the packing of Equihash indices, the verifier and the basic solver of
    \<open>crypto/equihash.cpp\<close>.  The verifier is shown to decide the predicate \<open>eh_solution\<close>, a recursion on the tree of
    indices, and the solver to hand out only solutions the verifier accepts.  BLAKE2b is an argument.
  \<^item> \<open>Opcodes\<close>, \<open>Script\<close>: \<open>script/script.h\<close>, \<open>script/script.cpp\<close>; \<open>Sig_Checker\<close>: signature hashes and
    checkers, with the locale \<open>checker_contract\<close>; \<open>Interpreter\<close>: \<open>EvalScript\<close>; \<open>Eval_Props\<close>: its
    invariants; \<open>Verify_Script\<close>: \<open>VerifyScript\<close> and witness programs.
  \<^item> \<open>Merkle\<close>: \<open>consensus/merkle.cpp\<close>; \<open>Coins\<close>: \<open>coins.h\<close>, \<open>coins.cpp\<close>.
  \<^item> \<open>Tx_Verify\<close>: \<open>consensus/tx_verify.cpp\<close> and the validation state of \<open>consensus/validation.h\<close>;
    \<open>Utxo_Update\<close>: \<open>UpdateCoins\<close> and \<open>DisconnectBlock\<close> of \<open>validation.cpp\<close>, on the operations of a view,
    with the locale \<open>coins_view\<close> for what a view promises and its interpretation on the cache.
  \<^item> \<open>Check_Block\<close>: \<open>CheckBlock\<close>, the checks against previous blocks and \<open>AcceptBlockHeader\<close>;
    \<open>Header_Props\<close>: what an accepted header satisfies; \<open>Connect_Block\<close>: \<open>ConnectBlock\<close> and \<open>CheckInputs\<close>;
    \<open>Connect_Props\<close>: the effect of a block on the coins, its inverse and the conservation of value;
    \<open>Chain_Tip\<close>: connecting and disconnecting at the tip, the step relation \<open>chain_run\<close> and the money supply.
  \<^item> \<open>Compressor\<close>, \<open>Undo\<close>: the compact serialization of coins (\<open>compressor.cpp\<close>) and undo data (\<open>undo.h\<close>), with
    the locale \<open>checked_codec\<close> for writers that may fail an assertion; \<open>Block_Files\<close>: the files of blocks and
    undo data (\<open>validation.cpp\<close>), the invariant \<open>store_ok\<close> and the runs \<open>store_run\<close> that keep what is stored;
    \<open>Pruning\<close>: the removal of old files; \<open>Stored_Undo\<close>: undo data from the connection of a block over the disk to
    its disconnection.
  \<^item> \<open>Partial_Merkle\<close>: \<open>CPartialMerkleTree\<close> of \<open>merkleblock.cpp\<close>, from the sender over the wire to the receiver, and
    what a tree of unknown origin proves.  Collisions are explicit there: \<open>exhibits_collision\<close> names the strings.
  \<^item> \<open>Standard\<close>: \<open>script/standard.cpp\<close>, the templates of output scripts and their destinations; \<open>Bloom\<close>,
    \<open>Rolling_Bloom\<close>: \<open>bloom.cpp\<close>; \<open>Peer_Filter\<close>: the filter messages of \<open>net_processing.cpp\<close>, the step relation
    \<open>peer_run\<close> and \<open>CMerkleBlock\<close>, up to what a peer learns from a filtered block.
  \<^item> \<open>Sha3\<close>: \<open>crypto/sha3_256.cpp\<close> and the hashes of objects in \<open>hash.h\<close>, shown to be the sponge function of FIPS 202.
    It is one hash function the arguments \<open>H\<close> of the other theories stand for.
  \<^item> \<open>Examples\<close>, \<open>Connect_Examples\<close>, \<open>Disk_Examples\<close>: concrete values; this theory: the properties.

  \<^bold>\<open>From a block to its effect.\<close>  \<open>ConnectBlock\<close> runs the checks of a block and applies its transactions to a
  cache.  \<open>Connect_Props\<close> shows that an accepted block has the effect \<open>block_effect\<close> on the set \<open>utxo\<close> the cache
  stands for, that \<open>DisconnectBlock\<close> takes it back, and that value is conserved up to the subsidy.  Two
  conditions the code does not check are hypotheses there: no input is listed twice (\<open>CheckBlock\<close> skips
  that test) and no unspent output has the identifier of a new transaction.  One more concerns
  disconnecting: no coin of height zero was spent.

  \<^bold>\<open>Conventions.\<close>  A 256-bit hash is its 32 bytes.  The hash functions are arguments, and so is the
  signature verification of Ed25519.  A result \<open>None\<close> or \<open>Abort\<close> means that the C++ code fails an assertion,
  follows an invalid pointer or throws where nothing catches; \<open>Err\<close> and \<open>Inl\<close> are the errors the code
  reports.  Stacks are listed from the top.  Unsigned integers are words of their width.  Signed ones are
  \<open>int\<close>s; the code keeps them in range.

  \<^bold>\<open>Not modelled.\<close>  Input and output, threads and locks, logging, the peer-to-peer network, the wallet, the
  graphical interface, the memory pool, the remote procedure calls, the databases and the third-party
  libraries.  The hash functions and Ed25519 are parameters, so collision resistance is nowhere assumed: the
  properties speak about hashes, not about their preimages.
\<close>

section \<open>Properties\<close>





text \<open>
  C3. Disconnecting a block that was connected, with the undo data the connection produced, is
  clean and gives back the set of unspent outputs, when no input is listed twice, no unspent
  output carries the hash of a transaction of the block, and no coin of height zero was spent.
\<close>

theorem disconnect_undoes_connect:
  assumes "ConnectBlock env args cs block False p st view = Some ((True, st'), Some (view', undo, cs'))"
    and "cache_inv view" "cs_tree cs p = Some i" "int (nHeight i) < 2 ^ 31"
    and "block_fresh (ne_H env) (int (nHeight i)) (vtx block) (utxo view)"
    and "spends_restorable (ne_H env) (int (nHeight i)) (vtx block) (utxo view)"
  shows "\<exists>view''. DisconnectBlock ops_cache (ne_H env) (cs_tree cs) block i (Some undo) view' = Some (DISCONNECT_OK, view'') \<and>
    cache_inv view'' \<and> utxo view'' = utxo view"
  using ConnectBlock_DisconnectBlock [OF assms(1) _ assms(2-6)] by simp

theorem disconnect_undoes_connect_witness:
  "\<exists>undo view' view''. DisconnectBlock ops_cache ex_hasher (cs_tree ex_chain) ex_connected ex_index (Some undo) view' = Some (DISCONNECT_OK, view'') \<and>
     utxo view'' = [ex_funding \<mapsto> Coin_of \<lparr>nValue = 5000, scriptPubKey = [0x51]\<rparr> 7 False]"
proof -
  have i: "cs_tree ex_chain 1 = Some ex_index" "nHeight ex_index = 8" "ne_H ex_node = ex_hasher"
    by (simp_all add: ex_chain_def ex_index_def ex_node_def)
  obtain cs' where "ConnectBlock ex_node ex_args ex_chain ex_connected False 1 CValidationState_init ex_funded =
      Some ((True, CValidationState_init), Some (SetBestBlock ex_view3 (109 # replicate 31 0), [[Coin_of \<lparr>nValue = 5000, scriptPubKey = [0x51]\<rparr> 7 False]], cs'))"
    using ex_connects by blast
  from disconnect_undoes_connect [OF this ex_funded_inv i(1)] ex_fresh ex_restorable show ?thesis
    by (auto simp: i ex_funded_utxo)
qed





text \<open>
  C6. Every outcome of AcceptBlockHeader keeps the invariant of the block index; when it accepts,
  the header is in the index, and unless it was known or is the genesis block it has a valid
  solution and proof of work, the required difficulty, a known parent that is not marked invalid,
  and a time after the median of its predecessors and not too far in the future.
\<close>

theorem accepted_header_passes:
  assumes "AcceptBlockHeader env failed block st cs = Some ((ok, st'), p, cs')"
    and "cs_inv cs" "hashPrevBlock block \<noteq> header_GetHash (ne_H env) block"
  shows "cs_inv cs' \<and> (if ok then (\<exists>q. p = Some q \<and> mapBlockIndex cs' (header_GetHash (ne_H env) block) = Some q) \<and>
    (header_GetHash (ne_H env) block = hashGenesisBlock (ne_params env) \<or> mapBlockIndex cs (header_GetHash (ne_H env) block) \<noteq> None \<or>
     (\<exists>q. header_passes env cs block q)) else True)"
  using AcceptBlockHeader_spec [OF assms] by simp

theorem accepted_header_passes_witness:
  "\<exists>q cs'. AcceptBlockHeader (ex_node\<lparr>ne_params := ex_params\<lparr>hashGenesisBlock := 109 # replicate 31 0\<rparr>\<rparr>) [] ex_header CValidationState_init
     \<lparr>cs_tree = (\<lambda>p. None), cs_next = 0, mapBlockIndex = (\<lambda>h. None), pindexBestHeader = None, setDirtyBlockIndex = {}\<rparr> =
       Some ((True, CValidationState_init), Some q, cs') \<and> cs_inv cs'"
proof -
  let ?env = "ex_node\<lparr>ne_params := ex_params\<lparr>hashGenesisBlock := 109 # replicate 31 0\<rparr>\<rparr>"
  let ?s = "\<lparr>cs_tree = (\<lambda>p. None), cs_next = 0, mapBlockIndex = (\<lambda>h. None), pindexBestHeader = None, setDirtyBlockIndex = {}\<rparr>"
  have h: "header_GetHash ex_hasher ex_header = 109 # replicate 31 0" by code_simp
  have inv: "cs_inv ?s" by (simp add: cs_inv_def wf_tree_def)
  have ne: "hashPrevBlock ex_header \<noteq> header_GetHash (ne_H ?env) ex_header"
  proof -
    have "hd (hashPrevBlock ex_header) \<noteq> hd (header_GetHash (ne_H ?env) ex_header)"
      by (simp add: h ex_node_def) (simp add: ex_header_def uint256_null_def hd_replicate)
    then show ?thesis by metis
  qed
  obtain q cs' where "AddToBlockIndex ex_hasher ex_header ?s = Some (q, cs')"
    by (rule AddToBlockIndex_inv [OF inv, of ex_header ex_hasher]) (use ne in \<open>simp_all add: ex_node_def\<close>)
  then have run: "AcceptBlockHeader ?env [] ex_header CValidationState_init ?s = Some ((True, CValidationState_init), Some q, cs')"
    by (simp add: AcceptBlockHeader_def h ex_node_def)
  with accepted_header_passes [OF run inv ne] show ?thesis by blast
qed

text \<open>
  C7. A block saved to the block files is read back unchanged from its position after any sequence
  of saved blocks, written undo data and flushes that truncate files: files never overlap or lose
  what they hold.
\<close>

theorem stored_blocks_stay_readable:
  assumes "store_ok d" "SaveBlockToDisk env block h None d = Some (pos, d1)" "\<not> pos_IsNull pos"
    and "length (block_bytes block) + 8 < 2 ^ 27" "length (fe_messageStart env) = 4" "valid_CBlock block"
    and "store_run H d1 d2" "\<And>x. length (H x) = 32"
    and "CheckEquihashSolution (ne_eh nenv) (ne_EquihashN nenv) (ne_EquihashK nenv) block"
      "CheckProofOfWork (header_GetHash (ne_H nenv) block) (blk_nBits block) (ne_params nenv)"
      "fe_can_open env2 False (pos_nFile pos)"
  shows "ReadBlockFromDisk env2 nenv pos (blk_files d2) = Some block"
  by (rule saved_block_stays [OF assms])

theorem stored_blocks_stay_readable_witness:
  "\<exists>d1. SaveBlockToDisk ex_files ex_connected 8 None ex_store = Some (\<lparr>pos_nFile = 0, nPos = 8\<rparr>, d1) \<and>
     ReadBlockFromDisk ex_files ex_node \<lparr>pos_nFile = 0, nPos = 8\<rparr> (blk_files (FlushBlockFile ex_files True d1)) = Some ex_connected"
proof -
  obtain d1 where s: "SaveBlockToDisk ex_files ex_connected 8 None ex_store = Some (\<lparr>pos_nFile = 0, nPos = 8\<rparr>, d1)"
    using ex_block_saved by blast
  have r: "store_run ex_hasher d1 (FlushBlockFile ex_files True d1)" by (intro store_run.flush store_run.start)
  have h: "length (ex_hasher x) = 32" for x by (simp add: ex_hasher_def)
  have b: "blk_nBits ex_connected = 0x1f07ffff" by (simp add: ex_connected_def)
  have "CheckEquihashSolution (ne_eh ex_node) (ne_EquihashN ex_node) (ne_EquihashK ex_node) ex_connected"
    "CheckProofOfWork (header_GetHash (ne_H ex_node) ex_connected) (blk_nBits ex_connected) (ne_params ex_node)"
    using ex_pow ex_ids b by (simp_all add: CheckEquihashSolution_def ex_node_def)
  from stored_blocks_stay_readable [OF ex_store_ok s _ _ _ ex_connected_valid r h this, of ex_files]
  show ?thesis using s ex_block_bytes by (simp add: pos_IsNull_def ex_files_def)
qed

text \<open>
  C8. Automatic pruning leaves every block whose height is within 288 of the tip: its index entry
  is unchanged, its file is not removed, and what the file holds is still there after the pruned
  files are deleted.
\<close>

theorem pruning_keeps_recent_blocks:
  assumes "FindFilesToPrune (Some h) nPruneTarget nPruneAfterHeight entries {} s = (S, s')"
    and "288 \<le> h" "h < 2 ^ 31" "nLastBlockFile (pr_store s) \<le> int (length (vinfoBlockFile (pr_store s)))"
    and "heights_covered s" "pr_tree s q = Some i" "nStatus i AND BLOCK_HAVE_DATA \<noteq> 0" "h < int (nHeight i) + 288"
  shows "pr_tree s' q = Some i \<and> nFile i \<notin> S \<and>
    (\<forall>u p x. stored (pr_store s) u (nFile i) p x \<longrightarrow> stored (UnlinkPrunedFiles S (pr_store s')) u (nFile i) p x)"
proof -
  let ?L = "word_of_int h - MIN_BLOCKS_TO_KEEP"
  obtain F where F: "F \<subseteq> {n \<in> set [0..<nat (nLastBlockFile (pr_store s))]. may_go ?L (vinfoBlockFile (pr_store s) ! n)}"
    "S = {} \<union> int ` F" "prunes entries F s s'"
    by (rule FindFilesToPrune_spec [OF assms(1-4)])
  have "F \<subseteq> {n. may_go ?L (vinfoBlockFile (pr_store s) ! n)}" using F(1) by blast
  moreover have "unat ?L + 288 \<le> nat h" using last_to_prune [OF assms(2,3)] assms(2) by simp
  moreover have "nat h < nHeight i + 288" using assms(8) by simp
  ultimately have k: "pr_tree s' q = Some i" "nFile i \<notin> int ` F" using prunes_may_go [OF F(3) _ _ assms(5-7)] by blast+
  then show ?thesis using unlink_stored [OF F(3)] F(2) by simp
qed

theorem pruning_keeps_recent_blocks_witness:
  "pr_tree (snd (FindFilesToPrune (Some 400) 100 200 [1] {} ex_prune)) 1 = Some ex_prune_index \<and>
   fst (FindFilesToPrune (Some 400) 100 200 [1] {} ex_prune) = {0}"
proof -
  obtain S s' where r: "FindFilesToPrune (Some 400) 100 200 [1] {} ex_prune = (S, s')" by fastforce
  have "nLastBlockFile (pr_store ex_prune) \<le> int (length (vinfoBlockFile (pr_store ex_prune)))"
    "pr_tree ex_prune 1 = Some ex_prune_index" "nStatus ex_prune_index AND BLOCK_HAVE_DATA \<noteq> 0" "(400 :: int) < int (nHeight ex_prune_index) + 288"
    by (simp_all add: ex_prune_def ex_prune_index_def BLOCK_HAVE_DATA_def)
  from pruning_keeps_recent_blocks [OF r _ _ this(1) ex_prune_covered this(2-4)] have "pr_tree s' 1 = Some ex_prune_index" by simp
  then show ?thesis using ex_prune_run r by simp
qed



text \<open>
  C10. A deployment that is active (or has failed) after a block is in the same state after every
  descendant of that block, whatever the two caches hold.
\<close>

theorem activation_is_final:
  assumes "deployment_ok T c" "BeginTime c \<noteq> ALWAYS_ACTIVE" "cache_ok T c cache" "cache_ok T c cache2"
    and "T p = Some i" "ancestor_at T p k = Some q" "s = THRESHOLD_ACTIVE \<or> s = THRESHOLD_FAILED"
    and "GetStateFor T c (Some q) cache = Some (s, cache')"
  shows "\<exists>cache3. GetStateFor T c (Some p) cache2 = Some (s, cache3)"
  using assms by (rule GetStateFor_descendant)

theorem activation_is_final_witness:
  "\<exists>cache'. GetStateFor ex_dep_tree ex_dep (Some 3) Map.empty = Some (THRESHOLD_ACTIVE, cache')"
proof -
  have e: "cache_ok ex_dep_tree ex_dep Map.empty" by (simp add: cache_ok_def)
  have b: "BeginTime ex_dep \<noteq> ALWAYS_ACTIVE" by (simp add: ex_dep_def ALWAYS_ACTIVE_def)
  obtain i where i: "ex_dep_tree 3 = Some i" "ancestor_at ex_dep_tree 3 2 = Some 2"
    by (simp add: ex_dep_tree_def ancestor_at_def CBlockIndex_SetNull_def)
  obtain j where j: "ex_dep_tree 2 = Some j" "nHeight j = 2" by (simp add: ex_dep_tree_def)
  then obtain cache' where "GetStateFor ex_dep_tree ex_dep (Some 2) Map.empty = Some (THRESHOLD_ACTIVE, cache')"
    using GetStateFor_spec [OF ex_dep_ok e j(1) b] ex_dep_bip9 by (auto simp: numeral_3_eq_3 ex_dep_def simp del: bip9.simps)
  from activation_is_final [OF ex_dep_ok b e e i _ this] show ?thesis by simp
qed

text \<open>
  C11. The check of a header's Equihash solution, which joins rows of hashes round by round, never
  fails an assertion and accepts exactly the solutions of the right length whose indices satisfy
  the tree of conditions of the generalised birthday problem, stated by recursion on the halves of
  the index list.
\<close>

theorem equihash_verifier_exact:
  assumes "eh_supported n k" "digest_ok blake"
  shows "EhIsValidSolution blake n k (blake2b_update (InitialiseState n k) input) soln \<noteq> None \<and>
    (CheckEquihashSolution (equihash_verifier blake) n k block \<longleftrightarrow>
      length (nSolution block) = SolutionWidth n k \<and>
      eh_solution (index_hash blake n k (blake2b_update (InitialiseState n k) (ser_CEquihashInput block @ ser_uint256 (nNonce block))))
        (CollisionByteLength n k) k (the (GetIndicesFromMinimal (nSolution block) (CollisionBitLength n k))))"
  using CheckEquihashSolution_spec [OF assms] IsValidSolution_spec [OF eh_supported_params [OF assms(1)] assms(2) outlen_update]
  by (simp add: EhIsValidSolution_supported [OF assms(1)])

theorem equihash_verifier_exact_witness:
  "\<exists>soln. CheckEquihashSolution (equihash_verifier ex_digest) 48 5 (ex_header\<lparr>nSolution := soln\<rparr>)"
proof -
  obtain soln where "length soln = SolutionWidth 48 5" "GetIndicesFromMinimal soln (CollisionBitLength 48 5) = Some ex_eh_indices"
    using ex_packed by blast
  moreover have "eh_supported 48 5" by (simp add: eh_supported_def)
  ultimately show ?thesis
    using equihash_verifier_exact [of 48 5 ex_digest "[]" "[]" "ex_header\<lparr>nSolution := soln\<rparr>", OF _ ex_digest_ok] ex_eh_solution
    by (intro exI [of _ soln]) simp
qed

text \<open>
  C12. The solver ends, with a result or with the exception of a cancelled run, without failing an
  assertion, and the verifier accepts every solution that the solver hands to its callback,
  however the sort function orders equal rows.
\<close>

theorem equihash_solver_sound:
  assumes "eh_supported n k" "digest_ok blake" "hs_outlen st = HashOutput n" "permutes_rows sort_rows"
  shows "\<exists>r s' log. EhBasicSolve (logged cb) sort_rows blake n k st (s, []) = Some (r, (s', log)) \<and>
    list_all (\<lambda>soln. EhIsValidSolution blake n k st soln = Some True) log"
proof -
  have "EhBasicSolve (logged cb) sort_rows blake n k st (s, []) = BasicSolve (logged cb) sort_rows blake n k st (s, [])"
    using assms(1) by (auto simp: eh_supported_def EhBasicSolve_def)
  then show ?thesis
    using BasicSolve_log [OF eh_supported_params [OF assms(1)] assms(2-4)] by (simp add: EhIsValidSolution_supported [OF assms(1)])
qed

theorem equihash_solver_sound_witness:
  "\<exists>r s' log. EhBasicSolve (logged \<lparr>validBlock = (\<lambda>soln s. (False, s)), cancelled = (\<lambda>pos s. (False, s))\<rparr>)
      (\<lambda>l. sort_key (\<lambda>x. horner 256 0 (map unat (take l x)))) ex_digest 200 9 (InitialiseState 200 9) ((), []) = Some (r, (s', log)) \<and>
    list_all (\<lambda>soln. EhIsValidSolution ex_digest 200 9 (InitialiseState 200 9) soln = Some True) log"
proof (rule equihash_solver_sound)
  show "eh_supported 200 9" by (simp add: eh_supported_def)
  show "digest_ok ex_digest" by (rule ex_digest_ok)
  show "hs_outlen (InitialiseState 200 9) = HashOutput 200" by (simp add: InitialiseState_def HashOutput_def IndicesPerHashOutput_def)
  show "permutes_rows (\<lambda>l. sort_key (\<lambda>x. horner 256 0 (map unat (take l x))))" by (simp add: permutes_rows_def)
qed

text \<open>
  C13. An accepted spend of a pay-to-script-hash output pushes, last, a script with the committed
  hash, and that script succeeds on the rest of the stack.
\<close>

theorem p2sh_spend_reveals_script:
  assumes "VerifyScript env sigScript pubKeyScript w = Ok ()" "IsPayToScriptHash pubKeyScript"
    and "has_flag env SCRIPT_VERIFY_P2SH"
  shows "\<exists>redeem st st'. IsPushOnly sigScript \<and>
    EvalScript (env\<lparr>ev_sigversion := SIGVERSION_BASE\<rparr>) [] sigScript = Ok (redeem # st) \<and>
    hf_HASH160 (ev_hash env) redeem = take 20 (drop 2 pubKeyScript) \<and>
    EvalScript (env\<lparr>ev_sigversion := SIGVERSION_BASE\<rparr>) st redeem = Ok st' \<and> st' \<noteq> [] \<and> CastToBool (hd st')"
  using assms by (rule VerifyScript_p2sh)

theorem p2sh_spend_reveals_script_witness:
  "\<exists>redeem st. EvalScript (ex_env\<lparr>ev_flags := SCRIPT_VERIFY_P2SH\<rparr>) [] [1, 0x51] = Ok (redeem # st)"
proof -
  have "VerifyScript (ex_env\<lparr>ev_flags := SCRIPT_VERIFY_P2SH\<rparr>) [1, 0x51] (0xa9 # 0x14 # replicate 20 0 @ [0x87]) None = Ok ()"
    by (rule ex_p2sh_accepted)
  then have "\<exists>redeem st st'. IsPushOnly [1, 0x51] \<and>
    EvalScript (ex_env\<lparr>ev_flags := SCRIPT_VERIFY_P2SH, ev_sigversion := SIGVERSION_BASE\<rparr>) [] [1, 0x51] = Ok (redeem # st) \<and>
    hf_HASH160 (ev_hash (ex_env\<lparr>ev_flags := SCRIPT_VERIFY_P2SH\<rparr>)) redeem = take 20 (drop 2 (0xa9 # 0x14 # replicate 20 0 @ [0x87])) \<and>
    EvalScript (ex_env\<lparr>ev_flags := SCRIPT_VERIFY_P2SH, ev_sigversion := SIGVERSION_BASE\<rparr>) st redeem = Ok st' \<and> st' \<noteq> [] \<and> CastToBool (hd st')"
    using p2sh_spend_reveals_script [of "ex_env\<lparr>ev_flags := SCRIPT_VERIFY_P2SH\<rparr>" "[1, 0x51]" "0xa9 # 0x14 # replicate 20 0 @ [0x87]" None]
    by (simp add: IsPayToScriptHash_def has_flag_def SCRIPT_VERIFY_P2SH_def nth_append)
  then show ?thesis by (auto simp: ex_env_def)
qed

text \<open>
  C14. A successful script evaluation started within the limits ends with a stack of at most 1000
  elements, none longer than 520 bytes.
\<close>

theorem eval_keeps_limits:
  assumes "EvalScript env st script = Ok st'" "hash_sizes_ok (ev_hash env)"
    and "length st \<le> MAX_STACK_SIZE" "list_all (\<lambda>x. length x \<le> MAX_SCRIPT_ELEMENT_SIZE) st"
  shows "length st' \<le> MAX_STACK_SIZE \<and> list_all (\<lambda>x. length x \<le> MAX_SCRIPT_ELEMENT_SIZE) st'"
proof -
  let ?s = "\<lparr>stack = st, altstack = [], vfExec = [], pbegincodehash = script, nOpCount = 0\<rparr>"
  obtain s where s: "eval_loop env script ?s = Ok s" "st' = stack s"
    using assms(1) by (auto simp: EvalScript_def split: if_splits)
  have "op_inv ?s" using assms(3,4) by (simp add: op_inv_def elems_ok_def list_all_iff)
  then have "op_inv s" using eval_loop_inv [OF s(1)] assms(2) by simp
  then show ?thesis using s(2) by (simp add: op_inv_def elems_ok_def list_all_iff)
qed

theorem eval_keeps_limits_witness:
  "list_all (\<lambda>x. length x \<le> MAX_SCRIPT_ELEMENT_SIZE) [[7, 7], [5 :: u8]]"
proof -
  have "EvalScript ex_env [[5]] [2, 7, 7] = Ok [[7, 7], [5]]"
    by (simp add: EvalScript_def eval_loop.simps [of _ "_ # _"] eval_loop.simps [of _ "[]"] read_operand_def
      eval_instruction_def ex_env_def fRequireMinimal_def has_flag_def disabled_opcode_def MAX_SCRIPT_SIZE_def
      MAX_SCRIPT_ELEMENT_SIZE_def MAX_STACK_SIZE_def)
  moreover have "hash_sizes_ok (ev_hash ex_env)" by (simp add: ex_env_def hash_sizes_ok_def ex_hashes_def)
  ultimately show ?thesis
    using eval_keeps_limits [of ex_env "[[5]]" "[2, 7, 7]" "[[7, 7], [5]]"]
    by (simp add: MAX_STACK_SIZE_def MAX_SCRIPT_ELEMENT_SIZE_def)
qed

text \<open>
  C15. Flushing a coin cache whose base is the set its parent stands for never throws, empties the
  cache, keeps the parent's invariant and makes the parent stand for the set of unspent outputs
  the cache stood for.
\<close>

theorem flush_writes_set:
  assumes "cache_inv p" "cache_inv c" "cv_base c = utxo p"
  shows "\<exists>p' c'. Flush p c = Inr (p', c') \<and> cache_inv p' \<and> utxo p' = utxo c \<and> cv_base p' = cv_base p \<and> cacheCoins c' = []"
  by (rule Flush_spec [OF assms]) blast

theorem flush_writes_set_witness:
  "\<exists>p' c'. Flush (CCoinsViewCache_of (\<lambda>k. None) uint256_null) (ex_child (CCoinsViewCache_of (\<lambda>k. None) uint256_null)) = Inr (p', c') \<and>
     utxo p' COutPoint_null = Some ex_coin"
proof -
  let ?p = "CCoinsViewCache_of (\<lambda>k. None) uint256_null"
  have "cache_inv ?p" by (simp add: cache_inv_def CCoinsViewCache_of_def)
  moreover have "cache_inv (ex_child ?p)" "cv_base (ex_child ?p) = utxo ?p"
    by (simp_all add: ex_child_def cache_inv_def entry_ok_def utxo_def CCoinsViewCache_of_def)
  ultimately obtain p' c' where "Flush ?p (ex_child ?p) = Inr (p', c')" "utxo p' = utxo (ex_child ?p)"
    using flush_writes_set [of ?p "ex_child ?p"] by blast
  moreover have "utxo (ex_child ?p) COutPoint_null = Some ex_coin" by (simp add: ex_child_def utxo_def ex_coin_unspent)
  ultimately show ?thesis by auto
qed

text \<open>
  C16. The constant-space Merkle computation returns the root of the level-by-level tree, and
  reports mutation exactly when two complete neighbouring subtrees are equal, for every list of at
  most 2^31 leaves.
\<close>

theorem merkle_root_correct:
  assumes "0 < length xs" "length xs \<le> 2 ^ 31"
  shows "ComputeMerkleRoot H xs = Some (merkle_root H xs, equal_pair H xs (length xs))"
  using assms by (rule ComputeMerkleRoot_spec)

theorem merkle_root_correct_witness:
  "\<exists>mutated. ComputeMerkleRoot (\<lambda>b. take 1 b) [[1], [2], [3]] = Some ([1], mutated)"
  using merkle_root_correct [of "[[1], [2], [3]]" "\<lambda>b. take 1 b"] by (simp add: merkle_root.simps)



text \<open>
  C18. A partial Merkle tree built for any choice of a block's transactions, sent and read back,
  yields the Merkle root of the block and exactly the chosen transactions with their positions,
  for every block whose tree has no two equal neighbouring subtrees.
\<close>

theorem partial_tree_roundtrip:
  assumes "0 < length v" "length v \<le> MAX_BLOCK_WEIGHT div MIN_TRANSACTION_WEIGHT" "length m = length v" "no_twins H v"
    and "\<forall>x \<in> set v. length x = 32" "\<forall>x. length (H x) = 32"
  shows "\<exists>t t' t''. CPartialMerkleTree_of H v m = Some t \<and> unser_CPartialMerkleTree (ser_CPartialMerkleTree t @ rest) = Inr (t', rest) \<and>
    ExtractMatches H t' [] = (merkle_root H v, map ((!) v) (filter ((!) m) [0..<length v]), map of_nat (filter ((!) m) [0..<length v]), t'')"
  by (rule partial_tree_sent [OF assms])

theorem partial_tree_roundtrip_witness:
  "\<exists>t t' t''. CPartialMerkleTree_of ex_hasher [replicate 32 1, replicate 32 2] [False, True] = Some t \<and>
    unser_CPartialMerkleTree (ser_CPartialMerkleTree t @ [7]) = Inr (t', [7]) \<and>
    ExtractMatches ex_hasher t' [] = (merkle_root ex_hasher [replicate 32 1, replicate 32 2], [replicate 32 2], [1], t'')"
proof -
  let ?v = "[replicate 32 1, replicate 32 2] :: uint256 list"
  have ne: "replicate 32 1 \<noteq> (replicate 32 2 :: uint256)" by code_simp
  have small: "h = 0 \<and> k = 0" if "(2 * k + 1) * 2 ^ h < (2 :: nat)" for h k
  proof -
    have "(2 * k + 1) * 1 \<le> (2 * k + 1) * 2 ^ h" by (intro mult_le_mono) simp_all
    from le_less_trans [OF this that] have k: "k = 0" by simp
    then show ?thesis using that by (cases h) simp_all
  qed
  have "no_twins ex_hasher ?v" unfolding no_twins_def
  proof (intro allI impI)
    fix h k
    assume "(2 * k + 1) * 2 ^ h < length ?v"
    then have "h = 0" "k = 0" using small [of k h] by simp_all
    then show "node ex_hasher ?v h (2 * k) \<noteq> node ex_hasher ?v h (2 * k + 1)" using ne by (simp add: node_leaf)
  qed
  from partial_tree_roundtrip [OF _ _ _ this, of "[False, True]" "[7]"] show ?thesis
    by (simp add: MAX_BLOCK_WEIGHT_def MIN_TRANSACTION_WEIGHT_def WITNESS_SCALE_FACTOR_def ex_hasher_def upt_rec)
qed

text \<open>
  C19. The filtered block that answers a peer's request is read back by the peer with the block's
  header and Merkle root, and every transaction that mentions a key its filter held is among the
  proved matches, at its position, and among the transactions sent along.
\<close>

theorem filtered_block_misses_nothing:
  assumes "peer_run env H CNode_filter p" "pfilter p = Some f"
    and "0 < length (vtx block)" "length (vtx block) \<le> MAX_BLOCK_WEIGHT div MIN_TRANSACTION_WEIGHT"
      "no_twins H (map (tx_GetHash H) (vtx block))" "valid_CBlockHeader (GetBlockHeader block)" "\<forall>x. length (H x) = 32"
    and "j < length (vtx block)" "holds f k" "mentions H (vtx block ! j) k"
  shows "\<exists>mb txs q mb' ms is t'. send_filtered_block H block p = Some (Some (mb, txs), q) \<and>
    unser_CMerkleBlock (ser_CMerkleBlock mb @ rest) = Inr (mb', rest) \<and> mb_header mb' = GetBlockHeader block \<and>
    ExtractMatches H (mb_txn mb') [] = (merkle_root H (map (tx_GetHash H) (vtx block)), ms, is, t') \<and>
    of_nat j \<in> set is \<and> tx_GetHash H (vtx block ! j) \<in> set ms \<and> vtx block ! j \<in> set txs"
  using filtered_block_complete [OF peer_run_ok [OF assms(1) CNode_filter_ok] assms(2-7), of rest] assms(8-10) by blast

theorem filtered_block_misses_nothing_witness:
  "\<exists>mb txs q mb' ms is t'. send_filtered_block ex_hasher ex_connected CNode_filter = Some (Some (mb, txs), q) \<and>
    unser_CMerkleBlock (ser_CMerkleBlock mb @ []) = Inr (mb', []) \<and> mb_header mb' = GetBlockHeader ex_connected \<and>
    ExtractMatches ex_hasher (mb_txn mb') [] = (merkle_root ex_hasher (map (tx_GetHash ex_hasher) (vtx ex_connected)), ms, is, t') \<and>
    (1 :: u32) \<in> set is \<and> tx_GetHash ex_hasher ex_spend \<in> set ms \<and> ex_spend \<in> set txs"
proof -
  have v: "vtx ex_connected = [ex_coinbase, ex_spend]" by (simp add: ex_connected_def)
  have s: "0 < length (vtx ex_connected)" "length (vtx ex_connected) \<le> MAX_BLOCK_WEIGHT div MIN_TRANSACTION_WEIGHT" "1 < length (vtx ex_connected)"
    by (simp_all add: v MAX_BLOCK_WEIGHT_def MIN_TRANSACTION_WEIGHT_def WITNESS_SCALE_FACTOR_def)
  have small: "h = 0 \<and> k = 0" if "(2 * k + 1) * 2 ^ h < (2 :: nat)" for h k
  proof -
    have "(2 * k + 1) * 1 \<le> (2 * k + 1) * 2 ^ h" by (intro mult_le_mono) simp_all
    from le_less_trans [OF this that] have k: "k = 0" by simp
    then show ?thesis using that by (cases h) simp_all
  qed
  have n: "no_twins ex_hasher (map (tx_GetHash ex_hasher) (vtx ex_connected))" unfolding no_twins_def
  proof (intro allI impI)
    fix h k
    assume "(2 * k + 1) * 2 ^ h < length (map (tx_GetHash ex_hasher) (vtx ex_connected))"
    then have "h = 0" "k = 0" using small [of k h] by (simp_all add: v)
    then show "node ex_hasher (map (tx_GetHash ex_hasher) (vtx ex_connected)) h (2 * k) \<noteq>
        node ex_hasher (map (tx_GetHash ex_hasher) (vtx ex_connected)) h (2 * k + 1)"
      by (simp add: v node_leaf ex_ids)
  qed
  have h: "valid_CBlockHeader (GetBlockHeader ex_connected)" using ex_connected_valid by (simp add: valid_CBlock_def valid_CBlockHeader_def GetBlockHeader_def)
  have f: "pfilter CNode_filter = Some CBloomFilter_default" by (simp add: CNode_filter_def)
  have m: "holds CBloomFilter_default (tx_GetHash ex_hasher ex_spend)" "mentions ex_hasher (vtx ex_connected ! 1) (tx_GetHash ex_hasher ex_spend)"
    by (simp_all add: holds_def CBloomFilter_default_def mentions_def v)
  have l: "\<forall>x. length (ex_hasher x) = 32" by (simp add: ex_hasher_def)
  from filtered_block_misses_nothing [OF peer_run.start f s(1,2) n h l s(3) m, where rest = "[]"] show ?thesis by (simp add: v)
qed

text \<open>
  C20. Whatever filter messages a peer has sent, handling its next message, matching a transaction
  and building a filtered block never divide by zero and never fail an assertion.
\<close>

theorem peer_filter_never_crashes:
  assumes "peer_run env H CNode_filter p" "0 < length (vtx block)" "length (vtx block) < 2 ^ 31"
  shows "ProcessMessage_filter env m p \<noteq> None \<and> filter_passes H tx p \<noteq> None \<and> send_filtered_block H block p \<noteq> None"
proof -
  have ok: "peer_ok p" using peer_run_ok [OF assms(1) CNode_filter_ok] .
  obtain a b c where "ProcessMessage_filter env m p = Some a" "filter_passes H tx p = Some b" "send_filtered_block H block p = Some c"
    using ProcessMessage_filter_ok [OF ok, of env m] filter_passes_ok [OF ok, of H tx] send_filtered_block_answers [OF ok assms(2,3), of H] by blast
  then show ?thesis by simp
qed

theorem peer_filter_never_crashes_witness:
  "\<exists>p. ProcessMessage_filter \<lparr>node_bloom = True, peer_nVersion = 70015, banscore = 100\<rparr> (FILTERLOAD (ser_CBloomFilter (CBloomFilter_default\<lparr>bf_nHashFuncs := 9, bf_nFlags := 1\<rparr>))) CNode_filter = Some (Inr p) \<and>
     map_option bf_vData (pfilter p) = Some [] \<and>
     ProcessMessage_filter \<lparr>node_bloom = True, peer_nVersion = 70015, banscore = 100\<rparr> (FILTERADD [1, 5]) p \<noteq> None"
proof -
  let ?env = "\<lparr>node_bloom = True, peer_nVersion = 70015, banscore = 100\<rparr>"
  let ?f = "\<lparr>bf_vData = [], bf_isFull = True, bf_isEmpty = True, bf_nHashFuncs = 9, bf_nTweak = 0, bf_nFlags = 1\<rparr>"
  let ?p = "CNode_filter\<lparr>pfilter := Some ?f, fRelayTxes := True\<rparr>"
  have "unser_CBloomFilter (ser_CBloomFilter (CBloomFilter_default\<lparr>bf_nHashFuncs := 9, bf_nFlags := 1\<rparr>) @ []) =
      Inr (CBloomFilter_default\<lparr>bf_nHashFuncs := 9, bf_nFlags := 1\<rparr>, [])"
    by (rule unser_ser_CBloomFilter) (simp_all add: CBloomFilter_default_def)
  then have load: "ProcessMessage_filter ?env (FILTERLOAD (ser_CBloomFilter (CBloomFilter_default\<lparr>bf_nHashFuncs := 9, bf_nFlags := 1\<rparr>))) CNode_filter = Some (Inr ?p)"
    by (simp add: handle_filterload_def IsWithinSizeConstraints_def MAX_HASH_FUNCS_def UpdateEmptyFull_def CBloomFilter_default_def)
  have "peer_run ?env ex_hasher CNode_filter ?p" by (rule peer_run.message [OF peer_run.start load])
  moreover have "0 < length (vtx ex_connected)" "length (vtx ex_connected) < 2 ^ 31" by (simp_all add: ex_connected_def)
  ultimately have "ProcessMessage_filter ?env (FILTERADD [1, 5]) ?p \<noteq> None" by (rule peer_filter_never_crashes [THEN conjunct1])
  with load show ?thesis by (intro exI [of _ ?p]) simp
qed

text \<open>
  C21. A key inserted into a Bloom filter is never missed: after any further insertions and
  matched transactions, a transaction that mentions the key (as its identifier, as data of a
  script, or as an outpoint it spends) is relevant.
\<close>

theorem bloom_no_false_negatives:
  assumes "filter_ok f" "bloom_insert f vKey = Some f1" "filter_run H f1 f2" "mentions H tx vKey"
  shows "\<exists>f3. IsRelevantAndUpdate H tx f2 = Some (True, f3)"
  by (rule inserted_key_is_found [OF assms])

theorem bloom_no_false_negatives_witness:
  "\<exists>f1 f2 f3. bloom_insert (bloom_clear \<lparr>bf_vData = [0, 0], bf_isFull = False, bf_isEmpty = True, bf_nHashFuncs = 3, bf_nTweak = 5, bf_nFlags = 1\<rparr>)
       (tx_GetHash ex_hasher ex_spend) = Some f1 \<and>
     bloom_insert f1 [7] = Some f2 \<and> IsRelevantAndUpdate ex_hasher ex_spend f2 = Some (True, f3)"
proof -
  let ?f = "bloom_clear \<lparr>bf_vData = [0, 0], bf_isFull = False, bf_isEmpty = True, bf_nHashFuncs = 3, bf_nTweak = 5, bf_nFlags = 1\<rparr>"
  let ?k = "tx_GetHash ex_hasher ex_spend"
  have ok: "filter_ok ?f" by (simp add: filter_ok_def bloom_clear_def)
  obtain f1 where f1: "bloom_insert ?f ?k = Some f1" "grown ?f f1" using bloom_insert_spec [OF ok] by blast
  obtain f2 where f2: "bloom_insert f1 [7] = Some f2" using bloom_insert_spec [OF grown_ok [OF f1(2) ok]] by blast
  have "filter_run ex_hasher f1 f2" using filter_run.insert [OF filter_run.start f2] .
  from bloom_no_false_negatives [OF ok f1(1) this, of ex_spend] f1(1) f2 show ?thesis by (auto simp: mentions_def)
qed

text \<open>
  C22. A rolling Bloom filter made for a number of elements contains, after any insertions, at
  least that many of the keys inserted last.
\<close>

theorem rolling_filter_remembers:
  assumes "f0 = CRollingBloomFilter_of nElements optimal filterBits rand" "rb_data f0 \<noteq> []"
    and "0 < unat nElements" "unat nElements + 1 < 2 ^ 32" "i < length ks" "length ks \<le> i + unat nElements"
  shows "\<exists>f. rb_inserts f0 ks = Some f \<and> rb_contains f (ks ! i) = Some True"
  using rolling_filter_keeps_recent [OF assms(1-4), of ks] assms(5,6) by blast

theorem rolling_filter_remembers_witness:
  "\<exists>f. rb_inserts (CRollingBloomFilter_of 3 4 (\<lambda>_ _. 100) 9) [[1], [2], [3], [4], [5], [6], [7]] = Some f \<and>
     rb_contains f [5] = Some True"
proof -
  let ?f0 = "CRollingBloomFilter_of 3 4 (\<lambda>_ _. 100) 9"
  have "rb_data ?f0 \<noteq> []" by code_simp
  from rolling_filter_remembers [OF refl this, of 4 "[[1], [2], [3], [4], [5], [6], [7]]"] show ?thesis by simp
qed

text \<open>
  C23. The script made for a destination is recognised as paying to it, and no other script pays
  to the same script hash or witness program.
\<close>

theorem destination_roundtrip:
  assumes "valid_dest d"
  shows "\<exists>s. GetScriptForDestination d = Some s \<and> ExtractDestination Hash160 s a = Some (True, d) \<and>
    ((\<forall>h. d \<noteq> CKeyID h) \<longrightarrow> (\<forall>s' a'. ExtractDestination Hash160 s' a' = Some (True, d) \<longrightarrow> s' = s))"
proof -
  obtain s where s: "GetScriptForDestination d = Some s" "ExtractDestination Hash160 s a = Some (True, d)"
    using ExtractDestination_GetScript [OF assms] by blast
  then show ?thesis using ExtractDestination_unique [of Hash160 _ _ d] by (intro exI [of _ s]) auto
qed

theorem destination_roundtrip_witness:
  "\<exists>s. GetScriptForDestination (WitnessUnknown 3 [1, 2, 3]) = Some s \<and>
     ExtractDestination (\<lambda>_. []) s CNoDestination = Some (True, WitnessUnknown 3 [1, 2, 3]) \<and> s = [0x53, 3, 1, 2, 3]"
proof -
  have "valid_dest (WitnessUnknown 3 [1, 2, 3])" by (simp add: valid_dest_def)
  from destination_roundtrip [OF this, of "\<lambda>_. []" CNoDestination] obtain s where
    "GetScriptForDestination (WitnessUnknown 3 [1, 2, 3]) = Some s"
    "ExtractDestination (\<lambda>_. []) s CNoDestination = Some (True, WitnessUnknown 3 [1, 2, 3])" by blast
  moreover have "GetScriptForDestination (WitnessUnknown 3 [1, 2, 3]) = Some [0x53, 3, 1, 2, 3]" by code_simp
  ultimately show ?thesis by simp
qed

text \<open>
  C24. The unrolled SHA3-256, its message written in any pieces, computes the sponge of FIPS 202
  (with the standard's own offsets and constants) on the whole padded message; the hash of
  serialized objects is that function twice. The first contents of the uninitialised buffer do not
  matter.
\<close>

theorem sha3_is_standard:
  assumes "length m = 144"
  shows "fst (sha3_Finalize (fold sha3_Write pieces (CSHA3_256_new m t))) = SHA3_256_spec (concat pieces) \<and>
     SerializeHash m t pieces = SHA3_256_spec (SHA3_256_spec (concat pieces)) \<and> length (SerializeHash m t pieces) = 32"
  using sha3_Finalize_written (1) [OF sha3_pieces_written [OF sha3_new_written [OF assms]], of pieces t]
    SerializeHash_double [OF assms, of t pieces]
  by (simp add: double_sha3_def length_SHA3_256_spec)

theorem sha3_is_standard_witness:
  "fst (sha3_Finalize (fold sha3_Write [[1, 2], replicate 200 3, []] (CSHA3_256_new (replicate 144 0xCD) 5))) =
     SHA3_256_spec ([1, 2] @ replicate 200 3) \<and>
   SerializeHash (replicate 144 0xCD) 5 [[1], [2]] = SHA3_256_spec (SHA3_256_spec [1, 2])"
  using sha3_is_standard [of "replicate 144 0xCD" "[[1, 2], replicate 200 3, []]" 5]
    sha3_is_standard [of "replicate 144 0xCD" "[[1], [2]]" 5] by simp

text \<open>
  C25. CheckTxInputs on a checked transaction never fails an assertion, changes no coin, and
  accepts exactly when every input is an unspent coin in range that is no immature coinbase and
  the inputs cover the outputs; the fee is the difference.
\<close>

theorem inputs_check_exact:
  assumes "cache_inv view" "\<not> IsCoinBase tx" "fst (CheckTransaction tx dup st0)"
  shows "\<exists>r fee view'. CheckTxInputs tx st view h 0 = Some (r, fee, view') \<and> cache_inv view' \<and> utxo view' = utxo view \<and>
    (fst r \<longleftrightarrow> list_all (spendable h (utxo view)) (vin tx) \<and> in_value (utxo view) (vin tx) \<le> MAX_MONEY \<and>
       sum_list (map nValue (vout tx)) \<le> in_value (utxo view) (vin tx)) \<and>
    (if fst r then fee = in_value (utxo view) (vin tx) - sum_list (map nValue (vout tx)) else True)"
proof -
  note out = GetValueOut_checked [OF assms(3)]
  from CheckTxInputs_spec [OF assms(1,2) out, of st h 0] obtain r fee c' where
    "CheckTxInputs tx st view h 0 = Some (r, fee, c')" "same_view view c'"
    "fst r \<longleftrightarrow> list_all (spendable h (utxo view)) (vin tx) \<and> sum_list (map nValue (vout tx)) \<le> in_value (utxo view) (vin tx) \<and>
      in_value (utxo view) (vin tx) \<le> MAX_MONEY"
    "fst r \<longrightarrow> fee = in_value (utxo view) (vin tx) - sum_list (map nValue (vout tx))"
    unfolding list_all_iff by blast
  then show ?thesis by (intro exI [of _ r] exI [of _ fee] exI [of _ c']) (auto simp only: same_view_def split: if_splits)
qed

theorem inputs_check_exact_witness:
  "\<exists>r fee view'. CheckTxInputs ex_spend CValidationState_init ex_funded 8 0 = Some (r, fee, view') \<and> fst r \<and> fee = 1000"
proof -
  have "fst (CheckTransaction ex_spend False CValidationState_init)" by (simp add: ex_txs_checked)
  from inputs_check_exact [OF ex_funded_inv ex_coinbases(2) this, of CValidationState_init 8]
  obtain r fee view' where r: "CheckTxInputs ex_spend CValidationState_init ex_funded 8 0 = Some (r, fee, view')"
    "fst r \<longleftrightarrow> list_all (spendable 8 (utxo ex_funded)) (vin ex_spend) \<and> in_value (utxo ex_funded) (vin ex_spend) \<le> MAX_MONEY \<and>
       sum_list (map nValue (vout ex_spend)) \<le> in_value (utxo ex_funded) (vin ex_spend)"
    "if fst r then fee = in_value (utxo ex_funded) (vin ex_spend) - sum_list (map nValue (vout ex_spend)) else True" by blast
  moreover have "list_all (spendable 8 (utxo ex_funded)) (vin ex_spend)"
    by (simp add: ex_spend_def ex_funded_utxo spendable_def Coin_of_def MoneyRange_def MAX_MONEY_def COIN_def)
  moreover have "in_value (utxo ex_funded) (vin ex_spend) = 5000" by (simp add: ex_spend_def ex_funded_utxo in_value_def Coin_of_def)
  moreover have "sum_list (map nValue (vout ex_spend)) = 4000" by (simp add: ex_spend_def)
  ultimately show ?thesis by (auto simp: MAX_MONEY_def COIN_def)
qed

text \<open>
  C26. Since CheckBlock skips the test for inputs listed twice, a block with a transaction that
  spends a confirmed coin twice is accepted, and the value of the unspent outputs grows by more
  than the subsidy.
\<close>

theorem duplicate_input_inflates:
  "\<exists>view' undo cs'. ConnectBlock ex_node ex_args ex_chain ex_inflating False 1 st ex_funded = Some ((True, st), Some (view', undo, cs')) \<and>
     total_value (utxo ex_funded) + GetBlockSubsidy 8 ex_params < total_value (utxo view') \<and>
     \<not> distinct (map prevout (vin (vtx ex_inflating ! 1)))"
proof -
  have "GetBlockSubsidy 8 ex_params = 500000000"
    by (simp add: GetBlockSubsidy_def ex_params_def INITIAL_SUBSIDY_def COIN_def)
  moreover have "vtx ex_inflating ! 1 = ex_double" by (simp add: ex_inflating_def)
  ultimately show ?thesis
    using ex_inflating_connects [of st] ex_inflated by (auto simp: ex_double_vin)
qed

text \<open>
  C27. Undoing the spend of a coin created in the first block fails when the transaction has no
  other unspent output, because the undo record with height zero is taken for one without
  metadata.
\<close>

theorem genesis_spend_cannot_be_undone:
  assumes "cache_inv view" "\<forall>k. utxo view \<lparr>op_hash = txid, op_n = k\<rparr> = None"
  shows "\<exists>view'. ApplyTxInUndo ops_cache (Coin_of out 0 True) view \<lparr>op_hash = txid, op_n = n\<rparr> = Some (DISCONNECT_FAILED, view')"
proof -
  have "cache_over (cv_base view) view" using assms(1) by (simp add: cache_over_def)
  from cache.ApplyTxInUndo_height_0 [OF this, of "Coin_of out 0 True" "\<lparr>op_hash = txid, op_n = n\<rparr>"] assms(2) show ?thesis
    by (simp add: Coin_of_def)
qed

theorem genesis_spend_cannot_be_undone_witness:
  "\<exists>view'. ApplyTxInUndo ops_cache (Coin_of \<lparr>nValue = GENESIS_MONEY, scriptPubKey = [0x51]\<rparr> 0 True) ex_empty \<lparr>op_hash = uint256_null, op_n = 0\<rparr> =
     Some (DISCONNECT_FAILED, view')"
  by (rule genesis_spend_cannot_be_undone) (simp_all add: ex_empty_def CCoinsViewCache_of_def cache_inv_def utxo_def)

text \<open>
  C28. Following skip pointers reaches the same ancestor at every height as following the previous
  pointers one by one.
\<close>

theorem ancestor_by_skips:
  assumes "wf_tree T" "T p = Some i"
  shows "GetAncestor T p h = Some (if 0 \<le> h then ancestor_at T p (nat h) else None)"
  using assms by (rule GetAncestor_spec)

theorem ancestor_by_skips_witness: "GetAncestor ex_tree 1 0 = Some (Some 0)"
  using ancestor_by_skips [OF ex_tree_wf, of 1] by (simp add: ancestor_at_def ex_tree_def)





text \<open>
  C31. A script that evaluates successfully has at most 10000 bytes, at most 201 opcodes above
  OP_16 on any path through it, executed or not, and none of the disabled opcodes.
\<close>

theorem eval_enforces_limits:
  assumes "EvalScript env st script = Ok st'"
  shows "length script \<le> MAX_SCRIPT_SIZE \<and> count_ops script \<le> MAX_OPS_PER_SCRIPT \<and>
    list_all (\<lambda>opcode. \<not> disabled_opcode opcode) (script_opcodes script)"
proof -
  let ?s = "\<lparr>stack = st, altstack = [], vfExec = [], pbegincodehash = script, nOpCount = 0\<rparr>"
  obtain s where s: "eval_loop env script ?s = Ok s" "length script \<le> MAX_SCRIPT_SIZE"
    using assms by (auto simp: EvalScript_def split: if_splits)
  then show ?thesis using eval_loop_count [OF s(1)] eval_loop_not_disabled [OF s(1)] by (auto simp: list_all_iff)
qed

theorem eval_enforces_limits_witness:
  "count_ops [OP_NOP, OP_NOP] \<le> MAX_OPS_PER_SCRIPT \<and> list_all (\<lambda>opcode. \<not> disabled_opcode opcode) [OP_NOP, OP_NOP]"
proof -
  have "EvalScript ex_env [] [OP_NOP, OP_NOP] = Ok []"
    by (simp add: EvalScript_def eval_loop.simps [of _ "_ # _"] eval_loop.simps [of _ "[]"] eval_switch_def
      eval_instruction_def disabled_opcode_def MAX_SCRIPT_SIZE_def MAX_SCRIPT_ELEMENT_SIZE_def MAX_STACK_SIZE_def MAX_OPS_PER_SCRIPT_def)
  from eval_enforces_limits [OF this] show ?thesis by (simp add: script_opcodes.simps)
qed

text \<open>
  C32. Adding a coin under an unused outpoint extends the set of unspent outputs by it; spending
  it hands back the same coin and restores the set, and both keep the cache's invariant.
\<close>

theorem add_then_spend:
  assumes "cache_inv c" "utxo c k = None" "\<not> IsSpent coin" "\<not> IsUnspendable (scriptPubKey (coin_out coin))"
  shows "\<exists>c1 c2. AddCoin c k coin False = Inr c1 \<and> cache_inv c1 \<and> utxo c1 = (utxo c)(k \<mapsto> coin) \<and>
    SpendCoin c1 k = (True, coin, c2) \<and> cache_inv c2 \<and> utxo c2 = utxo c"
proof -
  obtain c1 where c1: "AddCoin c k coin False = Inr c1" "cache_inv c1" "utxo c1 = (utxo c)(k \<mapsto> coin)"
    using AddCoin_spec [OF assms(1,3), of False k] assms(2,4) by auto
  obtain b v c2 where run: "SpendCoin c1 k = (b, v, c2)" by (metis prod_cases3)
  show ?thesis
    using c1 run SpendCoin_spec [OF c1(2) run] assms(2) by (auto simp: fun_upd_idem)
qed

theorem add_then_spend_witness:
  "\<exists>c1 c2. AddCoin (CCoinsViewCache_of (\<lambda>k. None) uint256_null) COutPoint_null ex_coin False = Inr c1 \<and>
     SpendCoin c1 COutPoint_null = (True, ex_coin, c2) \<and> utxo c2 COutPoint_null = None"
proof -
  let ?c = "CCoinsViewCache_of (\<lambda>k. None) uint256_null"
  have "cache_inv ?c" "utxo ?c COutPoint_null = None" by (simp_all add: cache_inv_def utxo_def CCoinsViewCache_of_def)
  then obtain c1 c2 where "AddCoin ?c COutPoint_null ex_coin False = Inr c1"
    "SpendCoin c1 COutPoint_null = (True, ex_coin, c2)" "utxo c2 = utxo ?c"
    using add_then_spend [of ?c COutPoint_null ex_coin] ex_coin_unspent ex_coin_spendable by blast
  then show ?thesis using \<open>utxo ?c COutPoint_null = None\<close> by auto
qed

text \<open>
  C33. An accepted solution holds the full number of indices, all different, and the exclusive or
  of their hashes is zero in every bit.
\<close>

theorem equihash_solution_solves_birthday:
  assumes "eh_supported n k" "digest_ok blake" "CheckEquihashSolution (equihash_verifier blake) n k block"
  shows "\<exists>is. GetIndicesFromMinimal (nSolution block) (CollisionBitLength n k) = Some is \<and> length is = 2 ^ k \<and> distinct is \<and>
    xors (HashLength n k) (index_hash blake n k (blake2b_update (InitialiseState n k) (ser_CEquihashInput block @ ser_uint256 (nNonce block)))) is =
      replicate (HashLength n k) 0"
  using assms by (rule accepted_solution)

theorem equihash_solution_solves_birthday_witness:
  "\<exists>soln. \<exists>is. GetIndicesFromMinimal soln 8 = Some is \<and> length is = 32 \<and> distinct is"
proof -
  obtain soln where soln: "length soln = SolutionWidth 48 5" "GetIndicesFromMinimal soln (CollisionBitLength 48 5) = Some ex_eh_indices"
    using ex_packed by blast
  have s: "eh_supported 48 5" by (simp add: eh_supported_def)
  then have "CheckEquihashSolution (equihash_verifier ex_digest) 48 5 (ex_header\<lparr>nSolution := soln\<rparr>)"
    using CheckEquihashSolution_spec [OF s ex_digest_ok, of "ex_header\<lparr>nSolution := soln\<rparr>"] soln ex_eh_solution by simp
  from equihash_solution_solves_birthday [OF s ex_digest_ok this] show ?thesis by (auto simp: CollisionBitLength_def)
qed

text \<open>
  C34. CheckTransaction accepts exactly the transactions with inputs and outputs, within the size
  limit, with non-negative output values that add up to at most MAX_MONEY (no partial sum
  overflows), without repeated inputs where that is asked for, and with a coinbase script of the
  right length or no null input.
\<close>

theorem transaction_check_exact:
  "fst (CheckTransaction tx dup st) \<longleftrightarrow>
     vin tx \<noteq> [] \<and> vout tx \<noteq> [] \<and> length (SerializeTransaction False tx) * 4 \<le> MAX_BLOCK_WEIGHT \<and>
     list_all (\<lambda>out. 0 \<le> nValue out) (vout tx) \<and> sum_list (map nValue (vout tx)) \<le> MAX_MONEY \<and>
     (if dup then distinct (map prevout (vin tx)) else True) \<and>
     (if IsCoinBase tx then 2 \<le> length (scriptSig (vin tx ! 0)) \<and> length (scriptSig (vin tx ! 0)) \<le> 100
      else list_all (\<lambda>txin. \<not> COutPoint_IsNull (prevout txin)) (vin tx))"
  using CheckTransaction_iff [of tx dup st] by (simp add: list_all_iff)

text \<open>
  C35. For a transaction of version 2 or higher, SequenceLocks holds exactly when every input's
  relative lock (in blocks after its coin, or in units of 512 seconds after the block before its
  coin) is over in the given block.
\<close>

theorem relative_locks_exact:
  assumes "SequenceLocks T tx LOCKTIME_VERIFY_SEQUENCE hs block = Some (ok, hs')" "(word_of_int (tx_nVersion tx) :: u32) \<ge> 2"
    and "T block = Some i" "pprev i = Some q" "GetMedianTimePast T q = Some B" "0 \<le> B"
  shows "ok \<longleftrightarrow> list_all (unlocked T block (int (nHeight i)) B) (zip (vin tx) hs)"
  using assms by (rule SequenceLocks_spec)

theorem relative_locks_exact_witness:
  "SequenceLocks (cs_tree ex_chain) (ex_spend\<lparr>tx_nVersion := 2\<rparr>) LOCKTIME_VERIFY_SEQUENCE [7] 1 = Some (True, [7])"
proof -
  have T: "cs_tree ex_chain 1 = Some ex_index" "pprev ex_index = Some 0" "nHeight ex_index = 8" by (simp_all add: ex_chain_def ex_index_def)
  have m: "GetMedianTimePast (cs_tree ex_chain) 0 = Some 1"
    by (simp add: GetMedianTimePast_def nMedianTimeSpan_def ex_chain_def CBlockIndex_SetNull_def numeral_eq_Suc)
  have v: "vin (ex_spend\<lparr>tx_nVersion := 2\<rparr>) = [\<lparr>prevout = ex_funding, scriptSig = [], nSequence = 0, scriptWitness = []\<rparr>]"
    by (simp add: ex_spend_def)
  have "\<exists>ok. SequenceLocks (cs_tree ex_chain) (ex_spend\<lparr>tx_nVersion := 2\<rparr>) LOCKTIME_VERIFY_SEQUENCE [7] 1 = Some (ok, [7])"
    using T m by (auto simp: SequenceLocks_def CalculateSequenceLocks_def EvaluateSequenceLocks_def v LOCKTIME_VERIFY_SEQUENCE_def)
  then obtain ok where ok: "SequenceLocks (cs_tree ex_chain) (ex_spend\<lparr>tx_nVersion := 2\<rparr>) LOCKTIME_VERIFY_SEQUENCE [7] 1 = Some (ok, [7])"
    by blast
  from relative_locks_exact [OF this _ T(1,2) m] have ok
    by (simp add: v T)
  with ok show ?thesis by simp
qed

text \<open>
  C36. The compact serialization of an unspent output does not fail an assertion and is read back
  exactly, whatever follows it and whatever the object read into held, for amounts below 2^59,
  scripts of at most 10000 bytes and heights below 2^30.
\<close>

theorem coin_roundtrip:
  assumes "valid_coin c" "\<not> IsSpent c"
  shows "\<exists>b. ser_Coin c = Some b \<and> (\<forall>rest c0. unser_Coin c0 (b @ rest) = Inr (c, rest))"
proof -
  obtain b where "ser_Coin c = Some b" using coin_codec.written assms by blast
  then show ?thesis using coin_codec.written_read assms by blast
qed

theorem coin_roundtrip_witness:
  "\<exists>b. ser_Coin ex_spent = Some b \<and> unser_Coin coinEmpty b = Inr (ex_spent, [])"
proof -
  have "valid_coin ex_spent" "\<not> IsSpent ex_spent"
    using ex_spent_code by (simp_all add: valid_coin_def valid_compressed_def ex_spent_def Coin_of_def MAX_SCRIPT_SIZE_def IsSpent_def CTxOut_IsNull_def)
  from coin_roundtrip [OF this] obtain b where "ser_Coin ex_spent = Some b" "\<forall>rest c0. unser_Coin c0 (b @ rest) = Inr (ex_spent, rest)" by blast
  then show ?thesis by (metis append_Nil2)
qed

text \<open>
  C37. A valid transaction, with or without witnesses, is read back from its extended
  serialization, whatever bytes follow.
\<close>

theorem transaction_roundtrip:
  assumes "valid_CTransaction tx"
  shows "UnserializeTransaction True (SerializeTransaction True tx @ rest) = Inr (tx, rest)"
  using assms by (rule tx_codec.unser_ser)

theorem transaction_roundtrip_witness: "UnserializeTransaction True (SerializeTransaction True ex_tx @ [9]) = Inr (ex_tx, [9])"
  by (rule transaction_roundtrip) (rule ex_tx_valid)

text \<open>
  C38. With a checker that answers and a consistent set of flags VerifyScript never fails an
  assertion; in particular the stack of a pay-to-script-hash spend is never empty where the code
  asserts so.
\<close>

theorem verify_answers:
  assumes "total_checker (ev_checker env)" "flags_ok env"
  shows "VerifyScript env sigScript pubKeyScript w \<noteq> Abort"
  using assms by (rule VerifyScript_defined)

theorem verify_answers_witness: "VerifyScript ex_env [] (0xa9 # 0x14 # replicate 20 0 @ [0x87]) None \<noteq> Abort"
  by (rule verify_answers) (simp_all add: ex_env_def total_checker_def BaseSignatureChecker_def flags_ok_def has_flag_def)

text \<open>
  C39. A version 0 witness program of 20 bytes accepts a signature and a key exactly when the key
  has that hash, both are encoded as the flags demand, and the checker accepts the signature for
  the implied script.
\<close>

theorem p2wpkh_runs:
  assumes "length program = 20" "length (hf_HASH160 (ev_hash env) key) = 20"
    and "length key \<le> MAX_SCRIPT_ELEMENT_SIZE" "length sig \<le> MAX_SCRIPT_ELEMENT_SIZE"
  shows "VerifyWitnessProgram env [sig, key] 0 program = Ok () \<longleftrightarrow>
    hf_HASH160 (ev_hash env) key = program \<and>
    CheckSignatureEncoding (env\<lparr>ev_sigversion := SIGVERSION_WITNESS_V0\<rparr>) sig = Ok () \<and>
    CheckPubKeyEncoding (env\<lparr>ev_sigversion := SIGVERSION_WITNESS_V0\<rparr>) key = Ok () \<and>
    CheckSig (ev_checker env) sig key (p2pkh_script program) SIGVERSION_WITNESS_V0 = Some True"
  using assms by (rule VerifyWitnessProgram_p2wpkh)

theorem p2wpkh_runs_witness:
  "VerifyWitnessProgram ex_env [[1], [2]] 0 (replicate 20 0) \<noteq> Ok ()"
  using p2wpkh_runs [of "replicate 20 0" ex_env "[2]" "[1]"]
  by (simp add: ex_env_def ex_hashes_def MAX_SCRIPT_ELEMENT_SIZE_def BaseSignatureChecker_def)



end
